(* ===== verification/Prelude.thy ===== *)
theory Prelude
  imports Main "HOL-Library.Word" "HOL-Library.Monad_Syntax"
begin

text \<open>
  Shared vocabulary of the development: the C integer types as machine words, the error
  numbers of \<^verbatim>\<open>lib/base/include/asm-generic/base/errno-base.h\<close> and
  \<^verbatim>\<open>errno.h\<close>, the way a \<^verbatim>\<open>BUG_ON\<close> or an invalid memory access is written down
  (the value \<open>None\<close> of the option monad), and generic lemmas on options, lists and words.
\<close>

section \<open>Machine integers\<close>

type_synonym u8 = "8 word"
type_synonym u16 = "16 word"
type_synonym u32 = "32 word"
type_synonym u64 = "64 word"

section \<open>Error numbers\<close>

abbreviation (input) EPERM :: int where "EPERM \<equiv> 1"
abbreviation (input) ESRCH :: int where "ESRCH \<equiv> 3"
abbreviation (input) EIO :: int where "EIO \<equiv> 5"
abbreviation (input) ENXIO :: int where "ENXIO \<equiv> 6"
abbreviation (input) ENOMEM :: int where "ENOMEM \<equiv> 12"
abbreviation (input) EACCES :: int where "EACCES \<equiv> 13"
abbreviation (input) EFAULT :: int where "EFAULT \<equiv> 14"
abbreviation (input) EBUSY :: int where "EBUSY \<equiv> 16"
abbreviation (input) ENODEV :: int where "ENODEV \<equiv> 19"
abbreviation (input) EINVAL :: int where "EINVAL \<equiv> 22"
abbreviation (input) ERANGE :: int where "ERANGE \<equiv> 34"
abbreviation (input) ENOSYS :: int where "ENOSYS \<equiv> 38"

section \<open>Fallible code\<close>

text \<open>
  A function that may hit a \<^verbatim>\<open>BUG_ON\<close>, dereference NULL or index outside an array returns
  an option; \<open>None\<close> is that failure. \<open>bug_on c\<close> is the statement \<^verbatim>\<open>BUG_ON(c)\<close>.
\<close>

definition bug_on :: "bool \<Rightarrow> unit option" where
  "bug_on c = (if c then None else Some ())"

named_theorems run_simps \<open>what it takes for a fallible computation to return\<close>

lemma bug_on_Some [simp, run_simps]: "bug_on c = Some u \<longleftrightarrow> \<not> c"
  by (simp add: bug_on_def)

lemma bug_on_None [simp]: "bug_on c = None \<longleftrightarrow> c"
  by (simp add: bug_on_def)

lemma bug_on_bind [simp]: "Option.bind (bug_on c) f = (if c then None else f ())"
  by (simp add: bug_on_def)

lemma bind_Some_iff [run_simps]:
  "Option.bind m f = Some y \<longleftrightarrow> (\<exists>x. m = Some x \<and> f x = Some y)"
  by (cases m) auto

text \<open>A loop whose body may fail, over the elements of a list.\<close>

fun foreach :: "('a \<Rightarrow> 's \<Rightarrow> 's option) \<Rightarrow> 'a list \<Rightarrow> 's \<Rightarrow> 's option" where
  "foreach f [] s = Some s"
| "foreach f (x # xs) s = Option.bind (f x s) (foreach f xs)"

lemma foreach_append: "foreach f (xs @ ys) s = Option.bind (foreach f xs s) (foreach f ys)"
  by (induction xs arbitrary: s) (auto split: bind_splits)

section \<open>Lists\<close>

lemma sorted_wrt_mid:
  "sorted_wrt P (xs @ y # ys) \<longleftrightarrow>
     sorted_wrt P (xs @ ys) \<and> (\<forall>x\<in>set xs. P x y) \<and> (\<forall>z\<in>set ys. P y z)"
  by (auto simp: sorted_wrt_append)

lemma sorted_wrt_last:
  assumes "sorted_wrt P xs" and "x \<in> set xs"
  shows "x = last xs \<or> P x (last xs)"
  using assms
proof (induction xs rule: rev_induct)
  case (snoc y ys)
  then show ?case by (auto simp: sorted_wrt_append)
qed simp

lemma in_set_tlD: "x \<in> set (tl xs) \<Longrightarrow> x \<in> set xs"
  by (cases xs) simp_all

end
