(* ===== verification/Rbtree.thy ===== *)
theory Rbtree
  imports Prelude
begin

text \<open>
  The red-black trees of \<^verbatim>\<open>lib/base/src/rbtree.c\<close> and
  \<^verbatim>\<open>lib/base/include/base/rbree_augmented.h\<close>, which index processes by pid, address spaces by
  virtual address and page tables by page.

  A subtree is a value of \<open>rb_tree\<close>. A pointer to a node of a tree, from which the code climbs
  through \<^verbatim>\<open>rb_parent\<close>, is a position: the subtree at the node and the list of its ancestors,
  nearest first, each with its colour, its entry and its other subtree. The list ends where
  \<^verbatim>\<open>rb_parent\<close> is NULL. Storing into \<^verbatim>\<open>parent->rb_left\<close> is replacing the subtree of a position.
  The callbacks are the dummy ones that \<^verbatim>\<open>rb_insert_color\<close> and \<^verbatim>\<open>rb_erase\<close> pass.
  A dereference of NULL is \<open>None\<close>; the lemmas show that it never happens on a red-black tree.
\<close>

section \<open>Trees and positions\<close>

datatype rb_color = RB_RED | RB_BLACK

datatype 'a rb_tree = RB_NULL | RB_Node rb_color "'a rb_tree" 'a "'a rb_tree"

datatype 'a rb_link =
    RB_left rb_color 'a "'a rb_tree"   \<comment> \<open>below \<^verbatim>\<open>parent->rb_left\<close>; the parent's colour, entry, right subtree\<close>
  | RB_right rb_color "'a rb_tree" 'a  \<comment> \<open>below \<^verbatim>\<open>parent->rb_right\<close>; the parent's colour, left subtree, entry\<close>

type_synonym 'a rb_path = "'a rb_link list"

fun rb_attach :: "'a rb_tree \<Rightarrow> 'a rb_link \<Rightarrow> 'a rb_tree" where
  "rb_attach t (RB_left c a r) = RB_Node c t a r"
| "rb_attach t (RB_right c l a) = RB_Node c l a t"

fun rb_plug :: "'a rb_tree \<Rightarrow> 'a rb_path \<Rightarrow> 'a rb_tree" where
  "rb_plug t [] = t"
| "rb_plug t (k # p) = rb_plug (rb_attach t k) p"

fun rb_link_color :: "'a rb_link \<Rightarrow> rb_color" where
  "rb_link_color (RB_left c a r) = c"
| "rb_link_color (RB_right c l a) = c"

fun rb_link_black :: "'a rb_link \<Rightarrow> 'a rb_link" where
  "rb_link_black (RB_left c a r) = RB_left RB_BLACK a r"
| "rb_link_black (RB_right c l a) = RB_right RB_BLACK l a"

text \<open>\<open>tmp && rb_is_red(tmp)\<close>, and the colour stores \<open>if (tmp) rb_set_parent_color(tmp, _, color)\<close>.\<close>

fun rb_is_red :: "'a rb_tree \<Rightarrow> bool" where
  "rb_is_red (RB_Node RB_RED l a r) = True"
| "rb_is_red _ = False"

fun rb_set_color :: "rb_color \<Rightarrow> 'a rb_tree \<Rightarrow> 'a rb_tree" where
  "rb_set_color c RB_NULL = RB_NULL"
| "rb_set_color c (RB_Node d l a r) = RB_Node c l a r"

text \<open>The entries of a subtree, in order.\<close>

fun rb_inorder :: "'a rb_tree \<Rightarrow> 'a list" where
  "rb_inorder RB_NULL = []"
| "rb_inorder (RB_Node c l a r) = rb_inorder l @ a # rb_inorder r"

section \<open>Insertion\<close>

text \<open>
  The loop of \<^verbatim>\<open>__rb_insert\<close>. The node is red with children \<open>l\<close> and \<open>r\<close>; the path starts at its
  parent. The uncle is \<open>u\<close>. In case 2 the parent and the node rotate, then case 3 rotates at the
  grandparent, whose colour \<open>gc\<close> goes to the new top node (\<^verbatim>\<open>__rb_rotate_set_parents\<close>).
\<close>

fun rb_insert_core :: "'a rb_tree \<Rightarrow> 'a \<Rightarrow> 'a rb_tree \<Rightarrow> 'a rb_path \<Rightarrow> 'a rb_tree option" where
  "rb_insert_core l x r [] = Some (RB_Node RB_BLACK l x r)"
| "rb_insert_core l x r [parent] =
     (if rb_link_color parent = RB_BLACK then Some (rb_plug (RB_Node RB_RED l x r) [parent])
      else None)"
| "rb_insert_core l x r (parent # gparent # path) =
     (if rb_link_color parent = RB_BLACK
      then Some (rb_plug (RB_Node RB_RED l x r) (parent # gparent # path))
      else (case gparent of
        RB_left gc g u \<Rightarrow>
          if rb_is_red u
          then rb_insert_core (rb_attach (RB_Node RB_RED l x r) (rb_link_black parent)) g
                 (rb_set_color RB_BLACK u) path
          else (case parent of
             RB_right pc pl p \<Rightarrow>
               Some (rb_plug (RB_Node gc (RB_Node RB_RED pl p (rb_set_color RB_BLACK l)) x
                                        (RB_Node RB_RED (rb_set_color RB_BLACK r) g u)) path)
           | RB_left pc p pr \<Rightarrow>
               Some (rb_plug (RB_Node gc (RB_Node RB_RED l x r) p
                                        (RB_Node RB_RED (rb_set_color RB_BLACK pr) g u)) path))
      | RB_right gc u g \<Rightarrow>
          if rb_is_red u
          then rb_insert_core (rb_set_color RB_BLACK u) g
                 (rb_attach (RB_Node RB_RED l x r) (rb_link_black parent)) path
          else (case parent of
             RB_left pc p pr \<Rightarrow>
               Some (rb_plug (RB_Node gc (RB_Node RB_RED u g (rb_set_color RB_BLACK l)) x
                                        (RB_Node RB_RED (rb_set_color RB_BLACK r) p pr)) path)
           | RB_right pc pl p \<Rightarrow>
               Some (rb_plug (RB_Node gc (RB_Node RB_RED u g (rb_set_color RB_BLACK pl)) p
                                        (RB_Node RB_RED l x r)) path))))"

text \<open>\<^verbatim>\<open>rb_link_node\<close> followed by \<^verbatim>\<open>rb_insert_color\<close>: the new node is red and has no children.\<close>

definition rb_insert_color :: "'a \<Rightarrow> 'a rb_path \<Rightarrow> 'a rb_tree option" where
  "rb_insert_color x path = rb_insert_core RB_NULL x RB_NULL path"

section \<open>Removal\<close>

text \<open>
  Cases 2, 3 and 4 of \<^verbatim>\<open>____rb_erase_color\<close> when \<open>node\<close> is the left child of a parent with colour
  \<open>pc\<close> and entry \<open>p\<close>. The result is the finished tree (\<open>Inr\<close>), or the node and path with which
  the loop continues (\<open>Inl\<close>).
\<close>

fun rb_erase_color_left ::
    "rb_color \<Rightarrow> 'a \<Rightarrow> 'a rb_tree \<Rightarrow> 'a rb_tree \<Rightarrow> 'a rb_path \<Rightarrow>
     ('a rb_tree \<times> 'a rb_path + 'a rb_tree) option" where
  "rb_erase_color_left pc p node RB_NULL path = None"
| "rb_erase_color_left pc p node (RB_Node sc sl s sr) path =
     (if \<not> rb_is_red sr
      then (if \<not> rb_is_red sl
        then (if pc = RB_RED
              then Some (Inr (rb_plug (RB_Node RB_BLACK node p (RB_Node RB_RED sl s sr)) path))
              else (case path of
                  [] \<Rightarrow> Some (Inr (RB_Node pc node p (RB_Node RB_RED sl s sr)))
                | _ # _ \<Rightarrow> Some (Inl (RB_Node pc node p (RB_Node RB_RED sl s sr), path))))
        else (case sl of
            RB_NULL \<Rightarrow> None
          | RB_Node c2 ll t lr \<Rightarrow>
              Some (Inr (rb_plug (RB_Node pc (RB_Node RB_BLACK node p ll) t
                 (RB_Node RB_BLACK (rb_set_color RB_BLACK lr) s sr)) path))))
      else Some (Inr (rb_plug (RB_Node pc (RB_Node RB_BLACK node p sl) s
                                 (rb_set_color RB_BLACK sr)) path)))"

fun rb_erase_color_right ::
    "rb_color \<Rightarrow> 'a \<Rightarrow> 'a rb_tree \<Rightarrow> 'a rb_tree \<Rightarrow> 'a rb_path \<Rightarrow>
     ('a rb_tree \<times> 'a rb_path + 'a rb_tree) option" where
  "rb_erase_color_right pc p node RB_NULL path = None"
| "rb_erase_color_right pc p node (RB_Node sc sl s sr) path =
     (if \<not> rb_is_red sl
      then (if \<not> rb_is_red sr
        then (if pc = RB_RED
              then Some (Inr (rb_plug (RB_Node RB_BLACK (RB_Node RB_RED sl s sr) p node) path))
              else (case path of
                  [] \<Rightarrow> Some (Inr (RB_Node pc (RB_Node RB_RED sl s sr) p node))
                | _ # _ \<Rightarrow> Some (Inl (RB_Node pc (RB_Node RB_RED sl s sr) p node, path))))
        else (case sr of
            RB_NULL \<Rightarrow> None
          | RB_Node c2 rl t rr \<Rightarrow>
              Some (Inr (rb_plug (RB_Node pc
                 (RB_Node RB_BLACK sl s (rb_set_color RB_BLACK rl)) t
                 (RB_Node RB_BLACK rr p node)) path))))
      else Some (Inr (rb_plug (RB_Node pc (rb_set_color RB_BLACK sl) s
                                 (RB_Node RB_BLACK sr p node)) path)))"

text \<open>
  One round of the loop of \<^verbatim>\<open>____rb_erase_color\<close>: case 1 (a red sibling rotates above the parent,
  which turns red, and its child becomes the sibling), then cases 2 to 4.
\<close>

fun rb_erase_round :: "'a rb_tree \<Rightarrow> 'a rb_link \<Rightarrow> 'a rb_path \<Rightarrow>
     ('a rb_tree \<times> 'a rb_path + 'a rb_tree) option" where
  "rb_erase_round node (RB_left pc p (RB_Node RB_RED sl s sr)) path =
     rb_erase_color_left RB_RED p node (rb_set_color RB_BLACK sl) (RB_left pc s sr # path)"
| "rb_erase_round node (RB_left pc p sibling) path = rb_erase_color_left pc p node sibling path"
| "rb_erase_round node (RB_right pc (RB_Node RB_RED sl s sr) p) path =
     rb_erase_color_right RB_RED p node (rb_set_color RB_BLACK sr) (RB_right pc sl s # path)"
| "rb_erase_round node (RB_right pc sibling p) path = rb_erase_color_right pc p node sibling path"

lemma rb_erase_color_left_continue:
  "rb_erase_color_left pc p node s path = Some (Inl (n, path')) \<Longrightarrow>
     pc = RB_BLACK \<and> path' = path \<and> path \<noteq> [] \<and> rb_inorder n = rb_inorder node @ p # rb_inorder s"
  by (cases s; cases pc) (auto split: if_splits list.splits rb_tree.splits)

lemma rb_erase_color_right_continue:
  "rb_erase_color_right pc p node s path = Some (Inl (n, path')) \<Longrightarrow>
     pc = RB_BLACK \<and> path' = path \<and> path \<noteq> [] \<and> rb_inorder n = rb_inorder s @ p # rb_inorder node"
  by (cases s; cases pc) (auto split: if_splits list.splits rb_tree.splits)

lemma rb_erase_round_continue:
  "rb_erase_round node k path = Some (Inl (n, path')) \<Longrightarrow>
     path' = path \<and> path \<noteq> [] \<and> rb_inorder n = rb_inorder (rb_attach node k)"
  by (induction node k path rule: rb_erase_round.induct)
    (auto simp del: rb_erase_color_left.simps rb_erase_color_right.simps
      dest!: rb_erase_color_left_continue rb_erase_color_right_continue)

text \<open>
  The loop. It is called with \<open>node\<close> the empty slot and a path that starts at \<^verbatim>\<open>parent\<close>, and goes
  on (\<^verbatim>\<open>continue\<close>) one level higher.
\<close>

function rb_erase_color_core :: "'a rb_tree \<Rightarrow> 'a rb_path \<Rightarrow> 'a rb_tree option" where
  "rb_erase_color_core node [] = None"
| "rb_erase_color_core node (parent # path) =
     (case rb_erase_round node parent path of
        None \<Rightarrow> None
      | Some (Inr t) \<Rightarrow> Some t
      | Some (Inl (node', path')) \<Rightarrow> rb_erase_color_core node' path')"
  by pat_completeness auto
termination
  by (relation "measure (\<lambda>(n, p). length p)") (auto dest: rb_erase_round_continue)

text \<open>
  \<^verbatim>\<open>__rb_erase_augmented\<close>: unlink the node (colour \<open>c\<close>, subtrees \<open>l\<close> and \<open>r\<close>) found at the
  end of \<open>path\<close>. The result is the subtree that took the place of the removed or moved node, its
  path, and whether the colours must be rebalanced from \<^verbatim>\<open>parent\<close>. With two children the
  successor is looked for down the left spine of the right subtree.
\<close>

fun rb_left_spine :: "rb_color \<Rightarrow> 'a rb_tree \<Rightarrow> 'a \<Rightarrow> 'a rb_tree \<Rightarrow> 'a rb_path \<Rightarrow>
     (rb_color \<times> 'a \<times> 'a rb_tree \<times> 'a rb_path)" where
  "rb_left_spine c RB_NULL a r path = (c, a, r, path)"
| "rb_left_spine c (RB_Node c' l' a' r') a r path = rb_left_spine c' l' a' r' (RB_left c a r # path)"

fun rb_erase_augmented :: "rb_color \<Rightarrow> 'a rb_tree \<Rightarrow> 'a rb_tree \<Rightarrow> 'a rb_path \<Rightarrow>
     ('a rb_tree \<times> 'a rb_path \<times> bool)" where
  "rb_erase_augmented c RB_NULL child path =
     (case child of
        RB_NULL \<Rightarrow> (RB_NULL, path, c = RB_BLACK \<and> path \<noteq> [])
      | RB_Node _ _ _ _ \<Rightarrow> (rb_set_color c child, path, False))"
| "rb_erase_augmented c l RB_NULL path = (rb_set_color c l, path, False)"
| "rb_erase_augmented c l (RB_Node rc rl a rr) path =
     (case rb_left_spine rc rl a rr [] of
        (sc, s, child2, spine) \<Rightarrow>
          (case child2 of
             RB_NULL \<Rightarrow> (RB_NULL, spine @ RB_right c l s # path, sc = RB_BLACK)
           | RB_Node _ _ _ _ \<Rightarrow>
               (rb_set_color RB_BLACK child2, spine @ RB_right c l s # path, False)))"

text \<open>\<^verbatim>\<open>rb_erase\<close> at a position.\<close>

fun rb_erase :: "'a rb_tree \<Rightarrow> 'a rb_path \<Rightarrow> 'a rb_tree option" where
  "rb_erase RB_NULL path = None"
| "rb_erase (RB_Node c l a r) path =
     (case rb_erase_augmented c l r path of
        (t, path', rebalance) \<Rightarrow>
          if rebalance then rb_erase_color_core t path' else Some (rb_plug t path'))"

section \<open>Walking the tree\<close>

text \<open>
  \<^verbatim>\<open>rb_first\<close>, \<^verbatim>\<open>rb_last\<close>, \<^verbatim>\<open>rb_next\<close> and \<^verbatim>\<open>rb_prev\<close> return positions;
  \<open>None\<close> is the NULL they return.
\<close>

fun rb_leftmost :: "'a rb_tree \<Rightarrow> 'a rb_path \<Rightarrow> ('a rb_tree \<times> 'a rb_path) option" where
  "rb_leftmost RB_NULL path = None"
| "rb_leftmost (RB_Node c RB_NULL a r) path = Some (RB_Node c RB_NULL a r, path)"
| "rb_leftmost (RB_Node c (RB_Node c' l' a' r') a r) path =
     rb_leftmost (RB_Node c' l' a' r') (RB_left c a r # path)"

fun rb_rightmost :: "'a rb_tree \<Rightarrow> 'a rb_path \<Rightarrow> ('a rb_tree \<times> 'a rb_path) option" where
  "rb_rightmost RB_NULL path = None"
| "rb_rightmost (RB_Node c l a RB_NULL) path = Some (RB_Node c l a RB_NULL, path)"
| "rb_rightmost (RB_Node c l a (RB_Node c' l' a' r')) path =
     rb_rightmost (RB_Node c' l' a' r') (RB_right c l a # path)"

definition rb_first :: "'a rb_tree \<Rightarrow> ('a rb_tree \<times> 'a rb_path) option" where
  "rb_first root = rb_leftmost root []"

definition rb_last :: "'a rb_tree \<Rightarrow> ('a rb_tree \<times> 'a rb_path) option" where
  "rb_last root = rb_rightmost root []"

fun rb_climb_right :: "'a rb_tree \<Rightarrow> 'a rb_path \<Rightarrow> ('a rb_tree \<times> 'a rb_path) option" where
  "rb_climb_right t [] = None"
| "rb_climb_right t (RB_right c l a # path) = rb_climb_right (RB_Node c l a t) path"
| "rb_climb_right t (RB_left c a r # path) = Some (RB_Node c t a r, path)"

fun rb_climb_left :: "'a rb_tree \<Rightarrow> 'a rb_path \<Rightarrow> ('a rb_tree \<times> 'a rb_path) option" where
  "rb_climb_left t [] = None"
| "rb_climb_left t (RB_left c a r # path) = rb_climb_left (RB_Node c t a r) path"
| "rb_climb_left t (RB_right c l a # path) = Some (RB_Node c l a t, path)"

fun rb_next :: "'a rb_tree \<Rightarrow> 'a rb_path \<Rightarrow> ('a rb_tree \<times> 'a rb_path) option" where
  "rb_next RB_NULL path = None"
| "rb_next (RB_Node c l a RB_NULL) path = rb_climb_right (RB_Node c l a RB_NULL) path"
| "rb_next (RB_Node c l a (RB_Node c' l' a' r')) path =
     rb_leftmost (RB_Node c' l' a' r') (RB_right c l a # path)"

fun rb_prev :: "'a rb_tree \<Rightarrow> 'a rb_path \<Rightarrow> ('a rb_tree \<times> 'a rb_path) option" where
  "rb_prev RB_NULL path = None"
| "rb_prev (RB_Node c RB_NULL a r) path = rb_climb_left (RB_Node c RB_NULL a r) path"
| "rb_prev (RB_Node c (RB_Node c' l' a' r') a r) path =
     rb_rightmost (RB_Node c' l' a' r') (RB_left c a r # path)"

text \<open>\<^verbatim>\<open>rb_replace_node\<close>: the new node takes the pointers and the colour of the victim.\<close>

fun rb_replace_node :: "'a rb_tree \<Rightarrow> 'a rb_path \<Rightarrow> 'a \<Rightarrow> 'a rb_tree option" where
  "rb_replace_node RB_NULL path new = None"
| "rb_replace_node (RB_Node c l victim r) path new = Some (rb_plug (RB_Node c l new r) path)"

text \<open>Post-order iteration.\<close>

fun rb_left_deepest_node :: "'a rb_tree \<Rightarrow> 'a rb_path \<Rightarrow> ('a rb_tree \<times> 'a rb_path) option" where
  "rb_left_deepest_node RB_NULL path = None"
| "rb_left_deepest_node (RB_Node c (RB_Node c' l' a' r') a r) path =
     rb_left_deepest_node (RB_Node c' l' a' r') (RB_left c a r # path)"
| "rb_left_deepest_node (RB_Node c RB_NULL a (RB_Node c' l' a' r')) path =
     rb_left_deepest_node (RB_Node c' l' a' r') (RB_right c RB_NULL a # path)"
| "rb_left_deepest_node (RB_Node c RB_NULL a RB_NULL) path = Some (RB_Node c RB_NULL a RB_NULL, path)"

fun rb_next_postorder :: "'a rb_tree \<Rightarrow> 'a rb_path \<Rightarrow> ('a rb_tree \<times> 'a rb_path) option" where
  "rb_next_postorder t [] = None"
| "rb_next_postorder t (RB_left c a (RB_Node c' l' a' r') # path) =
     rb_left_deepest_node (RB_Node c' l' a' r') (RB_right c t a # path)"
| "rb_next_postorder t (k # path) = Some (rb_attach t k, path)"

definition rb_first_postorder :: "'a rb_tree \<Rightarrow> ('a rb_tree \<times> 'a rb_path) option" where
  "rb_first_postorder root = rb_left_deepest_node root []"

section \<open>Searching\<close>

text \<open>
  Every user of the trees writes its own descent, \<^verbatim>\<open>while (node)\<close> for a lookup and
  \<^verbatim>\<open>while (*new)\<close> for an insertion: compare with the entry, go left, go right or stop. The
  comparison is the argument \<open>dir\<close>; the result is the position where the loop ends, an entry at
  which it stopped or the empty slot \<^verbatim>\<open>*new\<close>.
\<close>

datatype rb_dir = Go_left | Go_right | Stop

fun rb_descend :: "('a \<Rightarrow> rb_dir) \<Rightarrow> 'a rb_tree \<Rightarrow> 'a rb_path \<Rightarrow> 'a rb_tree \<times> 'a rb_path" where
  "rb_descend dir RB_NULL path = (RB_NULL, path)"
| "rb_descend dir (RB_Node c l a r) path =
     (case dir a of
        Go_left \<Rightarrow> rb_descend dir l (RB_left c a r # path)
      | Go_right \<Rightarrow> rb_descend dir r (RB_right c l a # path)
      | Stop \<Rightarrow> (RB_Node c l a r, path))"

definition rb_find :: "('a \<Rightarrow> rb_dir) \<Rightarrow> 'a rb_tree \<Rightarrow> ('a rb_tree \<times> 'a rb_path) option" where
  "rb_find dir root =
     (case rb_descend dir root [] of (RB_NULL, path) \<Rightarrow> None | (t, path) \<Rightarrow> Some (t, path))"

text \<open>
  The insertion idiom: descend, give up where the comparison stops (\<^verbatim>\<open>return false\<close>), otherwise
  \<^verbatim>\<open>rb_link_node\<close> and \<^verbatim>\<open>rb_insert_color\<close> (\<^verbatim>\<open>return true\<close>).
\<close>

definition rb_insert_at :: "('a \<Rightarrow> rb_dir) \<Rightarrow> 'a \<Rightarrow> 'a rb_tree \<Rightarrow> ('a rb_tree \<times> bool) option" where
  "rb_insert_at dir x root =
     (case rb_descend dir root [] of
        (RB_NULL, path) \<Rightarrow> map_option (\<lambda>t. (t, True)) (rb_insert_color x path)
      | _ \<Rightarrow> Some (root, False))"

section \<open>The sequence of entries\<close>

text \<open>The entries before and after a position, in order.\<close>

fun rb_before :: "'a rb_path \<Rightarrow> 'a list" where
  "rb_before [] = []"
| "rb_before (RB_left c a r # p) = rb_before p"
| "rb_before (RB_right c l a # p) = rb_before p @ rb_inorder l @ [a]"

fun rb_after :: "'a rb_path \<Rightarrow> 'a list" where
  "rb_after [] = []"
| "rb_after (RB_left c a r # p) = a # rb_inorder r @ rb_after p"
| "rb_after (RB_right c l a # p) = rb_after p"

named_theorems rb_simps \<open>inorder sequences of tree operations\<close>

lemma rb_inorder_plug [rb_simps]: "rb_inorder (rb_plug t p) = rb_before p @ rb_inorder t @ rb_after p"
proof (induction p arbitrary: t)
  case (Cons k p)
  then show ?case by (cases k) simp_all
qed simp

lemma rb_inorder_set_color [simp]: "rb_inorder (rb_set_color c t) = rb_inorder t"
  by (cases t) simp_all

lemma rb_inorder_attach_black [simp]: "rb_inorder (rb_attach t (rb_link_black k)) = rb_inorder (rb_attach t k)"
  by (cases k) simp_all

lemma rb_plug_append: "rb_plug t (p @ q) = rb_plug (rb_plug t p) q"
  by (induction p arbitrary: t) simp_all

lemma rb_insert_core_inorder:
  "rb_insert_core l x r p = Some t \<Longrightarrow>
   rb_inorder t = rb_before p @ rb_inorder l @ x # rb_inorder r @ rb_after p"
proof (induction l x r p arbitrary: t rule: rb_insert_core.induct)
  case (2 l x r parent)
  then show ?case by (cases parent) (auto split: if_splits)
next
  case (3 l x r parent gparent path)
  then show ?case
    by (cases parent; cases gparent)
      (auto simp: rb_simps split: if_splits)
qed auto

lemma rb_insert_color_inorder:
  "rb_insert_color x p = Some t \<Longrightarrow> rb_inorder t = rb_before p @ x # rb_after p"
  by (simp add: rb_insert_color_def rb_insert_core_inorder)

lemma rb_erase_color_left_inorder:
  "rb_erase_color_left pc p n s path = Some (Inr t) \<Longrightarrow>
     rb_inorder t = rb_before path @ rb_inorder n @ p # rb_inorder s @ rb_after path"
  by (cases s) (auto simp: rb_simps split: if_splits list.splits rb_tree.splits)

lemma rb_erase_color_right_inorder:
  "rb_erase_color_right pc p n s path = Some (Inr t) \<Longrightarrow>
     rb_inorder t = rb_before path @ rb_inorder s @ p # rb_inorder n @ rb_after path"
  by (cases s) (auto simp: rb_simps split: if_splits list.splits rb_tree.splits)

lemma rb_erase_round_inorder:
  "rb_erase_round n k path = Some (Inr t) \<Longrightarrow>
     rb_inorder t = rb_before path @ rb_inorder (rb_attach n k) @ rb_after path"
  by (induction n k path rule: rb_erase_round.induct)
    (auto simp del: rb_erase_color_left.simps rb_erase_color_right.simps
      dest!: rb_erase_color_left_inorder rb_erase_color_right_inorder)

lemma rb_around_attach:
  "rb_before path @ rb_inorder (rb_attach n k) @ rb_after path =
   rb_before (k # path) @ rb_inorder n @ rb_after (k # path)"
  by (cases k) simp_all

lemma rb_erase_color_core_inorder:
  "rb_erase_color_core n path = Some t \<Longrightarrow>
   rb_inorder t = rb_before path @ rb_inorder n @ rb_after path"
proof (induction n path arbitrary: t rule: rb_erase_color_core.induct)
  case (2 node parent path)
  show ?case
  proof (cases "\<exists>u. rb_erase_round node parent path = Some (Inr u)")
    case True
    with "2.prems" show ?thesis
      by (metis (mono_tags) option.inject option.simps(5) rb_around_attach rb_erase_color_core.simps(2)
          rb_erase_round_inorder sum.simps(6))
  next
    case False
    with "2.prems" obtain n' p' where c: "rb_erase_round node parent path = Some (Inl (n', p'))"
      and t: "rb_erase_color_core n' p' = Some t"
      by (auto split: option.splits sum.splits)
    from "2.IH" [OF c refl refl t] rb_erase_round_continue [OF c] show ?thesis
      by (simp add: rb_around_attach)
  qed
qed simp

lemma rb_left_spine_inorder:
  "rb_left_spine c l a r p = (sc, s, child2, q) \<Longrightarrow>
     rb_before q = rb_before p \<and>
     s # rb_inorder child2 @ rb_after q = rb_inorder l @ a # rb_inorder r @ rb_after p"
  by (induction c l a r p rule: rb_left_spine.induct) auto

lemma rb_before_append: "rb_before (p @ q) = rb_before q @ rb_before p"
  by (induction p rule: rb_before.induct) auto

lemma rb_after_append: "rb_after (p @ q) = rb_after p @ rb_after q"
  by (induction p rule: rb_after.induct) auto

lemma rb_erase_augmented_inorder:
  assumes "rb_erase_augmented c l r path = (t, path', rb)"
  shows "rb_before path' @ rb_inorder t @ rb_after path' =
           rb_before path @ rb_inorder l @ rb_inorder r @ rb_after path"
  using assms
proof (induction c l r path rule: rb_erase_augmented.induct)
  case (3 c lc ll la lr rc rl a rr path)
  obtain sc s child2 q where q: "rb_left_spine rc rl a rr [] = (sc, s, child2, q)"
    by (cases "rb_left_spine rc rl a rr []") auto
  from rb_left_spine_inorder [OF q] have "rb_before q = []"
    and "s # rb_inorder child2 @ rb_after q = rb_inorder rl @ a # rb_inorder rr"
    by simp_all
  with 3 q show ?case
    by (auto simp: rb_before_append rb_after_append split: rb_tree.splits)
qed (auto split: rb_tree.splits)

theorem rb_erase_inorder:
  assumes "rb_erase (RB_Node c l a r) path = Some t"
  shows "rb_inorder t = rb_before path @ rb_inorder l @ rb_inorder r @ rb_after path"
proof -
  obtain u path' rb where e: "rb_erase_augmented c l r path = (u, path', rb)"
    by (cases "rb_erase_augmented c l r path") auto
  with assms have "rb_inorder t = rb_before path' @ rb_inorder u @ rb_after path'"
    by (auto simp: rb_simps rb_erase_color_core_inorder split: if_splits)
  with rb_erase_augmented_inorder [OF e] show ?thesis by simp
qed

section \<open>The red-black properties\<close>

text \<open>
  The properties 2, 4 and 5 listed at the head of \<^verbatim>\<open>rbtree.c\<close>: the root is black, both children
  of a red node are black, and every path to a leaf meets the same number of black nodes.
\<close>

fun rb_color_of :: "'a rb_tree \<Rightarrow> rb_color" where
  "rb_color_of RB_NULL = RB_BLACK"
| "rb_color_of (RB_Node c l a r) = c"

fun rb_bheight :: "'a rb_tree \<Rightarrow> nat" where
  "rb_bheight RB_NULL = 0"
| "rb_bheight (RB_Node c l a r) = rb_bheight l + (if c = RB_BLACK then 1 else 0)"

fun rb_inv :: "'a rb_tree \<Rightarrow> bool" where
  "rb_inv RB_NULL = True"
| "rb_inv (RB_Node c l a r) =
     (rb_inv l \<and> rb_inv r \<and> rb_bheight l = rb_bheight r \<and>
      (c = RB_RED \<longrightarrow> rb_color_of l = RB_BLACK \<and> rb_color_of r = RB_BLACK))"

definition rb_wf :: "'a rb_tree \<Rightarrow> bool" where
  "rb_wf t \<longleftrightarrow> rb_inv t \<and> rb_color_of t = RB_BLACK"

text \<open>\<open>rb_hole p n c\<close>: filling the hole of \<open>p\<close> with a subtree of black height \<open>n\<close> and root
  colour \<open>c\<close> gives a red-black tree.\<close>

fun rb_hole :: "'a rb_path \<Rightarrow> nat \<Rightarrow> rb_color \<Rightarrow> bool" where
  "rb_hole [] n c = (c = RB_BLACK)"
| "rb_hole (RB_left pc a r # p) n c =
     (rb_inv r \<and> rb_bheight r = n \<and> (pc = RB_RED \<longrightarrow> c = RB_BLACK \<and> rb_color_of r = RB_BLACK) \<and>
      rb_hole p (n + (if pc = RB_BLACK then 1 else 0)) pc)"
| "rb_hole (RB_right pc l a # p) n c =
     (rb_inv l \<and> rb_bheight l = n \<and> (pc = RB_RED \<longrightarrow> c = RB_BLACK \<and> rb_color_of l = RB_BLACK) \<and>
      rb_hole p (n + (if pc = RB_BLACK then 1 else 0)) pc)"

lemma rb_not_red [simp]: "c \<noteq> RB_RED \<longleftrightarrow> c = RB_BLACK"
  by (cases c) simp_all

lemma rb_not_black [simp]: "c \<noteq> RB_BLACK \<longleftrightarrow> c = RB_RED"
  by (cases c) simp_all

lemma rb_is_red_iff: "rb_is_red t \<longleftrightarrow> rb_color_of t = RB_RED"
  by (cases t rule: rb_is_red.cases) simp_all

lemma rb_wf_plug: "rb_wf (rb_plug t p) \<longleftrightarrow> rb_inv t \<and> rb_hole p (rb_bheight t) (rb_color_of t)"
proof (induction p arbitrary: t)
  case Nil
  then show ?case by (simp add: rb_wf_def)
next
  case (Cons k p)
  show ?case by (cases k) (auto simp: Cons.IH)
qed

lemma rb_wf_Node: "rb_wf (RB_Node c l a r) \<longleftrightarrow> rb_inv (RB_Node c l a r) \<and> c = RB_BLACK"
  by (simp add: rb_wf_def)

lemma rb_hole_black: "rb_hole p n c \<Longrightarrow> rb_hole p n RB_BLACK"
  by (induction p n c rule: rb_hole.induct) auto

lemma rb_inv_set_black [simp]: "rb_inv t \<Longrightarrow> rb_inv (rb_set_color RB_BLACK t)"
  by (cases t) auto

lemma rb_color_of_set [simp]: "rb_color_of (rb_set_color RB_BLACK t) = RB_BLACK"
  by (cases t) auto

lemma rb_set_black_id: "rb_color_of t = RB_BLACK \<Longrightarrow> rb_set_color RB_BLACK t = t"
  by (cases t) auto

lemma rb_bheight_set_black:
  "rb_color_of t = RB_RED \<Longrightarrow> rb_bheight (rb_set_color RB_BLACK t) = Suc (rb_bheight t)"
  by (cases t) auto

lemma rb_insert_core_wf:
  assumes "rb_inv (RB_Node RB_RED l x r)" and "rb_hole p (rb_bheight l) RB_BLACK"
  shows "\<exists>t. rb_insert_core l x r p = Some t \<and> rb_wf t"
  using assms
proof (induction l x r p rule: rb_insert_core.induct)
  case (1 l x r)
  then show ?case by (auto simp: rb_wf_def)
next
  case (2 l x r parent)
  then show ?case by (cases parent) (auto simp: rb_wf_def)
next
  case (3 l x r parent gparent path)
  then show ?case
    by (cases parent; cases gparent)
      (auto simp: rb_wf_plug rb_is_red_iff rb_set_black_id rb_bheight_set_black intro: rb_hole_black)
qed

lemma rb_insert_color_wf:
  assumes "rb_wf (rb_plug RB_NULL p)"
  shows "\<exists>t. rb_insert_color x p = Some t \<and> rb_wf t"
  using assms rb_insert_core_wf [of RB_NULL x RB_NULL p]
  by (simp add: rb_insert_color_def rb_wf_plug)

text \<open>
  The outcome of a round of the removal loop when every path through \<open>node\<close> is one black node
  short: a red-black tree, or the same shortage one level higher.
\<close>

definition rb_round_ok :: "'a rb_path \<Rightarrow> nat \<Rightarrow> ('a rb_tree \<times> 'a rb_path + 'a rb_tree) option \<Rightarrow> bool" where
  "rb_round_ok path n res =
     (case res of
        Some (Inr t) \<Rightarrow> rb_wf t
      | Some (Inl (t, path')) \<Rightarrow>
          path' = path \<and> path \<noteq> [] \<and> rb_inv t \<and> rb_color_of t = RB_BLACK \<and>
          rb_bheight t = n \<and> rb_hole path (Suc n) RB_BLACK
      | None \<Rightarrow> False)"

lemma rb_erase_color_left_wf:
  assumes "rb_inv node" "rb_color_of node = RB_BLACK" "rb_inv s" "rb_color_of s = RB_BLACK"
    and "rb_bheight s = Suc (rb_bheight node)"
    and "rb_hole path (Suc (rb_bheight node) + (if pc = RB_BLACK then 1 else 0)) pc"
  shows "rb_round_ok path (Suc (rb_bheight node)) (rb_erase_color_left pc p node s path)"
  using assms
  by (cases s; cases pc)
    (auto simp: rb_round_ok_def rb_wf_plug rb_is_red_iff rb_set_black_id rb_bheight_set_black
      rb_wf_Node simp del: rb_plug.simps intro: rb_hole_black split: list.splits rb_tree.splits)

lemma rb_erase_color_right_wf:
  assumes "rb_inv node" "rb_color_of node = RB_BLACK" "rb_inv s" "rb_color_of s = RB_BLACK"
    and "rb_bheight s = Suc (rb_bheight node)"
    and "rb_hole path (Suc (rb_bheight node) + (if pc = RB_BLACK then 1 else 0)) pc"
  shows "rb_round_ok path (Suc (rb_bheight node)) (rb_erase_color_right pc p node s path)"
  using assms
  by (cases s; cases pc)
    (auto simp: rb_round_ok_def rb_wf_plug rb_is_red_iff rb_set_black_id rb_bheight_set_black
      rb_wf_Node simp del: rb_plug.simps intro: rb_hole_black split: list.splits rb_tree.splits)

lemma rb_erase_color_red_ends:
  "rb_erase_color_left RB_RED p node s path \<noteq> Some (Inl x)"
  "rb_erase_color_right RB_RED p node s path \<noteq> Some (Inl x)"
  by (cases s; auto split: if_splits rb_tree.splits)+

lemma rb_round_ok_ends:
  assumes "rb_round_ok path n res" and "\<And>x. res \<noteq> Some (Inl x)"
  shows "rb_round_ok path' n' res"
  using assms by (auto simp: rb_round_ok_def split: option.splits sum.splits)

lemma rb_set_black_sibling:
  assumes "rb_inv (RB_Node RB_RED sl s sr)" and "rb_bheight sl = Suc n"
  shows "rb_set_color RB_BLACK sl = sl" "rb_set_color RB_BLACK sr = sr"
  using assms by (simp_all add: rb_set_black_id)

lemma rb_erase_round_wf:
  assumes "rb_inv node" "rb_color_of node = RB_BLACK"
    and "rb_hole (k # path) (Suc (rb_bheight node)) RB_BLACK"
  shows "rb_round_ok path (Suc (rb_bheight node)) (rb_erase_round node k path)"
  using assms
proof (induction node k path rule: rb_erase_round.induct)
  case (1 node pc p sl s sr path)
  then have "rb_round_ok (RB_left pc s sr # path) (Suc (rb_bheight node))
      (rb_erase_color_left RB_RED p node sl (RB_left pc s sr # path))"
    by (intro rb_erase_color_left_wf) auto
  with 1 show ?case
    by (auto intro: rb_round_ok_ends simp: rb_erase_color_red_ends rb_set_black_id)
next
  case (3 node pc sl s sr p path)
  then have "rb_round_ok (RB_right pc sl s # path) (Suc (rb_bheight node))
      (rb_erase_color_right RB_RED p node sr (RB_right pc sl s # path))"
    by (intro rb_erase_color_right_wf) auto
  with 3 show ?case
    by (auto intro: rb_round_ok_ends simp: rb_erase_color_red_ends rb_set_black_id)
qed (auto intro!: rb_erase_color_left_wf rb_erase_color_right_wf
      simp del: rb_erase_color_left.simps rb_erase_color_right.simps)

lemma rb_erase_color_core_wf:
  assumes "rb_inv node" "rb_color_of node = RB_BLACK" "path \<noteq> []"
    and "rb_hole path (Suc (rb_bheight node)) RB_BLACK"
  shows "\<exists>t. rb_erase_color_core node path = Some t \<and> rb_wf t"
  using assms
proof (induction node path rule: rb_erase_color_core.induct)
  case (2 node parent path)
  have ok: "rb_round_ok path (Suc (rb_bheight node)) (rb_erase_round node parent path)"
    using "2.prems" by (intro rb_erase_round_wf) auto
  show ?case
  proof (cases "rb_erase_round node parent path")
    case None
    with ok show ?thesis by (simp add: rb_round_ok_def)
  next
    case (Some res)
    with ok "2.IH" show ?thesis
      by (cases res) (auto simp: rb_round_ok_def)
  qed
qed simp

lemma rb_left_spine_wf:
  assumes "rb_left_spine c l a r p = (sc, s, child2, q)"
    and "rb_inv (RB_Node c l a r)" "rb_hole (p @ p') (rb_bheight (RB_Node c l a r)) c"
  shows "rb_inv (RB_Node sc RB_NULL s child2)
    \<and> rb_hole (q @ p') (rb_bheight (RB_Node sc RB_NULL s child2)) sc"
  using assms
  by (induction c l a r p rule: rb_left_spine.induct) auto

lemma rb_hole_replace:
  "rb_hole (q @ RB_right c l x # path) n d \<Longrightarrow> rb_hole (q @ RB_right c l y # path) n d"
  by (induction q n d rule: rb_hole.induct) auto

lemma rb_only_child:
  assumes "rb_inv (RB_Node c l a r)" and "l = RB_NULL \<or> r = RB_NULL"
  shows "l \<noteq> RB_NULL \<Longrightarrow> c = RB_BLACK \<and> rb_bheight l = 0 \<and> rb_color_of l = RB_RED"
    and "r \<noteq> RB_NULL \<Longrightarrow> c = RB_BLACK \<and> rb_bheight r = 0 \<and> rb_color_of r = RB_RED"
  using assms by (cases l; cases r; auto split: if_splits)+

lemma rb_erase_leaf_wf:
  assumes "rb_wf (rb_plug (RB_Node c RB_NULL a RB_NULL) path)"
  shows "\<exists>t. rb_erase (RB_Node c RB_NULL a RB_NULL) path = Some t \<and> rb_wf t"
proof -
  from assms have h: "rb_hole path (if c = RB_BLACK then 1 else 0) c"
    by (simp add: rb_wf_plug split: if_splits)
  show ?thesis
  proof (cases "c = RB_BLACK \<and> path \<noteq> []")
    case True
    with h rb_erase_color_core_wf [of RB_NULL path] show ?thesis by simp
  next
    case False
    with h show ?thesis
      by (auto simp: rb_wf_plug intro: rb_hole_black)
  qed
qed

lemma rb_erase_one_child_wf:
  assumes "rb_wf (rb_plug (RB_Node c l a r) path)" and "(l = RB_NULL) \<noteq> (r = RB_NULL)"
  shows "\<exists>t. rb_erase (RB_Node c l a r) path = Some t \<and> rb_wf t"
proof -
  from assms(1) have inv: "rb_inv (RB_Node c l a r)"
    and "rb_hole path (rb_bheight (RB_Node c l a r)) c"
    unfolding rb_wf_plug by (auto split: if_splits)
  with rb_only_child [OF inv] assms(2) show ?thesis
    by (cases l; cases r) (auto simp: rb_wf_plug)
qed

lemma rb_erase_two_children_wf:
  assumes "rb_wf (rb_plug (RB_Node c l a r) path)" and "l \<noteq> RB_NULL" "r \<noteq> RB_NULL"
  shows "\<exists>t. rb_erase (RB_Node c l a r) path = Some t \<and> rb_wf t"
proof -
  obtain rc rl ra rr where r: "r = RB_Node rc rl ra rr"
    using assms(3) by (cases r) auto
  obtain lc ll la lr where l: "l = RB_Node lc ll la lr"
    using assms(2) by (cases l) auto
  obtain sc s child2 q where q: "rb_left_spine rc rl ra rr [] = (sc, s, child2, q)"
    by (cases "rb_left_spine rc rl ra rr []") auto
  let ?p = "q @ RB_right c l s # path"
  from assms have "rb_inv r" "rb_hole (RB_right c l a # path) (rb_bheight r) (rb_color_of r)"
    by (auto simp: rb_wf_plug)
  with rb_left_spine_wf [OF q, of "RB_right c l a # path"] r
  have inv: "rb_inv (RB_Node sc RB_NULL s child2)"
    and h: "rb_hole ?p (rb_bheight (RB_Node sc RB_NULL s child2)) sc"
    by (auto intro: rb_hole_replace)
  show ?thesis
  proof (cases child2)
    case RB_NULL
    show ?thesis
    proof (cases "sc = RB_BLACK")
      case True
      with h rb_erase_color_core_wf [of RB_NULL ?p] RB_NULL q l r show ?thesis by simp
    next
      case False
      with h RB_NULL q l r show ?thesis
        by (auto simp: rb_wf_plug intro: rb_hole_black)
    qed
  next
    case (RB_Node cc cl ca cr)
    with rb_only_child [OF inv] h inv q l r show ?thesis
      by (auto simp: rb_wf_plug)
  qed
qed

theorem rb_erase_wf:
  assumes "rb_wf (rb_plug (RB_Node c l a r) path)"
  shows "\<exists>t. rb_erase (RB_Node c l a r) path = Some t \<and> rb_wf t"
  using assms rb_erase_leaf_wf [of c a path] rb_erase_one_child_wf [of c l a r path]
    rb_erase_two_children_wf [of c l a r path]
  by blast

text \<open>The depth of the tree is logarithmic in the number of entries.\<close>

fun rb_height :: "'a rb_tree \<Rightarrow> nat" where
  "rb_height RB_NULL = 0"
| "rb_height (RB_Node c l a r) = Suc (max (rb_height l) (rb_height r))"

lemma rb_height_bheight:
  "rb_inv t \<Longrightarrow> rb_height t \<le> 2 * rb_bheight t + (if rb_color_of t = RB_RED then 1 else 0)"
  by (induction t) (auto split: if_splits)

lemma rb_bheight_length: "rb_inv t \<Longrightarrow> 2 ^ rb_bheight t \<le> Suc (length (rb_inorder t))"
  by (induction t) auto

theorem rb_wf_height: "rb_wf t \<Longrightarrow> 2 ^ (rb_height t div 2) \<le> Suc (length (rb_inorder t))"
proof -
  assume wf: "rb_wf t"
  then have "rb_height t div 2 \<le> rb_bheight t"
    using rb_height_bheight [of t] by (simp add: rb_wf_def)
  then have "(2::nat) ^ (rb_height t div 2) \<le> 2 ^ rb_bheight t" by simp
  also have "\<dots> \<le> Suc (length (rb_inorder t))"
    using wf by (simp add: rb_wf_def rb_bheight_length)
  finally show ?thesis .
qed

section \<open>Traversal\<close>

text \<open>The entry at a position, and the sequence of entries of the tree around it.\<close>

fun rb_entry :: "'a rb_tree \<times> 'a rb_path \<Rightarrow> 'a option" where
  "rb_entry (RB_NULL, p) = None"
| "rb_entry (RB_Node c l a r, p) = Some a"

lemma rb_plug_injective_inorder:
  "rb_plug t p = root \<Longrightarrow> rb_inorder root = rb_before p @ rb_inorder t @ rb_after p"
  by (auto simp: rb_simps)

lemma rb_leftmost_spec:
  "rb_leftmost t p = Some (u, q) \<Longrightarrow>
     rb_plug u q = rb_plug t p \<and> (\<exists>c a r. u = RB_Node c RB_NULL a r) \<and> rb_before q = rb_before p"
  by (induction t p rule: rb_leftmost.induct) auto

lemma rb_leftmost_None: "rb_leftmost t p = None \<longleftrightarrow> t = RB_NULL"
  by (induction t p rule: rb_leftmost.induct) auto

lemma rb_rightmost_spec:
  "rb_rightmost t p = Some (u, q) \<Longrightarrow>
     rb_plug u q = rb_plug t p \<and> (\<exists>c l a. u = RB_Node c l a RB_NULL) \<and> rb_after q = rb_after p"
  by (induction t p rule: rb_rightmost.induct) auto

lemma rb_rightmost_None: "rb_rightmost t p = None \<longleftrightarrow> t = RB_NULL"
  by (induction t p rule: rb_rightmost.induct) auto

theorem rb_first_spec:
  "(rb_first root = None \<longleftrightarrow> rb_inorder root = []) \<and>
   (rb_first root = Some (t, p) \<longrightarrow>
      rb_plug t p = root \<and> rb_before p = [] \<and> rb_entry (t, p) = Some (hd (rb_inorder root)))"
proof -
  have "rb_inorder root = [] \<longleftrightarrow> root = RB_NULL" by (cases root) simp_all
  moreover have "rb_leftmost root [] = Some (t, p) \<Longrightarrow> rb_inorder root = rb_inorder t @ rb_after p"
    using rb_leftmost_spec [of root "[]" t p] rb_inorder_plug [of t p] by simp
  ultimately show ?thesis
    using rb_leftmost_spec [of root "[]" t p]
    by (auto simp: rb_first_def rb_leftmost_None)
qed

theorem rb_last_spec:
  "(rb_last root = None \<longleftrightarrow> rb_inorder root = []) \<and>
   (rb_last root = Some (t, p) \<longrightarrow>
      rb_plug t p = root \<and> rb_after p = [] \<and> rb_entry (t, p) = Some (last (rb_inorder root)))"
proof -
  have "rb_inorder root = [] \<longleftrightarrow> root = RB_NULL" by (cases root) simp_all
  moreover have "rb_rightmost root [] = Some (t, p) \<Longrightarrow> rb_inorder root = rb_before p @ rb_inorder t"
    using rb_rightmost_spec [of root "[]" t p] rb_inorder_plug [of t p] by simp
  ultimately show ?thesis
    using rb_rightmost_spec [of root "[]" t p]
    by (auto simp: rb_last_def rb_rightmost_None)
qed

text \<open>
  \<open>rb_upto\<close> and \<open>rb_beyond\<close>: the entries strictly before and strictly after the node at a position.
\<close>

fun rb_upto :: "'a rb_tree \<times> 'a rb_path \<Rightarrow> 'a list" where
  "rb_upto (RB_NULL, p) = rb_before p"
| "rb_upto (RB_Node c l a r, p) = rb_before p @ rb_inorder l"

fun rb_beyond :: "'a rb_tree \<times> 'a rb_path \<Rightarrow> 'a list" where
  "rb_beyond (RB_NULL, p) = rb_after p"
| "rb_beyond (RB_Node c l a r, p) = rb_inorder r @ rb_after p"

lemma rb_rightmost_plug:
  "rb_after q = [] \<Longrightarrow> t \<noteq> RB_NULL \<Longrightarrow> rb_rightmost (rb_plug t q) p = rb_rightmost t (q @ p)"
proof (induction q arbitrary: t)
  case (Cons k q)
  then show ?case by (cases k; cases t) auto
qed simp

lemma rb_leftmost_plug:
  "rb_before q = [] \<Longrightarrow> t \<noteq> RB_NULL \<Longrightarrow> rb_leftmost (rb_plug t q) p = rb_leftmost t (q @ p)"
proof (induction q arbitrary: t)
  case (Cons k q)
  then show ?case by (cases k; cases t) auto
qed simp

text \<open>The last position of a tree is the one with nothing beyond it.\<close>

lemma rb_last_iff:
  assumes "rb_entry (t, q) = Some a"
  shows "rb_last (rb_plug t q) = Some (t, q) \<longleftrightarrow> rb_beyond (t, q) = []"
proof -
  from assms obtain c l r where t: "t = RB_Node c l a r" by (cases t) auto
  show ?thesis
  proof
    assume "rb_last (rb_plug t q) = Some (t, q)"
    with rb_rightmost_spec [of "rb_plug t q" "[]" t q] t show "rb_beyond (t, q) = []"
      by (simp add: rb_last_def)
  next
    assume "rb_beyond (t, q) = []"
    with t have "rb_after q = []" "r = RB_NULL" by (cases r; simp)+
    with t rb_rightmost_plug [of q t "[]"] show "rb_last (rb_plug t q) = Some (t, q)"
      by (simp add: rb_last_def)
  qed
qed

lemma rb_climb_right_spec:
  "rb_climb_right t p = Some (u, q) \<Longrightarrow>
     rb_plug u q = rb_plug t p \<and>
     (\<exists>c l a r. u = RB_Node c l a r \<and> rb_before q @ rb_inorder l = rb_before p @ rb_inorder t \<and>
        a # rb_inorder r @ rb_after q = rb_after p)"
proof (induction t p rule: rb_climb_right.induct)
  case (2 t c l a path)
  then show ?case by auto
qed auto

lemma rb_climb_right_None: "rb_climb_right t p = None \<longleftrightarrow> rb_after p = []"
  by (induction t p rule: rb_climb_right.induct) auto

lemma rb_climb_left_spec:
  "rb_climb_left t p = Some (u, q) \<Longrightarrow>
     rb_plug u q = rb_plug t p \<and>
     (\<exists>c l a r. u = RB_Node c l a r \<and> rb_inorder r @ rb_after q = rb_inorder t @ rb_after p \<and>
        rb_before q @ rb_inorder l @ [a] = rb_before p)"
proof (induction t p rule: rb_climb_left.induct)
  case (2 t c a r path)
  then show ?case by auto
qed auto

lemma rb_climb_left_None: "rb_climb_left t p = None \<longleftrightarrow> rb_before p = []"
  by (induction t p rule: rb_climb_left.induct) auto

theorem rb_next_spec:
  assumes "rb_entry (t, p) = Some a"
  shows "case rb_next t p of
      None \<Rightarrow> rb_beyond (t, p) = []
    | Some (u, q) \<Rightarrow> rb_plug u q = rb_plug t p \<and>
        (\<exists>b. rb_entry (u, q) = Some b \<and> rb_upto (u, q) = rb_upto (t, p) @ [a] \<and>
           rb_beyond (t, p) = b # rb_beyond (u, q))"
proof (cases "(t, p)" rule: rb_next.cases)
  case (2 c l a' path)
  then show ?thesis
    using assms rb_climb_right_spec [of t p] rb_climb_right_None [of t p]
    by (fastforce split: option.splits)
next
  case (3 c l a' c' l' b' r' path)
  obtain u q where uq: "rb_leftmost (RB_Node c' l' b' r') (RB_right c l a' # path) = Some (u, q)"
    using rb_leftmost_None [of "RB_Node c' l' b' r'"] by fastforce
  from rb_leftmost_spec [OF uq] obtain d b s where u: "u = RB_Node d RB_NULL b s"
    and "rb_plug u q = rb_plug t p" "rb_before q = rb_before path @ rb_inorder l @ [a']"
    using 3 by auto
  moreover have "rb_before q @ rb_inorder u @ rb_after q =
      rb_before (RB_right c l a' # path) @ rb_inorder (RB_Node c' l' b' r') @ rb_after path"
    using rb_leftmost_spec [OF uq] rb_inorder_plug [of u q]
      rb_inorder_plug [of "RB_Node c' l' b' r'" "RB_right c l a' # path"] by simp
  ultimately show ?thesis using 3 uq assms by simp
qed (use assms in auto)

theorem rb_prev_spec:
  assumes "rb_entry (t, p) = Some a"
  shows "case rb_prev t p of
      None \<Rightarrow> rb_upto (t, p) = []
    | Some (u, q) \<Rightarrow> rb_plug u q = rb_plug t p \<and>
        (\<exists>b. rb_entry (u, q) = Some b \<and> rb_upto (t, p) = rb_upto (u, q) @ [b] \<and>
           rb_beyond (u, q) = a # rb_beyond (t, p))"
proof (cases "(t, p)" rule: rb_prev.cases)
  case (2 c a' r path)
  then show ?thesis
    using assms rb_climb_left_spec [of t p] rb_climb_left_None [of t p]
    by (fastforce split: option.splits)
next
  case (3 c c' l' b' r' a' r path)
  obtain u q where uq: "rb_rightmost (RB_Node c' l' b' r') (RB_left c a' r # path) = Some (u, q)"
    using rb_rightmost_None [of "RB_Node c' l' b' r'"] by fastforce
  from rb_rightmost_spec [OF uq] obtain d b s where u: "u = RB_Node d s b RB_NULL"
    and "rb_plug u q = rb_plug t p" "rb_after q = a' # rb_inorder r @ rb_after path"
    using 3 by auto
  moreover have "rb_before q @ rb_inorder u @ rb_after q =
      rb_before path @ rb_inorder (RB_Node c' l' b' r') @ rb_after (RB_left c a' r # path)"
    using rb_rightmost_spec [OF uq] rb_inorder_plug [of u q]
      rb_inorder_plug [of "RB_Node c' l' b' r'" "RB_left c a' r # path"] by simp
  ultimately show ?thesis using 3 uq assms by simp
qed (use assms in auto)

text \<open>
  Post-order iteration. \<open>rb_pending p\<close> are the entries of \<open>p\<close>'s tree that come, in post-order,
  after the subtree in the hole of \<open>p\<close>.
\<close>

fun rb_postorder :: "'a rb_tree \<Rightarrow> 'a list" where
  "rb_postorder RB_NULL = []"
| "rb_postorder (RB_Node c l a r) = rb_postorder l @ rb_postorder r @ [a]"

fun rb_pending :: "'a rb_path \<Rightarrow> 'a list" where
  "rb_pending [] = []"
| "rb_pending (RB_left c a r # p) = rb_postorder r @ a # rb_pending p"
| "rb_pending (RB_right c l a # p) = a # rb_pending p"

lemma rb_left_deepest_node_spec:
  "t \<noteq> RB_NULL \<Longrightarrow> \<exists>c a q. rb_left_deepest_node t p = Some (RB_Node c RB_NULL a RB_NULL, q)
     \<and> rb_postorder t @ rb_pending p = a # rb_pending q"
  by (induction t p rule: rb_left_deepest_node.induct) auto

theorem rb_next_postorder_spec:
  "case rb_next_postorder t p of
     None \<Rightarrow> rb_pending p = []
   | Some (u, q) \<Rightarrow> \<exists>b. rb_entry (u, q) = Some b \<and> rb_pending p = b # rb_pending q"
proof (cases "(t, p)" rule: rb_next_postorder.cases)
  case (2 t' c a c' l' a' r' path)
  with rb_left_deepest_node_spec [of "RB_Node c' l' a' r'" "RB_right c t' a # path"]
  show ?thesis by fastforce
qed auto

theorem rb_first_postorder_spec:
  "case rb_first_postorder root of
     None \<Rightarrow> rb_postorder root = []
   | Some (u, q) \<Rightarrow> \<exists>b. rb_entry (u, q) = Some b \<and> rb_postorder root = b # rb_pending q"
  using rb_left_deepest_node_spec [of root "[]"]
  by (cases "root = RB_NULL") (fastforce simp: rb_first_postorder_def)+

text \<open>Replacing a node changes one entry of the sequence and keeps the balance.\<close>

theorem rb_replace_node_spec:
  assumes "rb_entry (t, p) = Some a"
  shows "\<exists>t'. rb_replace_node t p b = Some t' \<and> rb_inorder t' = rb_upto (t, p) @ b # rb_beyond (t, p)
    \<and> (rb_wf t' \<longleftrightarrow> rb_wf (rb_plug t p))"
  using assms by (cases t) (auto simp: rb_simps rb_wf_plug)

section \<open>Iterating\<close>

text \<open>
  The loops \<open>for (node = rb_first(root); node; node = rb_next(node))\<close> and
  \<^verbatim>\<open>rbtree_postorder_for_each_entry_safe\<close>: the entries visited. The first argument bounds the rounds.
\<close>

fun rb_walk :: "('a rb_tree \<Rightarrow> 'a rb_path \<Rightarrow> ('a rb_tree \<times> 'a rb_path) option) \<Rightarrow> nat \<Rightarrow>
    ('a rb_tree \<times> 'a rb_path) option \<Rightarrow> 'a list option" where
  "rb_walk step n None = Some []"
| "rb_walk step 0 (Some pos) = None"
| "rb_walk step (Suc n) (Some (t, p)) = do {
     a \<leftarrow> rb_entry (t, p);
     as \<leftarrow> rb_walk step n (step t p);
     Some (a # as) }"

lemma rb_inorder_position:
  "rb_entry (t, p) = Some a \<Longrightarrow> rb_inorder (rb_plug t p) = rb_upto (t, p) @ a # rb_beyond (t, p)"
  by (cases t) (simp_all add: rb_inorder_plug)

lemma rb_walk_next:
  assumes "rb_entry (t, p) = Some a" "length (rb_beyond (t, p)) < n"
  shows "rb_walk rb_next n (Some (t, p)) = Some (a # rb_beyond (t, p))"
  using assms
proof (induction n arbitrary: t p a)
  case (Suc n)
  show ?case
  proof (cases "rb_next t p")
    case None
    then show ?thesis using rb_next_spec [OF Suc.prems(1)] Suc.prems by simp
  next
    case (Some pos)
    obtain u q where "pos = (u, q)" by (cases pos)
    then show ?thesis
      using rb_next_spec [OF Suc.prems(1)] Suc.prems Suc.IH [of u q] Some by auto
  qed
qed simp

lemma rb_walk_prev:
  assumes "rb_entry (t, p) = Some a" "length (rb_upto (t, p)) < n"
  shows "rb_walk rb_prev n (Some (t, p)) = Some (a # rev (rb_upto (t, p)))"
  using assms
proof (induction n arbitrary: t p a)
  case (Suc n)
  show ?case
  proof (cases "rb_prev t p")
    case None
    then show ?thesis using rb_prev_spec [OF Suc.prems(1)] Suc.prems by simp
  next
    case (Some pos)
    obtain u q where "pos = (u, q)" by (cases pos)
    then show ?thesis
      using rb_prev_spec [OF Suc.prems(1)] Suc.prems Suc.IH [of u q] Some by auto
  qed
qed simp

lemma rb_walk_postorder:
  assumes "rb_entry (t, p) = Some a" "length (rb_pending p) < n"
  shows "rb_walk rb_next_postorder n (Some (t, p)) = Some (a # rb_pending p)"
  using assms
proof (induction n arbitrary: t p a)
  case (Suc n)
  show ?case
  proof (cases "rb_next_postorder t p")
    case None
    then show ?thesis using rb_next_postorder_spec [of p t] Suc.prems by simp
  next
    case (Some pos)
    obtain u q where "pos = (u, q)" by (cases pos)
    then show ?thesis
      using rb_next_postorder_spec [of p t] Suc.prems Suc.IH [of u q] Some by auto
  qed
qed simp

lemma rb_walk_first: "rb_walk rb_next (length (rb_inorder root)) (rb_first root) = Some (rb_inorder root)"
proof (cases "rb_first root")
  case (Some pos)
  obtain t p where pos: "pos = (t, p)" by (cases pos)
  then obtain a where "rb_entry (t, p) = Some a" "rb_upto (t, p) = []" "rb_plug t p = root"
    using Some rb_leftmost_spec [of root "[]" t p] by (auto simp: rb_first_def)
  then show ?thesis
    using rb_walk_next [of t p a] rb_inorder_position [of t p a] Some pos by (auto simp del: rb_walk.simps)
qed (use rb_first_spec [of root] in simp)

lemma rb_walk_last: "rb_walk rb_prev (length (rb_inorder root)) (rb_last root) = Some (rev (rb_inorder root))"
proof (cases "rb_last root")
  case (Some pos)
  obtain t p where pos: "pos = (t, p)" by (cases pos)
  then obtain a where "rb_entry (t, p) = Some a" "rb_beyond (t, p) = []" "rb_plug t p = root"
    using Some rb_rightmost_spec [of root "[]" t p] by (auto simp: rb_last_def)
  then show ?thesis
    using rb_walk_prev [of t p a] rb_inorder_position [of t p a] Some pos by (auto simp del: rb_walk.simps)
qed (use rb_last_spec [of root] in simp)

lemma rb_walk_first_postorder:
  "rb_walk rb_next_postorder (length (rb_postorder root)) (rb_first_postorder root) = Some (rb_postorder root)"
proof (cases "rb_first_postorder root")
  case (Some pos)
  obtain t p where "pos = (t, p)" by (cases pos)
  then show ?thesis
    using rb_first_postorder_spec [of root] Some rb_walk_postorder [of t p] by (auto simp del: rb_walk.simps)
qed (use rb_first_postorder_spec [of root] in simp)

section \<open>Trees built by the operations\<close>

text \<open>
  The trees that a sequence of \<^verbatim>\<open>rb_insert_color\<close>, each on a new leaf anywhere in the tree, \<^verbatim>\<open>rb_erase\<close> and \<^verbatim>\<open>rb_replace_node\<close>,
  each at any node, makes of the empty tree.
\<close>

inductive rb_built :: "'a rb_tree \<Rightarrow> bool" where
  empty: "rb_built RB_NULL"
| insert: "rb_built (rb_plug RB_NULL p) \<Longrightarrow> rb_insert_color x p = Some t \<Longrightarrow> rb_built t"
| erase: "rb_built (rb_plug (RB_Node c l a r) p) \<Longrightarrow> rb_erase (RB_Node c l a r) p = Some t \<Longrightarrow> rb_built t"
| replace: "rb_built (rb_plug (RB_Node c l a r) p) \<Longrightarrow> rb_replace_node (RB_Node c l a r) p b = Some t \<Longrightarrow> rb_built t"

lemma rb_built_wf: "rb_built t \<Longrightarrow> rb_wf t"
proof (induction rule: rb_built.induct)
  case (insert p x t)
  then show ?case using rb_insert_color_wf [OF insert.IH, of x] by simp
next
  case (erase c l a r p t)
  then show ?case using rb_erase_wf [OF erase.IH] by simp
next
  case (replace c l a r p b t)
  then show ?case using rb_replace_node_spec [of "RB_Node c l a r" p a b] by simp
qed (simp add: rb_wf_def)

lemma rb_descend_length: "length (snd (rb_descend dir t p)) \<le> length p + rb_height t"
  by (induction dir t p rule: rb_descend.induct) (auto split: rb_dir.splits)

section \<open>Properties\<close>

text \<open>
  C17: Linking a new node into an empty slot of a red-black tree and calling \<^verbatim>\<open>rb_insert_color\<close> gives a
  red-black tree again, with the new entry exactly in the slot and every other entry kept in order;
  the rebalancing never follows a NULL parent.
\<close>

theorem rb_insert_correct:
  assumes "rb_wf (rb_plug RB_NULL p)"
  shows "\<exists>t. rb_insert_color x p = Some t \<and> rb_wf t \<and> rb_inorder t = rb_before p @ x # rb_after p"
  using rb_insert_color_wf [OF assms, of x] rb_insert_color_inorder [of x p] by blast

theorem rb_insert_correct_witness:
  "\<exists>t. rb_insert_color 5 [RB_right RB_RED RB_NULL 3, RB_right RB_BLACK (RB_Node RB_RED RB_NULL 1 RB_NULL) (2 :: nat)] = Some t \<and>
     rb_wf t \<and> rb_inorder t = [1, 2, 3, 5]"
  using rb_insert_correct [of "[RB_right RB_RED RB_NULL 3, RB_right RB_BLACK (RB_Node RB_RED RB_NULL 1 RB_NULL) (2 :: nat)]" 5]
  by (simp add: rb_wf_def)

text \<open>
  C16: \<^verbatim>\<open>rb_erase\<close> at any node of a red-black tree gives a red-black tree with exactly that entry removed;
  the rebalancing loop ends and never dereferences a missing sibling or parent.
\<close>

theorem rb_erase_correct:
  assumes "rb_wf (rb_plug (RB_Node c l a r) path)"
  shows "\<exists>t. rb_erase (RB_Node c l a r) path = Some t \<and> rb_wf t \<and>
    rb_inorder t = rb_before path @ rb_inorder l @ rb_inorder r @ rb_after path"
  using rb_erase_wf [OF assms] rb_erase_inorder [of c l a r path] by blast

theorem rb_erase_correct_witness:
  "\<exists>t. rb_erase (RB_Node RB_BLACK RB_NULL 1 RB_NULL) [RB_left RB_BLACK (2 :: nat) (RB_Node RB_BLACK RB_NULL 3 RB_NULL)] = Some t \<and>
     rb_wf t \<and> rb_inorder t = [2, 3]"
  using rb_erase_correct [of RB_BLACK RB_NULL 1 RB_NULL "[RB_left RB_BLACK (2 :: nat) (RB_Node RB_BLACK RB_NULL 3 RB_NULL)]"]
  by (simp add: rb_wf_def)

text \<open>
  C25: A tree with \<open>n\<close> entries that insertions, removals and replacements made of the empty tree has height at
  most \<open>2 log\<^sub>2 (n + 1) + 1\<close> (half the height, rounded down, is at most \<open>log\<^sub>2 (n + 1)\<close>), and a search, whatever its comparison, takes at most
  as many steps as the tree is high.
\<close>

theorem rb_depth:
  assumes "rb_built t"
  shows "2 ^ (rb_height t div 2) \<le> Suc (length (rb_inorder t)) \<and> length (snd (rb_descend dir t [])) \<le> rb_height t"
  using rb_wf_height [OF rb_built_wf [OF assms]] rb_descend_length [of dir t "[]"] by simp

theorem rb_depth_witness:
  "\<exists>t. rb_built t \<and> rb_inorder t = [1, 2, 3 :: nat] \<and> 2 ^ (rb_height t div 2) \<le> Suc (length (rb_inorder t)) \<and>
     length (snd (rb_descend (\<lambda>a. if a < 3 then Go_right else Stop) t [])) \<le> rb_height t"
proof -
  let ?t1 = "RB_Node RB_BLACK RB_NULL (1 :: nat) RB_NULL"
  let ?t2 = "RB_Node RB_BLACK RB_NULL 1 (RB_Node RB_RED RB_NULL (2 :: nat) RB_NULL)"
  let ?t3 = "RB_Node RB_BLACK (RB_Node RB_RED RB_NULL 1 RB_NULL) 2 (RB_Node RB_RED RB_NULL (3 :: nat) RB_NULL)"
  have "rb_insert_color 1 [] = Some ?t1" "rb_insert_color 2 [RB_right RB_BLACK RB_NULL 1] = Some ?t2"
    "rb_insert_color 3 [RB_right RB_RED RB_NULL 2, RB_right RB_BLACK RB_NULL 1] = Some ?t3" by code_simp+
  note i = this
  have "rb_built ?t1" using rb_built.insert [OF _ i(1)] by (simp add: rb_built.empty)
  then have "rb_built ?t2" using rb_built.insert [OF _ i(2)] by simp
  then have "rb_built ?t3" using rb_built.insert [OF _ i(3)] by simp
  from rb_depth [OF this] this show ?thesis by (intro exI [of _ ?t3]) simp
qed

text \<open>
  C26: The three iterations end and visit every entry once: \<^verbatim>\<open>rb_first\<close> and \<^verbatim>\<open>rb_next\<close> in order, \<^verbatim>\<open>rb_last\<close> and
  \<^verbatim>\<open>rb_prev\<close> in reverse, \<^verbatim>\<open>rb_first_postorder\<close> and \<^verbatim>\<open>rb_next_postorder\<close> children before parents.
\<close>

theorem rb_iterate:
  "rb_walk rb_next (length (rb_inorder root)) (rb_first root) = Some (rb_inorder root) \<and>
   rb_walk rb_prev (length (rb_inorder root)) (rb_last root) = Some (rev (rb_inorder root)) \<and>
   rb_walk rb_next_postorder (length (rb_postorder root)) (rb_first_postorder root) = Some (rb_postorder root)"
  by (simp add: rb_walk_first rb_walk_last rb_walk_first_postorder)

section \<open>Ordered indexes\<close>

text \<open>
  What the users of the trees rely on. The entries are pairwise ordered by \<open>before\<close>; a comparison
  \<open>probe k\<close> sends the descent to the side on which entries matching \<open>k\<close> are.
\<close>

definition rb_index_ok :: "('a \<Rightarrow> bool) \<Rightarrow> ('a \<Rightarrow> 'a \<Rightarrow> bool) \<Rightarrow> 'a rb_tree \<Rightarrow> bool" where
  "rb_index_ok ok before t \<longleftrightarrow>
     rb_wf t \<and> sorted_wrt before (rb_inorder t) \<and> (\<forall>a\<in>set (rb_inorder t). ok a)"

lemma rb_descend_plug: "rb_descend dir t p = (u, q) \<Longrightarrow> rb_plug u q = rb_plug t p"
  by (induction dir t p rule: rb_descend.induct) (auto split: rb_dir.splits)

lemma rb_descend_stop: "rb_descend dir t p = (RB_Node c l a r, q) \<Longrightarrow> dir a = Stop"
  by (induction dir t p rule: rb_descend.induct) (auto split: rb_dir.splits)

lemma rb_index_ok_empty [simp]: "rb_index_ok ok before RB_NULL"
  by (simp add: rb_index_ok_def rb_wf_def)

locale rb_index =
  fixes ok :: "'a \<Rightarrow> bool"
    and before :: "'a \<Rightarrow> 'a \<Rightarrow> bool"
    and probe :: "'k \<Rightarrow> 'a \<Rightarrow> rb_dir"
  assumes probe_left: "ok y \<Longrightarrow> ok z \<Longrightarrow> before y z \<Longrightarrow> probe k y = Go_left \<Longrightarrow> probe k z = Go_left"
    and probe_right: "ok y \<Longrightarrow> ok z \<Longrightarrow> before z y \<Longrightarrow> probe k y = Go_right \<Longrightarrow> probe k z = Go_right"
    and before_irrefl: "ok y \<Longrightarrow> \<not> before y y"
begin

lemma descend_slot:
  assumes "rb_descend (probe k) t p = (RB_NULL, q)"
    and "sorted_wrt before (rb_inorder t)" "\<forall>a\<in>set (rb_inorder t). ok a"
  shows "\<exists>ls rs. rb_inorder t = ls @ rs \<and> rb_before q = rb_before p @ ls \<and> rb_after q = rs @ rb_after p
    \<and> (\<forall>a\<in>set ls. probe k a = Go_right) \<and> (\<forall>a\<in>set rs. probe k a = Go_left)"
  using assms
proof (induction "probe k" t p rule: rb_descend.induct)
  case (1 path)
  then show ?case by auto
next
  case (2 c l a r path)
  show ?case
  proof (cases "probe k a")
    case Go_left
    with 2 obtain ls rs where l: "rb_inorder l = ls @ rs" "rb_before q = rb_before path @ ls"
      "rb_after q = rs @ a # rb_inorder r @ rb_after path"
      "\<forall>b\<in>set ls. probe k b = Go_right" "\<forall>b\<in>set rs. probe k b = Go_left"
      by (auto simp: sorted_wrt_append)
    have "\<forall>b\<in>set (rb_inorder r). probe k b = Go_left"
      using "2.prems" Go_left by (auto simp: sorted_wrt_append intro: probe_left [of a])
    with l Go_left show ?thesis
      by (intro exI [of _ ls] exI [of _ "rs @ a # rb_inorder r"]) auto
  next
    case Go_right
    with 2 obtain ls rs where r: "rb_inorder r = ls @ rs"
      "rb_before q = rb_before path @ rb_inorder l @ a # ls" "rb_after q = rs @ rb_after path"
      "\<forall>b\<in>set ls. probe k b = Go_right" "\<forall>b\<in>set rs. probe k b = Go_left"
      by (auto simp: sorted_wrt_append)
    have "\<forall>b\<in>set (rb_inorder l). probe k b = Go_right"
      using "2.prems" Go_right by (auto simp: sorted_wrt_append intro: probe_right [of a])
    with r Go_right show ?thesis
      by (intro exI [of _ "rb_inorder l @ a # ls"] exI [of _ rs]) auto
  next
    case Stop
    with "2.prems" show ?thesis by simp
  qed
qed

lemma find_Some:
  assumes "rb_find (probe k) t = Some (u, p)"
  shows "rb_plug u p = t \<and> (\<exists>a. rb_entry (u, p) = Some a \<and> a \<in> set (rb_inorder t) \<and> probe k a = Stop)"
proof -
  from assms have d: "rb_descend (probe k) t [] = (u, p)" and "u \<noteq> RB_NULL"
    by (auto simp: rb_find_def split: prod.splits rb_tree.splits)
  then obtain c l a r where u: "u = RB_Node c l a r" by (cases u) auto
  from d u have "probe k a = Stop" by (auto intro: rb_descend_stop)
  with u rb_descend_plug [OF d] show ?thesis
    by (auto simp: rb_inorder_plug)
qed

lemma find_None:
  assumes "rb_index_ok ok before t"
  shows "rb_find (probe k) t = None \<longleftrightarrow> (\<forall>a\<in>set (rb_inorder t). probe k a \<noteq> Stop)"
proof
  assume "rb_find (probe k) t = None"
  then obtain p where "rb_descend (probe k) t [] = (RB_NULL, p)"
    by (auto simp: rb_find_def split: prod.splits rb_tree.splits)
  with descend_slot [of k t "[]" p] assms show "\<forall>a\<in>set (rb_inorder t). probe k a \<noteq> Stop"
    by (auto simp: rb_index_ok_def)
next
  assume "\<forall>a\<in>set (rb_inorder t). probe k a \<noteq> Stop"
  with find_Some [of k t] show "rb_find (probe k) t = None"
    by (cases "rb_find (probe k) t") auto
qed

lemma erase_spec:
  assumes "rb_index_ok ok before (rb_plug t p)" and "rb_entry (t, p) = Some a"
  shows "\<exists>t'. rb_erase t p = Some t' \<and> rb_index_ok ok before t' \<and>
    rb_inorder (rb_plug t p) = rb_upto (t, p) @ a # rb_beyond (t, p) \<and>
    rb_inorder t' = rb_upto (t, p) @ rb_beyond (t, p) \<and>
    set (rb_inorder t') = set (rb_inorder (rb_plug t p)) - {a}"
proof -
  from assms(2) obtain c l r where t: "t = RB_Node c l a r" by (cases t) auto
  from assms(1) rb_erase_wf [of c l a r p] obtain t' where t': "rb_erase t p = Some t'" and wf: "rb_wf t'"
    unfolding t rb_index_ok_def by blast
  let ?ls = "rb_upto (t, p)" and ?rs = "rb_beyond (t, p)"
  have io: "rb_inorder (rb_plug t p) = ?ls @ a # ?rs" by (simp add: t rb_simps)
  have io': "rb_inorder t' = ?ls @ ?rs" using rb_erase_inorder t' by (simp add: t)
  from assms(1) io have "sorted_wrt before (?ls @ a # ?rs)" "\<forall>b\<in>set (?ls @ a # ?rs). ok b"
    by (simp_all add: rb_index_ok_def)
  then have "sorted_wrt before (?ls @ ?rs)" "\<forall>b\<in>set (?ls @ ?rs). ok b" "a \<notin> set (?ls @ ?rs)"
    using before_irrefl [of a] by (auto simp: sorted_wrt_mid)
  with wf io io' t' show ?thesis by (auto simp: rb_index_ok_def)
qed

end

text \<open>An index into which entries are inserted by their own key.\<close>

locale rb_index_insert = rb_index ok before probe
  for ok :: "'a \<Rightarrow> bool" and before :: "'a \<Rightarrow> 'a \<Rightarrow> bool" and probe :: "'k \<Rightarrow> 'a \<Rightarrow> rb_dir" +
  fixes key :: "'a \<Rightarrow> 'k"
  assumes insert_left: "ok x \<Longrightarrow> ok y \<Longrightarrow> probe (key x) y = Go_left \<Longrightarrow> before x y"
    and insert_right: "ok x \<Longrightarrow> ok y \<Longrightarrow> probe (key x) y = Go_right \<Longrightarrow> before y x"
begin

lemma insert_clash:
  assumes "rb_index_ok ok before t" and "a \<in> set (rb_inorder t)" "probe (key x) a = Stop"
  shows "rb_insert_at (probe (key x)) x t = Some (t, False)"
proof -
  from assms find_None [of t "key x"] have "rb_find (probe (key x)) t \<noteq> None" by blast
  then show ?thesis
    by (auto simp: rb_find_def rb_insert_at_def split: prod.splits rb_tree.splits)
qed

lemma insert_new:
  assumes "rb_index_ok ok before t" and "ok x" and "\<forall>a\<in>set (rb_inorder t). probe (key x) a \<noteq> Stop"
  shows "\<exists>t' ls rs. rb_insert_at (probe (key x)) x t = Some (t', True) \<and> rb_index_ok ok before t' \<and>
    rb_inorder t = ls @ rs \<and> rb_inorder t' = ls @ x # rs \<and>
    (\<forall>a\<in>set ls. before a x) \<and> (\<forall>a\<in>set rs. before x a)"
proof -
  from assms find_None [of t "key x"] have "rb_find (probe (key x)) t = None" by simp
  then obtain p where d: "rb_descend (probe (key x)) t [] = (RB_NULL, p)"
    by (auto simp: rb_find_def split: prod.splits rb_tree.splits)
  with descend_slot [OF d] assms obtain ls rs where io: "rb_inorder t = ls @ rs"
    and bp: "rb_before p = ls" "rb_after p = rs"
    and ls: "\<forall>a\<in>set ls. probe (key x) a = Go_right" and rs: "\<forall>a\<in>set rs. probe (key x) a = Go_left"
    by (auto simp: rb_index_ok_def)
  have "rb_plug RB_NULL p = t" using rb_descend_plug [OF d] by simp
  with assms rb_insert_color_wf [of p x] obtain t' where
    t': "rb_insert_color x p = Some t'" and wf: "rb_wf t'"
    by (auto simp: rb_index_ok_def)
  have io': "rb_inorder t' = ls @ x # rs" using rb_insert_color_inorder [OF t'] bp by simp
  have b: "\<forall>a\<in>set ls. before a x" "\<forall>a\<in>set rs. before x a"
    using assms ls rs io by (auto simp: rb_index_ok_def intro: insert_left insert_right)
  with assms io io' wf have "rb_index_ok ok before t'"
    by (auto simp: rb_index_ok_def sorted_wrt_mid)
  moreover have "rb_insert_at (probe (key x)) x t = Some (t', True)"
    using d t' by (simp add: rb_insert_at_def)
  ultimately show ?thesis using io io' b by blast
qed

end

end
