(* ===== verification/Pid.thy ===== *)
theory Pid
  imports Rbtree
begin

text \<open>
  The process table of \<^verbatim>\<open>kernel/core/pid.c\<close>: a red-black tree of the \<^verbatim>\<open>pid_struct\<close>s embedded in the
  task structures, ordered by pid, and the list \<^verbatim>\<open>pid_root_cache\<close> of freed pids to hand out again.
  A task is the address of its \<^verbatim>\<open>task_struct\<close>; the tree holds tasks (\<^verbatim>\<open>container_of\<close>) and
  compares the \<^verbatim>\<open>pid\<close> fields they have when it is searched. \<^verbatim>\<open>kmalloc\<close> is a boolean argument: whether
  the allocation succeeds.
\<close>

section \<open>State\<close>

type_synonym task = nat

record pid_state =
  task_pid :: "task \<Rightarrow> int"
  pid_root :: "task rb_tree"
  pid_root_cache :: "int list"

abbreviation INT_MAX :: int where "INT_MAX \<equiv> 2147483647"

text \<open>A value stored into a 32-bit \<^verbatim>\<open>int\<close>.\<close>

definition s32 :: "int \<Rightarrow> int" where
  "s32 x = sint (word_of_int x :: 32 word)"

section \<open>Operations\<close>

definition pid_cmp :: "(task \<Rightarrow> int) \<Rightarrow> int \<Rightarrow> task \<Rightarrow> rb_dir" where
  "pid_cmp pids p this =
     (if p < pids this then Go_left else if p > pids this then Go_right else Stop)"

definition pid_find :: "pid_state \<Rightarrow> int \<Rightarrow> (task rb_tree \<times> task rb_path) option" where
  "pid_find st p = rb_find (pid_cmp (task_pid st) p) (pid_root st)"

definition pid_find_process_by_pid :: "pid_state \<Rightarrow> int \<Rightarrow> task option" where
  "pid_find_process_by_pid st p =
     (case pid_find st p of None \<Rightarrow> None | Some pos \<Rightarrow> rb_entry pos)"

definition pid_insert :: "pid_state \<Rightarrow> task \<Rightarrow> (pid_state \<times> bool) option" where
  "pid_insert st tsk =
     map_option (\<lambda>(root, inserted). (st\<lparr>pid_root := root\<rparr>, inserted))
       (rb_insert_at (pid_cmp (task_pid st) (task_pid st tsk)) tsk (pid_root st))"

definition pid_insert_process_by_pid :: "pid_state \<Rightarrow> task option \<Rightarrow> (pid_state \<times> bool) option" where
  "pid_insert_process_by_pid st tsk =
     (case tsk of None \<Rightarrow> Some (st, False) | Some t \<Rightarrow> pid_insert st t)"

definition pid_alloc_pid :: "pid_state \<Rightarrow> task option \<Rightarrow> (pid_state \<times> int) option" where
  "pid_alloc_pid st tsk =
     (case tsk of
        None \<Rightarrow> Some (st, - EINVAL)
      | Some t \<Rightarrow>
          (case pid_root_cache st of
             p # cache \<Rightarrow> do {
               (st', inserted) \<leftarrow> pid_insert_process_by_pid
                 (st\<lparr>pid_root_cache := cache, task_pid := (task_pid st)(t := p)\<rparr>) tsk;
               bug_on (\<not> inserted);
               Some (st', 0) }
           | [] \<Rightarrow> do {
               node \<leftarrow> rb_last (pid_root st);
               last_tsk \<leftarrow> rb_entry node;
               (st', inserted) \<leftarrow> pid_insert_process_by_pid
                 (st\<lparr>task_pid := (task_pid st)(t := s32 (task_pid st last_tsk + 1))\<rparr>) tsk;
               bug_on (\<not> inserted);
               Some (st', 0) }))"

definition pid_remove_pid_by_process ::
    "pid_state \<Rightarrow> task option \<Rightarrow> bool \<Rightarrow> (pid_state \<times> bool) option" where
  "pid_remove_pid_by_process st tsk kmalloc_ok =
     (case tsk of
        None \<Rightarrow> Some (st, False)
      | Some t \<Rightarrow>
          (case pid_find st (task_pid st t) of
             None \<Rightarrow> Some (st, False)
           | Some (node, path) \<Rightarrow>
               let is_last = (rb_last (pid_root st) = Some (node, path)) in
               if \<not> is_last \<and> \<not> kmalloc_ok then Some (st, False)
               else do {
                 root \<leftarrow> rb_erase node path;
                 Some (st\<lparr>pid_root := root,
                          pid_root_cache :=
                            (if is_last then pid_root_cache st
                             else task_pid st t # pid_root_cache st)\<rparr>, True) }))"

definition pid_first :: "pid_state \<Rightarrow> int" where
  "pid_first st =
     (case rb_first (pid_root st) of
        None \<Rightarrow> INT_MAX
      | Some pos \<Rightarrow> (case rb_entry pos of None \<Rightarrow> INT_MAX | Some t \<Rightarrow> task_pid st t))"

definition pid_next :: "pid_state \<Rightarrow> int \<Rightarrow> int" where
  "pid_next st p =
     (case pid_find st p of
        None \<Rightarrow> INT_MAX
      | Some (node, path) \<Rightarrow>
          (case rb_next node path of
             None \<Rightarrow> INT_MAX
           | Some pos \<Rightarrow> (case rb_entry pos of None \<Rightarrow> INT_MAX | Some t \<Rightarrow> task_pid st t)))"

text \<open>
  \<^verbatim>\<open>process_pid_init\<close>: the idle thread of each possible cpu gets the pid \<open>- cpu\<close>. The list gives
  the cpu numbers and their \<^verbatim>\<open>idle_threads\<close>.
\<close>

fun process_pid_init :: "pid_state \<Rightarrow> (int \<times> task) list \<Rightarrow> pid_state option" where
  "process_pid_init st [] = Some st"
| "process_pid_init st ((cpu, idle) # cpus) = do {
     (st', inserted) \<leftarrow> pid_insert_process_by_pid (st\<lparr>task_pid := (task_pid st)(idle := - cpu)\<rparr>) (Some idle);
     bug_on (\<not> inserted);
     process_pid_init st' cpus }"

text \<open>
  The loop \<^verbatim>\<open>pid_for_each_pid\<close> of \<^verbatim>\<open>pid.h\<close>, which visits pids until it meets \<^verbatim>\<open>INT_MAX\<close>. The
  first argument bounds the rounds; \<open>None\<close> says that the bound did not suffice.
\<close>

fun pid_for_each :: "nat \<Rightarrow> pid_state \<Rightarrow> int \<Rightarrow> int list option" where
  "pid_for_each 0 st p = None"
| "pid_for_each (Suc n) st p =
     (if p = INT_MAX then Some [] else map_option ((#) p) (pid_for_each n st (pid_next st p)))"

section \<open>Invariant\<close>

definition pid_tasks :: "pid_state \<Rightarrow> task set" where
  "pid_tasks st = set (rb_inorder (pid_root st))"

definition pids_in_use :: "pid_state \<Rightarrow> int set" where
  "pids_in_use st = task_pid st ` pid_tasks st"

abbreviation pid_before :: "(task \<Rightarrow> int) \<Rightarrow> task \<Rightarrow> task \<Rightarrow> bool" where
  "pid_before pids a b \<equiv> pids a < pids b"

text \<open>
  The tree is a red-black tree ordered by pid, pids are C \<^verbatim>\<open>int\<close>s below \<^verbatim>\<open>INT_MAX\<close> (the value that
  ends \<^verbatim>\<open>pid_for_each_pid\<close>), and the cache holds distinct pids that are not in use.
\<close>

definition pid_inv :: "pid_state \<Rightarrow> bool" where
  "pid_inv st \<longleftrightarrow>
     rb_index_ok (\<lambda>_. True) (pid_before (task_pid st)) (pid_root st) \<and>
     (\<forall>p\<in>pids_in_use st. - (2 ^ 31) \<le> p \<and> p < INT_MAX) \<and>
     (\<forall>p\<in>set (pid_root_cache st). - (2 ^ 31) \<le> p \<and> p < INT_MAX) \<and>
     distinct (pid_root_cache st) \<and>
     set (pid_root_cache st) \<inter> pids_in_use st = {}"

interpretation pidx: rb_index_insert "\<lambda>_. True" "pid_before pids" "pid_cmp pids" pids
  for pids :: "task \<Rightarrow> int"
  by unfold_locales (auto simp: pid_cmp_def split: if_splits)

lemma s32_id: "- (2 ^ 31) \<le> x \<Longrightarrow> x < 2 ^ 31 \<Longrightarrow> s32 x = x"
  by (simp add: s32_def int_word_sint)

lemma pid_cmp_Stop [simp]: "pid_cmp pids p t = Stop \<longleftrightarrow> pids t = p"
  by (auto simp: pid_cmp_def)

lemma sorted_inj:
  fixes f :: "'a \<Rightarrow> int"
  shows "sorted_wrt (\<lambda>a b. f a < f b) xs \<Longrightarrow> inj_on f (set xs)"
proof (induction xs)
  case (Cons x xs)
  then have "f x \<notin> f ` set xs" by fastforce
  with Cons show ?case by auto
qed simp

lemma pid_inv_inj: "pid_inv st \<Longrightarrow> inj_on (task_pid st) (pid_tasks st)"
  by (simp add: pid_inv_def rb_index_ok_def pid_tasks_def sorted_inj)

section \<open>Lookup\<close>

lemma pid_find_Some:
  assumes "pid_find st p = Some (u, q)"
  shows "rb_plug u q = pid_root st \<and> (\<exists>t. rb_entry (u, q) = Some t \<and> t \<in> pid_tasks st \<and> task_pid st t = p)"
  using pidx.find_Some [of "task_pid st" p "pid_root st" u q] assms
  by (auto simp: pid_find_def pid_tasks_def)

lemma pid_find_None:
  assumes "pid_inv st"
  shows "pid_find st p = None \<longleftrightarrow> p \<notin> pids_in_use st"
  using pidx.find_None [of "task_pid st" "pid_root st" p] assms
  by (auto simp: pid_find_def pid_inv_def pids_in_use_def pid_tasks_def)

lemma pid_find_process_iff:
  assumes "pid_inv st"
  shows "pid_find_process_by_pid st p = Some t \<longleftrightarrow> t \<in> pid_tasks st \<and> task_pid st t = p"
proof (cases "pid_find st p")
  case None
  with pid_find_None [OF assms, of p] show ?thesis
    by (auto simp: pid_find_process_by_pid_def pids_in_use_def)
next
  case (Some pos)
  obtain u q where pos: "pos = (u, q)" by (cases pos)
  with Some pid_find_Some [of st p u q] obtain t' where
    t': "rb_entry (u, q) = Some t'" "t' \<in> pid_tasks st" "task_pid st t' = p" by auto
  with Some pos pid_inv_inj [OF assms] show ?thesis
    by (auto simp: pid_find_process_by_pid_def dest: inj_onD)
qed

section \<open>Insertion and allocation\<close>

text \<open>Changing the pid field of a task that is not in the table does not disturb the table.\<close>

lemma index_ok_fresh_pid:
  assumes "t \<notin> set (rb_inorder root)"
  shows "rb_index_ok ok (pid_before (pids(t := p))) root \<longleftrightarrow> rb_index_ok ok (pid_before pids) root"
proof -
  have "sorted_wrt (pid_before (pids(t := p))) xs \<longleftrightarrow> sorted_wrt (pid_before pids) xs"
    if "t \<notin> set xs" for xs
    using that by (induction xs) auto
  with assms show ?thesis by (simp add: rb_index_ok_def)
qed

lemma pid_insert_spec:
  assumes "rb_index_ok (\<lambda>_. True) (pid_before (task_pid st)) (pid_root st)"
    and "task_pid st t \<notin> pids_in_use st"
  shows "\<exists>root. pid_insert st t = Some (st\<lparr>pid_root := root\<rparr>, True) \<and>
    rb_index_ok (\<lambda>_. True) (pid_before (task_pid st)) root \<and>
    set (rb_inorder root) = insert t (pid_tasks st)"
proof -
  from assms(2) have "\<forall>a\<in>set (rb_inorder (pid_root st)). pid_cmp (task_pid st) (task_pid st t) a \<noteq> Stop"
    by (auto simp: pids_in_use_def pid_tasks_def image_iff)
  from pidx.insert_new [OF assms(1) _ this] obtain root ls rs where
    "rb_insert_at (pid_cmp (task_pid st) (task_pid st t)) t (pid_root st) = Some (root, True)"
    "rb_index_ok (\<lambda>_. True) (pid_before (task_pid st)) root"
    "rb_inorder (pid_root st) = ls @ rs" "rb_inorder root = ls @ t # rs"
    by auto
  then show ?thesis
    by (intro exI [of _ root]) (simp add: pid_insert_def pid_tasks_def)
qed

lemma pid_insert_clash:
  assumes "pid_inv st" and "task_pid st t \<in> pids_in_use st"
  shows "pid_insert st t = Some (st, False)"
proof -
  from assms obtain a where "a \<in> set (rb_inorder (pid_root st))" "task_pid st a = task_pid st t"
    by (auto simp: pids_in_use_def pid_tasks_def)
  with pidx.insert_clash [of "task_pid st" "pid_root st" a t] assms(1) show ?thesis
    by (simp add: pid_insert_def pid_inv_def)
qed

text \<open>What a successful registration of \<open>t\<close> under the pid \<open>p\<close> leaves behind.\<close>

definition pid_registered :: "pid_state \<Rightarrow> task \<Rightarrow> int \<Rightarrow> int list \<Rightarrow> pid_state \<Rightarrow> bool" where
  "pid_registered st t p cache st' \<longleftrightarrow>
     task_pid st' = (task_pid st)(t := p) \<and> pid_root_cache st' = cache \<and>
     pid_tasks st' = insert t (pid_tasks st) \<and> pids_in_use st' = insert p (pids_in_use st)"

lemma pid_register:
  assumes inv: "pid_inv st" and t: "t \<notin> pid_tasks st" and p: "p \<notin> pids_in_use st"
    and range: "- (2 ^ 31) \<le> p" "p < INT_MAX"
    and cache: "distinct cache" "set cache \<subseteq> set (pid_root_cache st)" "p \<notin> set cache"
  shows "\<exists>st'. pid_insert_process_by_pid
             (st\<lparr>pid_root_cache := cache, task_pid := (task_pid st)(t := p)\<rparr>) (Some t) = Some (st', True)
           \<and> pid_registered st t p cache st' \<and> pid_inv st'"
proof -
  let ?s = "st\<lparr>pid_root_cache := cache, task_pid := (task_pid st)(t := p)\<rparr>"
  have tasks: "pid_tasks ?s = pid_tasks st" by (simp add: pid_tasks_def)
  have use: "pids_in_use ?s = pids_in_use st"
    using t by (auto simp: pids_in_use_def tasks)
  have "rb_index_ok (\<lambda>_. True) (pid_before (task_pid ?s)) (pid_root ?s)"
    using inv t index_ok_fresh_pid [of t "pid_root st" "\<lambda>_. True" "task_pid st" p]
    by (simp add: pid_inv_def pid_tasks_def)
  moreover have "task_pid ?s t \<notin> pids_in_use ?s" using p use by simp
  ultimately obtain root where ins: "pid_insert ?s t = Some (?s\<lparr>pid_root := root\<rparr>, True)"
    and ok: "rb_index_ok (\<lambda>_. True) (pid_before (task_pid ?s)) root"
    and set: "set (rb_inorder root) = insert t (pid_tasks ?s)"
    using pid_insert_spec [of ?s t] by blast
  let ?s' = "?s\<lparr>pid_root := root\<rparr>"
  have use': "pids_in_use ?s' = insert p (pids_in_use st)"
    using set t by (auto simp: pids_in_use_def pid_tasks_def)
  have "pid_registered st t p cache ?s'"
    using set use' tasks by (simp add: pid_registered_def pid_tasks_def)
  moreover have "pid_inv ?s'"
    using inv ok use' range cache by (auto simp: pid_inv_def)
  ultimately show ?thesis
    using ins by (simp add: pid_insert_process_by_pid_def)
qed

lemma pid_root_max:
  assumes "pid_inv st" "rb_last (pid_root st) = Some pos"
  shows "\<exists>t. rb_entry pos = Some t \<and> t \<in> pid_tasks st \<and> (\<forall>u\<in>pid_tasks st. task_pid st u \<le> task_pid st t)"
proof -
  obtain u q where pos: "pos = (u, q)" by (cases pos)
  from rb_last_spec [of "pid_root st" u q] assms(2) pos
  have e: "rb_entry pos = Some (last (rb_inorder (pid_root st)))" and ne: "rb_inorder (pid_root st) \<noteq> []"
    by auto
  have "sorted_wrt (pid_before (task_pid st)) (rb_inorder (pid_root st))"
    using assms(1) by (simp add: pid_inv_def rb_index_ok_def)
  from sorted_wrt_last [OF this] have
    "\<forall>u\<in>pid_tasks st. task_pid st u \<le> task_pid st (last (rb_inorder (pid_root st)))"
    by (fastforce simp: pid_tasks_def)
  with e ne show ?thesis by (simp add: pid_tasks_def)
qed

text \<open>
  C18: \<^verbatim>\<open>pid_alloc_pid\<close> gives a task a pid that no other task has: it trips none of its \<^verbatim>\<open>BUG_ON\<close>s, the new
  pid comes from the cache if there is one, and the table keeps its invariant. With an empty cache
  some task must be registered and the largest pid must leave room below \<^verbatim>\<open>INT_MAX\<close>.
\<close>

theorem pid_alloc_spec:
  assumes inv: "pid_inv st" and t: "t \<notin> pid_tasks st"
    and room: "pid_root_cache st = [] \<longrightarrow> pid_tasks st \<noteq> {} \<and> (\<forall>p\<in>pids_in_use st. p < INT_MAX - 1)"
  shows "\<exists>st' p. pid_alloc_pid st (Some t) = Some (st', 0) \<and> pid_inv st' \<and>
    p \<notin> pids_in_use st \<and> pid_registered st t p (tl (pid_root_cache st)) st'"
proof (cases "pid_root_cache st")
  case (Cons p cache)
  with inv have p: "p \<notin> pids_in_use st" "- (2 ^ 31) \<le> p" "p < INT_MAX" "distinct cache" "p \<notin> set cache"
    by (auto simp: pid_inv_def)
  from pid_register [OF inv t p(1,2,3,4) _ p(5)] Cons obtain st' where
    "pid_insert_process_by_pid (st\<lparr>pid_root_cache := cache, task_pid := (task_pid st)(t := p)\<rparr>) (Some t)
       = Some (st', True)" "pid_registered st t p cache st'" "pid_inv st'"
    by auto
  with p Cons show ?thesis by (auto simp: pid_alloc_pid_def)
next
  case Nil
  with room have ne: "rb_inorder (pid_root st) \<noteq> []" and max: "\<forall>p\<in>pids_in_use st. p < INT_MAX - 1"
    by (auto simp: pid_tasks_def)
  from ne rb_last_spec [of "pid_root st"] obtain pos where pos: "rb_last (pid_root st) = Some pos"
    by (cases "rb_last (pid_root st)") auto
  with pid_root_max [OF inv] obtain m where m: "rb_entry pos = Some m" "m \<in> pid_tasks st"
    and le: "\<forall>u\<in>pid_tasks st. task_pid st u \<le> task_pid st m" by blast
  let ?p = "task_pid st m + 1"
  have mr: "- (2 ^ 31) \<le> task_pid st m" "task_pid st m < INT_MAX - 1"
    using inv max m by (auto simp: pid_inv_def pids_in_use_def)
  then have s: "s32 ?p = ?p" by (simp add: s32_id)
  have "?p \<notin> pids_in_use st" using le by (auto simp: pids_in_use_def)
  with pid_register [OF inv t this, of "[]"] mr obtain st' where
    "pid_insert_process_by_pid (st\<lparr>pid_root_cache := [], task_pid := (task_pid st)(t := ?p)\<rparr>) (Some t)
       = Some (st', True)" "pid_registered st t ?p [] st'" "pid_inv st'"
    by auto
  moreover have "st\<lparr>pid_root_cache := [], task_pid := (task_pid st)(t := ?p)\<rparr> =
      st\<lparr>task_pid := (task_pid st)(t := ?p)\<rparr>"
    using Nil by simp
  ultimately show ?thesis
    using \<open>?p \<notin> pids_in_use st\<close> pos m s Nil by (auto simp: pid_alloc_pid_def)
qed

section \<open>Removal\<close>

lemma pid_found_position:
  assumes inv: "pid_inv st" and t: "t \<in> pid_tasks st"
  obtains u q where "pid_find st (task_pid st t) = Some (u, q)" "rb_plug u q = pid_root st"
    "rb_entry (u, q) = Some t" "rb_inorder (pid_root st) = rb_upto (u, q) @ t # rb_beyond (u, q)"
    "\<forall>a\<in>set (rb_upto (u, q)). task_pid st a < task_pid st t"
    "\<forall>a\<in>set (rb_beyond (u, q)). task_pid st t < task_pid st a"
proof -
  from inv t pid_find_None [OF inv, of "task_pid st t"] obtain pos where
    pos: "pid_find st (task_pid st t) = Some pos"
    by (auto simp: pids_in_use_def)
  obtain u q where uq: "pos = (u, q)" by (cases pos)
  with pos pid_find_Some [of st "task_pid st t" u q] obtain t' where
    plug: "rb_plug u q = pid_root st" and t': "rb_entry (u, q) = Some t'" "t' \<in> pid_tasks st"
    "task_pid st t' = task_pid st t" by auto
  with pid_inv_inj [OF inv] t have e: "rb_entry (u, q) = Some t" by (auto dest: inj_onD)
  then have io: "rb_inorder (pid_root st) = rb_upto (u, q) @ t # rb_beyond (u, q)"
    using plug rb_inorder_plug [of u q] by (cases u) auto
  have "sorted_wrt (pid_before (task_pid st)) (rb_upto (u, q) @ t # rb_beyond (u, q))"
    using inv io by (simp add: pid_inv_def rb_index_ok_def)
  then show thesis
    using that pos uq plug e io by (simp add: sorted_wrt_mid)
qed

text \<open>What removing \<open>t\<close> leaves behind.\<close>

definition pid_removed :: "pid_state \<Rightarrow> task \<Rightarrow> int list \<Rightarrow> pid_state \<Rightarrow> bool" where
  "pid_removed st t cache st' \<longleftrightarrow>
     task_pid st' = task_pid st \<and> pid_root_cache st' = cache \<and>
     pid_tasks st' = pid_tasks st - {t} \<and> pids_in_use st' = pids_in_use st - {task_pid st t}"

lemma pid_remove_cases:
  assumes inv: "pid_inv st" and t: "t \<in> pid_tasks st"
  defines "is_last \<equiv> \<forall>u\<in>pid_tasks st. task_pid st u \<le> task_pid st t"
  shows "if is_last \<or> kmalloc_ok
    then \<exists>st'. pid_remove_pid_by_process st (Some t) kmalloc_ok = Some (st', True) \<and> pid_inv st' \<and>
      pid_removed st t (if is_last then pid_root_cache st else task_pid st t # pid_root_cache st) st'
    else pid_remove_pid_by_process st (Some t) kmalloc_ok = Some (st, False)"
proof -
  from inv t obtain u q where find: "pid_find st (task_pid st t) = Some (u, q)"
    and plug: "rb_plug u q = pid_root st" and e: "rb_entry (u, q) = Some t"
    and io: "rb_inorder (pid_root st) = rb_upto (u, q) @ t # rb_beyond (u, q)"
    and lt: "\<forall>a\<in>set (rb_upto (u, q)). task_pid st a < task_pid st t"
    and gt: "\<forall>a\<in>set (rb_beyond (u, q)). task_pid st t < task_pid st a"
    by (rule pid_found_position)
  have tasks: "pid_tasks st = set (rb_upto (u, q)) \<union> insert t (set (rb_beyond (u, q)))"
    using io by (simp add: pid_tasks_def)
  have "rb_beyond (u, q) = [] \<longleftrightarrow> is_last"
    using lt gt unfolding is_last_def tasks by (cases "rb_beyond (u, q)") (auto simp: not_le)
  with rb_last_iff [OF e] plug have last: "rb_last (pid_root st) = Some (u, q) \<longleftrightarrow> is_last" by simp
  from pidx.erase_spec [of "task_pid st" u q t] inv plug e obtain root where
    er: "rb_erase u q = Some root" and ok: "rb_index_ok (\<lambda>_. True) (pid_before (task_pid st)) root"
    and io': "rb_inorder root = rb_upto (u, q) @ rb_beyond (u, q)"
    by (auto simp: pid_inv_def)
  let ?c = "if is_last then pid_root_cache st else task_pid st t # pid_root_cache st"
  let ?st = "st\<lparr>pid_root := root, pid_root_cache := ?c\<rparr>"
  have tasks': "pid_tasks ?st = pid_tasks st - {t}"
    using io' lt gt unfolding tasks by (auto simp: pid_tasks_def)
  have use': "pids_in_use ?st = pids_in_use st - {task_pid st t}"
    using inj_on_image_set_diff [OF pid_inv_inj [OF inv], of "pid_tasks st" "{t}"] t tasks'
    by (simp add: pids_in_use_def)
  have "task_pid st t \<in> pids_in_use st" using t by (simp add: pids_in_use_def)
  then have "pid_inv ?st" using inv ok use' by (auto simp: pid_inv_def)
  moreover have "pid_removed st t ?c ?st" using tasks' use' by (simp add: pid_removed_def)
  ultimately show ?thesis
    using find er last by (auto simp: pid_remove_pid_by_process_def)
qed

section \<open>Iteration\<close>

lemma pid_next_spec:
  assumes inv: "pid_inv st" and io: "rb_inorder (pid_root st) = ls @ t # rs"
  shows "pid_next st (task_pid st t) = (case rs of [] \<Rightarrow> INT_MAX | b # _ \<Rightarrow> task_pid st b)"
proof -
  have t: "t \<in> pid_tasks st" using io by (simp add: pid_tasks_def)
  from inv t obtain u q where find: "pid_find st (task_pid st t) = Some (u, q)"
    and e: "rb_entry (u, q) = Some t"
    and io': "rb_inorder (pid_root st) = rb_upto (u, q) @ t # rb_beyond (u, q)"
    and lt: "\<forall>a\<in>set (rb_upto (u, q)). task_pid st a < task_pid st t"
    and gt: "\<forall>a\<in>set (rb_beyond (u, q)). task_pid st t < task_pid st a"
    by (rule pid_found_position)
  have "t \<notin> set (rb_upto (u, q))" "t \<notin> set (rb_beyond (u, q))" using lt gt by auto
  with io io' have "rs = rb_beyond (u, q)" by (simp add: append_Cons_eq_iff)
  with rb_next_spec [OF e] find show ?thesis
    by (auto simp: pid_next_def split: option.splits list.splits)
qed

lemma pid_for_each_from:
  assumes inv: "pid_inv st"
  shows "rb_inorder (pid_root st) = ls @ t # rs \<Longrightarrow> length rs + 1 < n \<Longrightarrow>
    pid_for_each n st (task_pid st t) = Some (map (task_pid st) (t # rs))"
proof (induction rs arbitrary: n ls t)
  case Nil
  then have "task_pid st t \<noteq> INT_MAX"
    using inv by (force simp: pid_inv_def pids_in_use_def pid_tasks_def)
  with Nil pid_next_spec [OF inv Nil.prems(1)] show ?case
    by (cases n; cases "n - 1") auto
next
  case (Cons b rs)
  then have "task_pid st t \<noteq> INT_MAX"
    using inv by (force simp: pid_inv_def pids_in_use_def pid_tasks_def)
  moreover from Cons.prems(2) obtain m where n: "n = Suc m" by (cases n) auto
  moreover have "pid_for_each m st (task_pid st b) = Some (map (task_pid st) (b # rs))"
    using Cons.prems n Cons.IH [of "ls @ [t]" b m] by simp
  ultimately show ?case
    using pid_next_spec [OF inv Cons.prems(1)] by simp
qed

text \<open>
  C20: The loop \<^verbatim>\<open>pid_for_each_pid\<close> ends after at most one round more than there are tasks, and visits
  every pid in use once, in increasing order.
\<close>

theorem pid_for_each_all:
  assumes inv: "pid_inv st" and n: "length (rb_inorder (pid_root st)) < n"
  shows "pid_for_each n st (pid_first st) = Some (map (task_pid st) (rb_inorder (pid_root st)))"
proof (cases "rb_inorder (pid_root st)")
  case Nil
  with rb_first_spec [of "pid_root st"] n show ?thesis
    by (cases n) (auto simp: pid_first_def)
next
  case (Cons t rs)
  with rb_first_spec [of "pid_root st"] have "pid_first st = task_pid st t"
    by (cases "rb_first (pid_root st)") (auto simp: pid_first_def)
  with pid_for_each_from [OF inv, of "[]" t rs n] Cons n show ?thesis by simp
qed

section \<open>Start-up\<close>

lemma process_pid_init_from:
  assumes "pid_inv st" "pid_root_cache st = []" "distinct (map fst cpus)" "distinct (map snd cpus)"
    "list_all (\<lambda>(cpu, idle). 0 \<le> cpu \<and> cpu < 2 ^ 31 \<and> idle \<notin> pid_tasks st \<and> - cpu \<notin> pids_in_use st) cpus"
  shows "\<exists>st'. process_pid_init st cpus = Some st' \<and> pid_inv st' \<and> pid_root_cache st' = [] \<and>
    pid_tasks st' = pid_tasks st \<union> snd ` set cpus \<and> pids_in_use st' = pids_in_use st \<union> (\<lambda>c. - fst c) ` set cpus \<and>
    list_all (\<lambda>(cpu, idle). task_pid st' idle = - cpu) cpus \<and>
    (\<forall>t. t \<notin> snd ` set cpus \<longrightarrow> task_pid st' t = task_pid st t)"
  using assms
proof (induction cpus arbitrary: st)
  case (Cons c cpus)
  obtain cpu idle where c: "c = (cpu, idle)" by (cases c)
  have h: "idle \<notin> pid_tasks st" "- cpu \<notin> pids_in_use st" "- (2 ^ 31) \<le> - cpu" "- cpu < INT_MAX"
    using Cons.prems(5) c by auto
  have "st\<lparr>pid_root_cache := [], task_pid := (task_pid st)(idle := - cpu)\<rparr> =
      st\<lparr>task_pid := (task_pid st)(idle := - cpu)\<rparr>"
    using Cons.prems(2) by simp
  with pid_register [OF Cons.prems(1) h, of "[]"] obtain st1 where
    ins: "pid_insert_process_by_pid (st\<lparr>task_pid := (task_pid st)(idle := - cpu)\<rparr>) (Some idle) = Some (st1, True)"
    and reg: "pid_registered st idle (- cpu) [] st1" and inv1: "pid_inv st1"
    by auto
  have "list_all (\<lambda>(cpu, idle). 0 \<le> cpu \<and> cpu < 2 ^ 31 \<and> idle \<notin> pid_tasks st1 \<and> - cpu \<notin> pids_in_use st1) cpus"
    unfolding list_all_iff
  proof
    fix x assume x: "x \<in> set cpus"
    then have "fst x \<noteq> cpu" "snd x \<noteq> idle" using Cons.prems(3,4) c by auto
    with x Cons.prems(5) reg show "case x of (cpu, idle) \<Rightarrow>
        0 \<le> cpu \<and> cpu < 2 ^ 31 \<and> idle \<notin> pid_tasks st1 \<and> - cpu \<notin> pids_in_use st1"
      by (auto simp: pid_registered_def list_all_iff)
  qed
  with Cons.IH [OF inv1] Cons.prems(3,4) reg obtain st' where
    "process_pid_init st1 cpus = Some st'" "pid_inv st'" "pid_root_cache st' = []"
    "pid_tasks st' = pid_tasks st1 \<union> snd ` set cpus" "pids_in_use st' = pids_in_use st1 \<union> (\<lambda>c. - fst c) ` set cpus"
    "list_all (\<lambda>(cpu, idle). task_pid st' idle = - cpu) cpus"
    "\<forall>t. t \<notin> snd ` set cpus \<longrightarrow> task_pid st' t = task_pid st1 t"
    by (auto simp: pid_registered_def)
  moreover from this(7) have "task_pid st' idle = - cpu"
    using reg Cons.prems(4) c by (auto simp: pid_registered_def)
  ultimately show ?case
    using ins reg c by (auto simp: pid_registered_def)
qed simp

text \<open>
  C21: \<^verbatim>\<open>process_pid_init\<close> never reaches its \<^verbatim>\<open>BUG()\<close>: starting from an empty table it registers the idle
  thread of every possible cpu under the pid \<^verbatim>\<open>-cpu\<close> and establishes the invariant of the table.
\<close>

theorem process_pid_init_spec:
  assumes "distinct (map fst cpus)" "distinct (map snd cpus)" "\<forall>c\<in>set cpus. 0 \<le> fst c \<and> fst c < 2 ^ 31"
  shows "\<exists>st. process_pid_init \<lparr>task_pid = pids, pid_root = RB_NULL, pid_root_cache = []\<rparr> cpus = Some st \<and>
    pid_inv st \<and> pids_in_use st = (\<lambda>c. - fst c) ` set cpus \<and>
    (\<forall>c\<in>set cpus. pid_find_process_by_pid st (- fst c) = Some (snd c))"
proof -
  let ?st = "\<lparr>task_pid = pids, pid_root = RB_NULL, pid_root_cache = []\<rparr>"
  have e: "pid_inv ?st" "pid_tasks ?st = {}" "pids_in_use ?st = {}"
    by (simp_all add: pid_inv_def pids_in_use_def pid_tasks_def rb_index_ok_def rb_wf_def)
  then obtain st where st: "process_pid_init ?st cpus = Some st" "pid_inv st" "pid_tasks st = snd ` set cpus"
    "pids_in_use st = (\<lambda>c. - fst c) ` set cpus" "list_all (\<lambda>(cpu, idle). task_pid st idle = - cpu) cpus"
    using process_pid_init_from [OF e(1), of cpus] assms by (auto simp: list_all_iff case_prod_beta)
  then have "\<forall>c\<in>set cpus. pid_find_process_by_pid st (- fst c) = Some (snd c)"
    by (auto simp: pid_find_process_iff list_all_iff)
  with st show ?thesis by blast
qed

section \<open>Instances\<close>

text \<open>Three tasks with the pids 0, 1 and 2.\<close>

definition pid_sample :: "pid_state" where
  "pid_sample = \<lparr>task_pid = int, pid_root = RB_Node RB_BLACK (RB_Node RB_RED RB_NULL 0 RB_NULL) 1 (RB_Node RB_RED RB_NULL 2 RB_NULL),
     pid_root_cache = []\<rparr>"

lemma pid_sample_ok: "pid_inv pid_sample" "pid_tasks pid_sample = {0, 1, 2}" "pids_in_use pid_sample = {0, 1, 2}"
  by (simp_all add: pid_inv_def pids_in_use_def pid_tasks_def rb_index_ok_def rb_wf_def pid_sample_def)

theorem pid_alloc_spec_witness:
  "\<exists>st' p. pid_alloc_pid pid_sample (Some 7) = Some (st', 0) \<and> pid_inv st' \<and>
    p \<notin> pids_in_use pid_sample \<and> pid_registered pid_sample 7 p (tl (pid_root_cache pid_sample)) st'"
  by (rule pid_alloc_spec) (simp_all add: pid_sample_ok)

theorem pid_for_each_all_witness:
  "pid_for_each 4 pid_sample (pid_first pid_sample) = Some [0, 1, 2]"
  using pid_for_each_all [OF pid_sample_ok(1), of 4] by (simp add: pid_sample_def)

theorem process_pid_init_spec_witness:
  "\<exists>st. process_pid_init \<lparr>task_pid = (\<lambda>_. 0), pid_root = RB_NULL, pid_root_cache = []\<rparr> [(0, 10), (1, 11)] = Some st \<and>
    pid_inv st \<and> pids_in_use st = (\<lambda>c. - fst c) ` set [(0, 10 :: nat), (1, 11)] \<and>
    (\<forall>c\<in>set [(0, 10), (1, 11)]. pid_find_process_by_pid st (- fst c) = Some (snd c))"
  by (rule process_pid_init_spec) simp_all

text \<open>
  C19: \<^verbatim>\<open>pid_remove_pid_by_process\<close> unregisters exactly the given task. The pid of the last task is dropped,
  any other goes to the cache; when the cache entry cannot be allocated nothing changes and the
  result is false.
\<close>

theorem pid_remove_spec:
  assumes "pid_inv st" "t \<in> pid_tasks st"
  shows "let is_last = (\<forall>u\<in>pid_tasks st. task_pid st u \<le> task_pid st t) in
    if is_last \<or> kmalloc_ok
    then \<exists>st'. pid_remove_pid_by_process st (Some t) kmalloc_ok = Some (st', True) \<and> pid_inv st' \<and>
      pid_removed st t (if is_last then pid_root_cache st else task_pid st t # pid_root_cache st) st'
    else pid_remove_pid_by_process st (Some t) kmalloc_ok = Some (st, False)"
  using pid_remove_cases [OF assms] by (simp add: Let_def)

theorem pid_remove_spec_witness:
  "\<exists>st'. pid_remove_pid_by_process pid_sample (Some 1) True = Some (st', True) \<and> pid_inv st' \<and>
     pid_removed pid_sample 1 [1] st'"
  using pid_remove_spec [OF pid_sample_ok(1), of 1 True]
  by (simp add: pid_sample_ok Let_def) (simp add: pid_sample_def)

end
