(* ===== verification/Message.thy ===== *)
theory Message
  imports Prelude
begin

text \<open>
  The IPC message of \<^verbatim>\<open>kernel/include/uapi/minix_rt/ipc.h\<close>: a source, a type and 56 bytes of
  payload. The union of the payload is its bytes; each member of each \<^verbatim>\<open>mess_*\<close> structure is read
  and written at the offset the LP64 ABI of arm64 gives it, least significant byte first, so that a
  member written through one structure can be read back through another.
\<close>

unbundle bit_operations_syntax

section \<open>Integers as bytes\<close>

definition bytes_of :: "nat \<Rightarrow> 'a::len word \<Rightarrow> u8 list" where
  "bytes_of n w = map (\<lambda>i. ucast (drop_bit (8 * i) w)) [0..<n]"

fun of_bytes :: "u8 list \<Rightarrow> 'a::len word" where
  "of_bytes [] = 0"
| "of_bytes (b # bs) = ucast b OR push_bit 8 (of_bytes bs)"

definition put_bytes :: "nat \<Rightarrow> u8 list \<Rightarrow> u8 list \<Rightarrow> u8 list" where
  "put_bytes off bs p = take off p @ bs @ drop (off + length bs) p"

definition get_bytes :: "nat \<Rightarrow> nat \<Rightarrow> u8 list \<Rightarrow> u8 list" where
  "get_bytes off n p = take n (drop off p)"

lemma length_bytes_of [simp]: "length (bytes_of n w) = n"
  by (simp add: bytes_of_def)

lemma length_put_bytes [simp]: "off + length bs \<le> length p \<Longrightarrow> length (put_bytes off bs p) = length p"
  by (simp add: put_bytes_def)

lemma get_put_same [simp]:
  "off + length bs \<le> length p \<Longrightarrow> n = length bs \<Longrightarrow> get_bytes off n (put_bytes off bs p) = bs"
  by (simp add: get_bytes_def put_bytes_def)

lemma get_put_below [simp]:
  "off' + n \<le> off \<Longrightarrow> off \<le> length p \<Longrightarrow> get_bytes off' n (put_bytes off bs p) = get_bytes off' n p"
  by (simp add: get_bytes_def put_bytes_def drop_take)

lemma get_put_above [simp]:
  "off + length bs \<le> off' \<Longrightarrow> off + length bs \<le> length p \<Longrightarrow>
   get_bytes off' n (put_bytes off bs p) = get_bytes off' n p"
  by (simp add: get_bytes_def put_bytes_def drop_append)

lemma bytes_of_Suc: "bytes_of (Suc n) w = ucast w # bytes_of n (drop_bit 8 w)"
  unfolding bytes_of_def
  by (subst upt_conv_Cons) (simp_all add: map_Suc_upt [symmetric] comp_def algebra_simps del: upt_Suc)

lemma of_bytes_bytes_of: "of_bytes (bytes_of n (w :: 'a::len word)) = take_bit (8 * n) w"
proof (induction n arbitrary: w)
  case 0
  then show ?case by (simp add: bytes_of_def)
next
  case (Suc n)
  show ?case
    by (simp only: bytes_of_Suc of_bytes.simps Suc.IH)
      (rule bit_word_eqI, auto simp: bit_simps)
qed

section \<open>Messages\<close>

record message_t =
  m_source :: int
  m_type :: u32
  payload :: "u8 list"

abbreviation (input) IPC_MAX_MESSAGE_BYPE :: nat where "IPC_MAX_MESSAGE_BYPE \<equiv> 56"

definition message_ok :: "message_t \<Rightarrow> bool" where
  "message_ok m \<longleftrightarrow> length (payload m) = IPC_MAX_MESSAGE_BYPE"

text \<open>\<^verbatim>\<open>memset(&m, 0, sizeof (message_t))\<close>.\<close>

definition message_zero :: message_t where
  "message_zero = \<lparr>m_source = 0, m_type = 0, payload = replicate 56 0\<rparr>"

definition get_u64 :: "nat \<Rightarrow> message_t \<Rightarrow> u64" where
  "get_u64 off m = of_bytes (get_bytes off 8 (payload m))"

definition put_u64 :: "nat \<Rightarrow> u64 \<Rightarrow> message_t \<Rightarrow> message_t" where
  "put_u64 off v m = m\<lparr>payload := put_bytes off (bytes_of 8 v) (payload m)\<rparr>"

text \<open>Members of type \<^verbatim>\<open>int\<close> and \<^verbatim>\<open>s64\<close>.\<close>

definition get_s32 :: "nat \<Rightarrow> message_t \<Rightarrow> int" where
  "get_s32 off m = sint (of_bytes (get_bytes off 4 (payload m)) :: u32)"

definition put_s32 :: "nat \<Rightarrow> int \<Rightarrow> message_t \<Rightarrow> message_t" where
  "put_s32 off v m = m\<lparr>payload := put_bytes off (bytes_of 4 (word_of_int v :: u32)) (payload m)\<rparr>"

definition get_s64 :: "nat \<Rightarrow> message_t \<Rightarrow> int" where
  "get_s64 off m = sint (get_u64 off m)"

definition put_s64 :: "nat \<Rightarrow> int \<Rightarrow> message_t \<Rightarrow> message_t" where
  "put_s64 off v m = put_u64 off (word_of_int v) m"

text \<open>The offsets of the members.\<close>

abbreviation (input) m_sys_mprotect_start :: nat where "m_sys_mprotect_start \<equiv> 0"
abbreviation (input) m_sys_mprotect_len :: nat where "m_sys_mprotect_len \<equiv> 8"
abbreviation (input) m_sys_mprotect_prot :: nat where "m_sys_mprotect_prot \<equiv> 16"
abbreviation (input) m_sys_mprotect_retval :: nat where "m_sys_mprotect_retval \<equiv> 24"
abbreviation (input) m_sys_brk_brk :: nat where "m_sys_brk_brk \<equiv> 0"
abbreviation (input) m_sys_brk_retval :: nat where "m_sys_brk_retval \<equiv> 8"
abbreviation (input) m_sys_string_direct :: nat where "m_sys_string_direct \<equiv> 0"
abbreviation (input) m_sys_string_pid :: nat where "m_sys_string_pid \<equiv> 4"
abbreviation (input) m_sys_string_dest :: nat where "m_sys_string_dest \<equiv> 8"
abbreviation (input) m_sys_string_src :: nat where "m_sys_string_src \<equiv> 16"
abbreviation (input) m_sys_string_size :: nat where "m_sys_string_size \<equiv> 24"
abbreviation (input) m_sys_string_retval :: nat where "m_sys_string_retval \<equiv> 28"
abbreviation (input) m_sys_mmap_mmap_base :: nat where "m_sys_mmap_mmap_base \<equiv> 0"
abbreviation (input) m_sys_mmap_size :: nat where "m_sys_mmap_size \<equiv> 8"
abbreviation (input) m_sys_mmap_vm_flags :: nat where "m_sys_mmap_vm_flags \<equiv> 16"
abbreviation (input) m_sys_mmap_flags :: nat where "m_sys_mmap_flags \<equiv> 24"
abbreviation (input) m_sys_mmap_retval :: nat where "m_sys_mmap_retval \<equiv> 28"
abbreviation (input) m_sys_exec_bprm :: nat where "m_sys_exec_bprm \<equiv> 0"
abbreviation (input) m_sys_exec_retval :: nat where "m_sys_exec_retval \<equiv> 8"
abbreviation (input) m_vfs_write_buf :: nat where "m_vfs_write_buf \<equiv> 0"
abbreviation (input) m_vfs_write_count :: nat where "m_vfs_write_count \<equiv> 8"
abbreviation (input) m_vfs_write_retval :: nat where "m_vfs_write_retval \<equiv> 16"
abbreviation (input) m_vfs_write_fd :: nat where "m_vfs_write_fd \<equiv> 24"
abbreviation (input) m_vfs_writev_fd :: nat where "m_vfs_writev_fd \<equiv> 0"
abbreviation (input) m_vfs_writev_vec :: nat where "m_vfs_writev_vec \<equiv> 8"
abbreviation (input) m_vfs_writev_vlen :: nat where "m_vfs_writev_vlen \<equiv> 16"
abbreviation (input) m_vfs_writev_retval :: nat where "m_vfs_writev_retval \<equiv> 24"
abbreviation (input) m_vfs_openat_filename :: nat where "m_vfs_openat_filename \<equiv> 0"
abbreviation (input) m_vfs_openat_retval :: nat where "m_vfs_openat_retval \<equiv> 8"
abbreviation (input) m_vfs_openat_flags :: nat where "m_vfs_openat_flags \<equiv> 16"
abbreviation (input) m_vfs_openat_dfd :: nat where "m_vfs_openat_dfd \<equiv> 20"
abbreviation (input) m_vfs_openat_filename_size :: nat where "m_vfs_openat_filename_size \<equiv> 24"
abbreviation (input) m_vfs_openat_mode :: nat where "m_vfs_openat_mode \<equiv> 28"
abbreviation (input) m_vfs_ioctl_arg :: nat where "m_vfs_ioctl_arg \<equiv> 0"
abbreviation (input) m_vfs_ioctl_cmd :: nat where "m_vfs_ioctl_cmd \<equiv> 8"
abbreviation (input) m_vfs_ioctl_fd :: nat where "m_vfs_ioctl_fd \<equiv> 12"
abbreviation (input) m_vfs_ioctl_retval :: nat where "m_vfs_ioctl_retval \<equiv> 16"
abbreviation (input) m_vfs_chdir_filename :: nat where "m_vfs_chdir_filename \<equiv> 0"
abbreviation (input) m_vfs_chdir_filename_size :: nat where "m_vfs_chdir_filename_size \<equiv> 8"
abbreviation (input) m_vfs_chdir_retval :: nat where "m_vfs_chdir_retval \<equiv> 16"

section \<open>Laws of the accessors\<close>

named_theorems message_simps \<open>reading a member after writing one\<close>

lemma put_ok [message_simps]:
  "message_ok m \<Longrightarrow> off + 8 \<le> 56 \<Longrightarrow> message_ok (put_u64 off v m)"
  "message_ok m \<Longrightarrow> off + 4 \<le> 56 \<Longrightarrow> message_ok (put_s32 off i m)"
  by (simp_all add: message_ok_def put_u64_def put_s32_def)

lemma put_head [message_simps]:
  "m_source (put_u64 off v m) = m_source m" "m_type (put_u64 off v m) = m_type m"
  "m_source (put_s32 off i m) = m_source m" "m_type (put_s32 off i m) = m_type m"
  by (simp_all add: put_u64_def put_s32_def)

lemma u64_u64 [message_simps]:
  "message_ok m \<Longrightarrow> off + 8 \<le> 56 \<Longrightarrow> get_u64 off (put_u64 off v m) = v"
  "message_ok m \<Longrightarrow> off' + 8 \<le> 56 \<Longrightarrow> off + 8 \<le> off' \<or> off' + 8 \<le> off \<Longrightarrow>
     get_u64 off (put_u64 off' v m) = get_u64 off m"
  using get_put_same [of off "bytes_of 8 v" "payload m" 8]
  by (auto simp: message_ok_def get_u64_def put_u64_def of_bytes_bytes_of take_bit_word_eq_self)

lemma s32_s32 [message_simps]:
  "message_ok m \<Longrightarrow> off + 4 \<le> 56 \<Longrightarrow> get_s32 off (put_s32 off i m) = sint (word_of_int i :: u32)"
  "message_ok m \<Longrightarrow> off' + 4 \<le> 56 \<Longrightarrow> off + 4 \<le> off' \<or> off' + 4 \<le> off \<Longrightarrow>
     get_s32 off (put_s32 off' i m) = get_s32 off m"
  using get_put_same [of off "bytes_of 4 (word_of_int i :: u32)" "payload m" 4]
  by (auto simp: message_ok_def get_s32_def put_s32_def of_bytes_bytes_of take_bit_word_eq_self)

lemma mixed_width [message_simps]:
  "message_ok m \<Longrightarrow> off' + 4 \<le> 56 \<Longrightarrow> off + 8 \<le> off' \<or> off' + 4 \<le> off \<Longrightarrow>
     get_u64 off (put_s32 off' i m) = get_u64 off m"
  "message_ok m \<Longrightarrow> off' + 8 \<le> 56 \<Longrightarrow> off + 4 \<le> off' \<or> off' + 8 \<le> off \<Longrightarrow>
     get_s32 off (put_u64 off' v m) = get_s32 off m"
  by (auto simp: message_ok_def get_u64_def put_u64_def get_s32_def put_s32_def)

lemma message_zero_ok [simp]: "message_ok message_zero"
  by (simp add: message_ok_def message_zero_def)

end
