(* ===== verification/Ipc.thy ===== *)
theory Ipc
  imports Message "HOL-Library.Sublist"
begin

text \<open>
  Message passing between processes, \<^verbatim>\<open>kernel/core/ipc.c\<close>. Four endpoints
  (\<^verbatim>\<open>ipc_ep_info\<close>) each have a state, the task that serves them, a count of requests in service
  and a queue of messages.

  \<^verbatim>\<open>__ipc_send\<close>, \<^verbatim>\<open>__ipc_receive\<close> and \<^verbatim>\<open>__ipc_reply\<close> sleep and take locks, so each is cut
  into the pieces between two points where another task can run: a lock region, a test of a
  \<^verbatim>\<open>wait_event\<close> condition, a store visible to a task on another cpu. A task is at a control point
  \<open>ipc_pc\<close>; \<open>ipc_exec\<close> runs one piece. Message nodes live in a heap, in which a freed node is
  \<open>None\<close>. An access to a freed node or outside \<^verbatim>\<open>ipc_ep_info\<close> is the result \<open>Crash\<close>.
\<close>

unbundle bit_operations_syntax

section \<open>State\<close>

type_synonym tsk = nat
type_synonym node = nat

datatype ep_state = EP_STATE_NONE | EP_STATE_WAITTING | EP_STATE_RUNNING

abbreviation (input) ENDPOINT_SYSTEM :: int where "ENDPOINT_SYSTEM \<equiv> 0"
abbreviation (input) ENDPOINT_I2C :: int where "ENDPOINT_I2C \<equiv> 1"
abbreviation (input) ENDPOINT_PM :: int where "ENDPOINT_PM \<equiv> 2"
abbreviation (input) ENDPOINT_VFS :: int where "ENDPOINT_VFS \<equiv> 3"
abbreviation (input) ENDPOINT_END :: int where "ENDPOINT_END \<equiv> 4"

abbreviation IPC_M_TYPE_MASK :: u32 where "IPC_M_TYPE_MASK \<equiv> 0x7fffffff"
abbreviation IPC_M_TYPE_NOTIFIER :: u32 where "IPC_M_TYPE_NOTIFIER \<equiv> 0x80000000"

record endpoint_info =
  ipc_req_count :: u32
  ep_state :: ep_state
  ep_name :: string
  ep_tsk :: "tsk option"
  ep_list :: "node list"

record ipc_mess_node =
  is_finish :: bool
  node_m :: message_t

datatype ipc_pc =
    Running                          \<comment> \<open>outside the IPC code\<close>
  | SendWaitEp nat message_t         \<comment> \<open>\<^verbatim>\<open>wait_event_timeout(ep_info->wait, ...)\<close>\<close>
  | SendQueue nat message_t          \<comment> \<open>about to allocate and queue the node\<close>
  | SendWait nat node message_t      \<comment> \<open>\<^verbatim>\<open>wait_event(ep_node->wait, ep_node->is_finish)\<close>\<close>
  | RecvTest nat                     \<comment> \<open>about to test the queue under \<^verbatim>\<open>ep_list_lock\<close>\<close>
  | RecvWait nat                     \<comment> \<open>\<^verbatim>\<open>wait_event(ep_info->wait, state == EP_STATE_RUNNING)\<close>\<close>
  | RecvTake nat                     \<comment> \<open>about to read the first entry\<close>
  | ReplyDel nat message_t           \<comment> \<open>about to unlink the first entry\<close>
  | ReplyFinish nat node message_t   \<comment> \<open>about to store \<^verbatim>\<open>is_finish = 1\<close>\<close>
  | ReplyCopy nat node message_t     \<comment> \<open>about to copy the reply into the node\<close>
  | ReplyWake nat node message_t     \<comment> \<open>about to \<^verbatim>\<open>wake_up(&ep_node->wait)\<close>\<close>
  | ReplyCount nat message_t         \<comment> \<open>about to decrement \<^verbatim>\<open>ipc_req_count\<close>\<close>
  | Returned int "message_t option"  \<comment> \<open>back in the caller: the result, and \<^verbatim>\<open>*m_ptr\<close>\<close>

record ipc_sys =
  eps :: "nat \<Rightarrow> endpoint_info"
  nodes :: "node \<Rightarrow> ipc_mess_node option"
  pcs :: "tsk \<Rightarrow> ipc_pc"

section \<open>Start-up\<close>

definition ep_names :: "nat \<Rightarrow> string" where
  "ep_names i = (if i = 0 then ''rootService'' else if i = 1 then ''i2c''
     else if i = 2 then ''pm'' else ''vfs'')"

definition ipc_init :: "nat \<Rightarrow> endpoint_info" where
  "ipc_init i = \<lparr>ipc_req_count = 0, ep_state = EP_STATE_NONE, ep_name = ep_names i,
     ep_tsk = None, ep_list = []\<rparr>"

text \<open>
  \<^verbatim>\<open>ipc_register_endpoint_by_tsk\<close>: the first endpoint whose name is \<^verbatim>\<open>tsk->comm\<close>. The third result
  is the value stored into \<^verbatim>\<open>tsk->ep\<close>.
\<close>

fun ipc_register_from :: "(nat \<Rightarrow> endpoint_info) \<Rightarrow> tsk \<Rightarrow> string \<Rightarrow> nat \<Rightarrow> nat \<Rightarrow>
    (nat \<Rightarrow> endpoint_info) \<times> int \<times> int option" where
  "ipc_register_from ep t comm i 0 = (ep, - ENODEV, None)"
| "ipc_register_from ep t comm i (Suc n) =
     (if length comm = length (ep_name (ep i)) \<and> ep_name (ep i) = comm
      then (if ep_tsk (ep i) \<noteq> None then (ep, - EBUSY, None)
            else (ep(i := (ep i)\<lparr>ep_tsk := Some t, ep_state := EP_STATE_RUNNING\<rparr>), 0, Some (int i)))
      else ipc_register_from ep t comm (Suc i) n)"

definition ipc_register_endpoint_by_tsk :: "(nat \<Rightarrow> endpoint_info) \<Rightarrow> tsk option \<Rightarrow> string \<Rightarrow>
    (nat \<Rightarrow> endpoint_info) \<times> int \<times> int option" where
  "ipc_register_endpoint_by_tsk ep t comm =
     (case t of None \<Rightarrow> (ep, - EINVAL, None) | Some t' \<Rightarrow> ipc_register_from ep t' comm 0 4)"

section \<open>Entering the calls\<close>

datatype outcome = Crash | Enter ipc_pc

text \<open>\<^verbatim>\<open>&ipc_ep_info[dest]\<close>; outside the four entries the access is undefined.\<close>

definition ep_index :: "int \<Rightarrow> nat option" where
  "ep_index dest = (if 0 \<le> dest \<and> dest < 4 then Some (nat dest) else None)"

definition ipc_send_enter :: "ipc_sys \<Rightarrow> int \<Rightarrow> message_t option \<Rightarrow> outcome" where
  "ipc_send_enter s dest m_ptr =
     (if dest > ENDPOINT_END \<or> m_ptr = None then Enter (Returned (- EINVAL) m_ptr)
      else (case (ep_index dest, m_ptr) of
          (Some e, Some m) \<Rightarrow>
            if ep_tsk (eps s e) = None then Enter (SendWaitEp e m) else Enter (SendQueue e m)
        | _ \<Rightarrow> Crash))"

definition ipc_notify_enter :: "ipc_sys \<Rightarrow> int \<Rightarrow> message_t option \<Rightarrow> outcome" where
  "ipc_notify_enter s dest m_ptr =
     (case m_ptr of
        None \<Rightarrow> Enter (Returned (- EINVAL) None)
      | Some m \<Rightarrow> ipc_send_enter s dest (Some (m\<lparr>m_type := m_type m OR IPC_M_TYPE_NOTIFIER\<rparr>)))"

definition ipc_receive_enter :: "ipc_sys \<Rightarrow> tsk \<Rightarrow> int \<Rightarrow> message_t option \<Rightarrow> outcome" where
  "ipc_receive_enter s current src m_ptr =
     (if src > ENDPOINT_END \<or> m_ptr = None then Enter (Returned (- EINVAL) m_ptr)
      else (case ep_index src of
          None \<Rightarrow> Crash
        | Some e \<Rightarrow>
            if ep_tsk (eps s e) = None then Enter (Returned (- ENODEV) m_ptr)
            else if ep_tsk (eps s e) \<noteq> Some current then Enter (Returned (- EACCES) m_ptr)
            else if ipc_req_count (eps s e) \<noteq> 0 then Enter (Returned (- EBUSY) m_ptr)
            else Enter (RecvTest e)))"

definition ipc_reply_enter :: "ipc_sys \<Rightarrow> tsk \<Rightarrow> int \<Rightarrow> message_t option \<Rightarrow> outcome" where
  "ipc_reply_enter s current src m_ptr =
     (if src > ENDPOINT_END \<or> m_ptr = None then Enter (Returned (- EINVAL) m_ptr)
      else (case (ep_index src, m_ptr) of
          (Some e, Some m) \<Rightarrow>
            if ep_tsk (eps s e) = None then Enter (Returned (- ENODEV) m_ptr)
            else if ep_tsk (eps s e) \<noteq> Some current then Enter (Returned (- EACCES) m_ptr)
            else if ipc_req_count (eps s e) = 0 then Enter (Returned (- EINVAL) m_ptr)
            else Enter (ReplyDel e m)
        | _ \<Rightarrow> Crash))"

section \<open>Running a piece\<close>

datatype ipc_event =
    Sent tsk nat node message_t      \<comment> \<open>queued a message\<close>
  | Received tsk nat node message_t  \<comment> \<open>returned from \<^verbatim>\<open>__ipc_receive\<close> with it\<close>
  | Replied tsk nat node message_t   \<comment> \<open>stored the reply to it\<close>
  | Answered tsk nat node message_t  \<comment> \<open>returned from \<^verbatim>\<open>__ipc_send\<close> with the reply\<close>
  | Silent

datatype ipc_result = Blocked | Fault | Go ipc_sys ipc_event

text \<open>What the environment decides: the address \<^verbatim>\<open>kmalloc\<close> returns, if any, and whether a sleep times out.\<close>

record ipc_choice =
  kmalloc_node :: "node option"
  timed_out :: bool

definition is_notifier :: "message_t \<Rightarrow> bool" where
  "is_notifier m \<longleftrightarrow> m_type m AND IPC_M_TYPE_NOTIFIER \<noteq> 0"

definition set_pc :: "tsk \<Rightarrow> ipc_pc \<Rightarrow> ipc_sys \<Rightarrow> ipc_sys" where
  "set_pc t pc s = s\<lparr>pcs := (pcs s)(t := pc)\<rparr>"

definition set_ep :: "nat \<Rightarrow> endpoint_info \<Rightarrow> ipc_sys \<Rightarrow> ipc_sys" where
  "set_ep e i s = s\<lparr>eps := (eps s)(e := i)\<rparr>"

definition set_node :: "node \<Rightarrow> ipc_mess_node option \<Rightarrow> ipc_sys \<Rightarrow> ipc_sys" where
  "set_node n x s = s\<lparr>nodes := (nodes s)(n := x)\<rparr>"

definition ipc_send_queue :: "ipc_choice \<Rightarrow> int \<Rightarrow> tsk \<Rightarrow> nat \<Rightarrow> message_t \<Rightarrow> ipc_sys \<Rightarrow> ipc_result" where
  "ipc_send_queue c current_pid t e m s =
     (case kmalloc_node c of
        None \<Rightarrow> Go (set_pc t (Returned (- ENOMEM) (Some m)) s) Silent
      | Some n \<Rightarrow>
          let m' = m\<lparr>m_source := current_pid\<rparr>;
              ep = eps s e;
              ep' = ep\<lparr>ep_list := ep_list ep @ [n],
                       ep_state := (if ep_state ep = EP_STATE_WAITTING then EP_STATE_RUNNING
                                    else ep_state ep)\<rparr>;
              s' = set_ep e ep' (set_node n (Some \<lparr>is_finish = False, node_m = m'\<rparr>) s)
          in Go (set_pc t (if is_notifier m' then Returned 0 (Some m') else SendWait e n m') s')
               (Sent t e n m'))"

definition ipc_recv_take :: "tsk \<Rightarrow> nat \<Rightarrow> ipc_sys \<Rightarrow> ipc_result" where
  "ipc_recv_take t e s =
     (case ep_list (eps s e) of
        [] \<Rightarrow> Fault
      | n # _ \<Rightarrow>
          (case nodes s n of
             None \<Rightarrow> Fault
           | Some nd \<Rightarrow>
               Go (set_pc t (Returned 0 (Some (node_m nd)))
                    (set_ep e ((eps s e)\<lparr>ipc_req_count := ipc_req_count (eps s e) + 1\<rparr>) s))
                  (Received t e n (node_m nd))))"

definition ipc_reply_del :: "tsk \<Rightarrow> nat \<Rightarrow> message_t \<Rightarrow> ipc_sys \<Rightarrow> ipc_result" where
  "ipc_reply_del t e m s =
     (case ep_list (eps s e) of
        [] \<Rightarrow> Fault
      | n # rest \<Rightarrow>
          (case nodes s n of
             None \<Rightarrow> Fault
           | Some nd \<Rightarrow>
               let s' = set_ep e ((eps s e)\<lparr>ep_list := rest\<rparr>) s in
               if is_notifier (node_m nd) then Go (set_pc t (ReplyCount e m) (set_node n None s')) Silent
               else Go (set_pc t (ReplyFinish e n m) s') Silent))"

fun ipc_exec :: "ipc_choice \<Rightarrow> int \<Rightarrow> tsk \<Rightarrow> ipc_pc \<Rightarrow> ipc_sys \<Rightarrow> ipc_result" where
  "ipc_exec c pid t (SendWaitEp e m) s =
     (if timed_out c then Go (set_pc t (Returned (- ENODEV) (Some m)) s) Silent
      else if ep_state (eps s e) = EP_STATE_RUNNING then Go (set_pc t (SendQueue e m) s) Silent
      else Blocked)"
| "ipc_exec c pid t (SendQueue e m) s = ipc_send_queue c pid t e m s"
| "ipc_exec c pid t (SendWait e n m) s =
     (case nodes s n of
        None \<Rightarrow> Fault
      | Some nd \<Rightarrow>
          if is_finish nd
          then Go (set_pc t (Returned 0 (Some (node_m nd))) (set_node n None s)) (Answered t e n (node_m nd))
          else Blocked)"
| "ipc_exec c pid t (RecvTest e) s =
     (if ep_list (eps s e) = []
      then Go (set_pc t (RecvWait e) (set_ep e ((eps s e)\<lparr>ep_state := EP_STATE_WAITTING\<rparr>) s)) Silent
      else Go (set_pc t (RecvTake e) s) Silent)"
| "ipc_exec c pid t (RecvWait e) s =
     (if ep_state (eps s e) = EP_STATE_RUNNING then Go (set_pc t (RecvTake e) s) Silent else Blocked)"
| "ipc_exec c pid t (RecvTake e) s = ipc_recv_take t e s"
| "ipc_exec c pid t (ReplyDel e m) s = ipc_reply_del t e m s"
| "ipc_exec c pid t (ReplyFinish e n m) s =
     (case nodes s n of
        None \<Rightarrow> Fault
      | Some nd \<Rightarrow> Go (set_pc t (ReplyCopy e n m) (set_node n (Some (nd\<lparr>is_finish := True\<rparr>)) s)) Silent)"
| "ipc_exec c pid t (ReplyCopy e n m) s =
     (case nodes s n of
        None \<Rightarrow> Fault
      | Some nd \<Rightarrow>
          Go (set_pc t (ReplyWake e n m) (set_node n (Some (nd\<lparr>node_m := m\<rparr>)) s)) (Replied t e n m))"
| "ipc_exec c pid t (ReplyWake e n m) s =
     (case nodes s n of
        None \<Rightarrow> Fault
      | Some nd \<Rightarrow> Go (set_pc t (ReplyCount e m) s) Silent)"
| "ipc_exec c pid t (ReplyCount e m) s =
     Go (set_pc t (Returned 0 (Some m))
           (set_ep e ((eps s e)\<lparr>ipc_req_count := ipc_req_count (eps s e) - 1\<rparr>) s)) Silent"
| "ipc_exec c pid t Running s = Blocked"
| "ipc_exec c pid t (Returned r m) s = Blocked"

section \<open>Interleavings\<close>

datatype ipc_call =
    CallSend int "message_t option"
  | CallNotify int "message_t option"
  | CallReceive int "message_t option"
  | CallReply int "message_t option"

fun ipc_enter :: "ipc_sys \<Rightarrow> tsk \<Rightarrow> ipc_call \<Rightarrow> outcome" where
  "ipc_enter s t (CallSend dest m) = ipc_send_enter s dest m"
| "ipc_enter s t (CallNotify dest m) = ipc_notify_enter s dest m"
| "ipc_enter s t (CallReceive src m) = ipc_receive_enter s t src m"
| "ipc_enter s t (CallReply src m) = ipc_reply_enter s t src m"

fun outside :: "ipc_pc \<Rightarrow> bool" where
  "outside Running = True"
| "outside (Returned r m) = True"
| "outside _ = False"

fun storing :: "ipc_pc \<Rightarrow> node option" where
  "storing (ReplyCopy e n m) = Some n"
| "storing (ReplyWake e n m) = Some n"
| "storing _ = None"

text \<open>
  With \<open>woken = False\<close> these are the interleavings of the code: \<^verbatim>\<open>wait_event\<close> tests its condition, so a sender
  may find \<^verbatim>\<open>is_finish\<close> set while the replier is still storing. With \<open>woken = True\<close> a sender leaves \<^verbatim>\<open>wait_event\<close>
  only after the replier's \<^verbatim>\<open>wake_up\<close>, as it does when it sleeps until then. When a sleeper is woken is left
  open here: it can run whenever its condition holds. Theory \<open>Ipc_Wait\<close> adds the wait queues.
\<close>

inductive ipc_step :: "bool \<Rightarrow> ipc_sys \<Rightarrow> ipc_event \<Rightarrow> ipc_sys \<Rightarrow> bool" for woken where
  call: "outside (pcs s t) \<Longrightarrow> ipc_enter s t c = Enter pc \<Longrightarrow> ipc_step woken s Silent (set_pc t pc s)"
| reg: "outside (pcs s t) \<Longrightarrow> ipc_register_endpoint_by_tsk (eps s) (Some t) comm = (ep', r, h) \<Longrightarrow>
    ipc_step woken s Silent (s\<lparr>eps := ep'\<rparr>)"
| run: "(\<forall>n. kmalloc_node c = Some n \<longrightarrow> nodes s n = None) \<Longrightarrow>
    (woken \<Longrightarrow> \<forall>e n m u. pcs s t = SendWait e n m \<longrightarrow> storing (pcs s u) \<noteq> Some n) \<Longrightarrow>
    ipc_exec c pid t (pcs s t) s = Go s' ev \<Longrightarrow> ipc_step woken s ev s'"

inductive ipc_faults :: "bool \<Rightarrow> ipc_sys \<Rightarrow> bool" for woken where
  "(woken \<Longrightarrow> \<forall>e n m u. pcs s t = SendWait e n m \<longrightarrow> storing (pcs s u) \<noteq> Some n) \<Longrightarrow>
   ipc_exec c pid t (pcs s t) s = Fault \<Longrightarrow> ipc_faults woken s"

definition ipc_start :: ipc_sys where
  "ipc_start = \<lparr>eps = ipc_init, nodes = (\<lambda>_. None), pcs = (\<lambda>_. Running)\<rparr>"

inductive ipc_reach :: "bool \<Rightarrow> ipc_event list \<Rightarrow> ipc_sys \<Rightarrow> bool" for woken where
  start: "ipc_reach woken [] ipc_start"
| step: "ipc_reach woken tr s \<Longrightarrow> ipc_step woken s ev s' \<Longrightarrow> ipc_reach woken (tr @ [ev]) s'"

end
