(* ===== verification/Ipc_Safety.thy ===== *)
theory Ipc_Safety
  imports Ipc
begin

text \<open>
  What holds in every interleaving of \<^verbatim>\<open>__ipc_send\<close>, \<^verbatim>\<open>__ipc_receive\<close>, \<^verbatim>\<open>__ipc_reply\<close> and
  \<^verbatim>\<open>__ipc_notify\<close> (theory \<open>Ipc\<close>): an invariant of the queues, the request counts and the owners of
  the message nodes, from which follow that no freed node is touched, that an endpoint receives
  exactly what was sent to it in that order, and that a sender returns with the reply to its own
  message. All of this needs \<open>woken = True\<close>; the last section shows that the interleavings of the code are these,
  as long as no sender has returned while its reply was being stored.
\<close>

section \<open>Invariant\<close>

fun serves :: "ipc_pc \<Rightarrow> nat option" where
  "serves (RecvTest e) = Some e"
| "serves (RecvWait e) = Some e"
| "serves (RecvTake e) = Some e"
| "serves (ReplyDel e m) = Some e"
| "serves (ReplyFinish e n m) = Some e"
| "serves (ReplyCopy e n m) = Some e"
| "serves (ReplyWake e n m) = Some e"
| "serves (ReplyCount e m) = Some e"
| "serves _ = None"

fun finishing :: "ipc_pc \<Rightarrow> nat option" where
  "finishing (ReplyFinish e n m) = Some e"
| "finishing (ReplyCopy e n m) = Some e"
| "finishing (ReplyWake e n m) = Some e"
| "finishing (ReplyCount e m) = Some e"
| "finishing _ = None"

fun inflight :: "ipc_pc \<Rightarrow> node option" where
  "inflight (ReplyFinish e n m) = Some n"
| "inflight (ReplyCopy e n m) = Some n"
| "inflight (ReplyWake e n m) = Some n"
| "inflight _ = None"

fun awaits :: "ipc_pc \<Rightarrow> node option" where
  "awaits (SendWait e n m) = Some n"
| "awaits _ = None"

fun phase_ok :: "ipc_sys \<Rightarrow> ipc_pc \<Rightarrow> bool" where
  "phase_ok s (RecvTest e) \<longleftrightarrow> ipc_req_count (eps s e) = 0"
| "phase_ok s (RecvWait e) \<longleftrightarrow> ipc_req_count (eps s e) = 0 \<and>
     ep_state (eps s e) = (if ep_list (eps s e) = [] then EP_STATE_WAITTING else EP_STATE_RUNNING)"
| "phase_ok s (RecvTake e) \<longleftrightarrow> ipc_req_count (eps s e) = 0 \<and> ep_list (eps s e) \<noteq> []"
| "phase_ok s (ReplyDel e m) \<longleftrightarrow> ipc_req_count (eps s e) = 1 \<and> ep_list (eps s e) \<noteq> []"
| "phase_ok s (ReplyFinish e n m) \<longleftrightarrow> ipc_req_count (eps s e) = 1 \<and>
     (\<forall>e'. n \<notin> set (ep_list (eps s e'))) \<and> (\<exists>nd. nodes s n = Some nd \<and> \<not> is_finish nd \<and> \<not> is_notifier (node_m nd))"
| "phase_ok s (ReplyCopy e n m) \<longleftrightarrow> ipc_req_count (eps s e) = 1 \<and>
     (\<exists>nd. nodes s n = Some nd \<and> is_finish nd)"
| "phase_ok s (ReplyWake e n m) \<longleftrightarrow> ipc_req_count (eps s e) = 1 \<and>
     (\<exists>nd. nodes s n = Some nd \<and> is_finish nd)"
| "phase_ok s (ReplyCount e m) \<longleftrightarrow> ipc_req_count (eps s e) = 1"
| "phase_ok s (SendWait e n m) \<longleftrightarrow>
     (\<exists>nd. nodes s n = Some nd \<and> (is_finish nd \<or> \<not> is_notifier (node_m nd)))"
| "phase_ok s _ \<longleftrightarrow> True"

definition servers_ok :: "ipc_sys \<Rightarrow> bool" where
  "servers_ok s \<longleftrightarrow> (\<forall>u e. serves (pcs s u) = Some e \<longrightarrow> ep_tsk (eps s e) = Some u)"

text \<open>The server of \<open>e\<close> has unlinked the request it is replying to.\<close>

definition replying :: "ipc_sys \<Rightarrow> nat \<Rightarrow> bool" where
  "replying s e \<longleftrightarrow> 
     (case ep_tsk (eps s e) of None \<Rightarrow> False | Some u \<Rightarrow> finishing (pcs s u) = Some e)"

definition count_ok :: "ipc_sys \<Rightarrow> nat \<Rightarrow> bool" where
  "count_ok s e \<longleftrightarrow> ipc_req_count (eps s e) = 0 \<or>
     (ipc_req_count (eps s e) = 1 \<and> (ep_list (eps s e) \<noteq> [] \<or> replying s e))"

definition waiting_ok :: "ipc_sys \<Rightarrow> bool" where
  "waiting_ok s \<longleftrightarrow> (\<forall>e. ep_state (eps s e) = EP_STATE_WAITTING \<longrightarrow> ep_list (eps s e) = [])"

definition queues_ok :: "ipc_sys \<Rightarrow> bool" where
  "queues_ok s \<longleftrightarrow>
     (\<forall>e. distinct (ep_list (eps s e))) \<and>
     (\<forall>e n. n \<in> set (ep_list (eps s e)) \<longrightarrow> (\<exists>nd. nodes s n = Some nd \<and> \<not> is_finish nd)) \<and>
     (\<forall>e e'. e \<noteq> e' \<longrightarrow> set (ep_list (eps s e)) \<inter> set (ep_list (eps s e')) = {})"

definition owners_ok :: "ipc_sys \<Rightarrow> bool" where
  "owners_ok s \<longleftrightarrow>
     (\<forall>u u' n. inflight (pcs s u) = Some n \<and> inflight (pcs s u') = Some n \<longrightarrow> u = u') \<and>
     (\<forall>t t' n. awaits (pcs s t) = Some n \<and> awaits (pcs s t') = Some n \<longrightarrow> t = t')"

definition phases_ok :: "ipc_sys \<Rightarrow> bool" where
  "phases_ok s \<longleftrightarrow> (\<forall>u. phase_ok s (pcs s u))"

definition ipc_inv :: "ipc_sys \<Rightarrow> bool" where
  "ipc_inv s \<longleftrightarrow> servers_ok s \<and> (\<forall>e. count_ok s e) \<and> waiting_ok s \<and> queues_ok s \<and> owners_ok s \<and> phases_ok s"

section \<open>What an event trace says\<close>

definition received :: "ipc_sys \<Rightarrow> nat \<Rightarrow> bool" where
  "received s e \<longleftrightarrow> ipc_req_count (eps s e) = 1 \<and> \<not> replying s e"

definition pending :: "ipc_sys \<Rightarrow> nat \<Rightarrow> node list" where
  "pending s e = (if received s e then tl (ep_list (eps s e)) else ep_list (eps s e))"

definition pending_messages :: "ipc_sys \<Rightarrow> nat \<Rightarrow> message_t list" where
  "pending_messages s e = map (\<lambda>n. node_m (the (nodes s n))) (pending s e)"

fun sent_to :: "nat \<Rightarrow> ipc_event list \<Rightarrow> message_t list" where
  "sent_to e [] = []"
| "sent_to e (Sent t e' n m # tr) = (if e' = e then m # sent_to e tr else sent_to e tr)"
| "sent_to e (_ # tr) = sent_to e tr"

fun received_at :: "nat \<Rightarrow> ipc_event list \<Rightarrow> message_t list" where
  "received_at e [] = []"
| "received_at e (Received t e' n m # tr) = (if e' = e then m # received_at e tr else received_at e tr)"
| "received_at e (_ # tr) = received_at e tr"

definition wait_queued :: "ipc_sys \<Rightarrow> ipc_event list \<Rightarrow> tsk \<Rightarrow> nat \<Rightarrow> node \<Rightarrow> message_t \<Rightarrow> bool" where
  "wait_queued s tr t e n m \<longleftrightarrow> n \<in> set (ep_list (eps s e)) \<and> map_option node_m (nodes s n) = Some m \<and>
     subseq [Sent t e n m] tr \<and>
     (received s e \<and> hd (ep_list (eps s e)) = n \<longrightarrow>
       (\<exists>u. ep_tsk (eps s e) = Some u \<and> subseq [Sent t e n m, Received u e n m] tr))"

definition wait_reply :: "ipc_sys \<Rightarrow> ipc_event list \<Rightarrow> tsk \<Rightarrow> nat \<Rightarrow> node \<Rightarrow> message_t \<Rightarrow> bool" where
  "wait_reply s tr t e n m \<longleftrightarrow> (\<exists>u r. (pcs s u = ReplyFinish e n r \<or> pcs s u = ReplyCopy e n r) \<and>
     subseq [Sent t e n m, Received u e n m] tr)"

definition wait_done :: "ipc_sys \<Rightarrow> ipc_event list \<Rightarrow> tsk \<Rightarrow> nat \<Rightarrow> node \<Rightarrow> message_t \<Rightarrow> bool" where
  "wait_done s tr t e n m \<longleftrightarrow> (\<exists>nd u. nodes s n = Some nd \<and> is_finish nd \<and>
     (\<forall>u e' r. pcs s u \<noteq> ReplyCopy e' n r) \<and>
     subseq [Sent t e n m, Received u e n m, Replied u e n (node_m nd)] tr)"

definition waits_ok :: "ipc_sys \<Rightarrow> ipc_event list \<Rightarrow> bool" where
  "waits_ok s tr \<longleftrightarrow> (\<forall>t e n m. pcs s t = SendWait e n m \<longrightarrow>
     wait_queued s tr t e n m \<or> wait_reply s tr t e n m \<or> wait_done s tr t e n m)"

section \<open>One rule per piece\<close>

text \<open>The pieces that reach a state, written out.\<close>

inductive ipc_move :: "bool \<Rightarrow> ipc_sys \<Rightarrow> ipc_event \<Rightarrow> ipc_sys \<Rightarrow> bool" for woken where
  enter: "outside (pcs s t) \<Longrightarrow> outside pc \<or> (\<exists>e m. pc = SendWaitEp e m) \<or> (\<exists>e m. pc = SendQueue e m) \<or>
     (\<exists>e. pc = RecvTest e \<and> ep_tsk (eps s e) = Some t \<and> ipc_req_count (eps s e) = 0) \<or>
     (\<exists>e m. pc = ReplyDel e m \<and> ep_tsk (eps s e) = Some t \<and> ipc_req_count (eps s e) \<noteq> 0) \<Longrightarrow>
     ipc_move woken s Silent (set_pc t pc s)"
| register: "outside (pcs s t) \<Longrightarrow> ep_tsk (eps s e) = None \<Longrightarrow>
     ipc_move woken s Silent (set_ep e ((eps s e)\<lparr>ep_tsk := Some t, ep_state := EP_STATE_RUNNING\<rparr>) s)"
| nothing: "ipc_move woken s Silent s"
| send_stop: "pcs s t = SendWaitEp e m \<or> pcs s t = SendQueue e m \<Longrightarrow> r < 0 \<Longrightarrow>
     ipc_move woken s Silent (set_pc t (Returned r (Some m)) s)"
| send_go: "pcs s t = SendWaitEp e m \<Longrightarrow> ipc_move woken s Silent (set_pc t (SendQueue e m) s)"
| send_queue: "pcs s t = SendQueue e m \<Longrightarrow> nodes s n = None \<Longrightarrow> m' = m\<lparr>m_source := pid\<rparr> \<Longrightarrow>
     pc = (if is_notifier m' then Returned 0 (Some m') else SendWait e n m') \<Longrightarrow>
     ep' = (eps s e)\<lparr>ep_list := ep_list (eps s e) @ [n],
        ep_state := (if ep_state (eps s e) = EP_STATE_WAITTING then EP_STATE_RUNNING else ep_state (eps s e))\<rparr> \<Longrightarrow>
     ipc_move woken s (Sent t e n m')
       (set_pc t pc (set_ep e ep' (set_node n (Some \<lparr>is_finish = False, node_m = m'\<rparr>) s)))"
| send_done: "pcs s t = SendWait e n m \<Longrightarrow> nodes s n = Some nd \<Longrightarrow> is_finish nd \<Longrightarrow>
     (woken \<Longrightarrow> \<forall>u. storing (pcs s u) \<noteq> Some n) \<Longrightarrow>
     ipc_move woken s (Answered t e n (node_m nd))
       (set_pc t (Returned 0 (Some (node_m nd))) (set_node n None s))"
| recv_sleep: "pcs s t = RecvTest e \<Longrightarrow> ep_list (eps s e) = [] \<Longrightarrow>
     ipc_move woken s Silent
       (set_pc t (RecvWait e) (set_ep e ((eps s e)\<lparr>ep_state := EP_STATE_WAITTING\<rparr>) s))"
| recv_some: "pcs s t = RecvTest e \<Longrightarrow> ep_list (eps s e) \<noteq> [] \<Longrightarrow>
     ipc_move woken s Silent (set_pc t (RecvTake e) s)"
| recv_woken: "pcs s t = RecvWait e \<Longrightarrow> ep_state (eps s e) = EP_STATE_RUNNING \<Longrightarrow>
     ipc_move woken s Silent (set_pc t (RecvTake e) s)"
| recv_take: "pcs s t = RecvTake e \<Longrightarrow> ep_list (eps s e) = n # q \<Longrightarrow> nodes s n = Some nd \<Longrightarrow>
     ipc_move woken s (Received t e n (node_m nd))
       (set_pc t (Returned 0 (Some (node_m nd)))
         (set_ep e ((eps s e)\<lparr>ipc_req_count := ipc_req_count (eps s e) + 1\<rparr>) s))"
| reply_notice: "pcs s t = ReplyDel e m \<Longrightarrow> ep_list (eps s e) = n # q \<Longrightarrow> nodes s n = Some nd \<Longrightarrow>
     is_notifier (node_m nd) \<Longrightarrow>
     ipc_move woken s Silent
       (set_pc t (ReplyCount e m) (set_node n None (set_ep e ((eps s e)\<lparr>ep_list := q\<rparr>) s)))"
| reply_del: "pcs s t = ReplyDel e m \<Longrightarrow> ep_list (eps s e) = n # q \<Longrightarrow> nodes s n = Some nd \<Longrightarrow>
     \<not> is_notifier (node_m nd) \<Longrightarrow>
     ipc_move woken s Silent (set_pc t (ReplyFinish e n m) (set_ep e ((eps s e)\<lparr>ep_list := q\<rparr>) s))"
| reply_finish: "pcs s t = ReplyFinish e n m \<Longrightarrow> nodes s n = Some nd \<Longrightarrow>
     ipc_move woken s Silent
       (set_pc t (ReplyCopy e n m) (set_node n (Some (nd\<lparr>is_finish := True\<rparr>)) s))"
| reply_copy: "pcs s t = ReplyCopy e n m \<Longrightarrow> nodes s n = Some nd \<Longrightarrow>
     ipc_move woken s (Replied t e n m)
       (set_pc t (ReplyWake e n m) (set_node n (Some (nd\<lparr>node_m := m\<rparr>)) s))"
| reply_wake: "pcs s t = ReplyWake e n m \<Longrightarrow> nodes s n = Some nd \<Longrightarrow>
     ipc_move woken s Silent (set_pc t (ReplyCount e m) s)"
| reply_count: "pcs s t = ReplyCount e m \<Longrightarrow>
     ipc_move woken s Silent
       (set_pc t (Returned 0 (Some m))
         (set_ep e ((eps s e)\<lparr>ipc_req_count := ipc_req_count (eps s e) - 1\<rparr>) s))"

lemma set_pc_simps [simp]:
  "pcs (set_pc t pc s) = (pcs s)(t := pc)" "eps (set_pc t pc s) = eps s" "nodes (set_pc t pc s) = nodes s"
  by (simp_all add: set_pc_def)

lemma set_ep_simps [simp]:
  "pcs (set_ep e i s) = pcs s" "eps (set_ep e i s) = (eps s)(e := i)" "nodes (set_ep e i s) = nodes s"
  by (simp_all add: set_ep_def)

lemma set_node_simps [simp]:
  "pcs (set_node n x s) = pcs s" "eps (set_node n x s) = eps s" "nodes (set_node n x s) = (nodes s)(n := x)"
  by (simp_all add: set_node_def)

lemma ipc_register_effect:
  assumes "ipc_register_from ep t comm i n = (ep', r, h)"
  shows "ep' = ep \<or> (\<exists>j. ep_tsk (ep j) = None \<and>
    ep' = ep(j := (ep j)\<lparr>ep_tsk := Some t, ep_state := EP_STATE_RUNNING\<rparr>) \<and> h = Some (int j))"
  using assms
proof (induction ep t comm i n rule: ipc_register_from.induct)
  case (2 ep t comm i n)
  show ?case
  proof (cases "ep_name (ep i) = comm \<and> ep_tsk (ep i) = None")
    case True
    then have "ep' = ep(i := (ep i)\<lparr>ep_tsk := Some t, ep_state := EP_STATE_RUNNING\<rparr>)" "h = Some (int i)"
      using 2(2) by simp_all
    then show ?thesis using True by blast
  next
    case False
    then show ?thesis using 2 by (cases "ep_name (ep i) = comm") simp_all
  qed
qed simp

lemma ipc_enter_move:
  assumes "outside (pcs s t)" "ipc_enter s t c = Enter pc"
  shows "ipc_move w s Silent (set_pc t pc s)"
  using assms
  by (cases c) (auto simp: ipc_send_enter_def ipc_notify_enter_def ipc_receive_enter_def ipc_reply_enter_def
      intro!: ipc_move.enter split: if_splits option.splits)

lemma ipc_exec_move:
  assumes "ipc_exec c pid t (pcs s t) s = Go s' ev" "\<forall>n. kmalloc_node c = Some n \<longrightarrow> nodes s n = None"
    "w \<Longrightarrow> \<forall>e n m u. pcs s t = SendWait e n m \<longrightarrow> storing (pcs s u) \<noteq> Some n"
  shows "ipc_move w s ev s'"
  using assms
  apply (cases "pcs s t")
  apply (auto simp: ipc_send_queue_def ipc_recv_take_def ipc_reply_del_def Let_def
      split: if_splits option.splits list.splits intro: ipc_move.intros)
  done

lemma ipc_step_move: "ipc_step w s ev s' \<Longrightarrow> ipc_move w s ev s'"
proof (induction rule: ipc_step.induct)
  case (reg s t comm ep' r h)
  then have "ep' = eps s \<or> (\<exists>j. ep_tsk (eps s j) = None \<and>
      ep' = (eps s)(j := (eps s j)\<lparr>ep_tsk := Some t, ep_state := EP_STATE_RUNNING\<rparr>))"
    using ipc_register_effect [of "eps s" t comm 0 4 ep' r h] unfolding ipc_register_endpoint_by_tsk_def by auto
  then show ?case
    using ipc_move.register [of s t _ w] reg(1) ipc_move.nothing [of w s] by (auto simp: set_ep_def)
qed (auto intro: ipc_enter_move ipc_exec_move)

section \<open>Preservation\<close>

lemmas ipc_inv_defs = servers_ok_def count_ok_def waiting_ok_def queues_ok_def owners_ok_def phases_ok_def

lemma outside_simps [simp]:
  "outside pc \<Longrightarrow> serves pc = None" "outside pc \<Longrightarrow> finishing pc = None"
  "outside pc \<Longrightarrow> inflight pc = None" "outside pc \<Longrightarrow> awaits pc = None" "outside pc \<Longrightarrow> phase_ok s pc"
  by (cases pc; simp)+

lemma servers_move: "ipc_move w s ev s' \<Longrightarrow> servers_ok s \<Longrightarrow> servers_ok s'"
  by (induction rule: ipc_move.induct) (auto simp: servers_ok_def split: if_splits)

lemma waiting_move: "ipc_move w s ev s' \<Longrightarrow> waiting_ok s \<Longrightarrow> waiting_ok s'"
  by (induction rule: ipc_move.induct) (auto simp: waiting_ok_def split: if_splits)

lemma awaits_Some: "awaits pc = Some n \<longleftrightarrow> (\<exists>e m. pc = SendWait e n m)"
  by (cases pc) auto

lemma inflight_Some: "inflight pc = Some n \<longleftrightarrow>
    (\<exists>e m. pc = ReplyFinish e n m \<or> pc = ReplyCopy e n m \<or> pc = ReplyWake e n m)"
  by (cases pc) auto

lemma storing_Some: "storing pc = Some n \<longleftrightarrow> (\<exists>e m. pc = ReplyCopy e n m \<or> pc = ReplyWake e n m)"
  by (cases pc) auto

lemma phases_okD: "phases_ok s \<Longrightarrow> phase_ok s (pcs s t)"
  by (simp add: phases_ok_def)

lemma awaits_alloc: "phases_ok s \<Longrightarrow> awaits (pcs s t) = Some n \<Longrightarrow> nodes s n \<noteq> None"
  using phases_okD [of s t] by (cases "pcs s t") auto

lemma inflight_alloc: "phases_ok s \<Longrightarrow> inflight (pcs s t) = Some n \<Longrightarrow> nodes s n \<noteq> None"
  using phases_okD [of s t] by (cases "pcs s t") auto

lemma queuedD: "queues_ok s \<Longrightarrow> n \<in> set (ep_list (eps s e)) \<Longrightarrow> \<exists>nd. nodes s n = Some nd \<and> \<not> is_finish nd"
  by (simp add: queues_ok_def)

lemma queue_head: "queues_ok s \<Longrightarrow> ep_list (eps s e) = n # q \<Longrightarrow> \<exists>nd. nodes s n = Some nd \<and> \<not> is_finish nd"
  using queuedD [of s n e] by simp

lemma queued_once: "queues_ok s \<Longrightarrow> n \<in> set (ep_list (eps s e)) \<Longrightarrow> n \<in> set (ep_list (eps s e')) \<Longrightarrow> e = e'"
  unfolding queues_ok_def by blast

lemma queue_distinct: "queues_ok s \<Longrightarrow> distinct (ep_list (eps s e))"
  by (simp add: queues_ok_def)

lemma inflight_queued:
  assumes "phases_ok s" "queues_ok s" "inflight (pcs s t) = Some n"
  shows "n \<notin> set (ep_list (eps s e))"
proof -
  show ?thesis
    using phases_okD [OF assms(1), of t] queuedD [OF assms(2), of n e] assms(3) by (cases "pcs s t") auto
qed

lemma servers_okD: "servers_ok s \<Longrightarrow> serves (pcs s u) = Some e \<Longrightarrow> ep_tsk (eps s e) = Some u"
  by (simp add: servers_ok_def)

lemma count_move:
  assumes "ipc_move w s ev s'" "count_ok s x" "servers_ok s" "phases_ok s"
  shows "count_ok s' x"
  using assms(1)
proof (cases rule: ipc_move.cases)
  case (recv_take t e n q nd)
  then show ?thesis using assms(2) phases_okD [OF assms(4), of t] by (auto simp: count_ok_def replying_def split: option.splits)
next
  case (reply_notice t e m n q nd)
  then show ?thesis using assms(2) servers_okD [OF assms(3), of t e] phases_okD [OF assms(4), of t]
    by (auto simp: count_ok_def replying_def split: option.splits)
next
  case (reply_del t e m n q nd)
  then show ?thesis using assms(2) servers_okD [OF assms(3), of t e] phases_okD [OF assms(4), of t]
    by (auto simp: count_ok_def replying_def split: option.splits)
next
  case (reply_finish t e n m nd)
  then show ?thesis using assms(2) servers_okD [OF assms(3), of t e] by (auto simp: count_ok_def replying_def split: option.splits)
next
  case (reply_copy t e n m nd)
  then show ?thesis using assms(2) servers_okD [OF assms(3), of t e] by (auto simp: count_ok_def replying_def split: option.splits)
next
  case (reply_wake t e n m nd)
  then show ?thesis using assms(2) servers_okD [OF assms(3), of t e] by (auto simp: count_ok_def replying_def split: option.splits)
next
  case (reply_count t e m)
  then show ?thesis using assms(2) phases_okD [OF assms(4), of t] by (auto simp: count_ok_def replying_def split: option.splits)
qed (use assms(2) in \<open>auto simp: count_ok_def replying_def split: option.splits\<close>)

lemma queues_mono:
  assumes "queues_ok s" "\<And>e. distinct (ep_list (eps s' e))"
    "\<And>e. set (ep_list (eps s' e)) \<subseteq> set (ep_list (eps s e))"
    "\<And>e n. n \<in> set (ep_list (eps s' e)) \<Longrightarrow> nodes s' n = nodes s n"
  shows "queues_ok s'"
proof -
  have "\<exists>nd. nodes s' n = Some nd \<and> \<not> is_finish nd" if "n \<in> set (ep_list (eps s' e))" for n e
    using that assms(3) [of e] assms(4) [OF that] queuedD [OF assms(1), of n e] by auto
  moreover have "set (ep_list (eps s' e)) \<inter> set (ep_list (eps s' e')) = {}" if "e \<noteq> e'" for e e'
    using that assms(3) [of e] assms(3) [of e'] queued_once [OF assms(1), of _ e e'] by blast
  ultimately show ?thesis using assms(2) unfolding queues_ok_def by blast
qed

lemma queues_move:
  assumes "ipc_move w s ev s'" "queues_ok s" "phases_ok s"
  shows "queues_ok s'"
  using assms(1)
proof (cases rule: ipc_move.cases)
  case (send_queue t e m n m' pid pc ep')
  have "n \<notin> set (ep_list (eps s e))" for e
    using queuedD [OF assms(2)] send_queue(4) by fastforce
  then show ?thesis using assms(2) send_queue by (simp add: queues_ok_def)
next
  case (send_done t e n m nd)
  have "n \<notin> set (ep_list (eps s e))" for e
    using queuedD [OF assms(2)] send_done by fastforce
  then show ?thesis using assms(2) send_done by (simp add: queues_ok_def)
next
  case (reply_notice t e m n q nd)
  have "n \<notin> set (ep_list (eps s e'))" if "e' \<noteq> e" for e'
    using queued_once [OF assms(2), of n e' e] reply_notice(4) that by auto
  moreover have "distinct (n # q)" using queue_distinct [OF assms(2), of e] reply_notice(4) by simp
  ultimately show ?thesis
    using reply_notice queue_distinct [OF assms(2)]
    by (intro queues_mono [OF assms(2)]) (auto split: if_splits)
next
  case (reply_del t e m n q nd)
  moreover have "distinct (n # q)" using queue_distinct [OF assms(2), of e] reply_del(4) by simp
  ultimately show ?thesis
    using queue_distinct [OF assms(2)] by (intro queues_mono [OF assms(2)]) auto
next
  case (reply_finish t e n m nd)
  then have "n \<notin> set (ep_list (eps s e))" for e
    using inflight_queued [OF assms(3,2), of t] by simp
  then show ?thesis using assms(2) reply_finish by (simp add: queues_ok_def)
next
  case (reply_copy t e n m nd)
  then have "n \<notin> set (ep_list (eps s e))" for e
    using inflight_queued [OF assms(3,2), of t] by simp
  then show ?thesis using assms(2) reply_copy by (simp add: queues_ok_def)
next
  case (recv_take t e n q nd)
  then have "ep_list (eps s' x) = ep_list (eps s x)" for x by simp
  then show ?thesis
    using recv_take queue_distinct [OF assms(2)] by (intro queues_mono [OF assms(2)]) simp_all
qed (use queue_distinct [OF assms(2)] in \<open>auto intro!: queues_mono [OF assms(2)] split: if_splits\<close>)

lemma owners_move:
  assumes "ipc_move w s ev s'" "owners_ok s" "queues_ok s" "phases_ok s"
  shows "owners_ok s'"
  using assms(1)
proof (cases rule: ipc_move.cases)
  case (send_queue t e m n m' pid pc ep')
  then have "awaits (pcs s u) \<noteq> Some n" for u
    using awaits_alloc [OF assms(4), of u n] by auto
  then show ?thesis using assms(2) send_queue unfolding owners_ok_def by auto
next
  case (reply_del t e m n q nd)
  then have "inflight (pcs s u) \<noteq> Some n" for u
    using inflight_queued [OF assms(4,3), of u n e] by auto
  then show ?thesis using assms(2) reply_del unfolding owners_ok_def by auto
next
  case (reply_finish t e n m nd)
  then show ?thesis using assms(2) unfolding owners_ok_def by (auto simp: fun_upd_def)
qed (use assms(2) in \<open>auto simp: owners_ok_def\<close>)

lemma ipc_inv_phase: "ipc_inv s \<Longrightarrow> phase_ok s (pcs s t)"
  by (simp add: ipc_inv_def phases_ok_def)

lemma ipc_inv_server: "ipc_inv s \<Longrightarrow> serves (pcs s t) = Some e \<Longrightarrow> ep_tsk (eps s e) = Some t"
  by (simp add: ipc_inv_def servers_ok_def)

lemma ipc_inv_count: "ipc_inv s \<Longrightarrow> count_ok s e"
  by (simp add: ipc_inv_def)

lemma ipc_inv_queues: "ipc_inv s \<Longrightarrow> queues_ok s"
  by (simp add: ipc_inv_def)

lemma ipc_inv_owners:
  "ipc_inv s \<Longrightarrow> inflight (pcs s t) = Some n \<Longrightarrow> inflight (pcs s t') = Some n \<Longrightarrow> t = t'"
  "ipc_inv s \<Longrightarrow> awaits (pcs s t) = Some n \<Longrightarrow> awaits (pcs s t') = Some n \<Longrightarrow> t = t'"
  unfolding ipc_inv_def owners_ok_def by blast+

lemma ipc_inv_off_queue: "ipc_inv s \<Longrightarrow> inflight (pcs s t) = Some n \<Longrightarrow> n \<notin> set (ep_list (eps s e))"
  unfolding ipc_inv_def using inflight_queued by blast

lemma phase_move:
  assumes "ipc_move True s ev s'" "ipc_inv s"
  shows "phase_ok s' (pcs s' u)"
proof -
  note P = ipc_inv_phase [OF assms(2)] and S = ipc_inv_server [OF assms(2)] and C = ipc_inv_count [OF assms(2)]
    and O = ipc_inv_owners [OF assms(2)] and queues = ipc_inv_queues [OF assms(2)]
  have Q: "inflight (pcs s u) = Some k \<Longrightarrow> ep_list (eps s e) = n # q \<Longrightarrow> k \<noteq> n \<and> k \<notin> set q" for k e n q
    using ipc_inv_off_queue [OF assms(2), of u k e] by auto
  show ?thesis using assms(1)
  proof (cases rule: ipc_move.cases)
    case (send_queue t e m n m' pid pc ep')
    then show ?thesis using P [of u] by (cases "pcs s u") auto
  next
    case (send_done t e n m nd)
    have "inflight (pcs s u) \<noteq> Some n"
      using P [of u] send_done by (auto simp: inflight_Some storing_Some)
    moreover have "awaits (pcs s u) \<noteq> Some n" if "u \<noteq> t"
      using O(2) [of u n t] send_done that by auto
    ultimately show ?thesis using P [of u] send_done by (cases "pcs s u") auto
  next
    case (recv_take t e n q nd)
    then show ?thesis using Q [OF _ recv_take(4)] P [of u] P [of t] S [of t e] S [of u e] by (cases "pcs s u") auto
  next
    case (reply_notice t e m n q nd)
    have "inflight (pcs s u) \<noteq> Some n" using ipc_inv_off_queue [OF assms(2), of u n e] reply_notice(4) by auto
    moreover have "\<not> is_finish nd" using queuedD [OF queues, of n e] reply_notice by auto
    moreover have "awaits (pcs s u) \<noteq> Some n" using P [of u] reply_notice calculation(2) by (auto simp: awaits_Some)
    ultimately show ?thesis
      using Q [OF _ reply_notice(4)] P [of u] P [of t] reply_notice S [of t e] S [of u e] by (cases "pcs s u") auto
  next
    case (reply_del t e m n q nd)
    have "n \<notin> set (ep_list (eps s' x))" for x 
      using reply_del queue_distinct [OF queues, of e] queued_once [OF queues, of n e x] by (cases "x = e") auto
    moreover have "\<not> is_finish nd" using queuedD [OF queues, of n e] reply_del by auto
    ultimately show ?thesis
      using Q [OF _ reply_del(4)] P [of u] P [of t] reply_del S [of t e] S [of u e] by (cases "pcs s u") auto
  next
    case (reply_finish t e n m nd)
    have "inflight (pcs s u) \<noteq> Some n" if "u \<noteq> t" using O(1) [of u n t] reply_finish that by auto
    then show ?thesis using P [of u] P [of t] reply_finish by (cases "pcs s u") auto
  next
    case (reply_copy t e n m nd)
    have "inflight (pcs s u) \<noteq> Some n" if "u \<noteq> t" using O(1) [of u n t] reply_copy that by auto
    then show ?thesis using P [of u] P [of t] reply_copy by (cases "pcs s u") auto
  next
    case (reply_count t e m)
    then show ?thesis using P [of u] S [of t e] S [of u e] by (cases "pcs s u") auto
  next
    case (recv_sleep t e)
    then show ?thesis using P [of u] P [of t] S [of t e] S [of u e] by (cases "pcs s u") auto
  next
    case (recv_woken t e)
    then show ?thesis using P [of u] P [of t] by (cases "pcs s u") auto
  next
    case (recv_some t e)
    then show ?thesis using P [of u] P [of t] by (cases "pcs s u") auto
  next
    case (enter t pc)
    have "ep_tsk (eps s e) = Some t \<Longrightarrow> ipc_req_count (eps s e) \<noteq> 0 \<Longrightarrow>
        ipc_req_count (eps s e) = 1 \<and> ep_list (eps s e) \<noteq> []" for e
      using C [of e] enter(3) by (auto simp: count_ok_def replying_def)
    then show ?thesis using enter P [of u] by (cases "pcs s u") auto
  next
    case (register t e)
    then show ?thesis using P [of u] S [of u e] by (cases "pcs s u") auto
  next
    case (reply_wake t e n m nd)
    then show ?thesis using P [of u] P [of t] by (cases "pcs s u") auto
  next
    case (send_stop t e m r)
    then show ?thesis using P [of u] by (cases "pcs s u") auto
  next
    case (send_go t e m)
    then show ?thesis using P [of u] by (cases "pcs s u") auto
  next
    case nothing
    then show ?thesis using P [of u] by simp
  qed
qed


lemma ipc_inv_start: "ipc_inv ipc_start"
  by (simp add: ipc_inv_def ipc_inv_defs ipc_start_def ipc_init_def)

lemma ipc_inv_move: "ipc_move True s ev s' \<Longrightarrow> ipc_inv s \<Longrightarrow> ipc_inv s'"
  using phase_move unfolding ipc_inv_def [of s'] phases_ok_def [of s']
  by (auto simp: ipc_inv_def intro: servers_move count_move waiting_move queues_move owners_move)

lemma ipc_reach_inv: "ipc_reach True tr s \<Longrightarrow> ipc_inv s"
  by (induction rule: ipc_reach.induct) (auto intro: ipc_inv_start ipc_inv_move ipc_step_move)

lemma ipc_inv_no_fault:
  assumes "ipc_inv s"
  shows "ipc_exec c pid t (pcs s t) s \<noteq> Fault"
proof -
  have "phase_ok s (pcs s t)" "queues_ok s" using assms by (simp_all add: ipc_inv_def phases_ok_def)
  then show ?thesis
    by (cases "pcs s t") (auto simp: ipc_send_queue_def ipc_recv_take_def ipc_reply_del_def Let_def
        split: option.splits list.splits if_splits dest: queue_head)
qed

section \<open>Delivery and exchange\<close>

lemma sent_to_append [simp]: "sent_to e (xs @ ys) = sent_to e xs @ sent_to e ys"
  by (induction e xs rule: sent_to.induct) auto

lemma received_at_append [simp]: "received_at e (xs @ ys) = received_at e xs @ received_at e ys"
  by (induction e xs rule: received_at.induct) auto

lemma pending_same:
  assumes "ep_list (eps s' e) = ep_list (eps s e)" "received s' e = received s e"
    "\<And>n. n \<in> set (ep_list (eps s e)) \<Longrightarrow> nodes s' n = nodes s n"
  shows "pending_messages s' e = pending_messages s e"
  using assms by (auto simp: pending_messages_def pending_def dest: in_set_tlD)

lemma delivery_move:
  assumes "ipc_move True s ev s'" "ipc_inv s" "sent_to x tr = received_at x tr @ pending_messages s x"
  shows "sent_to x (tr @ [ev]) = received_at x (tr @ [ev]) @ pending_messages s' x"
proof -
  note P = ipc_inv_phase [OF assms(2)] and S = ipc_inv_server [OF assms(2)] and C = ipc_inv_count [OF assms(2)]
    and F = ipc_inv_off_queue [OF assms(2)] and queues = ipc_inv_queues [OF assms(2)]
  have keep: ?thesis if "sent_to x [ev] = []" "received_at x [ev] = []"
    "ep_list (eps s' x) = ep_list (eps s x)" "received s' x = received s x"
    "\<And>n. n \<in> set (ep_list (eps s x)) \<Longrightarrow> nodes s' n = nodes s n"
    using that assms(3) pending_same [of s' x s] by simp
  show ?thesis using assms(1)
  proof (cases rule: ipc_move.cases)
    case (send_queue t e m n m' pid pc ep')
    have "n \<notin> set (ep_list (eps s x))"
      using queuedD [OF queues, of n x] send_queue(4) by auto
    moreover have "received s' x = received s x"
      using send_queue by (auto simp: received_def replying_def split: option.splits)
    moreover have "received s e \<Longrightarrow> ep_list (eps s e) \<noteq> []"
      using C [of e] by (auto simp: received_def count_ok_def)
    ultimately show ?thesis
      using send_queue assms(3) by (auto simp: pending_messages_def pending_def dest: in_set_tlD)
  next
    case (send_done t e n m nd)
    then show ?thesis using queuedD [OF queues, of n x]
      by (intro keep) (auto simp: received_def replying_def split: option.splits)
  next
    case (recv_take t e n q nd)
    then have "received s' x = (x = e \<or> received s x)" "\<not> received s e"
      using P [of t] S [of t e] by (auto simp: received_def replying_def split: option.splits)
    then show ?thesis
      using recv_take assms(3) by (auto simp: pending_messages_def pending_def)
  next
    case (reply_notice t e m n q nd)
    then have r: "received s' x = (x \<noteq> e \<and> received s x)" "received s e"
      using P [of t] S [of t e] by (auto simp: received_def replying_def split: option.splits)
    have "distinct (n # q)" "x \<noteq> e \<Longrightarrow> n \<notin> set (ep_list (eps s x))"
      using queue_distinct [OF queues, of e] queued_once [OF queues, of n e x] reply_notice(4) by auto
    then show ?thesis
      using reply_notice assms(3) r
      by (auto simp: pending_messages_def pending_def dest: in_set_tlD)
  next
    case (reply_del t e m n q nd)
    then have "received s' x = (x \<noteq> e \<and> received s x)" "received s e"
      using P [of t] S [of t e] by (auto simp: received_def replying_def split: option.splits)
    then show ?thesis
      using reply_del assms(3) by (auto simp: pending_messages_def pending_def)
  next
    case (reply_finish t e n m nd)
    then show ?thesis using F [of t n x]
      by (intro keep) (auto simp: received_def replying_def split: option.splits)
  next
    case (reply_copy t e n m nd)
    then show ?thesis using F [of t n x]
      by (intro keep) (auto simp: received_def replying_def split: option.splits)
  next
    case (reply_count t e m)
    then show ?thesis using P [of t] S [of t e]
      by (intro keep) (auto simp: received_def replying_def split: option.splits)
  qed (intro keep; auto simp: received_def replying_def split: option.splits)+
qed


lemma subseq_snoc: "subseq xs tr \<Longrightarrow> subseq xs (tr @ [ev])"
  by (rule list_emb_prefix)

lemma subseq_snoc_same: "subseq xs tr \<Longrightarrow> subseq (xs @ [ev]) (tr @ [ev])"
  by (simp add: list_emb_append_mono)

lemma wait_queued_move:
  assumes "ipc_move True s ev s'" "ipc_inv s" "wait_queued s tr t e n m"
    "pcs s t = SendWait e n m" "pcs s' t = SendWait e n m"
  shows "wait_queued s' (tr @ [ev]) t e n m \<or> wait_reply s' (tr @ [ev]) t e n m"
proof -
  note P = ipc_inv_phase [OF assms(2)] and S = ipc_inv_server [OF assms(2)] and C = ipc_inv_count [OF assms(2)]
    and F = ipc_inv_off_queue [OF assms(2)] and queues = ipc_inv_queues [OF assms(2)]
  from assms(3) obtain nd where q: "n \<in> set (ep_list (eps s e))" "nodes s n = Some nd" "node_m nd = m"
    "subseq [Sent t e n m] tr" "received s e \<Longrightarrow> hd (ep_list (eps s e)) = n \<Longrightarrow>
      \<exists>u. ep_tsk (eps s e) = Some u \<and> subseq [Sent t e n m, Received u e n m] tr"
    by (auto simp: wait_queued_def)
  have fin: "\<not> is_finish nd" using queuedD [OF queues q(1)] q(2) by simp
  have keep: ?thesis if "n \<in> set (ep_list (eps s' e))" "nodes s' n = nodes s n"
    "received s' e \<Longrightarrow> hd (ep_list (eps s' e)) = n \<Longrightarrow> received s e \<and> hd (ep_list (eps s e)) = n \<and>
       (\<forall>u. ep_tsk (eps s e) = Some u \<longrightarrow> ep_tsk (eps s' e) = Some u)"
    using that q by (fastforce simp: wait_queued_def intro: subseq_snoc)
  show ?thesis using assms(1)
  proof (cases rule: ipc_move.cases)
    case (send_queue t' e' m' n' m'' pid pc ep')
    then show ?thesis
      using q(1,2) by (intro keep) (auto simp: received_def replying_def hd_append split: option.splits if_splits)
  next
    case (register t' e')
    then show ?thesis
      using q by (intro keep) (auto simp: received_def replying_def split: option.splits if_splits)
  next
    case (recv_take t' e' n' q' nd')
    show ?thesis
    proof (cases "e' = e \<and> n' = n")
      case True
      then show ?thesis
        using recv_take q S [of t' e] subseq_snoc_same [OF q(4), of ev]
        by (auto simp: wait_queued_def intro: subseq_snoc)
    next
      case False
      then show ?thesis
        using recv_take q by (cases "e' = e") (auto simp: wait_queued_def received_def replying_def
          intro: subseq_snoc split: option.splits if_splits)
    qed
  next
    case (reply_notice t' e' m' n' q' nd')
    have "n' \<noteq> n" using P [of t] assms(4) q(2) fin reply_notice by auto
    then show ?thesis
      using reply_notice q S [of t' e'] by (intro keep) (auto simp: received_def replying_def split: option.splits if_splits)
  next
    case (reply_del t' e' m' n' q' nd')
    show ?thesis
    proof (cases "n' = n")
      case True
      then have "e' = e" using queued_once [OF queues q(1), of e'] reply_del by simp
      then have "received s e" using reply_del P [of t'] S [of t' e] by (simp add: received_def replying_def)
      then show ?thesis
        using True \<open>e' = e\<close> reply_del q(5) S [of t' e]
        by (auto simp: wait_reply_def intro!: subseq_snoc exI [of _ t'])
    next
      case False
      then show ?thesis
        using reply_del q S [of t' e'] by (intro keep) (auto simp: received_def replying_def split: option.splits if_splits)
    qed
  next
    case (reply_finish t' e' n' m' nd')
    then have "n' \<noteq> n" using F [of t' n' e] q(1) by auto
    then show ?thesis using reply_finish q
      by (intro keep) (auto simp: received_def replying_def split: option.splits if_splits)
  next
    case (reply_copy t' e' n' m' nd')
    then have "n' \<noteq> n" using F [of t' n' e] q(1) by auto
    then show ?thesis using reply_copy q
      by (intro keep) (auto simp: received_def replying_def split: option.splits if_splits)
  next
    case (send_done t' e' n' m' nd')
    then have "n' \<noteq> n" using q(2) fin by auto
    then show ?thesis using send_done q
      by (intro keep) (auto simp: received_def replying_def split: option.splits if_splits)
  next
    case (reply_count t' e' m')
    then show ?thesis using P [of t'] S [of t' e'] q
      by (intro keep) (auto simp: received_def replying_def split: option.splits if_splits)
  qed (use q in \<open>intro keep; auto simp: received_def replying_def split: option.splits if_splits\<close>)+
qed

lemma wait_reply_move:
  assumes "ipc_move True s ev s'" "ipc_inv s" "wait_reply s tr t e n m"
  shows "wait_reply s' (tr @ [ev]) t e n m \<or> wait_done s' (tr @ [ev]) t e n m"
proof -
  from assms(3) obtain u r where u: "pcs s u = ReplyFinish e n r \<or> pcs s u = ReplyCopy e n r"
    "subseq [Sent t e n m, Received u e n m] tr" by (auto simp: wait_reply_def)
  have keep: ?thesis if "pcs s' u = ReplyFinish e n r \<or> pcs s' u = ReplyCopy e n r"
    using that subseq_snoc [OF u(2), of ev] by (auto simp: wait_reply_def)
  show ?thesis using assms(1)
  proof (cases rule: ipc_move.cases)
    case (reply_copy t' e' n' m' nd')
    show ?thesis
    proof (cases "t' = u")
      case True
      then have "pcs s v \<noteq> ReplyCopy x n y" if "v \<noteq> u" for v x y
        using ipc_inv_owners(1) [OF assms(2), of v n u] that u(1) by auto
      then show ?thesis
        using reply_copy True u subseq_snoc_same [OF u(2), of ev] ipc_inv_phase [OF assms(2), of u] by (auto simp: wait_done_def)
    next
      case False
      then show ?thesis using reply_copy u by (intro keep) auto
    qed
  qed (use u in \<open>intro keep; auto\<close>)+
qed

lemma wait_done_move:
  assumes "ipc_move True s ev s'" "ipc_inv s" "wait_done s tr t e n m"
    "pcs s t = SendWait e n m" "pcs s' t = SendWait e n m"
  shows "wait_done s' (tr @ [ev]) t e n m"
proof -
  note P = ipc_inv_phase [OF assms(2)] and queues = ipc_inv_queues [OF assms(2)]
  from assms(3) obtain nd u where d: "nodes s n = Some nd" "is_finish nd" "\<And>u e' r. pcs s u \<noteq> ReplyCopy e' n r"
    "subseq [Sent t e n m, Received u e n m, Replied u e n (node_m nd)] tr"
    by (auto simp: wait_done_def)
  have keep: ?thesis if "nodes s' n = nodes s n" "\<And>u e' r. pcs s' u \<noteq> ReplyCopy e' n r"
    using that d subseq_snoc [OF d(4), of ev] by (auto simp: wait_done_def)
  show ?thesis using assms(1)
  proof (cases rule: ipc_move.cases)
    case (send_done t' e' n' m' nd')
    then have "n' \<noteq> n" using ipc_inv_owners(2) [OF assms(2), of t n t'] assms(4,5) by auto
    then show ?thesis using send_done d by (intro keep) auto
  next
    case (reply_notice t' e' m' n' q' nd')
    then have "n' \<noteq> n" using queue_head [OF queues reply_notice(4)] d by auto
    then show ?thesis using reply_notice d by (intro keep) auto
  next
    case (reply_finish t' e' n' m' nd')
    then have "n' \<noteq> n" using P [of t'] d by auto
    then show ?thesis using reply_finish d by (intro keep) auto
  qed (use d in \<open>intro keep; auto\<close>)+
qed

lemma waits_move:
  assumes "ipc_move True s ev s'" "ipc_inv s" "waits_ok s tr"
  shows "waits_ok s' (tr @ [ev])"
  unfolding waits_ok_def
proof (intro allI impI)
  fix t e n m assume w: "pcs s' t = SendWait e n m"
  show "wait_queued s' (tr @ [ev]) t e n m \<or> wait_reply s' (tr @ [ev]) t e n m \<or> wait_done s' (tr @ [ev]) t e n m"
  proof (cases "pcs s t = SendWait e n m")
    case True
    then show ?thesis
      using assms(3) w wait_queued_move [OF assms(1,2)] wait_reply_move [OF assms(1,2)]
        wait_done_move [OF assms(1,2)] unfolding waits_ok_def by meson
  next
    case False
    have "ev = Sent t e n m \<and> nodes s n = None \<and> ep_list (eps s' e) = ep_list (eps s e) @ [n] \<and>
        map_option node_m (nodes s' n) = Some m \<and> received s' e = received s e"
      using assms(1) w False
      by (cases rule: ipc_move.cases) (auto simp: received_def replying_def split: if_splits option.splits)
    note ev = conjunct1 [OF this] this [THEN conjunct2]
    have "n \<notin> set (ep_list (eps s e))" using queuedD [OF ipc_inv_queues [OF assms(2)], of n e] ev by auto
    moreover have "received s e \<Longrightarrow> ep_list (eps s e) \<noteq> []"
      using ipc_inv_count [OF assms(2), of e] by (auto simp: received_def count_ok_def)
    ultimately show ?thesis
      using ev by (auto simp: wait_queued_def intro: list_emb_append2)
  qed
qed

lemma answered_move:
  assumes "ipc_move True s (Answered t e n r) s'" "ipc_inv s" "waits_ok s tr"
  shows "\<exists>u m. subseq [Sent t e n m, Received u e n m, Replied u e n r] tr"
  using assms(1)
proof (cases rule: ipc_move.cases)
  case (send_done m nd)
  have "\<not> wait_queued s tr t e n m"
    using queuedD [OF ipc_inv_queues [OF assms(2)], of n e] send_done by (auto simp: wait_queued_def)
  moreover
  have "pcs s u \<noteq> ReplyFinish e n r' \<and> pcs s u \<noteq> ReplyCopy e n r'" for u r'
    using ipc_inv_phase [OF assms(2), of u] send_done(3-6) by (auto simp: storing_Some)
  then have "\<not> wait_reply s tr t e n m" by (auto simp: wait_reply_def)
  with calculation have "wait_done s tr t e n m" using assms(3) send_done by (auto simp: waits_ok_def)
  then show ?thesis using send_done by (auto simp: wait_done_def)
qed

lemma ipc_reach_delivery: "ipc_reach True tr s \<Longrightarrow> sent_to e tr = received_at e tr @ pending_messages s e"
proof (induction rule: ipc_reach.induct)
  case start
  then show ?case by (simp add: pending_messages_def pending_def received_def ipc_start_def ipc_init_def)
next
  case (step tr s ev s')
  then show ?case using delivery_move ipc_step_move ipc_reach_inv by blast
qed

lemma ipc_reach_waits: "ipc_reach True tr s \<Longrightarrow> waits_ok s tr"
proof (induction rule: ipc_reach.induct)
  case start
  then show ?case by (simp add: waits_ok_def ipc_start_def)
next
  case (step tr s ev s')
  then show ?case using waits_move ipc_step_move ipc_reach_inv by blast
qed

lemma ipc_reach_answered:
  assumes "ipc_reach True tr s" "Answered t e n r \<in> set tr"
  shows "\<exists>u m. subseq [Sent t e n m, Received u e n m, Replied u e n r, Answered t e n r] tr"
  using assms
proof (induction rule: ipc_reach.induct)
  case (step tr s ev s')
  show ?case
  proof (cases "Answered t e n r \<in> set tr")
    case True
    then show ?thesis using step.IH subseq_snoc by blast
  next
    case False
    then have "ev = Answered t e n r" using step.prems by auto
    then have "\<exists>u m. subseq [Sent t e n m, Received u e n m, Replied u e n r] tr"
      using answered_move ipc_step_move step.hyps ipc_reach_inv ipc_reach_waits by blast
    then show ?thesis using subseq_snoc_same \<open>ev = _\<close> by fastforce
  qed
qed simp

section \<open>Early returns\<close>

text \<open>
  \<open>ipc_raced tr s\<close>: in a run of the code to \<open>s\<close> with the events \<open>tr\<close>, some sender returned from \<^verbatim>\<open>__ipc_send\<close>
  while the replier was between the store of \<^verbatim>\<open>is_finish\<close> and the wake-up.
\<close>

inductive ipc_raced :: "ipc_event list \<Rightarrow> ipc_sys \<Rightarrow> bool" where
  race: "ipc_reach True tr s \<Longrightarrow> pcs s t = SendWait e n m \<Longrightarrow> storing (pcs s u) = Some n \<Longrightarrow>
    ipc_step False s (Answered t e n r) s' \<Longrightarrow> ipc_raced (tr @ [Answered t e n r]) s'"
| more: "ipc_raced tr s \<Longrightarrow> ipc_step False s ev s' \<Longrightarrow> ipc_raced (tr @ [ev]) s'"

lemma ipc_step_cases:
  assumes "ipc_step False s ev s'"
  shows "ipc_step True s ev s' \<or> (\<exists>t e n m u r. pcs s t = SendWait e n m \<and> storing (pcs s u) = Some n \<and> ev = Answered t e n r)"
  using assms
proof cases
  case (run c t pid)
  show ?thesis
  proof (cases "\<exists>e n m u. pcs s t = SendWait e n m \<and> storing (pcs s u) = Some n")
    case True
    then obtain e n m u where "pcs s t = SendWait e n m" "storing (pcs s u) = Some n" by blast
    moreover from this have "\<exists>r. ev = Answered t e n r" using run(3) by (auto split: option.splits if_splits)
    ultimately show ?thesis by blast
  next
    case False
    then have "ipc_step True s ev s'" using run by (intro ipc_step.run [of c]) auto
    then show ?thesis ..
  qed
qed (auto intro: ipc_step.call ipc_step.reg)

lemma ipc_reach_or_raced: "ipc_reach False tr s \<Longrightarrow> ipc_reach True tr s \<or> ipc_raced tr s"
proof (induction rule: ipc_reach.induct)
  case (step tr s ev s')
  show ?case
  proof (cases "ipc_raced tr s")
    case True
    then show ?thesis using ipc_raced.more step.hyps(2) by blast
  next
    case False
    then have "ipc_reach True tr s" using step.IH by blast
    then show ?thesis using ipc_step_cases [OF step.hyps(2)] step.hyps(2) ipc_reach.step ipc_raced.race by blast
  qed
qed (simp add: ipc_reach.start)

end
