(* ===== verification/Ipc_Wait.thy ===== *)
theory Ipc_Wait
  imports Ipc_Safety
begin

text \<open>
  The wait queues of the message-passing code. In theory \<open>Ipc\<close> a waiting task can run whenever its
  condition holds; here it sleeps in \<^verbatim>\<open>schedule\<close> until a \<^verbatim>\<open>wake_up\<close> of the queue it is on, as in the macros
  \<^verbatim>\<open>wait_event\<close> and \<^verbatim>\<open>wait_event_timeout\<close> over \<^verbatim>\<open>prepare_to_wait\<close>, \<^verbatim>\<open>finish_wait\<close> and \<^verbatim>\<open>__wake_up\<close>. Every
  queue is non-exclusive, so a \<^verbatim>\<open>wake_up\<close> wakes all that sleep on it. The test of a condition, the change of the queue
  and the sleep are separate steps, and a \<^verbatim>\<open>wake_up\<close> that follows a store is a separate step of the task that
  stores, so that every interleaving of the two sides is a run of the model.
\<close>

section \<open>Wait queues\<close>

datatype wait_queue =
    Ep_wait nat     \<comment> \<open>\<^verbatim>\<open>ipc_ep_info[e].wait\<close>\<close>
  | Node_wait node  \<comment> \<open>\<^verbatim>\<open>ep_node->wait\<close>\<close>

datatype wait_phase =
    Enter_wait      \<comment> \<open>about to test the condition for the first time, or not waiting\<close>
  | Prepare_wait    \<comment> \<open>about to \<^verbatim>\<open>prepare_to_wait\<close>\<close>
  | Test_wait       \<comment> \<open>about to test the condition again\<close>
  | Sched_wait      \<comment> \<open>in \<^verbatim>\<open>schedule\<close>\<close>

text \<open>
  \<open>sleeping\<close> is the task state \<^verbatim>\<open>TASK_UNINTERRUPTIBLE\<close>; \<open>owes\<close> is the \<^verbatim>\<open>wake_up\<close> a task has still to do for the
  store it has made.
\<close>

record wq_sys =
  sys :: ipc_sys
  in_queue :: "wait_queue \<Rightarrow> tsk list"
  sleeping :: "tsk \<Rightarrow> bool"
  phase :: "tsk \<Rightarrow> wait_phase"
  owes :: "tsk \<Rightarrow> wait_queue option"

fun wait_on :: "ipc_pc \<Rightarrow> wait_queue option" where
  "wait_on (SendWaitEp e m) = Some (Ep_wait e)"
| "wait_on (SendWait e n m) = Some (Node_wait n)"
| "wait_on (RecvWait e) = Some (Ep_wait e)"
| "wait_on _ = None"

fun wait_cond :: "ipc_pc \<Rightarrow> ipc_sys \<Rightarrow> bool" where
  "wait_cond (SendWaitEp e m) s \<longleftrightarrow> ep_state (eps s e) = EP_STATE_RUNNING"
| "wait_cond (SendWait e n m) s \<longleftrightarrow> (case nodes s n of None \<Rightarrow> False | Some nd \<Rightarrow> is_finish nd)"
| "wait_cond (RecvWait e) s \<longleftrightarrow> ep_state (eps s e) = EP_STATE_RUNNING"
| "wait_cond _ s \<longleftrightarrow> False"

definition set_phase :: "tsk \<Rightarrow> wait_phase \<Rightarrow> wq_sys \<Rightarrow> wq_sys" where
  "set_phase t p w = w\<lparr>phase := (phase w)(t := p)\<rparr>"

definition init_waitqueue_head :: "wait_queue \<Rightarrow> wq_sys \<Rightarrow> wq_sys" where
  "init_waitqueue_head q w = w\<lparr>in_queue := (in_queue w)(q := [])\<rparr>"

definition prepare_to_wait :: "wait_queue \<Rightarrow> tsk \<Rightarrow> wq_sys \<Rightarrow> wq_sys" where
  "prepare_to_wait q t w =
     w\<lparr>in_queue := (in_queue w)(q := (if t \<in> set (in_queue w q) then in_queue w q else t # in_queue w q)),
       sleeping := (sleeping w)(t := True)\<rparr>"

definition finish_wait :: "wait_queue \<Rightarrow> tsk \<Rightarrow> wq_sys \<Rightarrow> wq_sys" where
  "finish_wait q t w =
     w\<lparr>in_queue := (in_queue w)(q := filter (\<lambda>u. u \<noteq> t) (in_queue w q)), sleeping := (sleeping w)(t := False)\<rparr>"

text \<open>
  \<^verbatim>\<open>__wake_up\<close> with \<^verbatim>\<open>autoremove_wake_function\<close>: every entry whose task sleeps is made runnable and leaves
  the queue.
\<close>

definition wake_up :: "wait_queue \<Rightarrow> wq_sys \<Rightarrow> wq_sys" where
  "wake_up q w =
     w\<lparr>in_queue := (in_queue w)(q := filter (\<lambda>u. \<not> sleeping w u) (in_queue w q)),
       sleeping := (\<lambda>u. sleeping w u \<and> u \<notin> set (in_queue w q))\<rparr>"

text \<open>The first \<^verbatim>\<open>if (condition) break\<close> is before the entry is queued; the one in the loop is followed by \<^verbatim>\<open>finish_wait\<close>.\<close>

definition leave_wait :: "wait_queue \<Rightarrow> tsk \<Rightarrow> wq_sys \<Rightarrow> wq_sys" where
  "leave_wait q t w = (if phase w t = Enter_wait then w else finish_wait q t w)"

text \<open>
  The wait queue part of a piece of \<open>ipc_exec\<close>: \<^verbatim>\<open>__ipc_send\<close> initialises the queue of its node and owes the
  receiver a \<^verbatim>\<open>wake_up\<close> when it has found the state \<^verbatim>\<open>EP_STATE_WAITTING\<close>; \<^verbatim>\<open>__ipc_reply\<close> wakes the sender.
\<close>

definition wq_run :: "tsk \<Rightarrow> ipc_sys \<Rightarrow> ipc_event \<Rightarrow> wq_sys \<Rightarrow> wq_sys" where
  "wq_run t s' ev w =
     (let w' = set_phase t Enter_wait (w\<lparr>sys := s'\<rparr>) in
      case pcs (sys w) t of
        SendQueue e m \<Rightarrow>
          (case ev of
             Sent u e' n m' \<Rightarrow>
               (init_waitqueue_head (Node_wait n) w')\<lparr>owes := (owes w)(t :=
                  (if ep_state (eps (sys w) e) = EP_STATE_WAITTING then Some (Ep_wait e) else None))\<rparr>
           | _ \<Rightarrow> w')
      | ReplyWake e n m \<Rightarrow> wake_up (Node_wait n) w'
      | _ \<Rightarrow> w')"

section \<open>Interleavings\<close>

definition no_choice :: ipc_choice where
  "no_choice = \<lparr>kmalloc_node = None, timed_out = False\<rparr>"

inductive wq_piece :: "wq_sys \<Rightarrow> ipc_event \<Rightarrow> wq_sys \<Rightarrow> bool" where
  call: "owes w t = None \<Longrightarrow> outside (pcs (sys w) t) \<Longrightarrow> ipc_enter (sys w) t c = Enter pc \<Longrightarrow>
    wq_piece w Silent (set_phase t Enter_wait (w\<lparr>sys := set_pc t pc (sys w)\<rparr>))"
| reg: "owes w t = None \<Longrightarrow> outside (pcs (sys w) t) \<Longrightarrow>
    ipc_register_endpoint_by_tsk (eps (sys w)) (Some t) comm = (ep', r, h) \<Longrightarrow>
    wq_piece w Silent (w\<lparr>sys := (sys w)\<lparr>eps := ep'\<rparr>,
      owes := (owes w)(t := map_option (\<lambda>i. Ep_wait (nat i)) h)\<rparr>)"
| run: "owes w t = None \<Longrightarrow> wait_on (pcs (sys w) t) = None \<Longrightarrow>
    (\<forall>n. kmalloc_node c = Some n \<longrightarrow> nodes (sys w) n = None) \<Longrightarrow>
    ipc_exec c pid t (pcs (sys w) t) (sys w) = Go s' ev \<Longrightarrow> wq_piece w ev (wq_run t s' ev w)"
| leave: "owes w t = None \<Longrightarrow> wait_on (pcs (sys w) t) = Some q \<Longrightarrow> phase w t = Enter_wait \<or> phase w t = Test_wait \<Longrightarrow>
    ipc_exec no_choice pid t (pcs (sys w) t) (sys w) = Go s' ev \<Longrightarrow>
    wq_piece w ev (wq_run t s' ev (leave_wait q t w))"
| timeout: "owes w t = None \<Longrightarrow> pcs (sys w) t = SendWaitEp e m \<Longrightarrow> phase w t = Sched_wait \<Longrightarrow>
    ipc_exec (no_choice\<lparr>timed_out := True\<rparr>) pid t (pcs (sys w) t) (sys w) = Go s' ev \<Longrightarrow>
    wq_piece w ev (wq_run t s' ev (leave_wait (Ep_wait e) t w))"

inductive wq_local :: "wq_sys \<Rightarrow> wq_sys \<Rightarrow> bool" where
  first: "owes w t = None \<Longrightarrow> wait_on (pcs (sys w) t) = Some q \<Longrightarrow> phase w t = Enter_wait \<Longrightarrow>
    ipc_exec no_choice 0 t (pcs (sys w) t) (sys w) = Blocked \<Longrightarrow> wq_local w (set_phase t Prepare_wait w)"
| prepare: "wait_on (pcs (sys w) t) = Some q \<Longrightarrow> phase w t = Prepare_wait \<Longrightarrow>
    wq_local w (set_phase t Test_wait (prepare_to_wait q t w))"
| test: "phase w t = Test_wait \<Longrightarrow> ipc_exec no_choice 0 t (pcs (sys w) t) (sys w) = Blocked \<Longrightarrow>
    wq_local w (set_phase t Sched_wait w)"
| resume: "phase w t = Sched_wait \<Longrightarrow> \<not> sleeping w t \<Longrightarrow> wq_local w (set_phase t Prepare_wait w)"
| wake: "owes w t = Some q \<Longrightarrow> wq_local w ((wake_up q w)\<lparr>owes := (owes w)(t := None)\<rparr>)"

definition wq_start :: wq_sys where
  "wq_start = \<lparr>sys = ipc_start, in_queue = (\<lambda>_. []), sleeping = (\<lambda>_. False), phase = (\<lambda>_. Enter_wait),
     owes = (\<lambda>_. None)\<rparr>"

inductive wq_reach :: "ipc_event list \<Rightarrow> wq_sys \<Rightarrow> bool" where
  start: "wq_reach [] wq_start"
| piece: "wq_reach tr w \<Longrightarrow> wq_piece w ev w' \<Longrightarrow> wq_reach (tr @ [ev]) w'"
| local: "wq_reach tr w \<Longrightarrow> wq_local w w' \<Longrightarrow> wq_reach tr w'"

text \<open>A task is asleep in \<^verbatim>\<open>schedule\<close>; a task is about to wake the sleepers of a queue.\<close>

definition asleep :: "wq_sys \<Rightarrow> tsk \<Rightarrow> bool" where
  "asleep w t \<longleftrightarrow> phase w t = Sched_wait \<and> sleeping w t"

definition about_to_wake :: "wq_sys \<Rightarrow> tsk \<Rightarrow> wait_queue \<Rightarrow> bool" where
  "about_to_wake w u q \<longleftrightarrow> owes w u = Some q \<or> (\<exists>n. q = Node_wait n \<and> storing (pcs (sys w) u) = Some n)"

section \<open>The wait queues refine the waiting of theory Ipc\<close>

lemma wq_ops_simps [simp]:
  "sys (set_phase t p w) = sys w" "in_queue (set_phase t p w) = in_queue w"
  "sleeping (set_phase t p w) = sleeping w" "phase (set_phase t p w) = (phase w)(t := p)"
  "owes (set_phase t p w) = owes w"
  "sys (wake_up q w) = sys w" "phase (wake_up q w) = phase w" "owes (wake_up q w) = owes w"
  "sys (finish_wait q t w) = sys w" "phase (finish_wait q t w) = phase w" "owes (finish_wait q t w) = owes w"
  "sys (leave_wait q t w) = sys w" "phase (leave_wait q t w) = phase w" "owes (leave_wait q t w) = owes w"
  "sys (prepare_to_wait q t w) = sys w" "phase (prepare_to_wait q t w) = phase w" "owes (prepare_to_wait q t w) = owes w"
  "sys (init_waitqueue_head q w) = sys w" "phase (init_waitqueue_head q w) = phase w"
  "owes (init_waitqueue_head q w) = owes w" "sleeping (init_waitqueue_head q w) = sleeping w"
  by (simp_all add: set_phase_def wake_up_def finish_wait_def leave_wait_def prepare_to_wait_def init_waitqueue_head_def)

lemma wq_run_simps [simp]: "sys (wq_run t s' ev w) = s'" "phase (wq_run t s' ev w) = (phase w)(t := Enter_wait)"
  by (auto simp: wq_run_def Let_def split: ipc_pc.splits ipc_event.splits)

lemma wq_piece_step: "wq_piece w ev w' \<Longrightarrow> ipc_step False (sys w) ev (sys w')"
proof (induction rule: wq_piece.induct)
  case (leave w t q pid s' ev)
  then show ?case using ipc_step.run [of no_choice "sys w" False t pid s' ev] by (simp add: no_choice_def)
next
  case (timeout w t e m pid s' ev)
  then show ?case using ipc_step.run [of "no_choice\<lparr>timed_out := True\<rparr>" "sys w" False t pid s' ev] by (simp add: no_choice_def)
qed (auto intro: ipc_step.call ipc_step.reg ipc_step.run)

lemma wq_local_sys: "wq_local w w' \<Longrightarrow> sys w' = sys w"
  by (induction rule: wq_local.induct) simp_all

lemma wq_reach_ipc: "wq_reach tr w \<Longrightarrow> ipc_reach False tr (sys w)"
proof (induction rule: wq_reach.induct)
  case (piece tr w ev w')
  then show ?case using wq_piece_step ipc_reach.step by blast
qed (auto simp: wq_start_def ipc_reach.start wq_local_sys)

section \<open>No sleeper is forgotten\<close>

definition wq_inv :: "wq_sys \<Rightarrow> bool" where
  "wq_inv w \<longleftrightarrow>
     (\<forall>t. phase w t \<noteq> Enter_wait \<longrightarrow> wait_on (pcs (sys w) t) \<noteq> None \<and> owes w t = None) \<and>
     (\<forall>t q. phase w t \<in> {Test_wait, Sched_wait} \<and> sleeping w t \<and> wait_on (pcs (sys w) t) = Some q \<longrightarrow>
        t \<in> set (in_queue w q)) \<and>
     (\<forall>t q. asleep w t \<and> wait_on (pcs (sys w) t) = Some q \<and> wait_cond (pcs (sys w) t) (sys w) \<longrightarrow>
        (\<exists>u. about_to_wake w u q))"

lemma wq_invD:
  assumes "wq_inv w"
  shows "phase w t \<noteq> Enter_wait \<Longrightarrow> wait_on (pcs (sys w) t) \<noteq> None \<and> owes w t = None"
    "phase w t = Test_wait \<or> phase w t = Sched_wait \<Longrightarrow> sleeping w t \<Longrightarrow> wait_on (pcs (sys w) t) = Some q \<Longrightarrow>
       t \<in> set (in_queue w q)"
    "asleep w t \<Longrightarrow> wait_on (pcs (sys w) t) = Some q \<Longrightarrow> wait_cond (pcs (sys w) t) (sys w) \<Longrightarrow>
       \<exists>u. about_to_wake w u q"
  using assms unfolding wq_inv_def by blast+

lemma blocked_cond: "ipc_exec no_choice pid t pc s = Blocked \<Longrightarrow> \<not> wait_cond pc s"
  by (cases pc) (auto simp: no_choice_def split: option.splits if_splits)

lemma ipc_exec_others: "ipc_exec c pid t pc s = Go s' ev \<Longrightarrow> u \<noteq> t \<Longrightarrow> pcs s' u = pcs s u"
  by (cases pc) (auto simp: ipc_send_queue_def ipc_recv_take_def ipc_reply_del_def Let_def
      split: if_splits option.splits list.splits)

lemma wq_inv_start: "wq_inv wq_start"
  by (simp add: wq_inv_def wq_start_def asleep_def)

lemma wake_up_asleep: "wq_inv w \<Longrightarrow> asleep w t \<Longrightarrow> wait_on (pcs (sys w) t) = Some q \<Longrightarrow> \<not> asleep (wake_up q w) t"
  using wq_invD(2) [of w t q] by (auto simp: asleep_def wake_up_def)

lemma wq_inv_local: "wq_local w w' \<Longrightarrow> wq_inv w \<Longrightarrow> wq_inv w'"
proof (induction rule: wq_local.induct)
  case (first w t q)
  then show ?case by (auto simp: wq_inv_def asleep_def about_to_wake_def)
next
  case (prepare w t q)
  then show ?case by (auto simp: wq_inv_def asleep_def about_to_wake_def prepare_to_wait_def set_phase_def)
next
  case (test w t)
  then show ?case using blocked_cond [OF test(2)] by (auto simp: wq_inv_def asleep_def about_to_wake_def)
next
  case (resume w t)
  then show ?case by (auto simp: wq_inv_def asleep_def about_to_wake_def)
next
  case (wake w t q)
  have "\<exists>u. about_to_wake ((wake_up q w)\<lparr>owes := (owes w)(t := None)\<rparr>) u q'"
    if p: "asleep (wake_up q w) x" "wait_on (pcs (sys w) x) = Some q'" "wait_cond (pcs (sys w) x) (sys w)" for x q'
  proof -
    have a: "asleep w x" using p(1) by (auto simp: asleep_def wake_up_def)
    moreover have "q' \<noteq> q" using wake_up_asleep [OF wake(2) a] p by blast
    ultimately obtain u where u: "about_to_wake w u q'" "owes w u = Some q' \<longrightarrow> u \<noteq> t"
      using wq_invD(3) [OF wake(2) a p(2,3)] wake(1) by fastforce
    then show ?thesis by (auto simp: about_to_wake_def intro: exI [of _ u])
  qed
  then show ?case using wake unfolding wq_inv_def by (auto simp: asleep_def wake_up_def)
qed

text \<open>
  A piece of task \<open>x\<close> makes the condition of another task true only if \<open>x\<close> is then about to wake the queue of that task.
\<close>

lemma exec_cond_new:
  assumes "ipc_exec c pid x (pcs s x) s = Go s' ev" "wait_on pc = Some q" "wait_cond pc s'" "\<not> wait_cond pc s"
  shows "(\<exists>e m n m'. q = Ep_wait e \<and> pcs s x = SendQueue e m \<and> ep_state (eps s e) = EP_STATE_WAITTING \<and> ev = Sent x e n m') \<or>
     (\<exists>n. q = Node_wait n \<and> storing (pcs s' x) = Some n)"
  using assms
  by (cases pc; cases "pcs s x") (auto simp: ipc_send_queue_def ipc_recv_take_def ipc_reply_del_def Let_def
      split: if_splits option.splits list.splits)

lemma wq_run_owes:
  "pcs (sys w) t = SendQueue e m \<Longrightarrow> ep_state (eps (sys w) e) = EP_STATE_WAITTING \<Longrightarrow>
     owes (wq_run t s' (Sent t e n m') w) t = Some (Ep_wait e)"
  "u \<noteq> t \<Longrightarrow> owes (wq_run t s' ev w) u = owes w u"
  by (auto simp: wq_run_def Let_def split: ipc_pc.splits ipc_event.splits)

lemma wq_run_asleep:
  "u \<noteq> t \<Longrightarrow> asleep (wq_run t s' ev w) u \<Longrightarrow> asleep w u"
  "u \<noteq> t \<Longrightarrow> sleeping (wq_run t s' ev w) u \<Longrightarrow> sleeping w u"
  by (auto simp: wq_run_def asleep_def wake_up_def Let_def split: ipc_pc.splits ipc_event.splits)

lemma wq_run_wakes:
  "pcs (sys w) t = ReplyWake e n m \<Longrightarrow> asleep (wq_run t s' ev w) u \<Longrightarrow> u \<notin> set (in_queue w (Node_wait n))"
  by (auto simp: wq_run_def asleep_def wake_up_def Let_def)

text \<open>Only the allocation of a node empties a queue, and no task waits on a node that is being allocated.\<close>

lemma wq_run_queue:
  assumes "u \<in> set (in_queue w q)" "sleeping (wq_run t s' ev w) u"
    "\<forall>v e m n m'. ev = Sent v e n m' \<and> pcs (sys w) t = SendQueue e m \<longrightarrow> q \<noteq> Node_wait n"
    "ipc_exec c pid t (pcs (sys w) t) (sys w) = Go s' ev"
  shows "u \<in> set (in_queue (wq_run t s' ev w) q)"
  using assms
  by (cases "pcs (sys w) t") (auto simp: wq_run_def wake_up_def init_waitqueue_head_def set_phase_def ipc_send_queue_def Let_def
     split: option.splits if_splits ipc_event.splits)

lemma leave_wait_others:
  "u \<noteq> t \<Longrightarrow> sleeping (leave_wait q t w) u = sleeping w u"
  "u \<noteq> t \<Longrightarrow> u \<in> set (in_queue (leave_wait q t w) q') \<longleftrightarrow> u \<in> set (in_queue w q')"
  by (auto simp: leave_wait_def finish_wait_def)

lemma storing_exec:
  "ipc_exec c pid t (pcs s t) s = Go s' ev \<Longrightarrow> storing (pcs s t) = Some n \<Longrightarrow>
     storing (pcs s' t) = Some n \<or> (\<exists>e m. pcs s t = ReplyWake e n m)"
  by (auto simp: storing_Some split: option.splits)

lemma wq_run_waker:
  assumes x: "ipc_exec c pid t (pcs (sys w) t) (sys w) = Go s' ev" and "owes w t = None" "about_to_wake w v q"
    and a: "asleep (wq_run t s' ev w) u" "u \<in> set (in_queue w q)"
  shows "about_to_wake (wq_run t s' ev w) v q"
proof (cases "v = t")
  case False
  then show ?thesis using assms(3) wq_run_owes(2) [OF False] ipc_exec_others [OF x False] by (auto simp: about_to_wake_def)
next
  case True
  then obtain n where n: "q = Node_wait n" "storing (pcs (sys w) t) = Some n" using assms(2,3) by (auto simp: about_to_wake_def)
  then have "storing (pcs s' t) = Some n" using storing_exec [OF x n(2)] wq_run_wakes [OF _ a(1)] a(2) by auto
  then show ?thesis using n True by (auto simp: about_to_wake_def)
qed

text \<open>The invariant over a piece of \<open>ipc_exec\<close>, for the queues as they are once the task has left its own.\<close>

lemma wq_inv_run:
  assumes inv: "wq_inv w0" and ipc: "ipc_inv (sys w0)" and x: "ipc_exec c pid t (pcs (sys w0) t) (sys w0) = Go s' ev"
    and fresh: "\<forall>n. kmalloc_node c = Some n \<longrightarrow> nodes (sys w0) n = None" and none: "owes w0 t = None"
    and w: "w = w0 \<or> w = leave_wait q0 t w0"
  shows "wq_inv (wq_run t s' ev w)"
proof -
  let ?w = "wq_run t s' ev w"
  have [simp]: "sys w = sys w0" "phase w = phase w0" "owes w = owes w0" using w by auto
  have others: "sleeping w u = sleeping w0 u" "asleep w u = asleep w0 u"
    "u \<in> set (in_queue w q) \<longleftrightarrow> u \<in> set (in_queue w0 q)" if "u \<noteq> t" for u q
    using w leave_wait_others [OF that] by (auto simp: asleep_def)
  have pcs: "pcs s' u = pcs (sys w0) u" if "u \<noteq> t" for u using ipc_exec_others [OF x that] .
  have node: "q \<noteq> Node_wait n" if "wait_on (pcs (sys w0) u) = Some q" "ev = Sent v e n m'" "pcs (sys w0) t = SendQueue e m"
    for u q v e m n m'
    using that x fresh ipc_inv_phase [OF ipc, of u]
    by (cases "pcs (sys w0) u") (auto simp: ipc_send_queue_def Let_def split: option.splits)
  have 1: "wait_on (pcs s' u) \<noteq> None \<and> owes ?w u = None" if "phase ?w u \<noteq> Enter_wait" for u
    using that wq_invD(1) [OF inv, of u] pcs wq_run_owes(2) [of u t s' ev w] by (cases "u = t") auto
  have 2: "u \<in> set (in_queue ?w q)"
    if p: "phase ?w u \<in> {Test_wait, Sched_wait}" "sleeping ?w u" "wait_on (pcs s' u) = Some q" for u q
  proof -
    have u: "u \<noteq> t" using p(1) by auto
    then have "u \<in> set (in_queue w q)"
      using wq_invD(2) [OF inv, of u q] p pcs others wq_run_asleep(2) [OF u p(2)] by auto
    moreover have "\<forall>v e m n m'. ev = Sent v e n m' \<and> pcs (sys w) t = SendQueue e m \<longrightarrow> q \<noteq> Node_wait n"
      using node [of u q] p(3) pcs [OF u] by simp
    ultimately show ?thesis using wq_run_queue [OF _ p(2)] x by simp
  qed
  have 3: "\<exists>v. about_to_wake ?w v q"
    if p: "asleep ?w u" "wait_on (pcs s' u) = Some q" "wait_cond (pcs s' u) s'" for u q
  proof -
    have u: "u \<noteq> t" using p(1) by (auto simp: asleep_def)
    have a: "asleep w0 u" using wq_run_asleep(1) [OF u p(1)] others u by blast
    have q: "wait_on (pcs (sys w0) u) = Some q" "wait_cond (pcs (sys w0) u) s'" using p pcs u by auto
    show ?thesis
    proof (cases "wait_cond (pcs (sys w0) u) (sys w0)")
      case False
      then show ?thesis using exec_cond_new [OF x q False] wq_run_owes(1) [of w t] by (fastforce simp: about_to_wake_def)
    next
      case True
      then obtain v where v: "about_to_wake w0 v q" using wq_invD(3) [OF inv a q(1)] by blast
      then have "about_to_wake w v q" by (simp add: about_to_wake_def)
      moreover have "u \<in> set (in_queue w q)" using wq_invD(2) [OF inv, of u q] a q others u by (auto simp: asleep_def)
      ultimately have "about_to_wake ?w v q" using wq_run_waker [of c pid t w s' ev v q u] x none p(1) by simp
      then show ?thesis ..
    qed
  qed
  show ?thesis unfolding wq_inv_def wq_run_simps(1) using 1 2 3 by blast
qed

lemma register_cond:
  assumes "ipc_register_endpoint_by_tsk (eps s) (Some t) comm = (ep', r, h)" "wait_on pc = Some q"
    "wait_cond pc (s\<lparr>eps := ep'\<rparr>)"
  shows "wait_cond pc s \<or> map_option (\<lambda>i. Ep_wait (nat i)) h = Some q"
proof -
  have "ipc_register_from (eps s) t comm 0 4 = (ep', r, h)" using assms(1) by (simp add: ipc_register_endpoint_by_tsk_def)
  from ipc_register_effect [OF this] show ?thesis using assms(2,3) by (cases pc) (auto split: if_splits)
qed

lemma wait_cond_set_pc [simp]: "wait_cond pc (set_pc t p s) = wait_cond pc s"
  by (cases pc) simp_all

text \<open>A task outside the calls that owes nothing is not the one about to wake anybody, so what it does disturbs no waker.\<close>

lemma outside_waker:
  assumes "about_to_wake w u q" "owes w t = None" "outside (pcs (sys w) t)"
    "\<forall>v. v \<noteq> t \<longrightarrow> owes w' v = owes w v \<and> pcs (sys w') v = pcs (sys w) v"
  shows "about_to_wake w' u q"
proof -
  have "u \<noteq> t" using assms(1-3) by (cases "pcs (sys w) t") (auto simp: about_to_wake_def)
  then show ?thesis using assms(1,4) by (simp add: about_to_wake_def)
qed

lemma wq_inv_outside:
  assumes inv: "wq_inv w" and out: "owes w t = None" "outside (pcs (sys w) t)" "phase w' t = Enter_wait"
    and same: "\<forall>v. v \<noteq> t \<longrightarrow> owes w' v = owes w v \<and> pcs (sys w') v = pcs (sys w) v \<and> phase w' v = phase w v"
      "sleeping w' = sleeping w" "in_queue w' = in_queue w"
    and new: "\<And>pc q. wait_on pc = Some q \<Longrightarrow> wait_cond pc (sys w') \<Longrightarrow> wait_cond pc (sys w) \<or> owes w' t = Some q"
  shows "wq_inv w'"
proof -
  have other: "v \<noteq> t" if "phase w' v \<noteq> Enter_wait" for v using that out(3) by auto
  have 3: "\<exists>u. about_to_wake w' u q"
    if p: "asleep w' v" "wait_on (pcs (sys w') v) = Some q" "wait_cond (pcs (sys w') v) (sys w')" for v q
  proof (cases "owes w' t = Some q")
    case False
    have v: "v \<noteq> t" using p(1) other by (auto simp: asleep_def)
    then have "asleep w v" "wait_cond (pcs (sys w) v) (sys w)" "wait_on (pcs (sys w) v) = Some q"
      using p same new [OF p(2,3)] False by (auto simp: asleep_def)
    then obtain u where "about_to_wake w u q" using wq_invD(3) [OF inv] by blast
    then show ?thesis using outside_waker [OF _ out(1,2)] same(1) by blast
  qed (auto simp: about_to_wake_def)
  moreover have "wait_on (pcs (sys w') v) \<noteq> None \<and> owes w' v = None" if "phase w' v \<noteq> Enter_wait" for v
    using wq_invD(1) [OF inv, of v] other [OF that] that same(1) by simp
  moreover have "v \<in> set (in_queue w' q)"
    if "phase w' v \<in> {Test_wait, Sched_wait}" "sleeping w' v" "wait_on (pcs (sys w') v) = Some q" for v q
    using wq_invD(2) [OF inv, of v q] other [of v] that same by auto
  ultimately show ?thesis unfolding wq_inv_def by blast
qed

lemma wq_inv_piece: "wq_piece w ev w' \<Longrightarrow> wq_inv w \<Longrightarrow> ipc_inv (sys w) \<Longrightarrow> wq_inv w'"
proof (induction rule: wq_piece.induct)
  case (call w t c pc)
  then show ?case by (intro wq_inv_outside [OF call(4,1,2)]) simp_all
next
  case (reg w t comm ep' r h)
  have "wait_on (pcs (sys w) t) = None" using reg(2) by (cases "pcs (sys w) t") simp_all
  then have "phase w t = Enter_wait" using wq_invD(1) [OF reg(4)] by blast
  then show ?case using register_cond [OF reg(3)] by (intro wq_inv_outside [OF reg(4,1,2)]) simp_all
next
  case (run w t c pid s' ev)
  then show ?case using wq_inv_run [of w c pid t s' ev w] by blast
next
  case (leave w t q pid s' ev)
  then show ?case using wq_inv_run [of w no_choice pid t s' ev "leave_wait q t w" q] by (simp add: no_choice_def)
next
  case (timeout w t e m pid s' ev)
  then show ?case
    using wq_inv_run [of w "no_choice\<lparr>timed_out := True\<rparr>" pid t s' ev "leave_wait (Ep_wait e) t w" "Ep_wait e"]
    by (simp add: no_choice_def)
qed

lemma wq_reach_inv: "wq_reach tr w \<Longrightarrow> \<not> ipc_raced tr (sys w) \<Longrightarrow> wq_inv w"
proof (induction rule: wq_reach.induct)
  case (piece tr w ev w')
  have "\<not> ipc_raced tr (sys w)" using piece.prems ipc_raced.more wq_piece_step [OF piece.hyps(2)] by blast
  moreover from this have "ipc_inv (sys w)"
    using ipc_reach_or_raced [OF wq_reach_ipc [OF piece.hyps(1)]] ipc_reach_inv by blast
  ultimately show ?case using wq_inv_piece piece by blast
next
  case (local tr w w')
  then show ?case using wq_inv_local wq_local_sys [OF local.hyps(2)] by simp
qed (simp add: wq_inv_start)

lemma about_to_wake_awake: "wq_inv w \<Longrightarrow> about_to_wake w u q \<Longrightarrow> \<not> asleep w u"
  using wq_invD(1) [of w u] by (auto simp: about_to_wake_def asleep_def storing_Some)

lemma ipc_raced_answered: "ipc_raced tr s \<Longrightarrow> \<exists>t e n r. Answered t e n r \<in> set tr"
  by (induction rule: ipc_raced.induct) auto

section \<open>Playing a schedule\<close>

datatype wq_act =
    Calls tsk ipc_call
  | Signs tsk string
  | Goes tsk "node option"
  | Waits tsk
  | Wakes tsk

fun wq_wait :: "tsk \<Rightarrow> wq_sys \<Rightarrow> wq_sys option" where
  "wq_wait t w =
     (case wait_on (pcs (sys w) t) of
        None \<Rightarrow> None
      | Some q \<Rightarrow>
          (case ipc_exec no_choice 0 t (pcs (sys w) t) (sys w) of
             Blocked \<Rightarrow>
               (case phase w t of
                  Enter_wait \<Rightarrow> if owes w t = None then Some (set_phase t Prepare_wait w) else None
                | Prepare_wait \<Rightarrow> Some (set_phase t Test_wait (prepare_to_wait q t w))
                | Test_wait \<Rightarrow> Some (set_phase t Sched_wait w)
                | Sched_wait \<Rightarrow> None)
           | _ \<Rightarrow> None))"

fun wq_perform :: "wq_act \<Rightarrow> ipc_event list \<times> wq_sys \<Rightarrow> (ipc_event list \<times> wq_sys) option" where
  "wq_perform (Calls t c) (tr, w) =
     (if owes w t = None \<and> outside (pcs (sys w) t)
      then (case ipc_enter (sys w) t c of
              Crash \<Rightarrow> None
            | Enter pc \<Rightarrow> Some (tr @ [Silent], set_phase t Enter_wait (w\<lparr>sys := set_pc t pc (sys w)\<rparr>)))
      else None)"
| "wq_perform (Signs t comm) (tr, w) =
     (if owes w t = None \<and> outside (pcs (sys w) t)
      then (case ipc_register_endpoint_by_tsk (eps (sys w)) (Some t) comm of
              (ep', r, h) \<Rightarrow> Some (tr @ [Silent], w\<lparr>sys := (sys w)\<lparr>eps := ep'\<rparr>,
                 owes := (owes w)(t := map_option (\<lambda>i. Ep_wait (nat i)) h)\<rparr>))
      else None)"
| "wq_perform (Goes t k) (tr, w) =
     (if owes w t = None \<and> wait_on (pcs (sys w) t) = None \<and> (case k of None \<Rightarrow> True | Some n \<Rightarrow> nodes (sys w) n = None)
      then (case ipc_exec \<lparr>kmalloc_node = k, timed_out = False\<rparr> (int t) t (pcs (sys w) t) (sys w) of
              Go s' ev \<Rightarrow> Some (tr @ [ev], wq_run t s' ev w) | _ \<Rightarrow> None)
      else None)"
| "wq_perform (Waits t) (tr, w) = map_option (Pair tr) (wq_wait t w)"
| "wq_perform (Wakes t) (tr, w) =
     (case owes w t of None \<Rightarrow> None | Some q \<Rightarrow> Some (tr, (wake_up q w)\<lparr>owes := (owes w)(t := None)\<rparr>))"

fun wq_play :: "wq_act list \<Rightarrow> ipc_event list \<times> wq_sys \<Rightarrow> (ipc_event list \<times> wq_sys) option" where
  "wq_play [] p = Some p"
| "wq_play (a # as) p = (case wq_perform a p of None \<Rightarrow> None | Some p' \<Rightarrow> wq_play as p')"

lemma wq_wait_local: "wq_wait t w = Some w' \<Longrightarrow> wq_local w w'"
  by (auto split: option.splits ipc_result.splits wait_phase.splits if_splits simp del: ipc_exec.simps
      intro: wq_local.first wq_local.prepare wq_local.test)

lemma wq_perform_reach:
  assumes "wq_perform a (tr, w) = Some (tr', w')" "wq_reach tr w"
  shows "wq_reach tr' w'"
proof (cases a)
  case (Calls t c)
  then show ?thesis using assms by (auto split: if_splits outcome.splits intro: wq_reach.piece wq_piece.call)
next
  case (Signs t comm)
  then show ?thesis using assms by (auto split: if_splits prod.splits intro: wq_reach.piece wq_piece.reg)
next
  case (Goes t k)
  let ?c = "\<lparr>kmalloc_node = k, timed_out = False\<rparr>"
  obtain s' ev where x: "ipc_exec ?c (int t) t (pcs (sys w) t) (sys w) = Go s' ev" "tr' = tr @ [ev]" "w' = wq_run t s' ev w"
      "owes w t = None" "wait_on (pcs (sys w) t) = None" "\<forall>n. k = Some n \<longrightarrow> nodes (sys w) n = None"
    using assms(1) Goes by (auto split: if_splits ipc_result.splits option.splits)
  then have "wq_piece w ev w'" using wq_piece.run [of w t ?c "int t" s' ev] by simp
  then show ?thesis using x(2) assms(2) wq_reach.piece by blast
next
  case (Waits t)
  then show ?thesis using assms wq_wait_local wq_reach.local by (auto simp del: wq_wait.simps)
next
  case (Wakes t)
  then show ?thesis using assms by (auto split: option.splits intro: wq_reach.local wq_local.wake)
qed

lemma wq_play_reach: "wq_play as (tr, w) = Some (tr', w') \<Longrightarrow> wq_reach tr w \<Longrightarrow> wq_reach tr' w'"
proof (induction as arbitrary: tr w)
  case (Cons a as)
  then obtain tr1 w1 where "wq_perform a (tr, w) = Some (tr1, w1)" "wq_play as (tr1, w1) = Some (tr', w')"
    by (auto split: option.splits)
  then show ?case using Cons.IH wq_perform_reach Cons.prems(2) by blast
qed simp

definition wq_plays :: "wq_act list \<Rightarrow> (ipc_event list \<Rightarrow> wq_sys \<Rightarrow> bool) \<Rightarrow> bool" where
  "wq_plays as Q = (case wq_play as ([], wq_start) of None \<Rightarrow> False | Some (tr, w) \<Rightarrow> Q tr w)"

lemma wq_plays_reach: "wq_plays as Q \<Longrightarrow> \<exists>tr w. wq_reach tr w \<and> Q tr w"
  by (auto simp: wq_plays_def split: option.splits intro: wq_play_reach [OF _ wq_reach.start])

definition unanswered :: "ipc_event list \<Rightarrow> bool" where
  "unanswered tr \<longleftrightarrow> list_all (\<lambda>ev. case ev of Answered t e n r \<Rightarrow> False | _ \<Rightarrow> True) tr"

lemma unanswered_not_raced: "unanswered tr \<Longrightarrow> \<not> ipc_raced tr s"
  using ipc_raced_answered by (fastforce simp: unanswered_def list_all_iff)

text \<open>
  The server of the file system, task 1, falls asleep in \<^verbatim>\<open>__ipc_receive\<close>; task 2 then queues a message and has still
  to wake it.
\<close>

definition sleep_schedule :: "wq_act list" where
  "sleep_schedule =
     [Signs 1 ''vfs'', Wakes 1, Calls 1 (CallReceive 3 (Some message_zero)), Goes 1 None, Waits 1, Waits 1, Waits 1,
      Calls 2 (CallSend 3 (Some (message_zero\<lparr>m_type := 18\<rparr>))), Goes 2 (Some 0)]"

section \<open>Properties\<close>

text \<open>
  C22: No wake-up is lost. While a task sleeps in a \<^verbatim>\<open>wait_event\<close> of the message-passing code although its
  condition holds, or sleeps in \<^verbatim>\<open>__ipc_receive\<close> although a message is queued, another task that is itself awake is about to wake the queue it
  sleeps on, and that wake-up ends the sleep. The runs are those in which no sender has returned while its reply was being
  stored.
\<close>

theorem ipc_no_lost_wakeup:
  assumes "wq_reach tr w" "\<not> ipc_raced tr (sys w)" "asleep w t"
    and "wait_cond (pcs (sys w) t) (sys w) \<or> pcs (sys w) t = RecvWait e \<and> pending_messages (sys w) e \<noteq> []"
  shows "\<exists>q u. wait_on (pcs (sys w) t) = Some q \<and> about_to_wake w u q \<and> \<not> asleep w u \<and> \<not> asleep (wake_up q w) t"
proof -
  have inv: "wq_inv w" by (rule wq_reach_inv [OF assms(1,2)])
  have "ipc_inv (sys w)" using ipc_reach_or_raced [OF wq_reach_ipc [OF assms(1)]] assms(2) ipc_reach_inv by blast
  then have "wait_cond (pcs (sys w) t) (sys w)"
    using assms(4) ipc_inv_phase [of "sys w" t] by (auto simp: pending_messages_def pending_def received_def)
  moreover obtain q where q: "wait_on (pcs (sys w) t) = Some q"
    using wq_invD(1) [OF inv, of t] assms(3) by (auto simp: asleep_def)
  ultimately obtain u where "about_to_wake w u q" using wq_invD(3) [OF inv assms(3) q] by blast
  then show ?thesis using q wake_up_asleep [OF inv assms(3) q] about_to_wake_awake [OF inv] by blast
qed

theorem ipc_no_lost_wakeup_witness:
  "\<exists>tr w q u. wq_reach tr w \<and> asleep w 1 \<and> pcs (sys w) 1 = RecvWait 3 \<and> wait_cond (pcs (sys w) 1) (sys w) \<and>
     wait_on (pcs (sys w) 1) = Some q \<and> about_to_wake w u q \<and> \<not> asleep (wake_up q w) 1"
proof -
  have "wq_plays sleep_schedule (\<lambda>tr w. unanswered tr \<and> asleep w 1 \<and> pcs (sys w) 1 = RecvWait 3 \<and>
     wait_cond (pcs (sys w) 1) (sys w))"
    by code_simp
  then obtain tr w where w: "wq_reach tr w" "unanswered tr" "asleep w 1" "pcs (sys w) 1 = RecvWait 3"
    "wait_cond (pcs (sys w) 1) (sys w)"
    using wq_plays_reach by blast
  then show ?thesis using ipc_no_lost_wakeup [OF w(1) unanswered_not_raced [OF w(2)] w(3)] by blast
qed

end
