(* ===== verification/Ipc_Runs.thy ===== *)
theory Ipc_Runs
  imports Ipc_Wait
begin

text \<open>
  Concrete schedules of the message-passing code, and the properties of theory \<open>Ipc_Safety\<close> stated
  for every reachable state.
\<close>

section \<open>Playing a schedule\<close>

text \<open>
  A schedule names who acts next; \<open>ipc_play\<close> runs it. The tasks of a schedule are drawn from \<open>ts\<close>, so
  that the guard of a waiting sender is decidable.
\<close>

datatype ipc_act =
    Enters tsk ipc_call
  | Registers tsk string
  | Runs tsk "node option"

fun ipc_perform :: "tsk list \<Rightarrow> bool \<Rightarrow> ipc_act \<Rightarrow> ipc_sys \<Rightarrow> (ipc_event \<times> ipc_sys) option" where
  "ipc_perform ts woken (Enters t c) s =
     (if outside (pcs s t) \<and> t \<in> set ts
      then (case ipc_enter s t c of Crash \<Rightarrow> None | Enter pc \<Rightarrow> Some (Silent, set_pc t pc s)) else None)"
| "ipc_perform ts woken (Registers t comm) s =
     (if outside (pcs s t)
      then Some (Silent, s\<lparr>eps := fst (ipc_register_endpoint_by_tsk (eps s) (Some t) comm)\<rparr>) else None)"
| "ipc_perform ts woken (Runs t k) s =
     (if t \<in> set ts \<and> (case k of None \<Rightarrow> True | Some n \<Rightarrow> nodes s n = None) \<and>
         (woken \<longrightarrow> (case awaits (pcs s t) of None \<Rightarrow> True
                   | Some n \<Rightarrow> list_all (\<lambda>u. storing (pcs s u) \<noteq> Some n) ts))
      then (case ipc_exec \<lparr>kmalloc_node = k, timed_out = False\<rparr> (int t) t (pcs s t) s of
              Go s' ev \<Rightarrow> Some (ev, s') | _ \<Rightarrow> None)
      else None)"

fun ipc_play :: "tsk list \<Rightarrow> bool \<Rightarrow> ipc_act list \<Rightarrow> ipc_event list \<times> ipc_sys \<Rightarrow> (ipc_event list \<times> ipc_sys) option" where
  "ipc_play ts woken [] p = Some p"
| "ipc_play ts woken (a # as) (tr, s) =
     (case ipc_perform ts woken a s of
        None \<Rightarrow> None
      | Some (ev, s') \<Rightarrow> ipc_play ts woken as (tr @ [ev], s'))"

definition idle_but :: "tsk list \<Rightarrow> ipc_sys \<Rightarrow> bool" where
  "idle_but ts s \<longleftrightarrow> (\<forall>u. u \<notin> set ts \<longrightarrow> pcs s u = Running)"

lemma ipc_perform_step:
  assumes "ipc_perform ts woken a s = Some (ev, s')" "idle_but ts s"
  shows "ipc_step woken s ev s' \<and> idle_but ts s'"
proof (cases a)
  case (Enters t c)
  then show ?thesis using assms
    by (auto simp: idle_but_def split: if_splits outcome.splits intro: ipc_step.call)
next
  case (Registers t comm)
  then show ?thesis using assms
    by (auto simp: idle_but_def split: if_splits intro!: ipc_step.reg [of s t comm] prod.expand)
next
  case (Runs t k)
  let ?c = "\<lparr>kmalloc_node = k, timed_out = False\<rparr>"
  have x: "ipc_exec ?c (int t) t (pcs s t) s = Go s' ev" "t \<in> set ts" "\<forall>n. k = Some n \<longrightarrow> nodes s n = None"
    using assms(1) Runs by (auto split: if_splits ipc_result.splits option.splits)
  have "storing (pcs s u) \<noteq> Some n" if woken "pcs s t = SendWait e n m" for u e n m
    using assms Runs that by (cases "u \<in> set ts") (auto simp: idle_but_def list_all_iff split: if_splits)
  then have "ipc_step woken s ev s'" using x by (intro ipc_step.run [of ?c]) auto
  moreover have "idle_but ts s'" using x(2) assms(2) ipc_exec_others [OF x(1)] unfolding idle_but_def by metis
  ultimately show ?thesis ..
qed

lemma ipc_play_reach:
  assumes "ipc_play ts woken as (tr, s) = Some (tr', s')" "idle_but ts s" "ipc_reach woken tr s"
  shows "ipc_reach woken tr' s'"
  using assms
proof (induction as arbitrary: tr s)
  case (Cons a as)
  then obtain ev s1 where "ipc_perform ts woken a s = Some (ev, s1)" "ipc_play ts woken as (tr @ [ev], s1) = Some (tr', s')"
    by (auto split: option.splits)
  then show ?case using Cons.IH ipc_perform_step Cons.prems(2,3) ipc_reach.step by blast
qed simp

lemma ipc_play_start:
  "ipc_play ts woken as ([], ipc_start) = Some (tr, s) \<Longrightarrow> ipc_reach woken tr s"
  by (rule ipc_play_reach [OF _ _ ipc_reach.start]) (auto simp: idle_but_def ipc_start_def)

text \<open>Task 2 sends a message of type 18 to the server of the file system, task 1, which answers with type 7.\<close>

definition exchange_schedule :: "ipc_act list" where
  "exchange_schedule =
     [Registers 1 ''vfs'', Enters 2 (CallSend 3 (Some (message_zero\<lparr>m_type := 18\<rparr>))), Runs 2 (Some 0),
      Enters 1 (CallReceive 3 (Some message_zero)), Runs 1 None, Runs 1 None,
      Enters 1 (CallReply 3 (Some (message_zero\<lparr>m_type := 7\<rparr>))), Runs 1 None, Runs 1 None, Runs 1 None]"

definition exchange_end :: "ipc_act list" where
  "exchange_end = exchange_schedule @ [Runs 1 None, Runs 1 None, Runs 2 None]"

text \<open>
  The same without waiting for the wake-up: the sender tests \<^verbatim>\<open>is_finish\<close> between the two stores of
  \<^verbatim>\<open>__ipc_reply\<close>.
\<close>

definition early_schedule :: "ipc_act list" where
  "early_schedule = butlast exchange_schedule @ [Runs 2 None]"

definition plays :: "bool \<Rightarrow> ipc_act list \<Rightarrow> (ipc_event list \<Rightarrow> ipc_sys \<Rightarrow> bool) \<Rightarrow> bool" where
  "plays woken as Q = (case ipc_play [1, 2] woken as ([], ipc_start) of None \<Rightarrow> False | Some (tr, s) \<Rightarrow> Q tr s)"

lemma plays_reach: "plays woken as Q \<Longrightarrow> \<exists>tr s. ipc_reach woken tr s \<and> Q tr s"
  by (auto simp: plays_def split: option.splits intro: ipc_play_start)

section \<open>Properties\<close>

text \<open>
  C1: A task that returns from \<^verbatim>\<open>__ipc_send\<close> with a reply, having left \<^verbatim>\<open>wait_event\<close> after the replier's
  \<^verbatim>\<open>wake_up\<close>, returns with the reply to its own message: its message was queued, then received by the server of
  that endpoint, then answered by that same server, and the message it returns with is that answer. (A message of type
  \<^verbatim>\<open>IPC_M_TYPE_NOTIFIER\<close> has no reply: its sender returns at once, and that return is no \<open>Answered\<close> event.)
\<close>

theorem ipc_exchange:
  assumes "ipc_reach True tr s" "Answered t e n r \<in> set tr"
  shows "\<exists>u m. subseq [Sent t e n m, Received u e n m, Replied u e n r, Answered t e n r] tr"
  using assms by (rule ipc_reach_answered)

theorem ipc_exchange_witness:
  "\<exists>tr s u m. ipc_reach True tr s \<and>
     subseq [Sent 2 3 0 m, Received u 3 0 m, Replied u 3 0 (message_zero\<lparr>m_type := 7\<rparr>),
             Answered 2 3 0 (message_zero\<lparr>m_type := 7\<rparr>)] tr"
proof -
  have "plays True exchange_end (\<lambda>tr s. Answered 2 3 0 (message_zero\<lparr>m_type := 7\<rparr>) \<in> set tr)"
    by code_simp
  then obtain tr s where "ipc_reach True tr s" "Answered 2 3 0 (message_zero\<lparr>m_type := 7\<rparr>) \<in> set tr"
    using plays_reach by blast
  then show ?thesis using ipc_exchange [of tr s 2 3 0] by blast
qed

text \<open>
  C2: Delivery is exact and in order: the messages an endpoint has received, followed by those still
  queued behind the one in service, are the messages sent to it. Nothing is lost, duplicated or
  reordered, in every run of the code in which no sender has returned while its reply was being stored (the property on early returns below has such a return).
\<close>

theorem ipc_delivery:
  assumes "ipc_reach False tr s" "\<not> ipc_raced tr s"
  shows "sent_to e tr = received_at e tr @ pending_messages s e"
  using ipc_reach_or_raced [OF assms(1)] assms(2) ipc_reach_delivery by blast

theorem ipc_delivery_witness:
  "\<exists>tr s. ipc_reach False tr s \<and> \<not> ipc_raced tr s \<and> received_at 3 tr \<noteq> [] \<and>
     sent_to 3 tr = received_at 3 tr @ pending_messages s 3"
proof -
  have "plays False (exchange_schedule @ [Runs 1 None]) (\<lambda>tr s. unanswered tr \<and> received_at 3 tr \<noteq> [])" by code_simp
  then obtain tr s where s: "ipc_reach False tr s" "unanswered tr" "received_at 3 tr \<noteq> []" using plays_reach by blast
  then show ?thesis using ipc_delivery [OF s(1) unanswered_not_raced [OF s(2)], of 3] unanswered_not_raced by blast
qed

text \<open>
  C3: No task reads or writes a freed message node, and \<^verbatim>\<open>list_first_entry\<close> is never taken of an empty
  queue, in any state of a run of the code in which no sender has returned while its reply was being stored. Whichever task
  moves next, a sender that finds \<^verbatim>\<open>is_finish\<close> early included, its piece is safe. The property on early returns below shows the fault that can follow such
  a return.
\<close>

theorem ipc_no_fault:
  assumes "ipc_reach False tr s" "\<not> ipc_raced tr s"
  shows "\<not> ipc_faults False s"
proof -
  have "ipc_inv s" using ipc_reach_or_raced [OF assms(1)] assms(2) ipc_reach_inv by blast
  then show ?thesis using ipc_inv_no_fault by (auto elim: ipc_faults.cases)
qed

theorem ipc_no_fault_witness:
  "\<exists>tr s. ipc_reach False tr s \<and> Replied 1 3 0 (message_zero\<lparr>m_type := 7\<rparr>) \<in> set tr \<and> \<not> ipc_faults False s"
proof -
  have "plays False (exchange_schedule @ [Runs 1 None])
     (\<lambda>tr s. unanswered tr \<and> Replied 1 3 0 (message_zero\<lparr>m_type := 7\<rparr>) \<in> set tr)"
    by code_simp
  then obtain tr s where s: "ipc_reach False tr s" "unanswered tr" "Replied 1 3 0 (message_zero\<lparr>m_type := 7\<rparr>) \<in> set tr"
    using plays_reach by blast
  then show ?thesis using ipc_no_fault [OF s(1) unanswered_not_raced [OF s(2)]] by blast
qed

text \<open>
  C23: A sender that tests \<^verbatim>\<open>is_finish\<close> before the wake-up can return before the reply is stored. It then returns its own
  message as the answer, and the replier goes on to write into the freed node.
\<close>

theorem ipc_early_return:
  "\<exists>tr s m. ipc_reach False tr s \<and> Sent 2 3 0 m \<in> set tr \<and> Answered 2 3 0 m \<in> set tr \<and>
     list_all (\<lambda>ev. case ev of Replied u e n r \<Rightarrow> False | _ \<Rightarrow> True) tr \<and> ipc_faults False s"
proof -
  let ?m = "message_zero\<lparr>m_type := 18, m_source := 2\<rparr>"
  have "plays False early_schedule (\<lambda>tr s. Sent 2 3 0 ?m \<in> set tr \<and> Answered 2 3 0 ?m \<in> set tr \<and>
     list_all (\<lambda>ev. case ev of Replied u e n r \<Rightarrow> False | _ \<Rightarrow> True) tr \<and>
     (case ipc_exec \<lparr>kmalloc_node = None, timed_out = False\<rparr> 1 1 (pcs s 1) s of Fault \<Rightarrow> True | _ \<Rightarrow> False))"
    by code_simp
  then obtain tr s where "ipc_reach False tr s" "Sent 2 3 0 ?m \<in> set tr" "Answered 2 3 0 ?m \<in> set tr"
    "list_all (\<lambda>ev. case ev of Replied u e n r \<Rightarrow> False | _ \<Rightarrow> True) tr"
    "ipc_exec \<lparr>kmalloc_node = None, timed_out = False\<rparr> 1 1 (pcs s 1) s = Fault"
    using plays_reach by (fastforce split: ipc_result.splits)
  then show ?thesis by (blast intro: ipc_faults.intros)
qed

text \<open>
  C24: The range check of the calls lets the value \<^verbatim>\<open>ENDPOINT_END\<close> and every negative endpoint through
  to the array access, and only those: in range the call never leaves the array.
\<close>

theorem ipc_enter_crash_iff:
  "(ipc_send_enter s dest (Some m) = Crash \<longleftrightarrow> dest = ENDPOINT_END \<or> dest < 0) \<and>
   (ipc_receive_enter s t dest (Some m) = Crash \<longleftrightarrow> dest = ENDPOINT_END \<or> dest < 0) \<and>
   (ipc_reply_enter s t dest (Some m) = Crash \<longleftrightarrow> dest = ENDPOINT_END \<or> dest < 0)"
  by (auto simp: ipc_send_enter_def ipc_receive_enter_def ipc_reply_enter_def ep_index_def
      split: option.splits)

end
