(* ===== verification/Memblock.thy ===== *)
theory Memblock
  imports Prelude
begin

text \<open>
  The boot-time allocator of \<^verbatim>\<open>lib/memalloc/src/memblock.c\<close>: two sorted arrays of address ranges, the
  memory of the machine and the part of it that is reserved.

  A \<^verbatim>\<open>memblock_type\<close> is the list of the first \<^verbatim>\<open>cnt\<close> entries of its array, so \<^verbatim>\<open>cnt\<close> is the length of
  \<open>regions\<close>. Addresses and sizes are 64-bit words: \<open>+\<close> and \<open>-\<close> wrap as they do in C. \<^verbatim>\<open>BUG_ON\<close> is
  \<open>None\<close>; \<^verbatim>\<open>WARN_ON\<close> and \<^verbatim>\<open>printf\<close> only report and are left out. The number of entries an array has room
  for is a constant of the configuration, the field \<open>max_regions\<close>.
\<close>

unbundle bit_operations_syntax

section \<open>State\<close>

abbreviation (input) MEMBLOCK_NONE :: u32 where "MEMBLOCK_NONE \<equiv> 0"
abbreviation (input) MEMBLOCK_NOMAP :: u32 where "MEMBLOCK_NOMAP \<equiv> 1"
abbreviation (input) MEMBLOCK_DMA :: u32 where "MEMBLOCK_DMA \<equiv> 2"
abbreviation (input) MEMBLOCK_MOVABLE :: u32 where "MEMBLOCK_MOVABLE \<equiv> 4"

abbreviation PHYS_ADDR_MAX :: u64 where "PHYS_ADDR_MAX \<equiv> - 1"
abbreviation (input) MEMBLOCK_ALLOC_ANYWHERE :: u64 where "MEMBLOCK_ALLOC_ANYWHERE \<equiv> - 1"
abbreviation (input) MEMBLOCK_ALLOC_ACCESSIBLE :: u64 where "MEMBLOCK_ALLOC_ACCESSIBLE \<equiv> 0"

record memblock_region =
  r_base :: u64
  r_size :: u64
  r_flags :: u32

record memblock_type =
  max_regions :: nat
  total_size :: u64
  regions :: "memblock_region list"

record memblock =
  bottom_up :: bool
  current_limit :: u64
  memory :: memblock_type
  reserved :: memblock_type

definition r_end :: "memblock_region \<Rightarrow> u64" where
  "r_end r = r_base r + r_size r"

definition empty_region :: memblock_region where
  "empty_region = \<lparr>r_base = 0, r_size = 0, r_flags = 0\<rparr>"

text \<open>
  \<^verbatim>\<open>memblock_init\<close> does not set \<^verbatim>\<open>total_size\<close>; the structure is a static object, so it is zero before the call.
\<close>

definition memblock_init :: "nat \<Rightarrow> memblock" where
  "memblock_init init_memblock_regions =
     (let type = \<lparr>max_regions = init_memblock_regions, total_size = 0, regions = [empty_region]\<rparr>
      in \<lparr>bottom_up = False, current_limit = MEMBLOCK_ALLOC_ANYWHERE, memory = type, reserved = type\<rparr>)"

text \<open>\<^verbatim>\<open>round_up\<close>, \<^verbatim>\<open>round_down\<close> and \<^verbatim>\<open>clamp\<close> of \<^verbatim>\<open>base/common.h\<close>, the page macros of \<^verbatim>\<open>base/pfn.h\<close>.\<close>

definition round_up :: "u64 \<Rightarrow> u64 \<Rightarrow> u64" where
  "round_up x y = ((x - 1) OR (y - 1)) + 1"

definition round_down :: "u64 \<Rightarrow> u64 \<Rightarrow> u64" where
  "round_down x y = x AND NOT (y - 1)"

definition clamp :: "u64 \<Rightarrow> u64 \<Rightarrow> u64 \<Rightarrow> u64" where
  "clamp val lo hi = min (max val lo) hi"

abbreviation (input) PAGE_SHIFT :: nat where "PAGE_SHIFT \<equiv> 12"
abbreviation (input) PAGE_SIZE :: u64 where "PAGE_SIZE \<equiv> 4096"

definition PFN_UP :: "u64 \<Rightarrow> u64" where
  "PFN_UP x = drop_bit PAGE_SHIFT (x + PAGE_SIZE - 1)"

definition PFN_DOWN :: "u64 \<Rightarrow> u64" where
  "PFN_DOWN x = drop_bit PAGE_SHIFT x"

definition PFN_PHYS :: "u64 \<Rightarrow> u64" where
  "PFN_PHYS x = push_bit PAGE_SHIFT x"

section \<open>The region arrays\<close>

definition memblock_cap_size :: "u64 \<Rightarrow> u64 \<Rightarrow> u64" where
  "memblock_cap_size base sz = min sz (PHYS_ADDR_MAX - base)"

definition memblock_addrs_overlap :: "u64 \<Rightarrow> u64 \<Rightarrow> u64 \<Rightarrow> u64 \<Rightarrow> bool" where
  "memblock_addrs_overlap base1 size1 base2 size2 \<longleftrightarrow> base1 < base2 + size2 \<and> base2 < base1 + size1"

definition memblock_overlaps_region :: "memblock_type \<Rightarrow> u64 \<Rightarrow> u64 \<Rightarrow> bool" where
  "memblock_overlaps_region type base sz \<longleftrightarrow>
     list_ex (\<lambda>r. memblock_addrs_overlap base sz (r_base r) (r_size r)) (regions type)"

definition memblock_remove_region :: "memblock_type \<Rightarrow> nat \<Rightarrow> memblock_type" where
  "memblock_remove_region type r =
     (let rs = take r (regions type) @ drop (Suc r) (regions type)
      in type\<lparr>total_size := total_size type - r_size (regions type ! r),
              regions := (if rs = [] then [empty_region] else rs)\<rparr>)"

text \<open>
  The loop of \<^verbatim>\<open>memblock_merge_regions\<close> from index \<open>i\<close> on: the argument are the regions from \<open>i\<close>.
\<close>

fun memblock_merge :: "memblock_region list \<Rightarrow> memblock_region list option" where
  "memblock_merge (this # next # rs) =
     (if r_base this + r_size this \<noteq> r_base next \<or> r_flags this \<noteq> r_flags next
      then do {
        bug_on (r_base this + r_size this > r_base next);
        rs' \<leftarrow> memblock_merge (next # rs);
        Some (this # rs') }
      else memblock_merge (this\<lparr>r_size := r_size this + r_size next\<rparr> # rs))"
| "memblock_merge rs = Some rs"

definition memblock_merge_regions :: "memblock_type \<Rightarrow> memblock_type option" where
  "memblock_merge_regions type =
     map_option (\<lambda>rs. type\<lparr>regions := rs\<rparr>) (memblock_merge (regions type))"

definition memblock_insert_region ::
    "memblock_type \<Rightarrow> nat \<Rightarrow> u64 \<Rightarrow> u64 \<Rightarrow> u32 \<Rightarrow> memblock_type option" where
  "memblock_insert_region type idx base sz flags = do {
     bug_on (length (regions type) \<ge> max_regions type);
     Some (type\<lparr>regions := take idx (regions type)
                   @ \<lparr>r_base = base, r_size = sz, r_flags = flags\<rparr> # drop idx (regions type),
                total_size := total_size type + sz\<rparr>) }"

section \<open>Adding a range\<close>

text \<open>
  The scan of \<^verbatim>\<open>memblock_add_range\<close>, which runs once to count the pieces and once to insert them. The
  result is the array, the index at which the scan stopped, what is left of the range and the number
  of pieces.
\<close>

function memblock_add_scan :: "bool \<Rightarrow> u64 \<Rightarrow> u32 \<Rightarrow> nat \<Rightarrow> memblock_type \<Rightarrow> u64 \<Rightarrow> nat \<Rightarrow>
    (memblock_type \<times> nat \<times> u64 \<times> nat) option" where
  "memblock_add_scan ins end flags idx type base nr_new =
     (if idx < length (regions type)
      then (let rgn = regions type ! idx; rbase = r_base rgn; rend = rbase + r_size rgn in
        if rbase \<ge> end then Some (type, idx, base, nr_new)
        else if rend \<le> base then memblock_add_scan ins end flags (idx + 1) type base nr_new
        else if rbase > base
          then (if ins
            then do {
              type' \<leftarrow> memblock_insert_region type idx base (rbase - base) flags;
              memblock_add_scan ins end flags (idx + 2) type' (min rend end) (nr_new + 1) }
            else memblock_add_scan ins end flags (idx + 1) type (min rend end) (nr_new + 1))
        else memblock_add_scan ins end flags (idx + 1) type (min rend end) nr_new)
      else Some (type, idx, base, nr_new))"
  by pat_completeness auto
termination
  by (relation "measure (\<lambda>(ins, end, flags, idx, type, base, nr). length (regions type) - idx)")
    (auto simp: memblock_insert_region_def bug_on_def split: if_splits)

definition memblock_add_pass :: "bool \<Rightarrow> u64 \<Rightarrow> u32 \<Rightarrow> memblock_type \<Rightarrow> u64 \<Rightarrow>
    (memblock_type \<times> nat) option" where
  "memblock_add_pass ins end flags type base = do {
     (type', idx, base', nr_new) \<leftarrow> memblock_add_scan ins end flags 0 type base 0;
     if base' < end
     then (if ins
           then map_option (\<lambda>t. (t, nr_new + 1))
                  (memblock_insert_region type' idx base' (end - base') flags)
           else Some (type', nr_new + 1))
     else Some (type', nr_new) }"

definition memblock_add_range :: "memblock_type \<Rightarrow> u64 \<Rightarrow> u64 \<Rightarrow> u32 \<Rightarrow> (memblock_type \<times> int) option" where
  "memblock_add_range type base sz flags =
     (let sz = memblock_cap_size base sz; end = base + sz in
      if sz = 0 then Some (type, 0)
      else if r_size (regions type ! 0) = 0
      then Some (type\<lparr>regions := (regions type)[0 := \<lparr>r_base = base, r_size = sz, r_flags = flags\<rparr>],
                      total_size := sz\<rparr>, 0)
      else do {
        (type1, nr_new) \<leftarrow> memblock_add_pass False end flags type base;
        if nr_new = 0 then Some (type1, 0)
        else if length (regions type1) + nr_new > max_regions type1 then Some (type1, - ENOMEM)
        else do {
          (type2, nr_new2) \<leftarrow> memblock_add_pass True end flags type1 base;
          if nr_new2 = 0 then Some (type2, 0)
          else map_option (\<lambda>t. (t, 0)) (memblock_merge_regions type2) } })"

definition memblock_add :: "memblock \<Rightarrow> u64 \<Rightarrow> u64 \<Rightarrow> (memblock \<times> int) option" where
  "memblock_add mb base sz =
     map_option (\<lambda>(t, r). (mb\<lparr>memory := t\<rparr>, r)) (memblock_add_range (memory mb) base sz 0)"

definition memblock_reserve :: "memblock \<Rightarrow> u64 \<Rightarrow> u64 \<Rightarrow> (memblock \<times> int) option" where
  "memblock_reserve mb base sz =
     map_option (\<lambda>(t, r). (mb\<lparr>reserved := t\<rparr>, r)) (memblock_add_range (reserved mb) base sz 0)"

section \<open>Isolating and removing a range\<close>

text \<open>
  The loop of \<^verbatim>\<open>memblock_isolate_range\<close>; \<open>start_rgn\<close> and \<open>end_rgn\<close> are the two results it passes by
  reference. Its termination measure counts the splits a region can still undergo.
\<close>

definition isolate_weight :: "u64 \<Rightarrow> u64 \<Rightarrow> memblock_region \<Rightarrow> nat" where
  "isolate_weight base end r =
     (if end \<le> r_base r then 0
      else 1 + (if r_base r < base then 1 else 0) + (if end < r_base r + r_size r then 1 else 0))"

lemma insert_region_Some:
  "memblock_insert_region type idx base sz flags = Some type' \<longleftrightarrow>
     length (regions type) < max_regions type \<and>
     type' = type\<lparr>regions := take idx (regions type)
                   @ \<lparr>r_base = base, r_size = sz, r_flags = flags\<rparr> # drop idx (regions type),
                total_size := total_size type + sz\<rparr>"
  by (auto simp: memblock_insert_region_def bind_Some_iff)

function memblock_isolate_scan :: "u64 \<Rightarrow> u64 \<Rightarrow> nat \<Rightarrow> memblock_type \<Rightarrow> nat \<Rightarrow> nat \<Rightarrow>
    (memblock_type \<times> nat \<times> nat) option" where
  "memblock_isolate_scan base end idx type start_rgn end_rgn =
     (if idx < length (regions type)
      then (let rgn = regions type ! idx; rbase = r_base rgn; rend = rbase + r_size rgn in
        if rbase \<ge> end then Some (type, start_rgn, end_rgn)
        else if rend \<le> base then memblock_isolate_scan base end (idx + 1) type start_rgn end_rgn
        else if rbase < base
          then do {
            type' \<leftarrow> memblock_insert_region
              (type\<lparr>regions := (regions type)[idx := rgn\<lparr>r_base := base, r_size := r_size rgn - (base - rbase)\<rparr>],
                    total_size := total_size type - (base - rbase)\<rparr>)
              idx rbase (base - rbase) (r_flags rgn);
            memblock_isolate_scan base end (idx + 1) type' start_rgn end_rgn }
        else if rend > end
          then do {
            type' \<leftarrow> memblock_insert_region
              (type\<lparr>regions := (regions type)[idx := rgn\<lparr>r_base := end, r_size := r_size rgn - (end - rbase)\<rparr>],
                    total_size := total_size type - (end - rbase)\<rparr>)
              idx rbase (end - rbase) (r_flags rgn);
            memblock_isolate_scan base end idx type' start_rgn end_rgn }
        else memblock_isolate_scan base end (idx + 1) type
               (if end_rgn = 0 then idx else start_rgn) (idx + 1))
      else Some (type, start_rgn, end_rgn))"
  by pat_completeness auto
termination
  by (relation "measure (\<lambda>(base, end, idx, type, s, e). sum_list (map (isolate_weight base end) (drop idx (regions type))))")
    (auto simp: insert_region_Some isolate_weight_def drop_update_cancel min_def upd_conv_take_nth_drop add.commute
      simp flip: Cons_nth_drop_Suc split: if_splits)

definition memblock_isolate_range :: "memblock_type \<Rightarrow> u64 \<Rightarrow> u64 \<Rightarrow> (memblock_type \<times> int \<times> nat \<times> nat) option" where
  "memblock_isolate_range type base sz =
     (let sz = memblock_cap_size base sz; end = base + sz in
      if sz = 0 then Some (type, 0, 0, 0)
      else if length (regions type) + 2 > max_regions type then Some (type, - ENOMEM, 0, 0)
      else map_option (\<lambda>(t, s, e). (t, 0, s, e)) (memblock_isolate_scan base end 0 type 0 0))"

text \<open>\<open>for (i = end_rgn - 1; i >= start_rgn; i--) memblock_remove_region(type, i)\<close>\<close>

fun memblock_remove_down :: "memblock_type \<Rightarrow> nat \<Rightarrow> nat \<Rightarrow> memblock_type" where
  "memblock_remove_down type start_rgn 0 = type"
| "memblock_remove_down type start_rgn (Suc i) =
     (if i \<ge> start_rgn then memblock_remove_down (memblock_remove_region type i) start_rgn i else type)"

definition memblock_remove_range :: "memblock_type \<Rightarrow> u64 \<Rightarrow> u64 \<Rightarrow> (memblock_type \<times> int) option" where
  "memblock_remove_range type base sz = do {
     (type', ret, start_rgn, end_rgn) \<leftarrow> memblock_isolate_range type base sz;
     if ret \<noteq> 0 then Some (type', ret)
     else Some (memblock_remove_down type' start_rgn end_rgn, 0) }"

definition memblock_remove :: "memblock \<Rightarrow> u64 \<Rightarrow> u64 \<Rightarrow> (memblock \<times> int) option" where
  "memblock_remove mb base sz =
     map_option (\<lambda>(t, r). (mb\<lparr>memory := t\<rparr>, r)) (memblock_remove_range (memory mb) base sz)"

definition memblock_free :: "memblock \<Rightarrow> u64 \<Rightarrow> u64 \<Rightarrow> (memblock \<times> int) option" where
  "memblock_free mb base sz =
     map_option (\<lambda>(t, r). (mb\<lparr>reserved := t\<rparr>, r)) (memblock_remove_range (reserved mb) base sz)"

definition memblock_set_region_flags :: "u32 \<Rightarrow> memblock_region \<Rightarrow> memblock_region" where
  "memblock_set_region_flags flags r = r\<lparr>r_flags := r_flags r OR flags\<rparr>"

definition memblock_clear_region_flags :: "u32 \<Rightarrow> memblock_region \<Rightarrow> memblock_region" where
  "memblock_clear_region_flags flags r = r\<lparr>r_flags := r_flags r AND NOT flags\<rparr>"

definition memblock_is_nomap :: "memblock_region \<Rightarrow> bool" where
  "memblock_is_nomap r \<longleftrightarrow> r_flags r AND MEMBLOCK_NOMAP \<noteq> 0"

definition memblock_is_dma :: "memblock_region \<Rightarrow> bool" where
  "memblock_is_dma r \<longleftrightarrow> r_flags r AND MEMBLOCK_DMA \<noteq> 0"

definition memblock_is_movable :: "memblock_region \<Rightarrow> bool" where
  "memblock_is_movable r \<longleftrightarrow> r_flags r AND MEMBLOCK_MOVABLE \<noteq> 0"

definition memblock_set_bottom_up :: "memblock \<Rightarrow> bool \<Rightarrow> memblock" where
  "memblock_set_bottom_up mb enable = mb\<lparr>bottom_up := enable\<rparr>"

definition memblock_setclr_flag :: "memblock \<Rightarrow> u64 \<Rightarrow> u64 \<Rightarrow> bool \<Rightarrow> u32 \<Rightarrow> (memblock \<times> int) option" where
  "memblock_setclr_flag mb base sz st flag = do {
     (type, ret, start_rgn, end_rgn) \<leftarrow> memblock_isolate_range (memory mb) base sz;
     if ret \<noteq> 0 then Some (mb\<lparr>memory := type\<rparr>, ret)
     else do {
       let f = (if st then memblock_set_region_flags flag else memblock_clear_region_flags flag);
       type' \<leftarrow> memblock_merge_regions (type\<lparr>regions :=
         map (\<lambda>i. if start_rgn \<le> i \<and> i < end_rgn then f (regions type ! i) else regions type ! i)
             [0..<length (regions type)]\<rparr>);
       Some (mb\<lparr>memory := type'\<rparr>, 0) } }"

definition memblock_mark_nomap :: "memblock \<Rightarrow> u64 \<Rightarrow> u64 \<Rightarrow> (memblock \<times> int) option" where
  "memblock_mark_nomap mb base sz = memblock_setclr_flag mb base sz True MEMBLOCK_NOMAP"

definition memblock_clear_nomap :: "memblock \<Rightarrow> u64 \<Rightarrow> u64 \<Rightarrow> (memblock \<times> int) option" where
  "memblock_clear_nomap mb base sz = memblock_setclr_flag mb base sz False MEMBLOCK_NOMAP"

definition memblock_mark_dma :: "memblock \<Rightarrow> u64 \<Rightarrow> u64 \<Rightarrow> (memblock \<times> int) option" where
  "memblock_mark_dma mb base sz = memblock_setclr_flag mb base sz True MEMBLOCK_DMA"

definition memblock_clear_dma :: "memblock \<Rightarrow> u64 \<Rightarrow> u64 \<Rightarrow> (memblock \<times> int) option" where
  "memblock_clear_dma mb base sz = memblock_setclr_flag mb base sz False MEMBLOCK_DMA"

definition memblock_mark_movable :: "memblock \<Rightarrow> u64 \<Rightarrow> u64 \<Rightarrow> (memblock \<times> int) option" where
  "memblock_mark_movable mb base sz = memblock_setclr_flag mb base sz True MEMBLOCK_MOVABLE"

definition memblock_clear_movable :: "memblock \<Rightarrow> u64 \<Rightarrow> u64 \<Rightarrow> (memblock \<times> int) option" where
  "memblock_clear_movable mb base sz = memblock_setclr_flag mb base sz False MEMBLOCK_MOVABLE"

section \<open>Iterating over ranges\<close>

definition next_reserved_mem_region :: "memblock \<Rightarrow> nat \<Rightarrow> (u64 \<times> u64 \<times> nat) option" where
  "next_reserved_mem_region mb idx =
     (if idx < length (regions (reserved mb))
      then (let r = regions (reserved mb) ! idx in Some (r_base r, r_base r + r_size r - 1, idx + 1))
      else None)"

text \<open>
  \<^verbatim>\<open>__next_mem_range\<close> packs two array indices into the \<^verbatim>\<open>u64\<close> loop variable; here they are a pair, and the
  end of the iteration (\<^verbatim>\<open>ULLONG_MAX\<close>) is \<open>None\<close>. \<open>gap_start\<close> and \<open>gap_end\<close> bound the free area before
  the reservation with index \<open>b\<close>. The inner loop is \<open>next_gap\<close>: it breaks with \<open>Inl\<close> the index reached,
  or finds an intersection, \<open>Inr\<close>.
\<close>

definition gap_start :: "memblock_type \<Rightarrow> nat \<Rightarrow> u64" where
  "gap_start type b = (if b \<noteq> 0 then r_base (regions type ! (b - 1)) + r_size (regions type ! (b - 1)) else 0)"

definition gap_end :: "memblock_type \<Rightarrow> nat \<Rightarrow> u64" where
  "gap_end type b = (if b < length (regions type) then r_base (regions type ! b) else PHYS_ADDR_MAX)"

function next_gap :: "memblock_type \<Rightarrow> u64 \<Rightarrow> u64 \<Rightarrow> nat \<Rightarrow> nat + nat" where
  "next_gap type m_start m_end b =
     (if b < length (regions type) + 1
      then (if gap_start type b \<ge> m_end then Inl b
            else if m_start < gap_end type b then Inr b
            else next_gap type m_start m_end (b + 1))
      else Inl b)"
  by pat_completeness auto
termination
  by (relation "measure (\<lambda>(type, s, e, b). length (regions type) + 1 - b)") auto

function next_mem_range :: "u32 \<Rightarrow> memblock_type \<Rightarrow> memblock_type option \<Rightarrow> nat \<Rightarrow> nat \<Rightarrow>
    (u64 \<times> u64 \<times> nat \<times> nat) option" where
  "next_mem_range flags type_a type_b a b =
     (if a < length (regions type_a)
      then (let m = regions type_a ! a; m_start = r_base m; m_end = r_base m + r_size m in
        if flags \<noteq> r_flags m then next_mem_range flags type_a type_b (a + 1) b
        else (case type_b of
            None \<Rightarrow> Some (m_start, m_end, a + 1, b)
          | Some tb \<Rightarrow>
              (case next_gap tb m_start m_end b of
                 Inl b' \<Rightarrow> next_mem_range flags type_a type_b (a + 1) b'
               | Inr b' \<Rightarrow>
                   Some (max m_start (gap_start tb b'), min m_end (gap_end tb b'),
                         (if m_end \<le> gap_end tb b' then a + 1 else a),
                         (if m_end \<le> gap_end tb b' then b' else b' + 1)))))
      else None)"
  by pat_completeness auto
termination
  by (relation "measure (\<lambda>(flags, ta, tb, a, b). length (regions ta) - a)") auto

text \<open>
  \<^verbatim>\<open>__next_mem_range_rev\<close>. The indices run down to \<open>-1\<close>; here \<open>Suc i\<close> stands for index \<open>i\<close> and
  \<open>0\<close> for \<open>-1\<close>. The iteration starts from \<^verbatim>\<open>type_a->cnt - 1\<close> and \<^verbatim>\<open>type_b->cnt\<close>.
\<close>

fun next_gap_rev :: "memblock_type \<Rightarrow> u64 \<Rightarrow> u64 \<Rightarrow> nat \<Rightarrow> nat + nat" where
  "next_gap_rev type m_start m_end 0 = Inl 0"
| "next_gap_rev type m_start m_end (Suc b) =
     (if gap_end type b \<le> m_start then Inl (Suc b)
      else if m_end > gap_start type b then Inr b
      else next_gap_rev type m_start m_end b)"

fun next_mem_range_rev :: "u32 \<Rightarrow> memblock_type \<Rightarrow> memblock_type option \<Rightarrow> nat \<Rightarrow> nat \<Rightarrow>
    (u64 \<times> u64 \<times> nat \<times> nat) option" where
  "next_mem_range_rev flags type_a type_b 0 b = None"
| "next_mem_range_rev flags type_a type_b (Suc a) b =
     (let m = regions type_a ! a; m_start = r_base m; m_end = r_base m + r_size m in
      if flags \<noteq> r_flags m then next_mem_range_rev flags type_a type_b a b
      else (case type_b of
          None \<Rightarrow> Some (m_start, m_end, a, b)
        | Some tb \<Rightarrow>
            (case next_gap_rev tb m_start m_end b of
               Inl b' \<Rightarrow> next_mem_range_rev flags type_a type_b a b'
             | Inr b' \<Rightarrow>
                 Some (max m_start (gap_start tb b'), min m_end (gap_end tb b'),
                       (if m_start \<ge> gap_start tb b' then a else Suc a),
                       (if m_start \<ge> gap_start tb b' then Suc b' else b')))))"

text \<open>\<^verbatim>\<open>__next_mem_pfn_range\<close>: the next memory region that holds a whole page, from index \<open>idx\<close> on.\<close>

function next_mem_pfn_range :: "memblock \<Rightarrow> nat \<Rightarrow> (u64 \<times> u64 \<times> nat) option" where
  "next_mem_pfn_range mb idx =
     (if idx < length (regions (memory mb))
      then (let r = regions (memory mb) ! idx in
            if PFN_UP (r_base r) \<ge> PFN_DOWN (r_base r + r_size r) then next_mem_pfn_range mb (idx + 1)
            else Some (PFN_UP (r_base r), PFN_DOWN (r_base r + r_size r), idx))
      else None)"
  by pat_completeness auto
termination
  by (relation "measure (\<lambda>(mb, idx). length (regions (memory mb)) - idx)") auto

section \<open>Finding free memory\<close>

text \<open>
  The loops over the free ranges. Each round moves one of the two indices, so the number of regions
  bounds the rounds; running out of them (which does not happen) is \<open>None\<close>.
\<close>

fun find_range_bottom_up :: "nat \<Rightarrow> memblock \<Rightarrow> u64 \<Rightarrow> u64 \<Rightarrow> u64 \<Rightarrow> u64 \<Rightarrow> u32 \<Rightarrow> nat \<Rightarrow> nat \<Rightarrow> u64 option" where
  "find_range_bottom_up 0 mb start end sz align flags a b = None"
| "find_range_bottom_up (Suc n) mb start end sz align flags a b =
     (case next_mem_range flags (memory mb) (Some (reserved mb)) a b of
        None \<Rightarrow> Some 0
      | Some (this_start, this_end, a', b') \<Rightarrow>
          let this_start = clamp this_start start end; this_end = clamp this_end start end;
              cand = round_up this_start align
          in if cand < this_end \<and> this_end - cand \<ge> sz then Some cand
             else find_range_bottom_up n mb start end sz align flags a' b')"

fun find_range_top_down :: "nat \<Rightarrow> memblock \<Rightarrow> u64 \<Rightarrow> u64 \<Rightarrow> u64 \<Rightarrow> u64 \<Rightarrow> u32 \<Rightarrow> nat \<Rightarrow> nat \<Rightarrow> u64 option" where
  "find_range_top_down 0 mb start end sz align flags a b = None"
| "find_range_top_down (Suc n) mb start end sz align flags a b =
     (case next_mem_range_rev flags (memory mb) (Some (reserved mb)) a b of
        None \<Rightarrow> Some 0
      | Some (this_start, this_end, a', b') \<Rightarrow>
          let this_start = clamp this_start start end; this_end = clamp this_end start end;
              cand = round_down (this_end - sz) align
          in if this_end < sz then find_range_top_down n mb start end sz align flags a' b'
             else if cand \<ge> this_start then Some cand
             else find_range_top_down n mb start end sz align flags a' b')"

abbreviation range_rounds :: "memblock \<Rightarrow> nat" where
  "range_rounds mb \<equiv> length (regions (memory mb)) + length (regions (reserved mb)) + 2"

definition memblock_find_range_bottom_up :: "memblock \<Rightarrow> u64 \<Rightarrow> u64 \<Rightarrow> u64 \<Rightarrow> u64 \<Rightarrow> u32 \<Rightarrow> u64 option" where
  "memblock_find_range_bottom_up mb start end sz align flags =
     find_range_bottom_up (range_rounds mb) mb start end sz align flags 0 0"

definition memblock_find_range_top_down :: "memblock \<Rightarrow> u64 \<Rightarrow> u64 \<Rightarrow> u64 \<Rightarrow> u64 \<Rightarrow> u32 \<Rightarrow> u64 option" where
  "memblock_find_range_top_down mb start end sz align flags =
     find_range_top_down (range_rounds mb) mb start end sz align flags
       (length (regions (memory mb))) (Suc (length (regions (reserved mb))))"

text \<open>\<^verbatim>\<open>__memblock_find_in_range\<close>, then \<^verbatim>\<open>memblock_find_in_range\<close>, which chooses no flags.\<close>

definition memblock_find_in_range_flags :: "memblock \<Rightarrow> u64 \<Rightarrow> u64 \<Rightarrow> u64 \<Rightarrow> u64 \<Rightarrow> u32 \<Rightarrow> u64 option" where
  "memblock_find_in_range_flags mb sz align start end flags =
     (let end = (if end = MEMBLOCK_ALLOC_ACCESSIBLE then current_limit mb else end);
          start = max start PAGE_SIZE;
          end = max start end
      in if bottom_up mb
         then do {
           ret \<leftarrow> memblock_find_range_bottom_up mb start end sz align flags;
           if ret \<noteq> 0 then Some ret else memblock_find_range_top_down mb start end sz align flags }
         else memblock_find_range_top_down mb start end sz align flags)"

definition choose_memblock_flags :: u32 where
  "choose_memblock_flags = MEMBLOCK_NONE"

definition memblock_find_in_range :: "memblock \<Rightarrow> u64 \<Rightarrow> u64 \<Rightarrow> u64 \<Rightarrow> u64 \<Rightarrow> u64 option" where
  "memblock_find_in_range mb start end sz align =
     memblock_find_in_range_flags mb sz align start end choose_memblock_flags"

section \<open>Allocation\<close>

definition memblock_alloc_range :: "memblock \<Rightarrow> u64 \<Rightarrow> u64 \<Rightarrow> u64 \<Rightarrow> u64 \<Rightarrow> u32 \<Rightarrow> (memblock \<times> u64) option" where
  "memblock_alloc_range mb sz align start end flags =
     (if align = 0 then Some (mb, 0)
      else do {
        found \<leftarrow> memblock_find_in_range_flags mb sz align start end flags;
        if found \<noteq> 0
        then do {
          (mb', ret) \<leftarrow> memblock_reserve mb found sz;
          Some (mb', if ret = 0 then found else 0) }
        else Some (mb, 0) })"

definition memblock_alloc_base :: "memblock \<Rightarrow> u64 \<Rightarrow> u64 \<Rightarrow> u64 \<Rightarrow> u32 \<Rightarrow> (memblock \<times> u64) option" where
  "memblock_alloc_base mb sz align max_addr flags = memblock_alloc_range mb sz align 0 max_addr flags"

definition memblock_phys_alloc :: "memblock \<Rightarrow> u64 \<Rightarrow> u64 \<Rightarrow> (memblock \<times> u64) option" where
  "memblock_phys_alloc mb sz align =
     memblock_alloc_base mb sz align MEMBLOCK_ALLOC_ACCESSIBLE choose_memblock_flags"

text \<open>
  \<^verbatim>\<open>memblock_alloc_internal\<close> tries again from address 0 when nothing is found above \<^verbatim>\<open>min_addr\<close>; the
  second round has \<^verbatim>\<open>min_addr\<close> 0 and is the last.
\<close>

definition memblock_alloc_once :: "memblock \<Rightarrow> u64 \<Rightarrow> u64 \<Rightarrow> u64 \<Rightarrow> u64 \<Rightarrow> (memblock \<times> u64) option" where
  "memblock_alloc_once mb sz align min_addr max_addr = do {
     alloc \<leftarrow> memblock_find_in_range_flags mb sz align min_addr max_addr choose_memblock_flags;
     if alloc \<noteq> 0
     then do {
       (mb', ret) \<leftarrow> memblock_reserve mb alloc sz;
       Some (mb', if ret = 0 then alloc else 0) }
     else Some (mb, 0) }"

definition memblock_alloc_internal :: "memblock \<Rightarrow> u64 \<Rightarrow> u64 \<Rightarrow> u64 \<Rightarrow> u64 \<Rightarrow> (memblock \<times> u64) option" where
  "memblock_alloc_internal mb sz align min_addr max_addr =
     (if align = 0 then Some (mb, 0)
      else let max_addr = (if max_addr > current_limit mb then current_limit mb else max_addr) in do {
        (mb', alloc) \<leftarrow> memblock_alloc_once mb sz align min_addr max_addr;
        if alloc \<noteq> 0 then Some (mb', alloc)
        else if min_addr \<noteq> 0 then memblock_alloc_once mb' sz align 0 max_addr
        else Some (mb', 0) })"

definition memblock_alloc_try_raw :: "memblock \<Rightarrow> u64 \<Rightarrow> u64 \<Rightarrow> u64 \<Rightarrow> u64 \<Rightarrow> (memblock \<times> u64) option" where
  "memblock_alloc_try_raw mb sz align min_addr max_addr =
     memblock_alloc_internal mb sz align min_addr max_addr"

definition memblock_alloc :: "memblock \<Rightarrow> u64 \<Rightarrow> u64 \<Rightarrow> (memblock \<times> u64) option" where
  "memblock_alloc mb sz align = memblock_alloc_try_raw mb sz align 0 MEMBLOCK_ALLOC_ACCESSIBLE"

definition memblock_alloc_from :: "memblock \<Rightarrow> u64 \<Rightarrow> u64 \<Rightarrow> u64 \<Rightarrow> (memblock \<times> u64) option" where
  "memblock_alloc_from mb sz align min_addr =
     memblock_alloc_try_raw mb sz align min_addr MEMBLOCK_ALLOC_ACCESSIBLE"

definition memblock_alloc_low :: "memblock \<Rightarrow> u64 \<Rightarrow> u64 \<Rightarrow> (memblock \<times> u64) option" where
  "memblock_alloc_low mb sz align = memblock_alloc_try_raw mb sz align 0 0xffffffff"

section \<open>Queries and limits\<close>

definition memblock_phys_mem_size :: "memblock \<Rightarrow> u64" where
  "memblock_phys_mem_size mb = total_size (memory mb)"

definition memblock_reserved_size :: "memblock \<Rightarrow> u64" where
  "memblock_reserved_size mb = total_size (reserved mb)"

definition memblock_mem_size :: "memblock \<Rightarrow> u64 \<Rightarrow> u64" where
  "memblock_mem_size mb limit_pfn =
     PFN_PHYS (sum_list (map (\<lambda>r. min (PFN_DOWN (r_base r + r_size r)) limit_pfn - min (PFN_UP (r_base r)) limit_pfn)
       (regions (memory mb))))"

definition memblock_start_of_DRAM :: "memblock \<Rightarrow> u64" where
  "memblock_start_of_DRAM mb = r_base (regions (memory mb) ! 0)"

definition memblock_end_of_DRAM :: "memblock \<Rightarrow> u64" where
  "memblock_end_of_DRAM mb =
     (let idx = length (regions (memory mb)) - 1
      in r_base (regions (memory mb) ! idx) + r_size (regions (memory mb) ! idx))"

fun find_max_addr :: "memblock_region list \<Rightarrow> u64 \<Rightarrow> u64" where
  "find_max_addr [] limit = PHYS_ADDR_MAX"
| "find_max_addr (r # rs) limit =
     (if limit \<le> r_size r then r_base r + limit else find_max_addr rs (limit - r_size r))"

definition memblock_enforce_memory_limit :: "memblock \<Rightarrow> u64 \<Rightarrow> memblock option" where
  "memblock_enforce_memory_limit mb limit =
     (if limit = 0 then Some mb
      else let max_addr = find_max_addr (regions (memory mb)) limit in
        if max_addr = PHYS_ADDR_MAX then Some mb
        else do {
          (m, _) \<leftarrow> memblock_remove_range (memory mb) max_addr PHYS_ADDR_MAX;
          (r, _) \<leftarrow> memblock_remove_range (reserved mb) max_addr PHYS_ADDR_MAX;
          Some (mb\<lparr>memory := m, reserved := r\<rparr>) })"

text \<open>\<open>for (i = hi - 1; i >= lo; i--) if (!memblock_is_nomap(&regions[i])) memblock_remove_region(type, i)\<close>\<close>

fun memblock_remove_map_down :: "memblock_type \<Rightarrow> nat \<Rightarrow> nat \<Rightarrow> memblock_type" where
  "memblock_remove_map_down type lo 0 = type"
| "memblock_remove_map_down type lo (Suc i) =
     (if i \<ge> lo
      then memblock_remove_map_down
             (if memblock_is_nomap (regions type ! i) then type else memblock_remove_region type i) lo i
      else type)"

definition memblock_cap_memory_range :: "memblock \<Rightarrow> u64 \<Rightarrow> u64 \<Rightarrow> memblock option" where
  "memblock_cap_memory_range mb base sz =
     (if sz = 0 then Some mb
      else do {
        (type, ret, start_rgn, end_rgn) \<leftarrow> memblock_isolate_range (memory mb) base sz;
        if ret \<noteq> 0 then Some (mb\<lparr>memory := type\<rparr>)
        else do {
          let type1 = memblock_remove_map_down type end_rgn (length (regions type));
          let type2 = memblock_remove_map_down type1 0 start_rgn;
          (r1, _) \<leftarrow> memblock_remove_range (reserved mb) 0 base;
          (r2, _) \<leftarrow> memblock_remove_range r1 (base + sz) PHYS_ADDR_MAX;
          Some (mb\<lparr>memory := type2, reserved := r2\<rparr>) } })"

definition memblock_mem_limit_remove_map :: "memblock \<Rightarrow> u64 \<Rightarrow> memblock option" where
  "memblock_mem_limit_remove_map mb limit =
     (if limit = 0 then Some mb
      else let max_addr = find_max_addr (regions (memory mb)) limit in
        if max_addr = PHYS_ADDR_MAX then Some mb
        else memblock_cap_memory_range mb 0 max_addr)"

text \<open>\<^verbatim>\<open>memblock_search\<close>: the loop tests \<open>left < right\<close> after each round.\<close>

function memblock_search_from :: "memblock_type \<Rightarrow> u64 \<Rightarrow> nat \<Rightarrow> nat \<Rightarrow> int" where
  "memblock_search_from type addr left right =
     (let mid = (right + left) div 2; r = regions type ! mid in
      if addr < r_base r then (if left < mid then memblock_search_from type addr left mid else - 1)
      else if addr \<ge> r_base r + r_size r
      then (if mid + 1 < right then memblock_search_from type addr (mid + 1) right else - 1)
      else int mid)"
  by pat_completeness auto
termination
  by (relation "measure (\<lambda>(type, addr, left, right). right - left)") auto

definition memblock_search :: "memblock_type \<Rightarrow> u64 \<Rightarrow> int" where
  "memblock_search type addr = memblock_search_from type addr 0 (length (regions type))"

definition memblock_is_reserved :: "memblock \<Rightarrow> u64 \<Rightarrow> bool" where
  "memblock_is_reserved mb addr \<longleftrightarrow> memblock_search (reserved mb) addr \<noteq> - 1"

definition memblock_is_memory :: "memblock \<Rightarrow> u64 \<Rightarrow> bool" where
  "memblock_is_memory mb addr \<longleftrightarrow> memblock_search (memory mb) addr \<noteq> - 1"

definition memblock_is_map_memory :: "memblock \<Rightarrow> u64 \<Rightarrow> bool" where
  "memblock_is_map_memory mb addr =
     (let i = memblock_search (memory mb) addr in
      if i = - 1 then False else \<not> memblock_is_nomap (regions (memory mb) ! nat i))"

definition memblock_is_region_memory :: "memblock \<Rightarrow> u64 \<Rightarrow> u64 \<Rightarrow> bool" where
  "memblock_is_region_memory mb base sz =
     (let idx = memblock_search (memory mb) base; end = base + memblock_cap_size base sz in
      if idx = - 1 then False
      else r_base (regions (memory mb) ! nat idx) + r_size (regions (memory mb) ! nat idx) \<ge> end)"

definition memblock_is_region_reserved :: "memblock \<Rightarrow> u64 \<Rightarrow> u64 \<Rightarrow> bool" where
  "memblock_is_region_reserved mb base sz =
     memblock_overlaps_region (reserved mb) base (memblock_cap_size base sz)"

text \<open>
  The loop of \<^verbatim>\<open>memblock_trim_memory\<close> from index \<open>i\<close> on; after a removal the same index is visited
  again (\<^verbatim>\<open>r--\<close>).
\<close>

lemma round_0 [simp]: "round_up 0 a = 0" "round_down 0 a = 0"
  by (simp_all add: round_up_def round_down_def)

definition memblock_trim_region :: "u64 \<Rightarrow> memblock_region \<Rightarrow> memblock_region option" where
  "memblock_trim_region align r =
     (let orig_start = r_base r; orig_end = r_base r + r_size r;
          start = round_up orig_start align; end = round_down orig_end align in
      if start = orig_start \<and> end = orig_end then Some r
      else if start < end then Some (r\<lparr>r_base := start, r_size := end - start\<rparr>)
      else None)"

lemma trim_empty_region [simp]: "memblock_trim_region align empty_region = Some empty_region"
  by (simp add: memblock_trim_region_def empty_region_def)

function memblock_trim :: "u64 \<Rightarrow> nat \<Rightarrow> memblock_type \<Rightarrow> memblock_type" where
  "memblock_trim align i type =
     (if i < length (regions type)
      then (case memblock_trim_region align (regions type ! i) of
          Some r \<Rightarrow> memblock_trim align (i + 1) (type\<lparr>regions := (regions type)[i := r]\<rparr>)
        | None \<Rightarrow> memblock_trim align i (memblock_remove_region type i))
      else type)"
  by pat_completeness auto
termination
  by (relation "measure (\<lambda>(align, i, type). 2 * (length (regions type) - i) +
      (if i < length (regions type) \<and> regions type ! i \<noteq> empty_region then 1 else 0))")
    (auto simp: memblock_remove_region_def min_def Let_def simp flip: length_greater_0_conv)

definition memblock_trim_memory :: "memblock \<Rightarrow> u64 \<Rightarrow> memblock" where
  "memblock_trim_memory mb align = mb\<lparr>memory := memblock_trim align 0 (memory mb)\<rparr>"

definition memblock_set_current_limit :: "memblock \<Rightarrow> u64 \<Rightarrow> memblock" where
  "memblock_set_current_limit mb limit = mb\<lparr>current_limit := limit\<rparr>"

definition memblock_get_current_limit :: "memblock \<Rightarrow> u64" where
  "memblock_get_current_limit mb = current_limit mb"

end
