(* ===== verification/Page.thy ===== *)
theory Page
  imports Memblock
begin

text \<open>
  The page frame descriptors of \<^verbatim>\<open>kernel/include/minix_rt/mm_types.h\<close>, \<^verbatim>\<open>page-flags.h\<close>, \<^verbatim>\<open>page_ref.h\<close> and
  \<^verbatim>\<open>mm.h\<close>. A \<^verbatim>\<open>struct page *\<close> is the page frame number it stands for: \<^verbatim>\<open>vmemmap\<close> is an array indexed by
  frame number, so \<^verbatim>\<open>page + (a - b)\<close> is plain arithmetic on frame numbers.

  The first word of the descriptor is shared by \<^verbatim>\<open>lru.next\<close> and \<^verbatim>\<open>compound_head\<close>; list pointers, list
  poison and 0 are even, so the field \<open>pg_head\<close> is \<open>Some h\<close> when bit 0 is set and the word points to the
  descriptor of frame \<open>h\<close>, and \<open>None\<close> otherwise. \<^verbatim>\<open>_mapcount\<close> and \<^verbatim>\<open>page_type\<close> share a word, \<open>pg_type\<close>. The
  membership in a list is kept in the list. The reference count, a 32-bit \<^verbatim>\<open>atomic_t\<close>, is an integer that does not wrap.
\<close>

section \<open>Descriptors\<close>

record page =
  pg_flags :: u64
  pg_head :: "nat option"
  pg_order :: nat
  pg_private :: nat
  pg_type :: u32
  pg_refcount :: int

abbreviation (input) PG_locked :: nat where "PG_locked \<equiv> 0"
abbreviation (input) PG_reserved :: nat where "PG_reserved \<equiv> 1"
abbreviation (input) PG_head_bit :: nat where "PG_head_bit \<equiv> 2"
abbreviation (input) PG_slub :: nat where "PG_slub \<equiv> 3"
abbreviation (input) PG_active :: nat where "PG_active \<equiv> 4"
abbreviation (input) NR_PAGEFLAGS :: nat where "NR_PAGEFLAGS \<equiv> 5"

definition compound_head :: "(nat \<Rightarrow> page) \<Rightarrow> nat \<Rightarrow> nat" where
  "compound_head ps p = (case pg_head (ps p) of Some h \<Rightarrow> h | None \<Rightarrow> p)"

definition PageTail :: "page \<Rightarrow> bool" where
  "PageTail pg \<longleftrightarrow> pg_head pg \<noteq> None"

definition PageCompound :: "page \<Rightarrow> bool" where
  "PageCompound pg \<longleftrightarrow> bit (pg_flags pg) PG_head_bit \<or> PageTail pg"

definition PagePoisoned :: "page \<Rightarrow> bool" where
  "PagePoisoned pg \<longleftrightarrow> pg_flags pg = - 1"

text \<open>
  The accessors that the \<^verbatim>\<open>PAGEFLAG\<close> macros generate and the allocator uses. \<^verbatim>\<open>PF_ANY\<close> checks for
  poisoning, \<^verbatim>\<open>PF_NO_COMPOUND\<close> refuses a compound page when the flag is written.
\<close>

definition PageHead :: "page \<Rightarrow> bool option" where
  "PageHead pg = do { bug_on (PagePoisoned pg); Some (bit (pg_flags pg) PG_head_bit) }"

definition SetPageHead :: "page \<Rightarrow> page option" where
  "SetPageHead pg = do {
     bug_on (PagePoisoned pg);
     Some (pg\<lparr>pg_flags := set_bit PG_head_bit (pg_flags pg)\<rparr>) }"

definition SetPageReserved :: "page \<Rightarrow> page option" where
  "SetPageReserved pg = do {
     bug_on (PageCompound pg);
     bug_on (PagePoisoned pg);
     Some (pg\<lparr>pg_flags := set_bit PG_reserved (pg_flags pg)\<rparr>) }"

definition ClearPageReserved :: "page \<Rightarrow> page option" where
  "ClearPageReserved pg = do {
     bug_on (PageCompound pg);
     bug_on (PagePoisoned pg);
     Some (pg\<lparr>pg_flags := unset_bit PG_reserved (pg_flags pg)\<rparr>) }"

definition set_compound_head :: "page \<Rightarrow> nat \<Rightarrow> page" where
  "set_compound_head pg h = pg\<lparr>pg_head := Some h\<rparr>"

definition clear_compound_head :: "page \<Rightarrow> page" where
  "clear_compound_head pg = pg\<lparr>pg_head := None\<rparr>"

abbreviation (input) PAGE_TYPE_BASE :: u32 where "PAGE_TYPE_BASE \<equiv> 0xf0000000"
abbreviation (input) PG_buddy :: u32 where "PG_buddy \<equiv> 0x80"
abbreviation (input) PG_table :: u32 where "PG_table \<equiv> 0x400"

definition PageType :: "page \<Rightarrow> u32 \<Rightarrow> bool" where
  "PageType pg flag \<longleftrightarrow> pg_type pg AND (PAGE_TYPE_BASE OR flag) = PAGE_TYPE_BASE"

definition PageBuddy :: "page \<Rightarrow> bool" where
  "PageBuddy pg \<longleftrightarrow> PageType pg PG_buddy"

definition SetPageBuddy :: "page \<Rightarrow> page option" where
  "SetPageBuddy pg = do {
     bug_on (\<not> PageType pg 0);
     Some (pg\<lparr>pg_type := pg_type pg AND NOT PG_buddy\<rparr>) }"

definition ClearPageBuddy :: "page \<Rightarrow> page option" where
  "ClearPageBuddy pg = do {
     bug_on (\<not> PageBuddy pg);
     Some (pg\<lparr>pg_type := pg_type pg OR PG_buddy\<rparr>) }"

definition PAGE_FLAGS_CHECK_AT_FREE :: u64 where
  "PAGE_FLAGS_CHECK_AT_FREE = 2 ^ PG_slub OR 2 ^ PG_active OR 2 ^ PG_locked"

definition PAGE_FLAGS_CHECK_AT_PREP :: u64 where
  "PAGE_FLAGS_CHECK_AT_PREP = 2 ^ NR_PAGEFLAGS - 1"

section \<open>Counts, compound pages, zones\<close>

definition page_count :: "(nat \<Rightarrow> page) \<Rightarrow> nat \<Rightarrow> int" where
  "page_count ps p = pg_refcount (ps (compound_head ps p))"

definition set_page_count :: "page \<Rightarrow> int \<Rightarrow> page" where
  "set_page_count pg v = pg\<lparr>pg_refcount := v\<rparr>"

definition init_page_count :: "page \<Rightarrow> page" where
  "init_page_count pg = set_page_count pg 1"

definition set_page_refcounted :: "page \<Rightarrow> page option" where
  "set_page_refcounted pg = do {
     bug_on (PageTail pg);
     bug_on (pg_refcount pg \<noteq> 0);
     Some (set_page_count pg 1) }"

definition put_page_testzero :: "page \<Rightarrow> (page \<times> bool) option" where
  "put_page_testzero pg = do {
     bug_on (pg_refcount pg = 0);
     Some (pg\<lparr>pg_refcount := pg_refcount pg - 1\<rparr>, pg_refcount pg - 1 = 0) }"

definition page_mapcount_reset :: "page \<Rightarrow> page" where
  "page_mapcount_reset pg = pg\<lparr>pg_type := - 1\<rparr>"

definition compound_order :: "(nat \<Rightarrow> page) \<Rightarrow> nat \<Rightarrow> nat option" where
  "compound_order ps p = do {
     h \<leftarrow> PageHead (ps p);
     Some (if h then pg_order (ps (p + 1)) else 0) }"

abbreviation (input) NODES_PGOFF :: nat where "NODES_PGOFF \<equiv> 62"
abbreviation (input) ZONEID_MASK :: u64 where "ZONEID_MASK \<equiv> 3"

definition set_page_zone :: "page \<Rightarrow> u64 \<Rightarrow> page" where
  "set_page_zone pg zone =
     pg\<lparr>pg_flags := (pg_flags pg AND NOT (push_bit NODES_PGOFF ZONEID_MASK))
          OR push_bit NODES_PGOFF (zone AND ZONEID_MASK)\<rparr>"

definition page_zone_id :: "page \<Rightarrow> nat" where
  "page_zone_id pg = unat (drop_bit NODES_PGOFF (pg_flags pg) AND ZONEID_MASK)"

text \<open>\<^verbatim>\<open>mm_zero_struct_page\<close> and \<^verbatim>\<open>__init_single_page\<close>.\<close>

definition page_zero :: page where
  "page_zero = \<lparr>pg_flags = 0, pg_head = None, pg_order = 0, pg_private = 0, pg_type = 0, pg_refcount = 0\<rparr>"

definition init_single_page :: "u64 \<Rightarrow> page" where
  "init_single_page zone = page_mapcount_reset (init_page_count (set_page_zone page_zero zone))"

section \<open>Order of a free page\<close>

definition set_page_order :: "page \<Rightarrow> nat \<Rightarrow> page option" where
  "set_page_order pg order = SetPageBuddy (pg\<lparr>pg_private := order\<rparr>)"

definition rmv_page_order :: "page \<Rightarrow> page option" where
  "rmv_page_order pg = do {
     pg' \<leftarrow> ClearPageBuddy pg;
     Some (pg'\<lparr>pg_private := 0\<rparr>) }"

definition page_expected_state :: "page \<Rightarrow> u64 \<Rightarrow> bool" where
  "page_expected_state pg check_flags \<longleftrightarrow>
     pg_type pg = - 1 \<and> pg_refcount pg = 0 \<and> pg_flags pg AND check_flags = 0"

end
