(* ===== verification/Buddy.thy ===== *)
theory Buddy
  imports Page
begin

text \<open>
  The page allocator of \<^verbatim>\<open>kernel/mm/page_alloc.c\<close>: a buddy system per zone, with a list of single pages
  per cpu in front of it.

  The state holds the descriptors, the contents of the frames, the zones, and what the allocator reads of
  its surroundings: the boot-time memory map (for \<^verbatim>\<open>pfn_valid\<close>) and the sets of cpus. Lists are lists of
  frame numbers, head first. \<^verbatim>\<open>list_del\<close> of a page that is not on the list it is taken from corrupts
  memory and is \<open>None\<close>, as are \<^verbatim>\<open>BUG_ON\<close>s. The zone lock and the disabling of interrupts are left out:
  allocations and releases are taken one after the other, on whichever cpu each. In the code one \<^verbatim>\<open>alloc_pages\<close> takes the lock
  several times, and it drains the lists of the other cpus without it, so two calls that overlap in time are outside the model; \<^verbatim>\<open>smp_processor_id()\<close> is the argument \<open>cpu\<close>. Messages are left out.
\<close>

section \<open>State\<close>

abbreviation (input) MAX_ORDER :: nat where "MAX_ORDER \<equiv> 11"
abbreviation (input) MAX_NR_ZONES :: nat where "MAX_NR_ZONES \<equiv> 3"
abbreviation (input) ZONE_DMA :: nat where "ZONE_DMA \<equiv> 0"
abbreviation (input) ZONE_NORMAL :: nat where "ZONE_NORMAL \<equiv> 1"
abbreviation (input) ZONE_MOVABLE :: nat where "ZONE_MOVABLE \<equiv> 2"

record free_area =
  free_list :: "nat list"
  nr_free :: u64

record per_cpu_pages =
  pcp_count :: int
  pcp_high :: int
  pcp_batch :: int
  pcp_list :: "nat list"

record zone =
  pageset :: "nat \<Rightarrow> per_cpu_pages"
  zone_start_pfn :: u64
  managed_pages :: u64
  zone_initialized :: bool
  free_areas :: "nat \<Rightarrow> free_area"

record pg_data =
  pages :: "nat \<Rightarrow> page"
  mem :: "nat \<Rightarrow> nat \<Rightarrow> u8"
  zones :: "nat \<Rightarrow> zone"
  memblock_kernel :: memblock
  online_cpus :: "nat list"
  possible_cpus :: "nat list"
  node_start_pfn :: u64
  totalreserve_pages :: u64
  total_physpages :: u64

definition upd_page :: "nat \<Rightarrow> (page \<Rightarrow> page) \<Rightarrow> pg_data \<Rightarrow> pg_data" where
  "upd_page p f s = s\<lparr>pages := (pages s)(p := f (pages s p))\<rparr>"

definition try_page :: "nat \<Rightarrow> (page \<Rightarrow> page option) \<Rightarrow> pg_data \<Rightarrow> pg_data option" where
  "try_page p f s = map_option (\<lambda>pg. s\<lparr>pages := (pages s)(p := pg)\<rparr>) (f (pages s p))"

definition upd_zone :: "nat \<Rightarrow> (zone \<Rightarrow> zone) \<Rightarrow> pg_data \<Rightarrow> pg_data" where
  "upd_zone z f s = s\<lparr>zones := (zones s)(z := f (zones s z))\<rparr>"

definition upd_area :: "nat \<Rightarrow> nat \<Rightarrow> (free_area \<Rightarrow> free_area) \<Rightarrow> pg_data \<Rightarrow> pg_data" where
  "upd_area z k f = upd_zone z (\<lambda>zn. zn\<lparr>free_areas := (free_areas zn)(k := f (free_areas zn k))\<rparr>)"

definition upd_pcp :: "nat \<Rightarrow> nat \<Rightarrow> (per_cpu_pages \<Rightarrow> per_cpu_pages) \<Rightarrow> pg_data \<Rightarrow> pg_data" where
  "upd_pcp z cpu f = upd_zone z (\<lambda>zn. zn\<lparr>pageset := (pageset zn)(cpu := f (pageset zn cpu))\<rparr>)"

abbreviation area :: "pg_data \<Rightarrow> nat \<Rightarrow> nat \<Rightarrow> free_area" where
  "area s z k \<equiv> free_areas (zones s z) k"

abbreviation pcp :: "pg_data \<Rightarrow> nat \<Rightarrow> nat \<Rightarrow> per_cpu_pages" where
  "pcp s z cpu \<equiv> pageset (zones s z) cpu"

text \<open>\<^verbatim>\<open>pfn_valid\<close> of \<^verbatim>\<open>kernel/arch/arm64/mm/init.c\<close>.\<close>

definition pfn_valid :: "memblock \<Rightarrow> nat \<Rightarrow> bool" where
  "pfn_valid mb pfn =
     (let addr = push_bit PAGE_SHIFT (of_nat pfn :: u64) in
      if drop_bit PAGE_SHIFT addr \<noteq> of_nat pfn then False
      else memblock_is_map_memory mb addr)"

abbreviation valid :: "pg_data \<Rightarrow> nat \<Rightarrow> bool" where
  "valid s \<equiv> pfn_valid (memblock_kernel s)"

section \<open>Freeing into the buddy lists\<close>

definition find_buddy_pfn :: "nat \<Rightarrow> nat \<Rightarrow> nat" where
  "find_buddy_pfn page_pfn order = page_pfn XOR 2 ^ order"

definition page_is_buddy :: "pg_data \<Rightarrow> nat \<Rightarrow> nat \<Rightarrow> nat \<Rightarrow> bool option" where
  "page_is_buddy s page buddy order =
     (if PageBuddy (pages s buddy) \<and> pg_private (pages s buddy) = order
      then (if page_zone_id (pages s page) \<noteq> page_zone_id (pages s buddy) then Some False
            else do {
              bug_on (page_count (pages s) buddy \<noteq> 0);
              Some True })
      else Some False)"

text \<open>Taking a page off a free list: \<^verbatim>\<open>list_del\<close>, \<^verbatim>\<open>nr_free--\<close> and \<^verbatim>\<open>rmv_page_order\<close>.\<close>

definition area_del :: "nat \<Rightarrow> nat \<Rightarrow> nat \<Rightarrow> pg_data \<Rightarrow> pg_data option" where
  "area_del z k p s = do {
     bug_on (p \<notin> set (free_list (area s z k)));
     let s1 = upd_area z k (\<lambda>a. a\<lparr>free_list := remove1 p (free_list a), nr_free := nr_free a - 1\<rparr>) s;
     let s2 = upd_page p (\<lambda>pg. pg\<lparr>pg_head := None\<rparr>) s1;
     try_page p rmv_page_order s2 }"

text \<open>Putting a page at the head or the tail of a free list; the list pointers overwrite \<^verbatim>\<open>compound_head\<close>.\<close>

definition area_add :: "bool \<Rightarrow> nat \<Rightarrow> nat \<Rightarrow> nat \<Rightarrow> pg_data \<Rightarrow> pg_data" where
  "area_add tail z k p s =
     upd_page p (\<lambda>pg. pg\<lparr>pg_head := None\<rparr>)
       (upd_area z k (\<lambda>a. a\<lparr>free_list := (if tail then free_list a @ [p] else p # free_list a),
                            nr_free := nr_free a + 1\<rparr>) s)"

function free_merge :: "nat \<Rightarrow> nat \<Rightarrow> nat \<Rightarrow> nat \<Rightarrow> pg_data \<Rightarrow> (pg_data \<times> nat \<times> nat \<times> nat) option" where
  "free_merge z pfn order buddy s =
     (if order < MAX_ORDER - 1
      then (let buddy_pfn = find_buddy_pfn pfn order in
        if \<not> valid s buddy_pfn then Some (s, pfn, order, buddy_pfn)
        else do {
          b \<leftarrow> page_is_buddy s pfn buddy_pfn order;
          if \<not> b then Some (s, pfn, order, buddy_pfn)
          else do {
            s' \<leftarrow> area_del z order buddy_pfn s;
            free_merge z (buddy_pfn AND pfn) (order + 1) buddy_pfn s' } })
      else Some (s, pfn, order, buddy))"
  by pat_completeness auto
termination
  by (relation "measure (\<lambda>(z, pfn, order, buddy, s). MAX_ORDER - order)") auto

text \<open>Whether the buddy of the next order is free, so that the page should be used late.\<close>

definition higher_buddy_free :: "pg_data \<Rightarrow> nat \<Rightarrow> nat \<Rightarrow> nat \<Rightarrow> bool option" where
  "higher_buddy_free s pfn order buddy_pfn =
     (if order < MAX_ORDER - 2 \<and> valid s buddy_pfn
      then (let combined_pfn = buddy_pfn AND pfn; buddy_pfn = find_buddy_pfn combined_pfn (order + 1) in
        if valid s buddy_pfn then page_is_buddy s combined_pfn buddy_pfn (order + 1) else Some False)
      else Some False)"

text \<open>
  \<^verbatim>\<open>__free_one_page\<close>. When the loop does not run, \<^verbatim>\<open>buddy_pfn\<close> is uninitialised but not read, since the order
  is then \<^verbatim>\<open>MAX_ORDER - 1\<close>; it is passed as 0.
\<close>

definition free_one_page :: "nat \<Rightarrow> nat \<Rightarrow> nat \<Rightarrow> pg_data \<Rightarrow> pg_data option" where
  "free_one_page z pfn order s = do {
     bug_on (\<not> zone_initialized (zones s z));
     bug_on (pg_flags (pages s pfn) AND PAGE_FLAGS_CHECK_AT_PREP \<noteq> 0);
     bug_on (pfn AND (2 ^ order - 1) \<noteq> 0);
     (s1, pfn', order', buddy_pfn) \<leftarrow> free_merge z pfn order 0 s;
     s2 \<leftarrow> try_page pfn' (\<lambda>pg. set_page_order pg order') s1;
     tail \<leftarrow> higher_buddy_free s2 pfn' order' buddy_pfn;
     Some (area_add tail z order' pfn' s2) }"

fun free_page_list :: "nat \<Rightarrow> nat list \<Rightarrow> pg_data \<Rightarrow> pg_data option" where
  "free_page_list z [] s = Some s"
| "free_page_list z (p # ps) s = Option.bind (free_one_page z p 0 s) (free_page_list z ps)"

section \<open>Preparing a page for its release\<close>

definition bad_page :: "nat \<Rightarrow> pg_data \<Rightarrow> pg_data" where
  "bad_page p = upd_page p page_mapcount_reset"

definition free_pages_check :: "nat \<Rightarrow> pg_data \<Rightarrow> pg_data \<times> nat" where
  "free_pages_check p s =
     (if page_expected_state (pages s p) PAGE_FLAGS_CHECK_AT_FREE then (s, 0) else (bad_page p s, 1))"

definition free_tail_pages_check :: "nat \<Rightarrow> nat \<Rightarrow> pg_data \<Rightarrow> pg_data \<times> nat" where
  "free_tail_pages_check head p s =
     (let (s', ret) =
        (if \<not> PageTail (pages s p) then (bad_page p s, 1)
         else if compound_head (pages s) p \<noteq> head then (bad_page p s, 1)
         else (s, 0))
      in (upd_page p clear_compound_head s', ret))"

definition free_clear_flags :: "page \<Rightarrow> page" where
  "free_clear_flags pg = pg\<lparr>pg_flags := pg_flags pg AND NOT PAGE_FLAGS_CHECK_AT_PREP\<rparr>"

text \<open>The loop over the tail pages: \<open>i\<close> is the next index, \<open>n\<close> the number of pages left.\<close>

fun free_tails :: "nat \<Rightarrow> bool \<Rightarrow> nat \<Rightarrow> nat \<Rightarrow> pg_data \<times> nat \<Rightarrow> pg_data \<times> nat" where
  "free_tails page compound i 0 (s, bad) = (s, bad)"
| "free_tails page compound i (Suc n) (s, bad) =
     (let (s1, b1) = (if compound then free_tail_pages_check page (page + i) s else (s, 0));
          (s2, b2) = free_pages_check (page + i) s1;
          s3 = (if b2 \<noteq> 0 then s2 else upd_page (page + i) free_clear_flags s2)
      in free_tails page compound (i + 1) n (s3, bad + b1 + b2))"

definition free_pages_prepare :: "nat \<Rightarrow> nat \<Rightarrow> bool \<Rightarrow> pg_data \<Rightarrow> (pg_data \<times> bool) option" where
  "free_pages_prepare page order check_free s = do {
     bug_on (PageTail (pages s page));
     (s1, bad) \<leftarrow>
       (if order \<noteq> 0
        then do {
          let compound = PageCompound (pages s page);
          k \<leftarrow> (if compound then compound_order (pages s) page else Some order);
          bug_on (k \<noteq> order);
          Some (free_tails page compound 1 (2 ^ order - 1) (s, 0)) }
        else Some (s, 0));
     let (s2, b) = (if check_free then free_pages_check page s1 else (s1, 0));
     if bad + b \<noteq> 0 then Some (s2, False)
     else Some (upd_page page free_clear_flags s2, True) }"

section \<open>The per-cpu lists\<close>

text \<open>
  The first loop of \<^verbatim>\<open>free_pcppages_bulk\<close>: pages move from the tail of the cpu's list to the tail of a local
  list. The outer \<^verbatim>\<open>while (count)\<close> increments \<^verbatim>\<open>batch_free\<close>; the inner loop goes on while
  \<^verbatim>\<open>--count && --batch_free && !list_empty(list)\<close>. The last entry of an empty list is not a page: \<open>None\<close>.
\<close>

function pcp_take :: "int \<Rightarrow> int \<Rightarrow> nat list \<Rightarrow> nat list \<Rightarrow> (nat list \<times> nat list) option" where
  "pcp_take cnt batch_free lst head =
     (if lst = [] then None
      else let head' = head @ [last lst]; lst' = butlast lst in
        if cnt - 1 = 0 then Some (lst', head')
        else if batch_free - 1 \<noteq> 0 \<and> lst' \<noteq> [] then pcp_take (cnt - 1) (batch_free - 1) lst' head'
        else pcp_take (cnt - 1) (batch_free - 1 + 1) lst' head')"
  by pat_completeness auto
termination
  by (relation "measure (\<lambda>(cnt, bf, lst, head). length lst)") auto

definition free_pcppages_bulk :: "nat \<Rightarrow> nat \<Rightarrow> int \<Rightarrow> pg_data \<Rightarrow> pg_data option" where
  "free_pcppages_bulk z cpu cnt s = do {
     (lst, head) \<leftarrow> (if cnt = 0 then Some (pcp_list (pcp s z cpu), []) else pcp_take cnt 1 (pcp_list (pcp s z cpu)) []);
     free_page_list z head
       (upd_pcp z cpu (\<lambda>c. c\<lparr>pcp_list := lst, pcp_count := pcp_count c - int (length head)\<rparr>) s) }"

definition free_unref_page_commit :: "nat \<Rightarrow> nat \<Rightarrow> pg_data \<Rightarrow> pg_data option" where
  "free_unref_page_commit cpu p s =
     (let z = page_zone_id (pages s p);
          s1 = upd_page p (\<lambda>pg. pg\<lparr>pg_head := None\<rparr>)
                 (upd_pcp z cpu (\<lambda>c. c\<lparr>pcp_list := p # pcp_list c, pcp_count := pcp_count c + 1\<rparr>) s)
      in if pcp_count (pcp s1 z cpu) \<ge> pcp_high (pcp s1 z cpu)
         then free_pcppages_bulk z cpu (pcp_batch (pcp s1 z cpu)) s1
         else Some s1)"

definition drain_pages_zone :: "nat \<Rightarrow> nat \<Rightarrow> pg_data \<Rightarrow> (pg_data \<times> bool) option" where
  "drain_pages_zone cpu z s =
     (if pcp_count (pcp s z cpu) \<noteq> 0
      then map_option (\<lambda>s'. (s', True)) (free_pcppages_bulk z cpu (pcp_count (pcp s z cpu)) s)
      else Some (s, False))"

definition free_unref_page :: "nat \<Rightarrow> nat \<Rightarrow> pg_data \<Rightarrow> pg_data option" where
  "free_unref_page cpu p s = do {
     (s1, ok) \<leftarrow> free_pages_prepare p 0 True s;
     if \<not> ok then Some s1 else free_unref_page_commit cpu p s1 }"

section \<open>Releasing pages\<close>

text \<open>\<^verbatim>\<open>__free_pages_ok\<close>, \<^verbatim>\<open>free_the_page\<close> and \<^verbatim>\<open>__free_pages\<close>.\<close>

definition free_pages_ok :: "nat \<Rightarrow> nat \<Rightarrow> pg_data \<Rightarrow> pg_data option" where
  "free_pages_ok p order s = do {
     (s1, ok) \<leftarrow> free_pages_prepare p order True s;
     if \<not> ok then Some s1 else free_one_page (page_zone_id (pages s1 p)) p order s1 }"

definition free_the_page :: "nat \<Rightarrow> nat \<Rightarrow> nat \<Rightarrow> pg_data \<Rightarrow> pg_data option" where
  "free_the_page cpu p order s = (if order = 0 then free_unref_page cpu p s else free_pages_ok p order s)"

definition free_pages_pfn :: "nat \<Rightarrow> nat \<Rightarrow> nat \<Rightarrow> pg_data \<Rightarrow> pg_data option" where
  "free_pages_pfn cpu p order s = do {
     (pg, zero) \<leftarrow> put_page_testzero (pages s p);
     let s1 = s\<lparr>pages := (pages s)(p := pg)\<rparr>;
     if zero then free_the_page cpu p order s1 else Some s1 }"

definition free_compound_page :: "nat \<Rightarrow> pg_data \<Rightarrow> pg_data option" where
  "free_compound_page p s = do {
     order \<leftarrow> compound_order (pages s) p;
     free_pages_ok p order s }"

text \<open>\<^verbatim>\<open>get_page\<close>, \<^verbatim>\<open>put_page\<close> of \<^verbatim>\<open>mm.h\<close>.\<close>

definition get_page :: "nat \<Rightarrow> pg_data \<Rightarrow> pg_data option" where
  "get_page p s = (let h = compound_head (pages s) p in do {
     bug_on (pg_refcount (pages s h) \<le> 0);
     Some (upd_page h (\<lambda>pg. pg\<lparr>pg_refcount := pg_refcount pg + 1\<rparr>) s) })"

definition put_page :: "nat \<Rightarrow> nat \<Rightarrow> pg_data \<Rightarrow> pg_data option" where
  "put_page cpu p s = (let h = compound_head (pages s) p in do {
     (pg, zero) \<leftarrow> put_page_testzero (pages s h);
     let s1 = s\<lparr>pages := (pages s)(h := pg)\<rparr>;
     if zero
     then (if PageCompound (pages s1 h) then free_compound_page h s1 else free_unref_page cpu h s1)
     else Some s1 })"

section \<open>Taking pages from the buddy lists\<close>

text \<open>
  \<^verbatim>\<open>expand\<close>: the block at \<open>page\<close> of order \<open>high\<close> is halved until it has order \<open>low\<close>, the upper halves going
  to the lists.
\<close>

fun expand :: "nat \<Rightarrow> nat \<Rightarrow> nat \<Rightarrow> nat \<Rightarrow> pg_data \<Rightarrow> pg_data option" where
  "expand z page low 0 s = Some s"
| "expand z page low (Suc high) s =
     (if Suc high > low
      then do {
        s' \<leftarrow> try_page (page + 2 ^ high) (\<lambda>pg. set_page_order pg high) (area_add False z high (page + 2 ^ high) s);
        expand z page low high s' }
      else Some s)"

text \<open>\<^verbatim>\<open>__rmqueue_smallest\<close>, whose result may be NULL; \<open>current_order\<close> is the next order to look at.\<close>

function rmqueue_smallest :: "nat \<Rightarrow> nat \<Rightarrow> nat \<Rightarrow> pg_data \<Rightarrow> (pg_data \<times> nat option) option" where
  "rmqueue_smallest z order current_order s =
     (if current_order < MAX_ORDER
      then (case free_list (area s z current_order) of
          [] \<Rightarrow> rmqueue_smallest z order (current_order + 1) s
        | page # _ \<Rightarrow> do {
            s1 \<leftarrow> area_del z current_order page s;
            s2 \<leftarrow> expand z page order current_order s1;
            Some (s2, Some page) })
      else Some (s, None))"
  by pat_completeness auto
termination
  by (relation "measure (\<lambda>(z, order, k, s). MAX_ORDER - k)") auto

fun rmqueue_bulk :: "nat \<Rightarrow> nat \<Rightarrow> nat \<Rightarrow> nat list \<Rightarrow> pg_data \<Rightarrow> (pg_data \<times> nat list) option" where
  "rmqueue_bulk z order 0 lst s = Some (s, lst)"
| "rmqueue_bulk z order (Suc n) lst s = do {
     (s', page) \<leftarrow> rmqueue_smallest z order order s;
     (case page of
        None \<Rightarrow> Some (s', lst)
      | Some p \<Rightarrow> rmqueue_bulk z order n (lst @ [p]) (upd_page p (\<lambda>pg. pg\<lparr>pg_head := None\<rparr>) s')) }"

definition check_new_page :: "nat \<Rightarrow> pg_data \<Rightarrow> pg_data \<times> bool" where
  "check_new_page p s =
     (if page_expected_state (pages s p) PAGE_FLAGS_CHECK_AT_PREP then (s, False) else (bad_page p s, True))"

fun check_new_pages :: "nat \<Rightarrow> nat \<Rightarrow> pg_data \<Rightarrow> pg_data \<times> bool" where
  "check_new_pages p 0 s = (s, False)"
| "check_new_pages p (Suc n) s =
     (let (s', bad) = check_new_page p s in if bad then (s', True) else check_new_pages (p + 1) n s')"

text \<open>
  \<^verbatim>\<open>__rmqueue_pcplist\<close> repeats until a page in the expected state is found or there are no pages left. A
  loop that does not end would be \<open>None\<close>.
\<close>

definition pcp_refill :: "nat \<Rightarrow> nat \<Rightarrow> pg_data \<Rightarrow> pg_data option" where
  "pcp_refill z cpu s =
     (if pcp_list (pcp s z cpu) = []
      then do {
        (s', lst) \<leftarrow> rmqueue_bulk z 0 (nat (pcp_batch (pcp s z cpu))) [] s;
        Some (upd_pcp z cpu (\<lambda>c. c\<lparr>pcp_count := pcp_count c + int (length lst), pcp_list := lst\<rparr>) s') }
      else Some s)"

partial_function (option) rmqueue_pcplist :: "nat \<Rightarrow> nat \<Rightarrow> pg_data \<Rightarrow> (pg_data \<times> nat option) option" where
  "rmqueue_pcplist z cpu s =
     Option.bind (pcp_refill z cpu s) (\<lambda>s1.
       (case pcp_list (pcp s1 z cpu) of
          [] \<Rightarrow> Some (s1, None)
        | p # lst \<Rightarrow>
            (let s2 = upd_page p (\<lambda>pg. pg\<lparr>pg_head := None\<rparr>)
                   (upd_pcp z cpu (\<lambda>c. c\<lparr>pcp_list := lst, pcp_count := pcp_count c - 1\<rparr>) s1);
                 (s3, bad) = check_new_page p s2
             in if bad then rmqueue_pcplist z cpu s3 else Some (s3, Some p))))"

partial_function (option) rmqueue_blocks :: "nat \<Rightarrow> nat \<Rightarrow> pg_data \<Rightarrow> (pg_data \<times> nat option) option" where
  "rmqueue_blocks z order s =
     Option.bind (rmqueue_smallest z order order s) (\<lambda>(s1, page).
       (case page of
          None \<Rightarrow> Some (s1, None)
        | Some p \<Rightarrow>
            (let (s2, bad) = check_new_pages p (2 ^ order) s1
             in if bad then rmqueue_blocks z order s2 else Some (s2, Some p))))"

definition rmqueue :: "nat \<Rightarrow> nat \<Rightarrow> nat \<Rightarrow> pg_data \<Rightarrow> (pg_data \<times> nat option) option" where
  "rmqueue cpu z order s = (if order = 0 then rmqueue_pcplist z cpu s else rmqueue_blocks z order s)"

section \<open>Preparing a new page\<close>

fun prep_tails :: "nat \<Rightarrow> nat \<Rightarrow> nat \<Rightarrow> pg_data \<Rightarrow> pg_data" where
  "prep_tails page i 0 s = s"
| "prep_tails page i (Suc n) s =
     prep_tails page (i + 1) n (upd_page (page + i) (\<lambda>pg. set_compound_head (set_page_count pg 0) page) s)"

definition prep_compound_page :: "nat \<Rightarrow> nat \<Rightarrow> pg_data \<Rightarrow> pg_data option" where
  "prep_compound_page page order s = do {
     let s1 = upd_page (page + 1) (\<lambda>pg. pg\<lparr>pg_order := order\<rparr>) s;
     s2 \<leftarrow> try_page page SetPageHead s1;
     Some (prep_tails page 1 (2 ^ order - 1) s2) }"

definition post_alloc_hook :: "nat \<Rightarrow> pg_data \<Rightarrow> pg_data option" where
  "post_alloc_hook page s = try_page page (\<lambda>pg. set_page_refcounted (pg\<lparr>pg_private := 0\<rparr>)) s"

abbreviation (input) GFP_DMA :: u32 where "GFP_DMA \<equiv> 1"
abbreviation (input) GFP_MOVABLE :: u32 where "GFP_MOVABLE \<equiv> 2"
abbreviation (input) GFP_ZERO :: u32 where "GFP_ZERO \<equiv> 8"

definition clear_frames :: "nat \<Rightarrow> nat \<Rightarrow> pg_data \<Rightarrow> pg_data" where
  "clear_frames page n s = s\<lparr>mem := (\<lambda>p. if page \<le> p \<and> p < page + n then (\<lambda>_. 0) else mem s p)\<rparr>"

definition prep_new_page :: "nat \<Rightarrow> nat \<Rightarrow> u32 \<Rightarrow> pg_data \<Rightarrow> pg_data option" where
  "prep_new_page page order gfp_mask s = do {
     s1 \<leftarrow> post_alloc_hook page s;
     let s2 = (if gfp_mask AND GFP_ZERO \<noteq> 0 then clear_frames page (2 ^ order) s1 else s1);
     if order \<noteq> 0 then prep_compound_page page order s2 else Some s2 }"

section \<open>Allocation\<close>

definition gfp_zone :: "u32 \<Rightarrow> nat" where
  "gfp_zone flags =
     (if GFP_DMA AND flags \<noteq> 0 then ZONE_DMA
      else if GFP_MOVABLE AND flags \<noteq> 0 then ZONE_MOVABLE
      else ZONE_NORMAL)"

text \<open>The loop over the other online cpus; \<open>train\<close> is what the last of them answered.\<close>

fun drain_others :: "nat \<Rightarrow> nat \<Rightarrow> nat list \<Rightarrow> bool \<Rightarrow> pg_data \<Rightarrow> (pg_data \<times> bool) option" where
  "drain_others self z [] train s = Some (s, train)"
| "drain_others self z (cpu # cpus) train s =
     (if cpu = self then drain_others self z cpus train s
      else do {
        (s', train') \<leftarrow> drain_pages_zone cpu z s;
        drain_others self z cpus train' s' })"

partial_function (option) get_page_from_freelist ::
    "nat \<Rightarrow> u32 \<Rightarrow> nat \<Rightarrow> nat \<Rightarrow> bool \<Rightarrow> pg_data \<Rightarrow> (pg_data \<times> nat option) option" where
  "get_page_from_freelist cpu gfp_mask order z train s =
     Option.bind (rmqueue cpu z order s) (\<lambda>(s1, page).
       (case page of
          Some p \<Rightarrow> Option.bind (prep_new_page p order gfp_mask s1) (\<lambda>s2. Some (s2, Some p))
        | None \<Rightarrow>
            Option.bind (drain_others cpu z (online_cpus s1) train s1) (\<lambda>(s2, train').
              if train' then get_page_from_freelist cpu gfp_mask order z train' s2
              else Some (s2, None))))"

definition alloc_pages :: "nat \<Rightarrow> u32 \<Rightarrow> nat \<Rightarrow> pg_data \<Rightarrow> (pg_data \<times> nat option) option" where
  "alloc_pages cpu gfp_mask order s =
     (if order \<ge> MAX_ORDER then Some (s, None)
      else get_page_from_freelist cpu gfp_mask order (gfp_zone gfp_mask) False s)"

end
