(* ===== verification/Buddy_Blocks.thy ===== *)
theory Buddy_Blocks
  imports Buddy
begin

text \<open>
  Sets of blocks: the abstract view of the free lists of a zone. A block is a pair of an order and a frame
  number that is a multiple of its size. \<open>buddy_ok\<close> says that the blocks of a set do not overlap and that
  no two of them could be merged.
\<close>

section \<open>Buddies\<close>

lemma xor_one_nat: "(q :: nat) XOR 1 = (if even q then q + 1 else q - 1)"
  by (simp add: xor_nat_unfold [of q 1] flip: One_nat_def)

lemma and_buddy_nat: "even q \<Longrightarrow> (q :: nat) AND (q + 1) = q" "odd q \<Longrightarrow> (q :: nat) AND (q - 1) = q - 1"
proof -
  have even_case: "r AND (r + 1) = r" if ev: "even r" for r :: nat
  proof (rule bit_eqI)
    fix n
    obtain b where b: "r = 2 * b" using ev by (rule evenE)
    have "bit (r + 1) (Suc m) = bit b m" "bit r (Suc m) = bit b m" for m by (simp_all add: b bit_Suc)
    then show "bit (r AND (r + 1)) n = bit r n"
      using ev by (cases n) (simp_all only: bit_and_iff bit_0 even_and_iff simp_thms)
  qed
  show "even q \<Longrightarrow> q AND (q + 1) = q" by (rule even_case)
  show "odd q \<Longrightarrow> q AND (q - 1) = q - 1"
    using even_case [of "q - 1"] by (auto simp: and.commute elim!: oddE)
qed

lemma buddy_cases:
  assumes "2 ^ k dvd p"
  shows "(even (p div 2 ^ k) \<and> find_buddy_pfn p k = p + 2 ^ k \<and> find_buddy_pfn p k AND p = p \<and> 2 ^ Suc k dvd p) \<or>
    (odd (p div 2 ^ k) \<and> 2 ^ k \<le> p \<and> find_buddy_pfn p k = p - 2 ^ k \<and> find_buddy_pfn p k AND p = p - 2 ^ k \<and>
      2 ^ Suc k dvd p - 2 ^ k)"
proof -
  obtain q where q: "p = push_bit k q" using assms by (auto simp: push_bit_eq_mult mult.commute elim!: dvdE)
  have b: "find_buddy_pfn p k = push_bit k (q XOR 1)"
    unfolding push_bit_xor by (simp add: find_buddy_pfn_def q)
  have d: "p div 2 ^ k = q" by (simp add: q push_bit_eq_mult)
  show ?thesis
  proof (cases "even q")
    case True
    then have "find_buddy_pfn p k = push_bit k (q + 1)" unfolding b xor_one_nat by simp
    moreover from this have "find_buddy_pfn p k AND p = push_bit k (q AND (q + 1))"
      unfolding push_bit_and q by (simp only: and.commute)
    ultimately show ?thesis using True and_buddy_nat(1) [OF True] d q
      by (auto simp: push_bit_eq_mult algebra_simps elim!: evenE)
  next
    case False
    then have "find_buddy_pfn p k = push_bit k (q - 1)" unfolding b xor_one_nat by simp
    moreover from this have "find_buddy_pfn p k AND p = push_bit k (q AND (q - 1))"
      unfolding push_bit_and q by (simp only: and.commute)
    ultimately show ?thesis using False and_buddy_nat(2) [OF False] d q
      by (auto simp: push_bit_eq_mult algebra_simps elim!: oddE)
  qed
qed

section \<open>Block sets\<close>

definition frames :: "nat \<Rightarrow> nat \<Rightarrow> nat set" where
  "frames k p = {p..<p + 2 ^ k}"

definition apart :: "(nat \<times> nat) set \<Rightarrow> nat \<Rightarrow> nat \<Rightarrow> bool" where
  "apart B k p \<longleftrightarrow> (\<forall>(j, q)\<in>B. frames j q \<inter> frames k p = {})"

definition buddy_ok :: "(nat \<times> nat) set \<Rightarrow> bool" where
  "buddy_ok B \<longleftrightarrow> (\<forall>(k, p)\<in>B. k < MAX_ORDER \<and> 2 ^ k dvd p \<and> apart (B - {(k, p)}) k p \<and>
     (k < MAX_ORDER - 1 \<longrightarrow> (k, find_buddy_pfn p k) \<notin> B))"

definition block_frames :: "(nat \<times> nat) set \<Rightarrow> nat set" where
  "block_frames B = (\<Union>(k, p)\<in>B. frames k p)"

lemma frames_self [simp]: "p \<in> frames k p"
  by (simp add: frames_def)

lemma frames_0 [simp]: "frames 0 p = {p}"
  by (auto simp: frames_def)

lemma apartD: "apart B k p \<Longrightarrow> (j, q) \<in> B \<Longrightarrow> x \<in> frames j q \<Longrightarrow> x \<notin> frames k p"
  by (auto simp: apart_def)

lemma apart_iff: "apart B k p \<longleftrightarrow> block_frames B \<inter> frames k p = {}"
  by (auto simp: apart_def block_frames_def)

lemma buddy_okD:
  assumes "buddy_ok B" "(k, p) \<in> B"
  shows "k < MAX_ORDER" "2 ^ k dvd p" "apart (B - {(k, p)}) k p" "k < MAX_ORDER - 1 \<Longrightarrow> (k, find_buddy_pfn p k) \<notin> B"
  using assms by (auto simp: buddy_ok_def)

lemma block_frames_simps [simp]:
  "block_frames {} = {}" "block_frames (insert (k, p) B) = frames k p \<union> block_frames B"
  by (auto simp: block_frames_def)

lemma block_framesI [intro]: "(k, p) \<in> B \<Longrightarrow> x \<in> frames k p \<Longrightarrow> x \<in> block_frames B"
  by (auto simp: block_frames_def)

lemma block_frames_empty: "block_frames B = {} \<longleftrightarrow> B = {}"
  using frames_self by (fastforce simp: block_frames_def)

lemma apart_mono: "apart B k p \<Longrightarrow> C \<subseteq> B \<Longrightarrow> apart C k p"
  by (auto simp: apart_def)

lemma buddy_ok_mono:
  assumes "buddy_ok B" "C \<subseteq> B"
  shows "buddy_ok C"
  unfolding buddy_ok_def
proof (intro ballI, clarify, intro conjI impI)
  fix k p
  assume "(k, p) \<in> C"
  then have B: "(k, p) \<in> B" using assms(2) by blast
  show "k < MAX_ORDER" "2 ^ k dvd p" by (rule buddy_okD [OF assms(1) B])+
  show "apart (C - {(k, p)}) k p"
    by (rule apart_mono [OF buddy_okD(3) [OF assms(1) B]]) (use assms(2) in blast)
  assume "k < MAX_ORDER - 1"
  then show "(k, find_buddy_pfn p k) \<notin> C" using buddy_okD(4) [OF assms(1) B] assms(2) by blast
qed

lemma buddy_ok_remove:
  assumes "buddy_ok B" "(k, p) \<in> B"
  shows "buddy_ok (B - {(k, p)})" "apart (B - {(k, p)}) k p"
    "block_frames (B - {(k, p)}) = block_frames B - frames k p"
proof -
  show "buddy_ok (B - {(k, p)})" by (rule buddy_ok_mono [OF assms(1)]) blast
  show a: "apart (B - {(k, p)}) k p" by (rule buddy_okD(3) [OF assms])
  have "insert (k, p) (B - {(k, p)}) = B" using assms(2) by blast
  then have "block_frames B = frames k p \<union> block_frames (B - {(k, p)})" by (metis block_frames_simps(2))
  with a show "block_frames (B - {(k, p)}) = block_frames B - frames k p" by (auto simp: apart_iff)
qed

lemma buddy_involution: "2 ^ k dvd p \<Longrightarrow> find_buddy_pfn (find_buddy_pfn p k) k = p"
  by (simp add: find_buddy_pfn_def xor.assoc)

lemma buddy_ok_insert:
  assumes "buddy_ok B" "k < MAX_ORDER" "2 ^ k dvd p" "apart B k p" "k < MAX_ORDER - 1 \<Longrightarrow> (k, find_buddy_pfn p k) \<notin> B"
  shows "buddy_ok (insert (k, p) B)"
proof -
  have new: "(j, q) \<noteq> (k, p)" if "(j, q) \<in> B" for j q
    using apartD [OF assms(4) that, of q] by auto
  have flip: "find_buddy_pfn q k \<noteq> p" if "(k, q) \<in> B" "k < MAX_ORDER - 1" for q
    using assms(5) that buddy_okD(2) [OF assms(1) that(1)] buddy_involution by fastforce
  have "0 < (2 :: nat) ^ k" by simp
  with buddy_cases [OF assms(3)] have neq: "find_buddy_pfn p k \<noteq> p" by (elim disjE conjE) linarith+
  show ?thesis
    unfolding buddy_ok_def
  proof (intro ballI, clarify, intro conjI impI)
    fix j q
    assume jq: "(j, q) \<in> insert (k, p) B"
    show "j < MAX_ORDER" "2 ^ j dvd q" using jq assms(2,3) buddy_okD(1,2) [OF assms(1)] by auto
    show "apart (insert (k, p) B - {(j, q)}) j q"
    proof (cases "(j, q) = (k, p)")
      case True
      then show ?thesis using assms(4) by (auto simp: apart_def)
    next
      case False
      then have "(j, q) \<in> B" using jq by auto
      then have "apart (B - {(j, q)}) j q" "frames j q \<inter> frames k p = {}"
        using buddy_okD(3) [OF assms(1)] assms(4) by (auto simp: apart_def)
      then show ?thesis by (auto simp: apart_def)
    qed
    assume "j < MAX_ORDER - 1"
    then show "(j, find_buddy_pfn q j) \<notin> insert (k, p) B"
      using jq flip neq assms(5) buddy_okD(4) [OF assms(1), of j q] by auto
  qed
qed

section \<open>Merging and splitting\<close>

lemma frames_buddy:
  assumes "2 ^ k dvd p"
  shows "frames k p \<union> frames k (find_buddy_pfn p k) = frames (Suc k) (find_buddy_pfn p k AND p)"
    "frames k p \<inter> frames k (find_buddy_pfn p k) = {}" "2 ^ Suc k dvd find_buddy_pfn p k AND p"
  using buddy_cases [OF assms] by (auto simp: frames_def)

lemma frames_halves: "frames (Suc k) p = frames k p \<union> frames k (p + 2 ^ k)" "frames k p \<inter> frames k (p + 2 ^ k) = {}"
  by (auto simp: frames_def)

lemma merge_apart:
  assumes "buddy_ok B" "2 ^ k dvd p" "apart B k p" "(k, find_buddy_pfn p k) \<in> B"
  shows "apart (B - {(k, find_buddy_pfn p k)}) (Suc k) (find_buddy_pfn p k AND p)"
  using buddy_ok_remove(2,3) [OF assms(1,4)] assms(3) frames_buddy(1) [OF assms(2), symmetric]
  by (auto simp: apart_iff)

lemma merge_frames:
  assumes "buddy_ok B" "2 ^ k dvd p" "(k, find_buddy_pfn p k) \<in> B"
  shows "block_frames (B - {(k, find_buddy_pfn p k)}) \<union> frames (Suc k) (find_buddy_pfn p k AND p) =
    block_frames B \<union> frames k p"
proof -
  have "frames k (find_buddy_pfn p k) \<subseteq> block_frames B" using assms(3) by (auto simp: block_frames_def)
  then show ?thesis
    using buddy_ok_remove(3) [OF assms(1,3)] frames_buddy(1) [OF assms(2)] by auto
qed

lemma split_upper:
  assumes "2 ^ Suc k dvd p"
  shows "2 ^ k dvd p" "2 ^ k dvd p + 2 ^ k" "find_buddy_pfn (p + 2 ^ k) k = p"
proof -
  show a: "2 ^ k dvd p" using assms by (rule dvd_trans [rotated]) simp
  then show b: "2 ^ k dvd p + 2 ^ k" by simp
  have "even (p div 2 ^ k)" using assms by (auto elim!: dvdE)
  then have "find_buddy_pfn p k = p + 2 ^ k" using buddy_cases [OF a] by auto
  then show "find_buddy_pfn (p + 2 ^ k) k = p" using buddy_involution [OF a] by simp
qed

end
