(* ===== verification/Buddy_Free.thy ===== *)
theory Buddy_Free
  imports Buddy_Blocks
begin

text \<open>
  The buddy lists of a zone implement a set of blocks. \<open>rep s z B\<close> says that the lists, the counters and
  the descriptors of zone \<open>z\<close> represent the set \<open>B\<close>; freeing and taking a block are shown to be the insertion
  and removal of its frames.
\<close>

section \<open>Reading back updates\<close>

lemma upd_simps [simp]:
  "pages (upd_page p f s) = (pages s)(p := f (pages s p))" "zones (upd_page p f s) = zones s"
  "memblock_kernel (upd_page p f s) = memblock_kernel s" "pages (upd_zone z g s) = pages s"
  "zones (upd_zone z g s) = (zones s)(z := g (zones s z))" "memblock_kernel (upd_zone z g s) = memblock_kernel s"
  "pages (upd_area z k h s) = pages s" "memblock_kernel (upd_area z k h s) = memblock_kernel s"
  "zones (upd_area z k h s) = (zones s)(z := (zones s z)\<lparr>free_areas := (free_areas (zones s z))(k := h (area s z k))\<rparr>)"
  "pages (upd_pcp z c u s) = pages s" "memblock_kernel (upd_pcp z c u s) = memblock_kernel s"
  "zones (upd_pcp z c u s) = (zones s)(z := (zones s z)\<lparr>pageset := (pageset (zones s z))(c := u (pcp s z c))\<rparr>)"
  by (simp_all add: upd_page_def upd_zone_def upd_area_def upd_pcp_def)

lemma upd_env [simp]:
  "mem (upd_page p f s) = mem s" "mem (upd_zone z g s) = mem s" "mem (upd_area z k h s) = mem s" "mem (upd_pcp z c u s) = mem s"
  "online_cpus (upd_page p f s) = online_cpus s" "online_cpus (upd_zone z g s) = online_cpus s"
  "online_cpus (upd_area z k h s) = online_cpus s" "online_cpus (upd_pcp z c u s) = online_cpus s"
  by (simp_all add: upd_page_def upd_zone_def upd_area_def upd_pcp_def)

lemma page_type_simps [simp]:
  "PageBuddy pg = (pg_type pg AND 0xf0000080 = 0xf0000000)" "PageType pg 0 = (pg_type pg AND 0xf0000000 = 0xf0000000)"
  by (simp_all add: PageBuddy_def PageType_def)

section \<open>States of a frame\<close>

definition clean :: "nat \<Rightarrow> page \<Rightarrow> bool" where
  "clean z pg \<longleftrightarrow> pg_type pg = - 1 \<and> pg_refcount pg = 0 \<and> pg_flags pg AND PAGE_FLAGS_CHECK_AT_PREP = 0 \<and>
     pg_head pg = None \<and> page_zone_id pg = z"

definition free_head :: "nat \<Rightarrow> nat \<Rightarrow> page \<Rightarrow> bool" where
  "free_head z k pg \<longleftrightarrow> pg_type pg = 0xffffff7f \<and> pg_private pg = k \<and> pg_refcount pg = 0 \<and>
     pg_flags pg AND PAGE_FLAGS_CHECK_AT_PREP = 0 \<and> pg_head pg = None \<and> page_zone_id pg = z"

definition loose :: "pg_data \<Rightarrow> nat \<Rightarrow> nat \<Rightarrow> nat \<Rightarrow> bool" where
  "loose s z k p \<longleftrightarrow> 2 ^ k dvd p \<and> (\<forall>q\<in>frames k p. clean z (pages s q) \<and> valid s q)"

definition listed :: "pg_data \<Rightarrow> nat \<Rightarrow> nat \<Rightarrow> nat \<Rightarrow> bool" where
  "listed s z k p \<longleftrightarrow> free_head z k (pages s p) \<and>
     (\<forall>q\<in>frames k p. valid s q \<and> (q \<noteq> p \<longrightarrow> clean z (pages s q)))"

definition quiet :: "page \<Rightarrow> bool" where
  "quiet pg \<longleftrightarrow> (PageBuddy pg \<longrightarrow> pg_refcount pg = 0 \<and> pg_head pg = None)"

definition lists_ok :: "zone \<Rightarrow> (nat \<times> nat) set \<Rightarrow> bool" where
  "lists_ok zn B \<longleftrightarrow> (\<forall>k. distinct (free_list (free_areas zn k)) \<and>
     nr_free (free_areas zn k) = of_nat (length (free_list (free_areas zn k))) \<and>
     (\<forall>p. p \<in> set (free_list (free_areas zn k)) \<longleftrightarrow> (k, p) \<in> B))"

lemma lists_okD: "lists_ok zn B \<Longrightarrow> p \<in> set (free_list (free_areas zn k)) \<longleftrightarrow> (k, p) \<in> B"
  by (simp add: lists_ok_def)

definition rep :: "pg_data \<Rightarrow> nat \<Rightarrow> (nat \<times> nat) set \<Rightarrow> bool" where
  "rep s z B \<longleftrightarrow> zone_initialized (zones s z) \<and> lists_ok (zones s z) B \<and>
     (\<forall>(k, p)\<in>B. listed s z k p) \<and> (\<forall>q. quiet (pages s q)) \<and>
     (\<forall>q. PageBuddy (pages s q) \<and> page_zone_id (pages s q) = z \<longrightarrow> (pg_private (pages s q), q) \<in> B)"

text \<open>\<open>s'\<close> differs from \<open>s\<close> at most in the free lists of zone \<open>z\<close> and in the descriptors of the frames \<open>P\<close>.\<close>

definition only :: "nat \<Rightarrow> nat set \<Rightarrow> pg_data \<Rightarrow> pg_data \<Rightarrow> bool" where
  "only z P s s' \<longleftrightarrow> (\<exists>pgs fa. s' = s\<lparr>pages := pgs, zones := (zones s)(z := (zones s z)\<lparr>free_areas := fa\<rparr>)\<rparr> \<and>
     (\<forall>q. q \<notin> P \<longrightarrow> pgs q = pages s q))"

lemma onlyI:
  "s' = s\<lparr>pages := pgs, zones := (zones s)(z := (zones s z)\<lparr>free_areas := fa\<rparr>)\<rparr> \<Longrightarrow>
    (\<And>q. q \<notin> P \<Longrightarrow> pgs q = pages s q) \<Longrightarrow> only z P s s'"
  by (auto simp: only_def)

lemma onlyD:
  assumes "only z P s s'"
  shows "memblock_kernel s' = memblock_kernel s" "mem s' = mem s" "online_cpus s' = online_cpus s"
    "z' \<noteq> z \<Longrightarrow> zones s' z' = zones s z'" "pageset (zones s' z') = pageset (zones s z')"
    "managed_pages (zones s' z') = managed_pages (zones s z')"
    "zone_initialized (zones s' z') = zone_initialized (zones s z')"
    "q \<notin> P \<Longrightarrow> pages s' q = pages s q"
  using assms by (cases "z' = z", auto simp: only_def)+

lemma only_refl [simp]: "only z P s s"
  by (rule onlyI [where pgs = "pages s" and fa = "free_areas (zones s z)"]) simp_all

lemma only_trans:
  assumes "only z P s s1" "only z Q s1 s2"
  shows "only z (P \<union> Q) s s2"
proof -
  obtain g1 f1 where 1: "s1 = s\<lparr>pages := g1, zones := (zones s)(z := (zones s z)\<lparr>free_areas := f1\<rparr>)\<rparr>"
    "\<And>q. q \<notin> P \<Longrightarrow> g1 q = pages s q" using assms(1) by (auto simp: only_def)
  obtain g2 f2 where 2: "s2 = s1\<lparr>pages := g2, zones := (zones s1)(z := (zones s1 z)\<lparr>free_areas := f2\<rparr>)\<rparr>"
    "\<And>q. q \<notin> Q \<Longrightarrow> g2 q = pages s1 q" using assms(2) by (auto simp: only_def)
  show ?thesis by (rule onlyI [where pgs = g2 and fa = f2]) (use 1 2 in simp_all)
qed

lemma only_mono: "only z P s s' \<Longrightarrow> P \<subseteq> Q \<Longrightarrow> only z Q s s'"
  by (auto simp: only_def)


section \<open>Taking a block off its list\<close>

lemma prep_mask: "PAGE_FLAGS_CHECK_AT_PREP = mask 5"
  by (simp add: PAGE_FLAGS_CHECK_AT_PREP_def mask_eq_exp_minus_1)

lemma prep_zone: "drop_bit 62 (NOT PAGE_FLAGS_CHECK_AT_PREP) AND 3 = (3 :: u64)"
  by code_simp

lemma zone_id_simps [simp]:
  "page_zone_id (pg\<lparr>pg_head := a\<rparr>) = page_zone_id pg" "page_zone_id (pg\<lparr>pg_order := b\<rparr>) = page_zone_id pg"
  "page_zone_id (pg\<lparr>pg_private := b\<rparr>) = page_zone_id pg" "page_zone_id (pg\<lparr>pg_type := c\<rparr>) = page_zone_id pg"
  "page_zone_id (pg\<lparr>pg_refcount := d\<rparr>) = page_zone_id pg"
  by (simp_all add: page_zone_id_def)

definition unlist :: "page \<Rightarrow> page" where
  "unlist pg = pg\<lparr>pg_head := None, pg_type := - 1, pg_private := 0\<rparr>"

definition enlist :: "nat \<Rightarrow> page \<Rightarrow> page" where
  "enlist k pg = pg\<lparr>pg_head := None, pg_type := 0xffffff7f, pg_private := k\<rparr>"

lemma unlist_clean: "free_head z k pg \<Longrightarrow> clean z (unlist pg)"
  by (simp add: free_head_def clean_def unlist_def)

lemma enlist_head: "clean z pg \<Longrightarrow> free_head z k (enlist k pg)"
  by (simp add: free_head_def clean_def enlist_def)

lemma rmv_page_order_ok: "free_head z k pg \<Longrightarrow> rmv_page_order (pg\<lparr>pg_head := None\<rparr>) = Some (unlist pg)"
  by (simp add: free_head_def rmv_page_order_def ClearPageBuddy_def unlist_def)

lemma set_page_order_ok: "clean z pg \<Longrightarrow> set_page_order pg k = Some (enlist k pg)"
  by (cases pg) (simp add: clean_def set_page_order_def SetPageBuddy_def enlist_def)

lemma enlist_idem [simp]: "enlist k (pg\<lparr>pg_head := None\<rparr>) = enlist k pg" "(enlist k pg)\<lparr>pg_head := None\<rparr> = enlist k pg"
  by (simp_all add: enlist_def)

lemma area_del_eq:
  assumes "free_head z k (pages s p)" "p \<in> set (free_list (area s z' j))"
  shows "area_del z' j p s = Some (upd_page p unlist
    (upd_area z' j (\<lambda>a. a\<lparr>free_list := remove1 p (free_list a), nr_free := nr_free a - 1\<rparr>) s))"
  using assms rmv_page_order_ok [OF assms(1)]
  by (simp add: area_del_def Let_def try_page_def) (simp add: upd_page_def upd_area_def upd_zone_def)

lemma lists_ok_remove:
  assumes "lists_ok zn B" "(k, p) \<in> B"
  shows "lists_ok (zn\<lparr>free_areas := (free_areas zn)(k := (free_areas zn k)\<lparr>free_list := remove1 p (free_list (free_areas zn k)),
    nr_free := nr_free (free_areas zn k) - 1\<rparr>)\<rparr>) (B - {(k, p)})"
proof -
  have "p \<in> set (free_list (free_areas zn k))" using assms by (simp add: lists_ok_def)
  then have "of_nat (length (free_list (free_areas zn k))) - (1 :: u64) =
      of_nat (length (remove1 p (free_list (free_areas zn k))))"
    by (cases "length (free_list (free_areas zn k))") (auto simp: length_remove1)
  with assms show ?thesis by (auto simp: lists_ok_def)
qed

lemma lists_ok_insert:
  assumes "lists_ok zn B" "(k, p) \<notin> B" "set xs = insert p (set (free_list (free_areas zn k)))" "distinct xs"
  shows "lists_ok (zn\<lparr>free_areas := (free_areas zn)(k := (free_areas zn k)\<lparr>free_list := xs, nr_free := nr_free (free_areas zn k) + 1\<rparr>)\<rparr>)
    (insert (k, p) B)"
proof -
  let ?l = "free_list (free_areas zn k)"
  have "p \<notin> set ?l" "distinct ?l" using assms(1,2) by (auto simp: lists_ok_def)
  then have "length xs = Suc (length ?l)"
    using assms(3,4) distinct_card [OF assms(4)] distinct_card [of ?l] by simp
  with assms show ?thesis by (auto simp: lists_ok_def)
qed

lemma listed_same:
  assumes "listed s z k p" "memblock_kernel s' = memblock_kernel s" "\<And>q. q \<in> frames k p \<Longrightarrow> pages s' q = pages s q"
  shows "listed s' z k p"
  using assms(1) by (simp add: listed_def assms(2,3))

lemma loose_same:
  assumes "loose s z k p" "memblock_kernel s' = memblock_kernel s" "\<And>q. q \<in> frames k p \<Longrightarrow> pages s' q = pages s q"
  shows "loose s' z k p"
  using assms(1) by (simp add: loose_def assms(2,3))

lemma repD:
  assumes "rep s z B"
  shows "zone_initialized (zones s z)" "lists_ok (zones s z) B" "(k, p) \<in> B \<Longrightarrow> listed s z k p" "quiet (pages s q)"
    "PageBuddy (pages s q) \<Longrightarrow> page_zone_id (pages s q) = z \<Longrightarrow> (pg_private (pages s q), q) \<in> B"
  using assms by (auto simp: rep_def)

lemma repI:
  assumes "zone_initialized (zones s z)" "lists_ok (zones s z) B" "\<And>k p. (k, p) \<in> B \<Longrightarrow> listed s z k p"
    "\<And>q. quiet (pages s q)"
    "\<And>q. PageBuddy (pages s q) \<Longrightarrow> page_zone_id (pages s q) = z \<Longrightarrow> (pg_private (pages s q), q) \<in> B"
  shows "rep s z B"
  unfolding rep_def using assms by blast

lemma rep_del:
  assumes "rep s z B" "buddy_ok B" "(k, p) \<in> B"
  shows "\<exists>s'. area_del z k p s = Some s' \<and> rep s' z (B - {(k, p)}) \<and> loose s' z k p \<and> only z {p} s s'"
proof -
  let ?s = "upd_page p unlist (upd_area z k (\<lambda>a. a\<lparr>free_list := remove1 p (free_list a), nr_free := nr_free a - 1\<rparr>) s)"
  have l: "listed s z k p" by (rule repD(3) [OF assms(1,3)])
  then have h: "free_head z k (pages s p)" by (simp add: listed_def)
  have "p \<in> set (free_list (area s z k))" using repD(2) [OF assms(1)] assms(3) by (simp add: lists_ok_def)
  then have "area_del z k p s = Some ?s" by (rule area_del_eq [OF h])
  moreover have "rep ?s z (B - {(k, p)})"
  proof (rule repI)
    show "zone_initialized (zones ?s z)" using repD(1) [OF assms(1)] by simp
    show "lists_ok (zones ?s z) (B - {(k, p)})" using lists_ok_remove [OF repD(2) [OF assms(1)] assms(3)] by simp
    show "listed ?s z j q" if "(j, q) \<in> B - {(k, p)}" for j q
    proof (rule listed_same [of s])
      show "listed s z j q" using repD(3) [OF assms(1)] that by blast
      show "pages ?s x = pages s x" if x: "x \<in> frames j q" for x
        using apartD [OF buddy_ok_remove(2) [OF assms(2,3)] \<open>(j, q) \<in> B - {(k, p)}\<close> x] by auto
    qed simp
    show "quiet (pages ?s q)" for q using repD(4) [OF assms(1), of q] by (simp add: quiet_def unlist_def)
    show "(pg_private (pages ?s q), q) \<in> B - {(k, p)}"
      if "PageBuddy (pages ?s q)" "page_zone_id (pages ?s q) = z" for q
      using that repD(5) [OF assms(1), of q] by (cases "q = p") (simp_all add: unlist_def)
  qed
  moreover have "loose ?s z k p"
    using l unlist_clean [OF h] buddy_okD(2) [OF assms(2,3)] by (auto simp: loose_def listed_def)
  moreover have "only z {p} s ?s"
    by (rule onlyI [where pgs = "pages ?s" and fa = "free_areas (zones ?s z)"])
      (simp_all add: upd_page_def upd_area_def upd_zone_def)
  ultimately show ?thesis by blast
qed

definition add_block :: "bool \<Rightarrow> nat \<Rightarrow> nat \<Rightarrow> nat \<Rightarrow> pg_data \<Rightarrow> pg_data" where
  "add_block tail z k p s = upd_page p (enlist k)
     (upd_area z k (\<lambda>a. a\<lparr>free_list := (if tail then free_list a @ [p] else p # free_list a), nr_free := nr_free a + 1\<rparr>) s)"

lemma add_block_after:
  assumes "clean z (pages s p)"
  shows "try_page p (\<lambda>pg. set_page_order pg k) (area_add tail z' k p s) = Some (add_block tail z' k p s)"
proof -
  have "clean z ((pages s p)\<lparr>pg_head := None\<rparr>)" using assms by (simp add: clean_def)
  from set_page_order_ok [OF this, of k] show ?thesis
    by (simp add: try_page_def area_add_def add_block_def) (simp add: upd_page_def)
qed

lemma add_block_before:
  assumes "clean z (pages s p)"
  shows "try_page p (\<lambda>pg. set_page_order pg k) s = Some (upd_page p (enlist k) s)"
    "area_add tail z' k p (upd_page p (enlist k) s) = add_block tail z' k p s"
  using set_page_order_ok [OF assms, of k]
  by (simp_all add: try_page_def area_add_def add_block_def) (simp_all add: upd_page_def upd_area_def upd_zone_def)

lemma rep_add:
  assumes "rep s z B" "loose s z k p" "apart B k p"
  shows "rep (add_block tail z k p s) z (insert (k, p) B)" "only z {p} s (add_block tail z k p s)"
proof -
  let ?s = "add_block tail z k p s"
  have c: "clean z (pages s p)" using assms(2) by (simp add: loose_def)
  have new: "(k, p) \<notin> B" using apartD [OF assms(3), of k p p] by auto
  show "rep ?s z (insert (k, p) B)"
  proof (rule repI)
    show "zone_initialized (zones ?s z)" using repD(1) [OF assms(1)] by (simp add: add_block_def)
    let ?l = "free_list (area s z k)"
    have "p \<notin> set ?l" "distinct ?l" using repD(2) [OF assms(1)] new by (auto simp: lists_ok_def)
    then have "distinct (if tail then ?l @ [p] else p # ?l)" by simp
    from lists_ok_insert [OF repD(2) [OF assms(1)] new _ this]
    show "lists_ok (zones ?s z) (insert (k, p) B)" by (simp add: add_block_def split: if_splits)
    show "listed ?s z j q" if "(j, q) \<in> insert (k, p) B" for j q
    proof (cases "(j, q) = (k, p)")
      case True
      then show ?thesis using assms(2) enlist_head [OF c] by (auto simp: listed_def loose_def add_block_def)
    next
      case False
      then have jq: "(j, q) \<in> B" using that by auto
      show ?thesis
      proof (rule listed_same [OF repD(3) [OF assms(1) jq]])
        show "pages ?s x = pages s x" if x: "x \<in> frames j q" for x
          using apartD [OF assms(3) jq x] by (auto simp: add_block_def)
      qed (simp add: add_block_def)
    qed
    show "quiet (pages ?s q)" for q
      using repD(4) [OF assms(1), of q] c by (simp add: quiet_def add_block_def enlist_def clean_def)
    show "(pg_private (pages ?s q), q) \<in> insert (k, p) B"
      if "PageBuddy (pages ?s q)" "page_zone_id (pages ?s q) = z" for q
      using that repD(5) [OF assms(1), of q] by (cases "q = p") (simp_all add: add_block_def enlist_def)
  qed
  show "only z {p} s ?s"
    by (rule onlyI [where pgs = "pages ?s" and fa = "free_areas (zones ?s z)"])
      (simp_all add: add_block_def upd_page_def upd_area_def upd_zone_def)
qed

section \<open>Freeing a block\<close>

lemma page_is_buddy_total: "(\<And>q. quiet (pages s q)) \<Longrightarrow> \<exists>b. page_is_buddy s p q k = Some b"
proof -
  assume "\<And>q. quiet (pages s q)"
  from this [of q] show ?thesis
    by (auto simp: page_is_buddy_def quiet_def page_count_def compound_head_def)
qed

lemma page_is_buddy_iff:
  assumes "rep s z B" "page_zone_id (pages s p) = z"
  shows "page_is_buddy s p q k = Some ((k, q) \<in> B)"
proof (cases "PageBuddy (pages s q) \<and> pg_private (pages s q) = k \<and> page_zone_id (pages s q) = z")
  case True
  then have "(k, q) \<in> B" using repD(5) [OF assms(1), of q] by blast
  then show ?thesis using True assms(2) repD(4) [OF assms(1), of q]
    by (auto simp: page_is_buddy_def quiet_def page_count_def compound_head_def)
next
  case False
  have "(k, q) \<notin> B"
  proof
    assume "(k, q) \<in> B"
    then have "free_head z k (pages s q)" using repD(3) [OF assms(1)] by (simp add: listed_def)
    then show False using False by (simp add: free_head_def)
  qed
  then show ?thesis using False assms(2) by (auto simp: page_is_buddy_def)
qed

lemma loose_join:
  assumes "loose s z k p" "loose s z k (find_buddy_pfn p k)"
  shows "loose s z (Suc k) (find_buddy_pfn p k AND p)"
proof -
  have "2 ^ k dvd p" using assms(1) by (simp add: loose_def)
  from frames_buddy(1,3) [OF this] assms show ?thesis by (auto simp: loose_def)
qed

definition merged_to :: "pg_data \<Rightarrow> nat \<Rightarrow> (nat \<times> nat) set \<Rightarrow> nat \<Rightarrow> nat \<Rightarrow> pg_data \<Rightarrow> (nat \<times> nat) set \<Rightarrow> nat \<Rightarrow> nat \<Rightarrow> bool" where
  "merged_to s z B k p s' B' k' p' \<longleftrightarrow> rep s' z B' \<and> buddy_ok B' \<and> loose s' z k' p' \<and> apart B' k' p' \<and> k' < MAX_ORDER \<and>
     (k' < MAX_ORDER - 1 \<longrightarrow> (k', find_buddy_pfn p' k') \<notin> B') \<and>
     block_frames B' \<union> frames k' p' = block_frames B \<union> frames k p \<and>
     only z (block_frames B \<union> frames k p) s s'"

lemma merged_to_stop:
  assumes "rep s z B" "buddy_ok B" "loose s z k p" "apart B k p" "k < MAX_ORDER"
    "k < MAX_ORDER - 1 \<Longrightarrow> (k, find_buddy_pfn p k) \<notin> B"
  shows "merged_to s z B k p s B k p"
  using assms by (simp add: merged_to_def)

lemma merged_to_step:
  assumes "rep s z B" "buddy_ok B" "loose s z k p" "apart B k p" "(k, find_buddy_pfn p k) \<in> B"
  shows "\<exists>s1. area_del z k (find_buddy_pfn p k) s = Some s1 \<and> rep s1 z (B - {(k, find_buddy_pfn p k)}) \<and>
    buddy_ok (B - {(k, find_buddy_pfn p k)}) \<and> loose s1 z (Suc k) (find_buddy_pfn p k AND p) \<and>
    apart (B - {(k, find_buddy_pfn p k)}) (Suc k) (find_buddy_pfn p k AND p) \<and>
    only z (block_frames B \<union> frames k p) s s1"
proof -
  let ?b = "find_buddy_pfn p k"
  obtain s1 where s1: "area_del z k ?b s = Some s1" "rep s1 z (B - {(k, ?b)})" "loose s1 z k ?b" "only z {?b} s s1"
    using rep_del [OF assms(1,2,5)] by blast
  have al: "2 ^ k dvd p" using assms(3) by (simp add: loose_def)
  have "loose s1 z k p"
  proof (rule loose_same [OF assms(3)])
    show "memblock_kernel s1 = memblock_kernel s" by (rule onlyD(1) [OF s1(4)])
    show "pages s1 q = pages s q" if "q \<in> frames k p" for q
      by (rule onlyD(8) [OF s1(4)]) (use that frames_buddy(2) [OF al] in auto)
  qed
  then have "loose s1 z (Suc k) (?b AND p)" using s1(3) by (rule loose_join)
  moreover have "only z (block_frames B \<union> frames k p) s s1"
    by (rule only_mono [OF s1(4)]) (use assms(5) in auto)
  ultimately show ?thesis
    using s1 buddy_ok_remove(1) [OF assms(2,5)] merge_apart [OF assms(2) al assms(4,5)] by blast
qed

lemma merged_to_trans:
  assumes "merged_to s1 z (B - {(k, find_buddy_pfn p k)}) (Suc k) (find_buddy_pfn p k AND p) s' B' k' p'"
    "buddy_ok B" "2 ^ k dvd p" "(k, find_buddy_pfn p k) \<in> B" "only z (block_frames B \<union> frames k p) s s1"
  shows "merged_to s z B k p s' B' k' p'"
proof -
  have eq: "block_frames (B - {(k, find_buddy_pfn p k)}) \<union> frames (Suc k) (find_buddy_pfn p k AND p) = block_frames B \<union> frames k p"
    by (rule merge_frames [OF assms(2-4)])
  have "only z (block_frames B \<union> frames k p) s s'"
    using only_trans [OF assms(5)] assms(1) eq by (fastforce simp: merged_to_def)
  with assms(1) eq show ?thesis by (simp add: merged_to_def)
qed

declare free_merge.simps [simp del]

lemma free_merge_ok:
  assumes "rep s z B" "buddy_ok B" "loose s z k p" "apart B k p" "k < MAX_ORDER"
  shows "\<exists>s' p' k' b' B'. free_merge z p k b s = Some (s', p', k', b') \<and> merged_to s z B k p s' B' k' p'"
  using assms
proof (induction z p k b s arbitrary: B rule: free_merge.induct)
  case (1 z p k b s)
  let ?b = "find_buddy_pfn p k"
  have zone: "page_zone_id (pages s p) = z" using "1.prems"(3) by (auto simp: loose_def clean_def)
  have al: "2 ^ k dvd p" using "1.prems"(3) by (simp add: loose_def)
  consider "k \<ge> MAX_ORDER - 1" | "k < MAX_ORDER - 1" "(k, ?b) \<notin> B" | "k < MAX_ORDER - 1" "(k, ?b) \<in> B" by linarith
  then show ?case
  proof cases
    case 1
    then show ?thesis using merged_to_stop [OF "1.prems"] by (subst free_merge.simps) auto
  next
    case 2
    then have "\<exists>b'. free_merge z p k b s = Some (s, p, k, b')"
      by (subst free_merge.simps) (simp add: Let_def page_is_buddy_iff [OF "1.prems"(1) zone])
    then show ?thesis using merged_to_stop [OF "1.prems"] 2 by blast
  next
    case 3
    obtain s1 where s1: "area_del z k ?b s = Some s1" "rep s1 z (B - {(k, ?b)})" "buddy_ok (B - {(k, ?b)})"
      "loose s1 z (Suc k) (?b AND p)" "apart (B - {(k, ?b)}) (Suc k) (?b AND p)" "only z (block_frames B \<union> frames k p) s s1"
      using merged_to_step [OF "1.prems"(1-4) 3(2)] by blast
    have v: "valid s ?b" using repD(3) [OF "1.prems"(1) 3(2)] by (simp add: listed_def)
    have "Suc k < MAX_ORDER" using 3(1) by simp
    then obtain s' p' k' b' B' where r: "free_merge z (?b AND p) (k + 1) ?b s1 = Some (s', p', k', b')"
      "merged_to s1 z (B - {(k, ?b)}) (Suc k) (?b AND p) s' B' k' p'"
      using "1.IH" [OF 3(1) refl _ page_is_buddy_iff [OF "1.prems"(1) zone] _ s1(1), of "B - {(k, ?b)}"] v 3(2) s1(2-5) by auto
    have "free_merge z p k b s = Some (s', p', k', b')"
      using r(1) s1(1) v 3 by (subst free_merge.simps) (simp add: Let_def page_is_buddy_iff [OF "1.prems"(1) zone])
    with merged_to_trans [OF r(2) "1.prems"(2) al 3(2) s1(6)] show ?thesis by blast
  qed
qed

lemma higher_buddy_total: "(\<And>q. quiet (pages s q)) \<Longrightarrow> \<exists>b. higher_buddy_free s p k q = Some b"
  using page_is_buddy_total [of s] by (auto simp: higher_buddy_free_def Let_def)

lemma aligned_and: "2 ^ k dvd p \<Longrightarrow> (p :: nat) AND (2 ^ k - 1) = 0"
proof -
  assume "2 ^ k dvd p"
  then have "take_bit k p = 0" by (simp add: take_bit_eq_mod)
  then show ?thesis unfolding take_bit_eq_mask mask_eq_exp_minus_1 .
qed

lemma free_one_page_ok:
  assumes "rep s z B" "buddy_ok B" "loose s z k p" "apart B k p" "k < MAX_ORDER"
  shows "\<exists>s' B'. free_one_page z p k s = Some s' \<and> rep s' z B' \<and> buddy_ok B' \<and>
    block_frames B' = block_frames B \<union> frames k p \<and> only z (block_frames B \<union> frames k p) s s'"
proof -
  obtain s1 p1 k1 b1 B1 where m: "free_merge z p k 0 s = Some (s1, p1, k1, b1)" "merged_to s z B k p s1 B1 k1 p1"
    using free_merge_ok [OF assms] by blast
  have c: "clean z (pages s p)" and al: "2 ^ k dvd p" using assms(3) by (auto simp: loose_def)
  have c1: "clean z (pages s1 p1)" using m(2) by (simp add: merged_to_def loose_def)
  have r1: "rep s1 z B1" "loose s1 z k1 p1" "apart B1 k1 p1" using m(2) by (auto simp: merged_to_def)
  let ?s2 = "upd_page p1 (enlist k1) s1"
  have "quiet (pages ?s2 q)" for q
    using repD(4) [OF r1(1), of q] c1 by (simp add: quiet_def enlist_def clean_def)
  then obtain t where t: "higher_buddy_free ?s2 p1 k1 b1 = Some t" using higher_buddy_total by blast
  have "free_one_page z p k s = Some (add_block t z k1 p1 s1)"
    using repD(1) [OF assms(1)] c m(1) t add_block_before [OF c1] aligned_and [OF al]
    by (simp add: free_one_page_def clean_def)
  moreover have "only z (block_frames B \<union> frames k p) s (add_block t z k1 p1 s1)"
  proof (rule only_mono [OF only_trans [OF _ rep_add(2) [OF r1, of t]]])
    show "only z (block_frames B \<union> frames k p) s s1" using m(2) by (simp add: merged_to_def)
    have "p1 \<in> block_frames B1 \<union> frames k1 p1" by simp
    also have "\<dots> = block_frames B \<union> frames k p" using m(2) by (simp add: merged_to_def)
    finally show "block_frames B \<union> frames k p \<union> {p1} \<subseteq> block_frames B \<union> frames k p" by simp
  qed
  moreover have "buddy_ok (insert (k1, p1) B1)"
    using m(2) by (intro buddy_ok_insert) (auto simp: merged_to_def loose_def)
  moreover have "block_frames (insert (k1, p1) B1) = block_frames B \<union> frames k p"
    using m(2) by (auto simp: merged_to_def)
  ultimately show ?thesis using rep_add(1) [OF r1, of t] by blast
qed

section \<open>Taking a block\<close>

definition taken :: "pg_data \<Rightarrow> nat \<Rightarrow> (nat \<times> nat) set \<Rightarrow> nat \<Rightarrow> nat \<Rightarrow> pg_data \<Rightarrow> (nat \<times> nat) set \<Rightarrow> bool" where
  "taken s z B k p s' B' \<longleftrightarrow> rep s' z B' \<and> buddy_ok B' \<and> loose s' z k p \<and> apart B' k p \<and>
     frames k p \<subseteq> block_frames B \<and> block_frames B' = block_frames B - frames k p \<and> only z (block_frames B) s s'"

lemma expand_ok:
  assumes "rep s z B" "buddy_ok B" "loose s z high p" "apart B high p" "high < MAX_ORDER" "low \<le> high"
  shows "\<exists>s' B'. expand z p low high s = Some s' \<and> rep s' z B' \<and> buddy_ok B' \<and> loose s' z low p \<and> apart B' low p \<and>
    frames low p \<subseteq> frames high p \<and> block_frames B' = block_frames B \<union> (frames high p - frames low p) \<and>
    only z (frames high p) s s'"
  using assms
proof (induction high arbitrary: s B)
  case (Suc h)
  show ?case
  proof (cases "Suc h > low")
    case True
    let ?q = "p + 2 ^ h"
    have al: "2 ^ Suc h dvd p" using Suc.prems(3) by (simp add: loose_def)
    note sp = split_upper [OF al] and fr = frames_halves [of h p]
    have lq: "loose s z h ?q" and lp: "loose s z h p"
      using Suc.prems(3) sp fr by (auto simp: loose_def)
    have aq: "apart B h ?q" and ap: "apart B h p" using Suc.prems(4) fr by (auto simp: apart_iff)
    let ?s = "add_block False z h ?q s"
    have cq: "clean z (pages s ?q)" using lq by (simp add: loose_def)
    note r = rep_add [OF Suc.prems(1) lq aq, of False]
    have notin: "(h, find_buddy_pfn ?q h) \<notin> B"
      using sp(3) apartD [OF ap, of h p p] by auto
    have ok: "buddy_ok (insert (h, ?q) B)"
      using Suc.prems(2,5) sp(2) aq notin by (intro buddy_ok_insert) auto
    have ap': "apart (insert (h, ?q) B) h p" using ap fr by (auto simp: apart_iff)
    have lp': "loose ?s z h p"
    proof (rule loose_same [OF lp])
      show "memblock_kernel ?s = memblock_kernel s" by (rule onlyD(1) [OF r(2)])
      show "pages ?s x = pages s x" if "x \<in> frames h p" for x
        by (rule onlyD(8) [OF r(2)]) (use that fr(2) in auto)
    qed
    obtain s' B' where s': "expand z p low h ?s = Some s'" "rep s' z B'" "buddy_ok B'" "loose s' z low p" "apart B' low p"
      "frames low p \<subseteq> frames h p" "block_frames B' = block_frames (insert (h, ?q) B) \<union> (frames h p - frames low p)"
      "only z (frames h p) ?s s'"
      using Suc.IH [OF r(1) ok lp' ap'] Suc.prems(5) True by auto
    have "expand z p low (Suc h) s = Some s'"
      using s'(1) True add_block_after [OF cq, of h False z] by simp
    moreover have "only z (frames (Suc h) p) s s'"
      by (rule only_mono [OF only_trans [OF r(2) s'(8)]]) (use fr in auto)
    moreover have "block_frames B' = block_frames B \<union> (frames (Suc h) p - frames low p)"
      using s'(6,7) fr by auto
    moreover have "frames low p \<subseteq> frames (Suc h) p" using s'(6) fr by auto
    ultimately show ?thesis using s'(2-5) by blast
  next
    case False
    then have "low = Suc h" using Suc.prems(6) by simp
    then show ?thesis using Suc.prems by auto
  qed
qed auto

declare rmqueue_smallest.simps [simp del]

lemma rmqueue_smallest_ok:
  assumes "rep s z B" "buddy_ok B" "order \<le> k"
  shows "(rmqueue_smallest z order k s = Some (s, None) \<and> (\<forall>j p. k \<le> j \<longrightarrow> (j, p) \<notin> B)) \<or>
    (\<exists>s' p B'. rmqueue_smallest z order k s = Some (s', Some p) \<and> taken s z B order p s' B')"
  using assms
proof (induction z order k s rule: rmqueue_smallest.induct)
  case (1 z order k s)
  show ?case
  proof (cases "k < MAX_ORDER")
    case False
    then have "(j, p) \<notin> B" if "k \<le> j" for j p using buddy_okD(1) [OF "1.prems"(2), of j p] that by auto
    with False show ?thesis by (subst rmqueue_smallest.simps) simp
  next
    case k: True
    show ?thesis
    proof (cases "free_list (area s z k)")
      case Nil
      then have none: "(k, p) \<notin> B" for p using lists_okD [OF repD(2) [OF "1.prems"(1)], of p k] by simp
      have eq: "rmqueue_smallest z order k s = rmqueue_smallest z order (k + 1) s"
        using k Nil by (subst rmqueue_smallest.simps) simp
      show ?thesis
        unfolding eq using "1.IH" [OF k Nil "1.prems"(1,2)] "1.prems"(3) none le_eq_less_or_eq [of k] by (auto simp: Suc_le_eq)
    next
      case (Cons p ps)
      then have p: "(k, p) \<in> B" using lists_okD [OF repD(2) [OF "1.prems"(1)], of p k] by simp
      obtain s1 where s1: "area_del z k p s = Some s1" "rep s1 z (B - {(k, p)})" "loose s1 z k p" "only z {p} s s1"
        using rep_del [OF "1.prems"(1,2) p] by blast
      note rm = buddy_ok_remove [OF "1.prems"(2) p]
      obtain s' B' where s': "expand z p order k s1 = Some s'" "rep s' z B'" "buddy_ok B'" "loose s' z order p" "apart B' order p"
        "frames order p \<subseteq> frames k p" "block_frames B' = block_frames (B - {(k, p)}) \<union> (frames k p - frames order p)"
        "only z (frames k p) s1 s'"
        using expand_ok [OF s1(2) rm(1) s1(3) rm(2) k "1.prems"(3)] by blast
      have sub: "frames k p \<subseteq> block_frames B" using p by auto
      have "rmqueue_smallest z order k s = Some (s', Some p)"
        using k Cons s1(1) s'(1) by (subst rmqueue_smallest.simps) simp
      moreover have "only z (block_frames B) s s'"
        by (rule only_mono [OF only_trans [OF s1(4) s'(8)]]) (use sub in auto)
      moreover have "block_frames B' = block_frames B - frames order p" using s'(6,7) rm(3) sub by auto
      ultimately have "taken s z B order p s' B'" using s'(2-6) sub by (simp add: taken_def)
      with \<open>rmqueue_smallest z order k s = Some (s', Some p)\<close> show ?thesis by blast
    qed
  qed
qed

end
