(* ===== verification/Buddy_Cpu.thy ===== *)
theory Buddy_Cpu
  imports Buddy_Free
begin

text \<open>
  The zone as its users see it: the frames in the buddy lists and in the per-cpu lists are the available
  ones. Refilling, draining and freeing move frames between the two; the invariant \<open>zone_inv\<close> says that no
  frame is in two places.
\<close>

section \<open>The invariant of a zone\<close>

definition blocks :: "pg_data \<Rightarrow> nat \<Rightarrow> (nat \<times> nat) set" where
  "blocks s z = {(k, p). p \<in> set (free_list (area s z k))}"

definition cached :: "pg_data \<Rightarrow> nat \<Rightarrow> nat set" where
  "cached s z = (\<Union>cpu. set (pcp_list (pcp s z cpu)))"

definition avail :: "pg_data \<Rightarrow> nat \<Rightarrow> nat set" where
  "avail s z = block_frames (blocks s z) \<union> cached s z"

definition pcp_wf :: "per_cpu_pages \<Rightarrow> bool" where
  "pcp_wf c \<longleftrightarrow> pcp_count c = int (length (pcp_list c)) \<and> distinct (pcp_list c) \<and> 0 \<le> pcp_batch c \<and>
     (pcp_batch c \<le> pcp_high c \<or> pcp_batch c \<le> 1)"

definition pcps_ok :: "pg_data \<Rightarrow> nat \<Rightarrow> bool" where
  "pcps_ok s z \<longleftrightarrow> (\<forall>c. pcp_wf (pcp s z c)) \<and>
     (\<forall>c c'. c \<noteq> c' \<longrightarrow> set (pcp_list (pcp s z c)) \<inter> set (pcp_list (pcp s z c')) = {}) \<and>
     (\<forall>p\<in>cached s z. clean z (pages s p) \<and> valid s p) \<and> cached s z \<inter> block_frames (blocks s z) = {}"

definition zone_inv :: "pg_data \<Rightarrow> nat \<Rightarrow> bool" where
  "zone_inv s z \<longleftrightarrow> rep s z (blocks s z) \<and> buddy_ok (blocks s z) \<and> pcps_ok s z"

lemma rep_blocks: "rep s z B \<Longrightarrow> B = blocks s z"
  using lists_okD [OF repD(2), of s z B] by (auto simp: blocks_def)

text \<open>\<open>s'\<close> differs from \<open>s\<close> at most in the lists of zone \<open>z\<close> and in the descriptors of the frames \<open>P\<close>.\<close>

definition touched :: "nat \<Rightarrow> nat set \<Rightarrow> pg_data \<Rightarrow> pg_data \<Rightarrow> bool" where
  "touched z P s s' \<longleftrightarrow> memblock_kernel s' = memblock_kernel s \<and> mem s' = mem s \<and> online_cpus s' = online_cpus s \<and>
     (\<forall>z'. z' \<noteq> z \<longrightarrow> zones s' z' = zones s z') \<and> (\<forall>q. q \<notin> P \<longrightarrow> pages s' q = pages s q)"

lemma touched_refl [simp]: "touched z P s s"
  by (simp add: touched_def)

lemma touched_trans: "touched z P s s1 \<Longrightarrow> touched z P s1 s2 \<Longrightarrow> touched z P s s2"
  by (auto simp: touched_def)

lemma touched_mono: "touched z P s s' \<Longrightarrow> P \<subseteq> Q \<Longrightarrow> touched z Q s s'"
  by (auto simp: touched_def)

lemma only_touched: "only z P s s' \<Longrightarrow> touched z P s s'"
  using onlyD [of z P s s'] by (simp add: touched_def)

lemma upd_pcp_touched: "touched z P s (upd_pcp z c f s)"
  by (simp add: touched_def)

lemma cached_only: "only z P s s' \<Longrightarrow> cached s' z' = cached s z'"
  using onlyD(5) [of z P s s'] by (simp add: cached_def)

text \<open>After an operation on the buddy lists alone, the per-cpu lists need only stay off the blocks.\<close>

lemma zone_inv_only:
  assumes "zone_inv s z" "only z P s s'" "rep s' z B'" "buddy_ok B'" "P \<inter> cached s z = {}" "block_frames B' \<inter> cached s z = {}"
  shows "zone_inv s' z"
proof -
  have B: "blocks s' z = B'" using rep_blocks [OF assms(3)] by simp
  have c: "cached s' z = cached s z" by (rule cached_only [OF assms(2)])
  have "pcps_ok s z" using assms(1) by (simp add: zone_inv_def)
  moreover have "pages s' q = pages s q" if "q \<in> cached s z" for q
    by (rule onlyD(8) [OF assms(2)]) (use that assms(5) in auto)
  ultimately have "pcps_ok s' z"
    using onlyD(1,5) [OF assms(2)] assms(6) c by (auto simp: pcps_ok_def B)
  with assms(3,4) B show ?thesis by (simp add: zone_inv_def)
qed

lemma zone_invD:
  assumes "zone_inv s z"
  shows "rep s z (blocks s z)" "buddy_ok (blocks s z)" "pcp_wf (pcp s z c)"
    "c \<noteq> c' \<Longrightarrow> set (pcp_list (pcp s z c)) \<inter> set (pcp_list (pcp s z c')) = {}"
    "p \<in> cached s z \<Longrightarrow> clean z (pages s p) \<and> valid s p" "cached s z \<inter> block_frames (blocks s z) = {}"
  using assms by (auto simp: zone_inv_def pcps_ok_def)

section \<open>Lists of single pages\<close>

declare pcp_take.simps [simp del]

lemma pcp_take_ok:
  assumes "0 < n" "n \<le> length lst"
  shows "pcp_take (int n) b lst head = Some (take (length lst - n) lst, head @ rev (drop (length lst - n) lst))"
  using assms
proof (induction lst arbitrary: n b head rule: rev_induct)
  case (snoc x xs)
  show ?case
  proof (cases "n = 1")
    case True
    then show ?thesis by (subst pcp_take.simps) simp
  next
    case False
    then obtain m where m: "n = Suc m" "0 < m" using snoc.prems(1) by (cases n) auto
    then have l: "m \<le> length xs" using snoc.prems(2) by simp
    have "pcp_take (int n) b (xs @ [x]) head = (if b - 1 \<noteq> 0 \<and> xs \<noteq> [] then pcp_take (int m) (b - 1) xs (head @ [x])
        else pcp_take (int m) b xs (head @ [x]))"
      using m by (subst pcp_take.simps) simp
    also have "\<dots> = Some (take (length xs - m) xs, (head @ [x]) @ rev (drop (length xs - m) xs))"
      using snoc.IH [OF m(2) l, of "b - 1" "head @ [x]"] snoc.IH [OF m(2) l, of b "head @ [x]"] by simp
    finally show ?thesis using m l by simp
  qed
qed simp

lemma free_page_list_ok:
  assumes "rep s z B" "buddy_ok B" "\<And>p. p \<in> set ps \<Longrightarrow> clean z (pages s p) \<and> valid s p" "distinct ps"
    "set ps \<inter> block_frames B = {}"
  shows "\<exists>s' B'. free_page_list z ps s = Some s' \<and> rep s' z B' \<and> buddy_ok B' \<and>
    block_frames B' = block_frames B \<union> set ps \<and> only z (block_frames B \<union> set ps) s s'"
  using assms
proof (induction ps arbitrary: s B)
  case (Cons p ps)
  have "loose s z 0 p" "apart B 0 p" using Cons.prems(3,5) by (auto simp: loose_def apart_iff)
  then obtain s1 B1 where 1: "free_one_page z p 0 s = Some s1" "rep s1 z B1" "buddy_ok B1"
    "block_frames B1 = block_frames B \<union> {p}" "only z (block_frames B \<union> {p}) s s1"
    using free_one_page_ok [OF Cons.prems(1,2)] by fastforce
  have "pages s1 q = pages s q" if "q \<in> set ps" for q
    by (rule onlyD(8) [OF 1(5)]) (use that Cons.prems(4,5) in auto)
  then have "clean z (pages s1 q) \<and> valid s1 q" if "q \<in> set ps" for q
    using that Cons.prems(3) onlyD(1) [OF 1(5)] by auto
  then obtain s' B' where 2: "free_page_list z ps s1 = Some s'" "rep s' z B'" "buddy_ok B'"
    "block_frames B' = block_frames B1 \<union> set ps" "only z (block_frames B1 \<union> set ps) s1 s'"
    using Cons.IH [OF 1(2,3)] Cons.prems(4,5) 1(4) by fastforce
  have "only z (block_frames B \<union> set (p # ps)) s s'"
    by (rule only_mono [OF only_trans [OF 1(5) 2(5)]]) (use 1(4) in auto)
  then show ?case using 1 2 by auto
qed auto

section \<open>Changing a per-cpu list\<close>

lemma rep_same:
  assumes "rep s z B" "pages s' = pages s" "memblock_kernel s' = memblock_kernel s"
    "zone_initialized (zones s' z) = zone_initialized (zones s z)" "free_areas (zones s' z) = free_areas (zones s z)"
  shows "rep s' z B"
  using assms(1) by (simp add: rep_def listed_def lists_ok_def assms(2-5))

lemma blocks_upd_pcp [simp]: "blocks (upd_pcp z c f s) z' = blocks s z'"
  by (simp add: blocks_def)

lemma cached_upd_pcp:
  assumes "zone_inv s z"
  shows "cached (upd_pcp z c f s) z = cached s z - set (pcp_list (pcp s z c)) \<union> set (pcp_list (f (pcp s z c)))"
proof -
  have d: "x \<notin> set (pcp_list (pcp s z c))" if "x \<in> set (pcp_list (pcp s z c'))" "c' \<noteq> c" for x c'
    using zone_invD(4) [OF assms that(2)] that(1) by auto
  show ?thesis using d by (auto simp: cached_def split: if_splits)
qed

lemma zone_inv_upd_pcp:
  assumes "zone_inv s z" "pcp_wf (f (pcp s z c))"
    "\<And>p. p \<in> set (pcp_list (f (pcp s z c))) \<Longrightarrow> p \<notin> set (pcp_list (pcp s z c)) \<Longrightarrow>
      clean z (pages s p) \<and> valid s p \<and> p \<notin> avail s z"
  shows "zone_inv (upd_pcp z c f s) z"
proof -
  let ?s = "upd_pcp z c f s" and ?old = "set (pcp_list (pcp s z c))" and ?new = "set (pcp_list (f (pcp s z c)))"
  have cached: "cached ?s z = cached s z - ?old \<union> ?new" by (rule cached_upd_pcp [OF assms(1)])
  have new: "p \<in> ?old \<or> (clean z (pages s p) \<and> valid s p \<and> p \<notin> avail s z)" if "p \<in> ?new" for p
    using assms(3) that by blast
  have old: "?old \<subseteq> cached s z" by (auto simp: cached_def)
  have other: "p \<notin> ?new" if "p \<in> set (pcp_list (pcp s z c'))" "c' \<noteq> c" for p c'
    using new [of p] that zone_invD(4) [OF assms(1) that(2)] by (auto simp: avail_def cached_def)
  have "pcps_ok ?s z"
    unfolding pcps_ok_def
  proof (intro conjI allI impI ballI)
    show "pcp_wf (pcp ?s z c')" for c' using assms(2) zone_invD(3) [OF assms(1)] by simp
    show "set (pcp_list (pcp ?s z c1)) \<inter> set (pcp_list (pcp ?s z c2)) = {}" if "c1 \<noteq> c2" for c1 c2
      using that other zone_invD(4) [OF assms(1) that] by auto
    show "clean z (pages ?s p)" "valid ?s p" if "p \<in> cached ?s z" for p
      using that new [of p] old zone_invD(5) [OF assms(1), of p] by (auto simp: cached)
    show "cached ?s z \<inter> block_frames (blocks ?s z) = {}"
      using new old zone_invD(6) [OF assms(1)] by (auto simp: cached avail_def)
  qed
  moreover have "rep ?s z (blocks s z)" by (rule rep_same [OF zone_invD(1) [OF assms(1)]]) simp_all
  ultimately show ?thesis using zone_invD(2) [OF assms(1)] by (simp add: zone_inv_def)
qed

lemma free_pcppages_bulk_ok:
  assumes "zone_inv s z" "n \<le> length (pcp_list (pcp s z c))"
  shows "\<exists>s'. free_pcppages_bulk z c (int n) s = Some s' \<and> zone_inv s' z \<and> avail s' z = avail s z \<and> touched z (avail s z) s s' \<and>
    length (pcp_list (pcp s' z c)) = length (pcp_list (pcp s z c)) - n \<and> (\<forall>c'. c' \<noteq> c \<longrightarrow> pcp s' z c' = pcp s z c')"
proof -
  let ?l = "pcp_list (pcp s z c)"
  let ?lst = "take (length ?l - n) ?l" and ?head = "rev (drop (length ?l - n) ?l)"
  let ?f = "\<lambda>c. c\<lparr>pcp_list := ?lst, pcp_count := pcp_count c - int (length ?head)\<rparr>"
  let ?s = "upd_pcp z c ?f s"
  have split: "set ?l = set ?lst \<union> set ?head" "set ?lst \<inter> set ?head = {}" "distinct ?head" "distinct ?lst"
    using zone_invD(3) [OF assms(1), of c] set_take_disj_set_drop_if_distinct [of ?l]
    by (auto simp: pcp_wf_def simp flip: set_append)
  have "pcp_wf (?f (pcp s z c))" using zone_invD(3) [OF assms(1), of c] assms(2) split(4) by (simp add: pcp_wf_def)
  then have inv: "zone_inv ?s z" by (rule zone_inv_upd_pcp [OF assms(1)]) (auto dest: in_set_takeD)
  have cached: "cached ?s z = cached s z - set ?head"
    using split(1,2) by (simp only: cached_upd_pcp [OF assms(1)]) (auto simp: cached_def)
  have old: "set ?head \<subseteq> cached s z" using split(1) by (auto simp: cached_def)
  have "clean z (pages ?s p) \<and> valid ?s p" if "p \<in> set ?head" for p
    using zone_invD(5) [OF assms(1), of p] that old by auto
  then obtain s' B' where s': "free_page_list z ?head ?s = Some s'" "rep s' z B'" "buddy_ok B'"
    "block_frames B' = block_frames (blocks s z) \<union> set ?head" "only z (block_frames (blocks s z) \<union> set ?head) ?s s'"
    using free_page_list_ok [OF zone_invD(1,2) [OF inv] _ split(3)] zone_invD(6) [OF assms(1)] old by fastforce
  have B: "blocks s' z = B'" using rep_blocks [OF s'(2)] by simp
  have "zone_inv s' z"
    by (rule zone_inv_only [OF inv s'(5,2,3)]) (use s'(4) zone_invD(6) [OF assms(1)] old cached in auto)
  moreover have "avail s' z = avail s z"
    using s'(4) cached cached_only [OF s'(5), of z] old B by (auto simp: avail_def)
  moreover have "touched z (avail s z) s s'"
    by (rule touched_trans [OF upd_pcp_touched touched_mono [OF only_touched [OF s'(5)]]]) (use old in \<open>auto simp: avail_def\<close>)
  moreover have "free_pcppages_bulk z c (int n) s = Some s'"
    using s'(1) pcp_take_ok [of n ?l 1 "[]"] assms(2) by (cases "n = 0") (simp_all add: free_pcppages_bulk_def)
  moreover have "length (pcp_list (pcp s' z c)) = length ?l - n" "\<forall>c'. c' \<noteq> c \<longrightarrow> pcp s' z c' = pcp s z c'"
    using onlyD(5) [OF s'(5), of z] by simp_all
  ultimately show ?thesis by blast
qed

lemma upd_page_id: "f (pages s p) = pages s p \<Longrightarrow> upd_page p f s = s"
  by (simp add: upd_page_def)

lemma clean_unlinked [simp]: "clean z pg \<Longrightarrow> pg\<lparr>pg_head := None\<rparr> = pg"
  by (cases pg) (simp add: clean_def)

lemma free_unref_page_commit_ok:
  assumes "zone_inv s z" "clean z (pages s p)" "valid s p" "p \<notin> avail s z"
  shows "\<exists>s'. free_unref_page_commit c p s = Some s' \<and> zone_inv s' z \<and> avail s' z = avail s z \<union> {p} \<and>
    touched z (avail s z \<union> {p}) s s'"
proof -
  let ?f = "\<lambda>c. c\<lparr>pcp_list := p # pcp_list c, pcp_count := pcp_count c + 1\<rparr>"
  let ?s = "upd_pcp z c ?f s"
  have z: "page_zone_id (pages s p) = z" using assms(2) by (simp add: clean_def)
  have notin: "p \<notin> set (pcp_list (pcp s z c))" using assms(4) by (auto simp: avail_def cached_def)
  have wf: "pcp_wf (?f (pcp s z c))" using zone_invD(3) [OF assms(1), of c] notin by (simp add: pcp_wf_def)
  then have inv: "zone_inv ?s z" by (rule zone_inv_upd_pcp [OF assms(1)]) (use assms(2-4) in auto)
  have cached: "cached ?s z = cached s z \<union> {p}"
    by (simp only: cached_upd_pcp [OF assms(1)]) (auto simp: cached_def)
  have avail: "avail ?s z = avail s z \<union> {p}" by (simp add: avail_def cached)
  have id: "upd_page p (\<lambda>pg. pg\<lparr>pg_head := None\<rparr>) ?s = ?s" by (rule upd_page_id) (use assms(2) in simp)
  have batch: "pcp_batch (pcp ?s z c) = int (nat (pcp_batch (pcp ?s z c)))" "0 \<le> pcp_batch (pcp s z c)"
    "pcp_batch (pcp s z c) \<le> pcp_high (pcp s z c) \<or> pcp_batch (pcp s z c) \<le> 1"
    "pcp_count (pcp s z c) = int (length (pcp_list (pcp s z c)))"
    using zone_invD(3) [OF assms(1), of c] by (auto simp: pcp_wf_def)
  show ?thesis
  proof (cases "pcp_count (pcp ?s z c) \<ge> pcp_high (pcp ?s z c)")
    case True
    then have "nat (pcp_batch (pcp ?s z c)) \<le> length (pcp_list (pcp ?s z c))" using batch by auto
    from free_pcppages_bulk_ok [OF inv this] batch(1) obtain s' where s':
      "free_pcppages_bulk z c (pcp_batch (pcp ?s z c)) ?s = Some s'" "zone_inv s' z" "avail s' z = avail ?s z" "touched z (avail ?s z) ?s s'"
      by auto
    have "free_unref_page_commit c p s = Some s'"
      using True s'(1) by (simp add: free_unref_page_commit_def Let_def z id)
    moreover have "touched z (avail s z \<union> {p}) s s'" using touched_trans [OF upd_pcp_touched s'(4)] avail by simp
    ultimately show ?thesis using s'(2,3) avail by simp
  next
    case False
    then have "free_unref_page_commit c p s = Some ?s" by (simp add: free_unref_page_commit_def Let_def z id)
    then show ?thesis using inv avail upd_pcp_touched by blast
  qed
qed

lemma drain_pages_zone_ok:
  assumes "zone_inv s z"
  shows "\<exists>s' b. drain_pages_zone c z s = Some (s', b) \<and> zone_inv s' z \<and> avail s' z = avail s z \<and> touched z (avail s z) s s' \<and>
    pcp_list (pcp s' z c) = [] \<and> b = (pcp_list (pcp s z c) \<noteq> []) \<and> (\<forall>c'. c' \<noteq> c \<longrightarrow> pcp s' z c' = pcp s z c')"
proof -
  have cnt: "pcp_count (pcp s z c) = int (length (pcp_list (pcp s z c)))"
    using zone_invD(3) [OF assms, of c] by (simp add: pcp_wf_def)
  show ?thesis
  proof (cases "pcp_list (pcp s z c) = []")
    case True
    then show ?thesis using cnt assms by (auto simp: drain_pages_zone_def)
  next
    case False
    then show ?thesis
      using free_pcppages_bulk_ok [OF assms, of "length (pcp_list (pcp s z c))" c] cnt by (auto simp: drain_pages_zone_def)
  qed
qed

section \<open>Taking pages\<close>

lemma rmqueue_bulk_ok:
  assumes "rep s z B" "buddy_ok B"
  shows "\<exists>s' B' l. rmqueue_bulk z 0 n lst s = Some (s', lst @ l) \<and> rep s' z B' \<and> buddy_ok B' \<and> distinct l \<and>
    set l \<subseteq> block_frames B \<and> block_frames B' = block_frames B - set l \<and> (\<forall>p\<in>set l. clean z (pages s' p) \<and> valid s' p) \<and>
    only z (block_frames B) s s' \<and> (0 < n \<and> l = [] \<longrightarrow> B = {})"
  using assms
proof (induction n arbitrary: s B lst)
  case 0
  then show ?case by (intro exI [of _ s] exI [of _ B] exI [of _ "[]"]) simp
next
  case (Suc n)
  from rmqueue_smallest_ok [OF Suc.prems, of 0 0]
  consider "rmqueue_smallest z 0 0 s = Some (s, None)" "\<forall>j p. (j, p) \<notin> B"
    | s1 p B1 where "rmqueue_smallest z 0 0 s = Some (s1, Some p)" "taken s z B 0 p s1 B1" by auto
  then show ?case
  proof cases
    case 1
    then have "B = {}" by auto
    then show ?thesis using 1(1) Suc.prems by (intro exI [of _ s] exI [of _ B] exI [of _ "[]"]) simp
  next
    case 2
    have t: "rep s1 z B1" "buddy_ok B1" "clean z (pages s1 p)" "valid s1 p" "p \<in> block_frames B"
      "block_frames B1 = block_frames B - {p}" "only z (block_frames B) s s1"
      using 2(2) by (auto simp: taken_def loose_def)
    have id: "upd_page p (\<lambda>pg. pg\<lparr>pg_head := None\<rparr>) s1 = s1" by (rule upd_page_id) (use t(3) in simp)
    obtain s' B' l where IH: "rmqueue_bulk z 0 n (lst @ [p]) s1 = Some (s', (lst @ [p]) @ l)" "rep s' z B'" "buddy_ok B'" "distinct l"
      "set l \<subseteq> block_frames B1" "block_frames B' = block_frames B1 - set l" "\<forall>q\<in>set l. clean z (pages s' q) \<and> valid s' q"
      "only z (block_frames B1) s1 s'"
      using Suc.IH [OF t(1,2), of "lst @ [p]"] by blast
    have "pages s' p = pages s1 p" by (rule onlyD(8) [OF IH(8)]) (use t(6) in auto)
    then have "clean z (pages s' p) \<and> valid s' p" using t(3,4) onlyD(1) [OF IH(8)] by simp
    moreover have "only z (block_frames B) s s'" by (rule only_mono [OF only_trans [OF t(7) IH(8)]]) (use t(6) in auto)
    moreover have "rmqueue_bulk z 0 (Suc n) lst s = Some (s', lst @ p # l)" using 2(1) IH(1) id by simp
    moreover have "p \<notin> set l" "block_frames B' = block_frames B - set (p # l)" "set (p # l) \<subseteq> block_frames B"
      using IH(5,6) t(5,6) by auto
    ultimately show ?thesis using IH(2-4,7) by (intro exI [of _ s'] exI [of _ B'] exI [of _ "p # l"]) auto
  qed
qed

lemma pcp_refill_ok:
  assumes "zone_inv s z"
  shows "\<exists>s'. pcp_refill z c s = Some s' \<and> zone_inv s' z \<and> avail s' z = avail s z \<and> touched z (avail s z) s s' \<and>
    (pcp_list (pcp s' z c) = [] \<and> 0 < pcp_batch (pcp s z c) \<longrightarrow> blocks s z = {}) \<and> (\<forall>c'. c' \<noteq> c \<longrightarrow> pcp s' z c' = pcp s z c')"
proof (cases "pcp_list (pcp s z c) = []")
  case False
  then show ?thesis using assms by (auto simp: pcp_refill_def)
next
  case True
  let ?n = "nat (pcp_batch (pcp s z c))"
  obtain s1 B1 l where 1: "rmqueue_bulk z 0 ?n [] s = Some (s1, l)" "rep s1 z B1" "buddy_ok B1" "distinct l"
    "set l \<subseteq> block_frames (blocks s z)" "block_frames B1 = block_frames (blocks s z) - set l"
    "\<forall>p\<in>set l. clean z (pages s1 p) \<and> valid s1 p" "only z (block_frames (blocks s z)) s s1" "l = [] \<and> 0 < ?n \<longrightarrow> blocks s z = {}"
    using rmqueue_bulk_ok [OF zone_invD(1,2) [OF assms], of ?n "[]"] by auto
  have inv1: "zone_inv s1 z"
    by (rule zone_inv_only [OF assms 1(8,2,3)]) (use zone_invD(6) [OF assms] 1(6) in auto)
  have c1: "cached s1 z = cached s z" by (rule cached_only [OF 1(8)])
  have B1: "blocks s1 z = B1" using rep_blocks [OF 1(2)] by simp
  have pcp1: "pcp s1 z c = pcp s z c" using onlyD(5) [OF 1(8)] by simp
  let ?f = "\<lambda>c. c\<lparr>pcp_count := pcp_count c + int (length l), pcp_list := l\<rparr>"
  let ?s = "upd_pcp z c ?f s1"
  have "pcp_wf (?f (pcp s1 z c))" using zone_invD(3) [OF assms, of c] pcp1 True 1(4) by (simp add: pcp_wf_def)
  then have inv: "zone_inv ?s z"
    by (rule zone_inv_upd_pcp [OF inv1]) (use 1(5-7) c1 B1 zone_invD(6) [OF assms] in \<open>auto simp: avail_def\<close>)
  have cached: "cached ?s z = cached s z \<union> set l" by (simp only: cached_upd_pcp [OF inv1]) (simp add: c1 pcp1 True)
  have "avail ?s z = avail s z" using 1(5,6) by (auto simp: avail_def cached B1)
  moreover have "touched z (avail s z) s ?s"
    by (rule touched_trans [OF touched_mono [OF only_touched [OF 1(8)]] upd_pcp_touched]) (auto simp: avail_def)
  moreover have "pcp_refill z c s = Some ?s" using True 1(1) by (simp add: pcp_refill_def)
  moreover have "\<forall>c'. c' \<noteq> c \<longrightarrow> pcp ?s z c' = pcp s z c'" using onlyD(5) [OF 1(8)] by simp
  ultimately show ?thesis using inv 1(9) by auto
qed

lemma check_new_page_ok: "clean z (pages s p) \<Longrightarrow> check_new_page p s = (s, False)"
  by (simp add: check_new_page_def page_expected_state_def clean_def)

lemma check_new_pages_ok:
  "(\<And>q. p \<le> q \<Longrightarrow> q < p + n \<Longrightarrow> clean z (pages s q)) \<Longrightarrow> check_new_pages p n s = (s, False)"
  by (induction n arbitrary: p) (simp_all add: check_new_page_ok [of z])

definition gave :: "pg_data \<Rightarrow> nat \<Rightarrow> nat \<Rightarrow> nat \<Rightarrow> nat option \<Rightarrow> pg_data \<Rightarrow> bool" where
  "gave s c z k r s' \<longleftrightarrow> zone_inv s' z \<and> touched z (avail s z) s s' \<and> (\<forall>c'. c' \<noteq> c \<longrightarrow> pcp s' z c' = pcp s z c') \<and>
     (case r of
        None \<Rightarrow> avail s' z = avail s z \<and> (\<forall>j p. k \<le> j \<and> 0 < pcp_batch (pcp s z c) \<longrightarrow> (j, p) \<notin> blocks s z)
      | Some p \<Rightarrow> loose s' z k p \<and> frames k p \<subseteq> avail s z \<and> avail s' z = avail s z - frames k p)"

lemma rmqueue_pcplist_ok:
  assumes "zone_inv s z"
  shows "\<exists>s' r. rmqueue_pcplist z c s = Some (s', r) \<and> gave s c z 0 r s'"
proof -
  obtain s1 where 1: "pcp_refill z c s = Some s1" "zone_inv s1 z" "avail s1 z = avail s z" "touched z (avail s z) s s1"
    "pcp_list (pcp s1 z c) = [] \<and> 0 < pcp_batch (pcp s z c) \<longrightarrow> blocks s z = {}" "\<forall>c'. c' \<noteq> c \<longrightarrow> pcp s1 z c' = pcp s z c'"
    using pcp_refill_ok [OF assms] by blast
  show ?thesis
  proof (cases "pcp_list (pcp s1 z c)")
    case Nil
    then have "rmqueue_pcplist z c s = Some (s1, None)" using 1(1) by (subst rmqueue_pcplist.simps) simp
    then show ?thesis using 1 Nil by (auto simp: gave_def)
  next
    case (Cons p l)
    let ?f = "\<lambda>c. c\<lparr>pcp_list := l, pcp_count := pcp_count c - 1\<rparr>"
    let ?s = "upd_pcp z c ?f s1"
    have p: "p \<in> cached s1 z" using Cons by (auto simp: cached_def intro: exI [of _ c])
    have wf: "p \<notin> set l" "pcp_wf (?f (pcp s1 z c))" using zone_invD(3) [OF 1(2), of c] Cons by (auto simp: pcp_wf_def)
    from wf(2) have inv: "zone_inv ?s z" by (rule zone_inv_upd_pcp [OF 1(2)]) (use Cons in auto)
    have cl: "clean z (pages s1 p)" "valid s1 p" using zone_invD(5) [OF 1(2) p] by auto
    have id: "upd_page p (\<lambda>pg. pg\<lparr>pg_head := None\<rparr>) ?s = ?s" by (rule upd_page_id) (use cl in simp)
    have "set (pcp_list (pcp s1 z c)) \<subseteq> cached s1 z" by (auto simp: cached_def)
    then have cached: "cached ?s z = cached s1 z - {p}"
      using Cons wf(1) by (simp only: cached_upd_pcp [OF 1(2)]) auto
    have "avail ?s z = avail s1 z - {p}" using zone_invD(6) [OF 1(2)] p by (auto simp: avail_def cached)
    moreover have "check_new_page p ?s = (?s, False)" by (rule check_new_page_ok) (use cl in simp)
    then have "rmqueue_pcplist z c s = Some (?s, Some p)"
      using 1(1) Cons id by (subst rmqueue_pcplist.simps) (simp add: Let_def)
    moreover have "touched z (avail s z) s ?s" by (rule touched_trans [OF 1(4) upd_pcp_touched])
    moreover have "p \<in> avail s z" using p 1(3) by (auto simp: avail_def)
    moreover have "loose ?s z 0 p" using cl by (simp add: loose_def)
    ultimately show ?thesis using inv 1(3,6) by (auto simp: gave_def)
  qed
qed

lemma rmqueue_blocks_ok:
  assumes "zone_inv s z"
  shows "\<exists>s' r. rmqueue_blocks z k s = Some (s', r) \<and> gave s c z k r s'"
proof -
  from rmqueue_smallest_ok [OF zone_invD(1,2) [OF assms], of k k]
  consider "rmqueue_smallest z k k s = Some (s, None)" "\<forall>j p. k \<le> j \<longrightarrow> (j, p) \<notin> blocks s z"
    | s1 p B1 where "rmqueue_smallest z k k s = Some (s1, Some p)" "taken s z (blocks s z) k p s1 B1" by auto
  then show ?thesis
  proof cases
    case 1
    then have "rmqueue_blocks z k s = Some (s, None)" by (subst rmqueue_blocks.simps) simp
    then show ?thesis using 1(2) assms by (auto simp: gave_def)
  next
    case 2
    note t = 2(2) [unfolded taken_def]
    have B1: "blocks s1 z = B1" using rep_blocks t by blast
    have inv: "zone_inv s1 z"
      by (rule zone_inv_only [OF assms, of _ s1 B1]) (use t zone_invD(6) [OF assms] in auto)
    have c1: "cached s1 z = cached s z" using cached_only t by blast
    have "check_new_pages p (2 ^ k) s1 = (s1, False)"
      by (rule check_new_pages_ok [of _ _ z]) (use t in \<open>auto simp: loose_def frames_def\<close>)
    then have "rmqueue_blocks z k s = Some (s1, Some p)" using 2(1) by (subst rmqueue_blocks.simps) simp
    moreover have "touched z (avail s z) s s1"
      by (rule touched_mono [OF only_touched [of z "block_frames (blocks s z)"]]) (use t in \<open>auto simp: avail_def\<close>)
    moreover have "avail s1 z = avail s z - frames k p"
      using t zone_invD(6) [OF assms] by (auto simp: avail_def B1 c1)
    moreover have "pcp s1 z c' = pcp s z c'" for c' using onlyD(5) [of z _ s s1 z] t by auto
    ultimately show ?thesis using inv t by (auto simp: gave_def avail_def)
  qed
qed

lemma rmqueue_ok:
  assumes "zone_inv s z"
  shows "\<exists>s' r. rmqueue c z k s = Some (s', r) \<and> gave s c z k r s'"
  using rmqueue_pcplist_ok [OF assms, of c] rmqueue_blocks_ok [OF assms, of k c] by (auto simp: rmqueue_def)

lemma drain_others_ok:
  assumes "zone_inv s z"
  shows "\<exists>s' t'. drain_others self z cpus t s = Some (s', t') \<and> zone_inv s' z \<and> avail s' z = avail s z \<and>
    touched z (avail s z) s s' \<and> (\<forall>c\<in>set cpus. c \<noteq> self \<longrightarrow> pcp_list (pcp s' z c) = []) \<and>
    (\<forall>c. pcp_list (pcp s z c) = [] \<longrightarrow> pcp_list (pcp s' z c) = []) \<and>
    ((\<forall>c\<in>set cpus. c \<noteq> self \<longrightarrow> pcp_list (pcp s z c) = []) \<longrightarrow> t' = (t \<and> (\<forall>c\<in>set cpus. c = self)))"
  using assms
proof (induction cpus arbitrary: t s)
  case (Cons c cpus)
  show ?case
  proof (cases "c = self")
    case True
    then show ?thesis using Cons.IH [OF Cons.prems, of t] by auto
  next
    case False
    obtain s1 b where 1: "drain_pages_zone c z s = Some (s1, b)" "zone_inv s1 z" "avail s1 z = avail s z" "touched z (avail s z) s s1"
      "pcp_list (pcp s1 z c) = []" "b = (pcp_list (pcp s z c) \<noteq> [])" "\<forall>c'. c' \<noteq> c \<longrightarrow> pcp s1 z c' = pcp s z c'"
      using drain_pages_zone_ok [OF Cons.prems] by blast
    obtain s' t' where 2: "drain_others self z cpus b s1 = Some (s', t')" "zone_inv s' z" "avail s' z = avail s1 z"
      "touched z (avail s1 z) s1 s'" "\<forall>c\<in>set cpus. c \<noteq> self \<longrightarrow> pcp_list (pcp s' z c) = []"
      "\<forall>c. pcp_list (pcp s1 z c) = [] \<longrightarrow> pcp_list (pcp s' z c) = []"
      "(\<forall>c\<in>set cpus. c \<noteq> self \<longrightarrow> pcp_list (pcp s1 z c) = []) \<longrightarrow> t' = (b \<and> (\<forall>c\<in>set cpus. c = self))"
      using Cons.IH [OF 1(2), of b] by blast
    have "touched z (avail s z) s s'" by (rule touched_trans [OF 1(4)]) (use 2(4) 1(3) in simp)
    moreover have keep: "pcp_list (pcp s1 z x) = []" if "pcp_list (pcp s z x) = []" for x
      using that 1(5,7) by (cases "x = c") auto
    moreover have "drain_others self z (c # cpus) t s = Some (s', t')" using False 1(1) 2(1) by simp
    ultimately show ?thesis using False 1(3,5,6) 2(2,3,5-7) by auto
  qed
qed auto

end
