(* ===== verification/Buddy_Props.thy ===== *)
theory Buddy_Props
  imports Buddy_Cpu
begin

text \<open>
  The contract of the page allocator: allocation hands out blocks of frames nobody else has, freeing gives
  them back, and neither ever fails a check or loses a frame.
\<close>

section \<open>Blocks in use\<close>

definition pg_inv :: "pg_data \<Rightarrow> bool" where
  "pg_inv s \<longleftrightarrow> (\<forall>z<MAX_NR_ZONES. zone_inv s z)"

definition frame_in_use :: "nat \<Rightarrow> page \<Rightarrow> bool" where
  "frame_in_use z pg \<longleftrightarrow> page_zone_id pg = z \<and> pg_type pg = - 1 \<and> pg_flags pg AND PAGE_FLAGS_CHECK_AT_FREE = 0"

definition head_bit :: "page \<Rightarrow> bool" where
  "head_bit pg \<longleftrightarrow> bit (pg_flags pg) PG_head_bit"

definition tail_ok :: "nat \<Rightarrow> bool \<Rightarrow> page \<Rightarrow> bool" where
  "tail_ok p compound pg \<longleftrightarrow> pg_refcount pg = 0 \<and> pg_head pg = (if compound then Some p else None)"

text \<open>
  \<open>owned s z k p n\<close>: the block of order \<open>k\<close> at frame \<open>p\<close> of zone \<open>z\<close> is in use with reference count \<open>n\<close>. A
  block of several frames that was allocated is a compound page; single frames and the blocks the boot code
  hands over are not.
\<close>

definition owned :: "pg_data \<Rightarrow> nat \<Rightarrow> nat \<Rightarrow> nat \<Rightarrow> int \<Rightarrow> bool" where
  "owned s z k p n \<longleftrightarrow> k < MAX_ORDER \<and> 2 ^ k dvd p \<and> z < MAX_NR_ZONES \<and> frames k p \<inter> avail s z = {} \<and>
     (\<forall>q\<in>frames k p. valid s q \<and> frame_in_use z (pages s q)) \<and>
     pg_refcount (pages s p) = n \<and> pg_head (pages s p) = None \<and>
     (head_bit (pages s p) \<longrightarrow> 0 < k \<and> pg_order (pages s (p + 1)) = k) \<and>
     (\<forall>q\<in>frames k p. q \<noteq> p \<longrightarrow> tail_ok p (head_bit (pages s p)) (pages s q))"

lemma in_use_not_buddy: "frame_in_use z pg \<Longrightarrow> \<not> PageBuddy pg"
  by (simp add: frame_in_use_def)

lemma in_use_not_poisoned:
  assumes "frame_in_use z pg" "z < MAX_NR_ZONES"
  shows "\<not> PagePoisoned pg"
proof
  assume "PagePoisoned pg"
  then have "page_zone_id pg = unat (drop_bit 62 (- 1 :: u64) AND 3)" by (simp add: PagePoisoned_def page_zone_id_def)
  also have "\<dots> = 3" by code_simp
  finally show False using assms by (simp add: frame_in_use_def)
qed

section \<open>Zones and their neighbours\<close>

lemma avail_page:
  assumes "zone_inv s z" "q \<in> avail s z"
  shows "page_zone_id (pages s q) = z" "valid s q" "quiet (pages s q)"
proof -
  have "page_zone_id (pages s q) = z \<and> valid s q"
  proof (cases "q \<in> cached s z")
    case True
    then show ?thesis using zone_invD(5) [OF assms(1)] by (simp add: clean_def)
  next
    case False
    then obtain k p where kp: "(k, p) \<in> blocks s z" "q \<in> frames k p" using assms(2) by (auto simp: avail_def block_frames_def)
    then show ?thesis
      using repD(3) [OF zone_invD(1) [OF assms(1)] kp(1)] by (cases "q = p") (auto simp: listed_def free_head_def clean_def)
  qed
  then show "page_zone_id (pages s q) = z" "valid s q" by auto
  show "quiet (pages s q)" by (rule repD(4) [OF zone_invD(1) [OF assms(1)]])
qed

lemma zone_inv_frame:
  assumes "zone_inv s z" "zones s' z = zones s z" "memblock_kernel s' = memblock_kernel s"
    "\<And>q. q \<notin> P \<Longrightarrow> pages s' q = pages s q" "P \<inter> avail s z = {}"
    "\<And>q. q \<in> P \<Longrightarrow> quiet (pages s' q) \<and> (PageBuddy (pages s' q) \<longrightarrow> page_zone_id (pages s' q) \<noteq> z)"
  shows "zone_inv s' z" "avail s' z = avail s z"
proof -
  have B: "blocks s' z = blocks s z" and C: "cached s' z = cached s z" by (simp_all add: blocks_def cached_def assms(2))
  then show "avail s' z = avail s z" by (simp add: avail_def)
  have same: "pages s' q = pages s q" if "q \<in> avail s z" for q using assms(4,5) that by blast
  have "rep s' z (blocks s z)"
  proof (rule repI)
    show "zone_initialized (zones s' z)" "lists_ok (zones s' z) (blocks s z)"
      using repD(1,2) [OF zone_invD(1) [OF assms(1)]] assms(2) by simp_all
    show "listed s' z k p" if "(k, p) \<in> blocks s z" for k p
      by (rule listed_same [OF repD(3) [OF zone_invD(1) [OF assms(1)] that] assms(3)])
        (use that same in \<open>auto simp: avail_def\<close>)
    show "quiet (pages s' q)" for q
      using repD(4) [OF zone_invD(1) [OF assms(1)], of q] assms(4,6) [of q] by (cases "q \<in> P") auto
    show "(pg_private (pages s' q), q) \<in> blocks s z" if "PageBuddy (pages s' q)" "page_zone_id (pages s' q) = z" for q
      using repD(5) [OF zone_invD(1) [OF assms(1)], of q] assms(4,6) [of q] that by (cases "q \<in> P") auto
  qed
  moreover have "clean z (pages s' p) \<and> valid s' p" if "p \<in> cached s z" for p
    using zone_invD(5) [OF assms(1) that] same [of p] that assms(3) by (simp add: avail_def)
  then have "pcps_ok s' z" using assms(1) by (auto simp: zone_inv_def pcps_ok_def B C assms(2))
  ultimately show "zone_inv s' z" using zone_invD(2) [OF assms(1)] by (simp add: zone_inv_def B)
qed

lemma pg_inv_touched:
  assumes "pg_inv s" "zone_inv s' z" "touched z P s s'"
    "\<And>q. q \<in> P \<Longrightarrow> page_zone_id (pages s q) = z \<and> page_zone_id (pages s' q) = z \<and> quiet (pages s' q)"
  shows "pg_inv s'" "z' < MAX_NR_ZONES \<Longrightarrow> z' \<noteq> z \<Longrightarrow> avail s' z' = avail s z'"
proof -
  have other: "zone_inv s' z' \<and> avail s' z' = avail s z'" if z': "z' < MAX_NR_ZONES" "z' \<noteq> z" for z'
  proof -
    have inv: "zone_inv s z'" using assms(1) z'(1) by (simp add: pg_inv_def)
    have "P \<inter> avail s z' = {}" using avail_page(1) [OF inv] assms(4) z'(2) by auto
    moreover have "zones s' z' = zones s z'" "memblock_kernel s' = memblock_kernel s"
      "q \<notin> P \<Longrightarrow> pages s' q = pages s q" for q using assms(3) z'(2) by (auto simp: touched_def)
    ultimately show ?thesis
      using zone_inv_frame [OF inv, of s' P] assms(4) z'(2) by auto
  qed
  show "pg_inv s'" using other assms(2) by (auto simp: pg_inv_def)
  show "z' < MAX_NR_ZONES \<Longrightarrow> z' \<noteq> z \<Longrightarrow> avail s' z' = avail s z'" using other by blast
qed

lemma owned_kept:
  assumes "owned s z k p n" "memblock_kernel s' = memblock_kernel s" "\<And>q. q \<in> frames k p \<Longrightarrow> pages s' q = pages s q"
    "frames k p \<inter> avail s' z = {}"
  shows "owned s' z k p n"
proof -
  have "pages s' p = pages s p" by (rule assms(3)) simp
  moreover have "pages s' (p + 1) = pages s (p + 1)" if "0 < k"
    using that one_less_power [of "2 :: nat" k] by (intro assms(3)) (auto simp: frames_def)
  ultimately show ?thesis using assms by (auto simp: owned_def)
qed

section \<open>Releasing a block\<close>

definition strip :: "page \<Rightarrow> page" where
  "strip pg = free_clear_flags (pg\<lparr>pg_head := None\<rparr>)"

definition on_frames :: "nat \<Rightarrow> nat \<Rightarrow> (page \<Rightarrow> page) \<Rightarrow> pg_data \<Rightarrow> pg_data" where
  "on_frames i n f s = s\<lparr>pages := (\<lambda>q. if i \<le> q \<and> q < i + n then f (pages s q) else pages s q)\<rparr>"

lemma on_frames_simps [simp]:
  "zones (on_frames i n f s) = zones s" "memblock_kernel (on_frames i n f s) = memblock_kernel s"
  "mem (on_frames i n f s) = mem s" "online_cpus (on_frames i n f s) = online_cpus s"
  "pages (on_frames i n f s) q = (if i \<le> q \<and> q < i + n then f (pages s q) else pages s q)"
  by (simp_all add: on_frames_def)

lemma avail_on_frames [simp]: "avail (on_frames i n f s) z = avail s z"
  by (simp add: avail_def blocks_def cached_def)

lemma on_frames_0 [simp]: "on_frames i 0 f s = s"
  by (rule pg_data.equality) (auto simp: on_frames_def fun_eq_iff)

lemma on_frames_Suc: "on_frames i (Suc n) f s = on_frames (Suc i) n f (upd_page i f s)"
  by (rule pg_data.equality) (auto simp: on_frames_def upd_page_def fun_eq_iff)

lemma touched_on_frames: "touched z (frames k p) s (on_frames p (2 ^ k) f s)"
  by (auto simp: touched_def frames_def)

lemma strip_clean: "frame_in_use z pg \<Longrightarrow> pg_refcount pg = 0 \<Longrightarrow> clean z (strip pg)"
  by (simp add: frame_in_use_def clean_def strip_def free_clear_flags_def and.assoc page_zone_id_def prep_zone)

lemma free_check_ok:
  "frame_in_use z (pages s q) \<Longrightarrow> pg_refcount (pages s q) = 0 \<Longrightarrow> free_pages_check q s = (s, 0)"
  by (simp add: free_pages_check_def page_expected_state_def frame_in_use_def)

lemma free_tails_ok:
  assumes "\<And>q. p + i \<le> q \<Longrightarrow> q < p + i + n \<Longrightarrow> frame_in_use z (pages s q) \<and> tail_ok p c (pages s q)"
  shows "free_tails p c i n (s, bad) = (on_frames (p + i) n strip s, bad)"
  using assms
proof (induction n arbitrary: i s bad)
  case (Suc n)
  let ?q = "p + i" and ?u = "upd_page (p + i) (\<lambda>pg. pg\<lparr>pg_head := None\<rparr>) s"
  have q: "frame_in_use z (pages s ?q)" "tail_ok p c (pages s ?q)" using Suc.prems [of ?q] by auto
  have 1: "(if c then free_tail_pages_check p ?q s else (s, 0)) = (?u, 0)"
  proof (cases c)
    case True
    then show ?thesis using q(2)
      by (simp add: tail_ok_def free_tail_pages_check_def PageTail_def compound_head_def clear_compound_head_def [abs_def])
  next
    case False
    then have "?u = s" using q(2) by (intro upd_page_id) (cases "pages s ?q", simp add: tail_ok_def)
    with False show ?thesis by simp
  qed
  have 2: "free_pages_check ?q ?u = (?u, 0)"
    by (rule free_check_ok [of z]) (use q in \<open>simp_all add: frame_in_use_def tail_ok_def\<close>)
  have 3: "upd_page ?q free_clear_flags ?u = upd_page ?q strip s" by (simp add: upd_page_def strip_def)
  have "free_tails p c (i + 1) n (upd_page ?q strip s, bad) = (on_frames (p + (i + 1)) n strip (upd_page ?q strip s), bad)"
    by (rule Suc.IH) (use Suc.prems in auto)
  then show ?case using 1 2 3 by (simp add: on_frames_Suc)
qed simp

lemma free_pages_prepare_ok:
  assumes "owned s z k p 0"
  shows "free_pages_prepare p k True s = Some (on_frames p (2 ^ k) strip s, True)"
proof -
  have h: "frame_in_use z (pages s p)" "pg_refcount (pages s p) = 0" "pg_head (pages s p) = None" "z < MAX_NR_ZONES"
    "0 < k \<and> head_bit (pages s p) \<longrightarrow> pg_order (pages s (p + 1)) = k" using assms by (auto simp: owned_def)
  let ?c = "PageCompound (pages s p)"
  have c: "?c = head_bit (pages s p)" using h(3) by (simp add: PageCompound_def PageTail_def head_bit_def)
  have order: "(if ?c then compound_order (pages s) p else Some k) = Some k" if "0 < k"
    using that h(5) c in_use_not_poisoned [OF h(1,4)] by (simp add: compound_order_def PageHead_def head_bit_def)
  obtain m where m: "2 ^ k = Suc m" by (metis not0_implies_Suc power_not_zero zero_neq_numeral)
  have "free_tails p ?c 1 m (s, 0) = (on_frames (p + 1) m strip s, 0)"
    by (rule free_tails_ok [of _ _ _ z]) (use assms m in \<open>auto simp: owned_def frames_def c\<close>)
  then have 1: "(if k \<noteq> 0 then Some (free_tails p ?c 1 (2 ^ k - 1) (s, 0)) else Some (s, 0)) = Some (on_frames (p + 1) m strip s, 0)"
    using m by auto
  let ?s1 = "on_frames (p + 1) m strip s"
  have 2: "free_pages_check p ?s1 = (?s1, 0)" by (rule free_check_ok [of z]) (use h in simp_all)
  have "on_frames (p + 1) m strip (upd_page p strip s) = upd_page p strip ?s1"
    by (rule pg_data.equality) (auto simp: on_frames_def upd_page_def fun_eq_iff)
  then have "on_frames p (2 ^ k) strip s = upd_page p strip ?s1" by (simp add: m on_frames_Suc)
  also have "\<dots> = upd_page p free_clear_flags ?s1"
    using h(3) by (cases "pages s p") (simp add: upd_page_def strip_def)
  finally show ?thesis
    using 1 2 h(3) order by (cases "k = 0") (auto simp: free_pages_prepare_def PageTail_def Let_def)
qed

lemma released_ok:
  assumes "pg_inv s" "owned s z k p 0"
  shows "loose (on_frames p (2 ^ k) strip s) z k p" "pg_inv (on_frames p (2 ^ k) strip s)"
proof -
  let ?s = "on_frames p (2 ^ k) strip s"
  have z: "z < MAX_NR_ZONES" and al: "2 ^ k dvd p" using assms(2) by (auto simp: owned_def)
  have cl: "clean z (pages ?s q)" if "q \<in> frames k p" for q
  proof -
    have "frame_in_use z (pages s q)" "pg_refcount (pages s q) = 0"
      using that assms(2) by (auto simp: owned_def tail_ok_def)
    from strip_clean [OF this] show ?thesis using that by (simp add: frames_def)
  qed
  then show "loose ?s z k p" using assms(2) al by (auto simp: loose_def owned_def)
  have q: "quiet (pages ?s q) \<and> \<not> PageBuddy (pages ?s q)" if "q \<in> frames k p" for q
    using cl [OF that] by (simp add: quiet_def clean_def)
  have inv: "zone_inv ?s z'" if "z' < MAX_NR_ZONES" for z'
  proof (rule zone_inv_frame(1) [of s z' ?s "frames k p"])
    show i: "zone_inv s z'" using assms(1) that by (simp add: pg_inv_def)
    show "frames k p \<inter> avail s z' = {}"
      using assms(2) avail_page(1) [OF i] by (cases "z' = z") (auto simp: owned_def frame_in_use_def)
    show "pages ?s q = pages s q" if "q \<notin> frames k p" for q using that by (auto simp: frames_def)
  qed (use q in auto)
  then show "pg_inv ?s" by (simp add: pg_inv_def)
qed

lemma looseD: "loose s z k p \<Longrightarrow> q \<in> frames k p \<Longrightarrow> clean z (pages s q) \<and> valid s q"
  by (simp add: loose_def)

text \<open>What freeing and allocating leave alone: the blocks others use.\<close>

definition keeps_others :: "pg_data \<Rightarrow> nat set \<Rightarrow> pg_data \<Rightarrow> bool" where
  "keeps_others s F s' \<longleftrightarrow> (\<forall>z k p n. owned s z k p n \<and> frames k p \<inter> F = {} \<longrightarrow> owned s' z k p n)"

lemma keeps_others_touched:
  assumes "pg_inv s" "memblock_kernel s' = memblock_kernel s" "z < MAX_NR_ZONES"
    "\<And>q. q \<in> F \<Longrightarrow> page_zone_id (pages s q) = z" "avail s' z \<subseteq> avail s z \<union> F"
    "\<And>z'. z' < MAX_NR_ZONES \<Longrightarrow> z' \<noteq> z \<Longrightarrow> avail s' z' = avail s z'"
    "\<And>q. q \<notin> avail s z \<union> F \<Longrightarrow> pages s' q = pages s q"
  shows "keeps_others s F s'"
  unfolding keeps_others_def
proof (intro allI impI)
  fix z1 k1 p1 n1
  assume o: "owned s z1 k1 p1 n1 \<and> frames k1 p1 \<inter> F = {}"
  then have z1: "z1 < MAX_NR_ZONES" and d1: "frames k1 p1 \<inter> avail s z1 = {}" by (auto simp: owned_def)
  have d: "frames k1 p1 \<inter> avail s z = {}"
  proof (cases "z1 = z")
    case False
    have "zone_inv s z" using assms(1,3) by (simp add: pg_inv_def)
    from avail_page(1) [OF this] o False show ?thesis by (auto simp: owned_def frame_in_use_def)
  qed (use d1 in simp)
  show "owned s' z1 k1 p1 n1"
  proof (rule owned_kept [of s])
    show "owned s z1 k1 p1 n1" using o by simp
    show "memblock_kernel s' = memblock_kernel s" by (rule assms(2))
    show "pages s' q = pages s q" if "q \<in> frames k1 p1" for q
      using that d o by (intro assms(7)) blast
    show "frames k1 p1 \<inter> avail s' z1 = {}"
      using d1 d o assms(5,6) z1 by (cases "z1 = z") auto
  qed
qed

lemma free_block_ok:
  assumes "pg_inv s" "owned s z k p 0"
  shows "\<exists>s'. free_the_page c p k s = Some s' \<and> pg_inv s' \<and> avail s' z = avail s z \<union> frames k p \<and>
    (\<forall>z'<MAX_NR_ZONES. z' \<noteq> z \<longrightarrow> avail s' z' = avail s z') \<and> keeps_others s (frames k p) s' \<and>
    touched z (avail s z \<union> frames k p) s s'"
proof -
  let ?s = "on_frames p (2 ^ k) strip s"
  note rel = released_ok [OF assms]
  have prep: "free_pages_prepare p k True s = Some (?s, True)" by (rule free_pages_prepare_ok [OF assms(2)])
  have z: "z < MAX_NR_ZONES" "k < MAX_ORDER" using assms(2) by (auto simp: owned_def)
  have inv: "zone_inv ?s z" using rel(2) z by (simp add: pg_inv_def)
  have off: "frames k p \<inter> avail ?s z = {}" using assms(2) by (simp add: owned_def)
  have cl: "clean z (pages ?s p)" "valid ?s p" using looseD [OF rel(1), of p] by simp_all
  have "\<exists>s'. free_the_page c p k s = Some s' \<and> zone_inv s' z \<and> avail s' z = avail s z \<union> frames k p \<and>
      touched z (avail s z \<union> frames k p) ?s s'"
  proof (cases "k = 0")
    case True
    obtain s' where s': "free_unref_page_commit c p ?s = Some s'" "zone_inv s' z" "avail s' z = avail s z \<union> {p}"
      "touched z (avail s z \<union> {p}) ?s s'"
      using free_unref_page_commit_ok [OF inv cl, of c] off True by auto
    then show ?thesis using prep True by (simp add: free_the_page_def free_unref_page_def)
  next
    case False
    have "apart (blocks ?s z) k p" using off by (auto simp: apart_iff avail_def)
    then obtain s' B' where s': "free_one_page z p k ?s = Some s'" "rep s' z B'" "buddy_ok B'"
      "block_frames B' = block_frames (blocks ?s z) \<union> frames k p" "only z (block_frames (blocks ?s z) \<union> frames k p) ?s s'"
      using free_one_page_ok [OF zone_invD(1,2) [OF inv] rel(1) _ z(2)] by blast
    have B: "blocks s' z = B'" using rep_blocks [OF s'(2)] by simp
    have "zone_inv s' z"
      by (rule zone_inv_only [OF inv s'(5,2,3)]) (use s'(4) off zone_invD(6) [OF inv] in \<open>auto simp: avail_def\<close>)
    moreover have "avail s' z = avail ?s z \<union> frames k p"
      using s'(4) cached_only [OF s'(5), of z] by (auto simp: avail_def B)
    moreover have "touched z (avail s z \<union> frames k p) ?s s'"
      by (rule touched_mono [OF only_touched [OF s'(5)]]) (auto simp: avail_def blocks_def)
    moreover have "page_zone_id (pages ?s p) = z" using cl(1) by (simp add: clean_def)
    then have "free_the_page c p k s = Some s'"
      using prep s'(1) False by (simp add: free_the_page_def free_pages_ok_def)
    ultimately show ?thesis by auto
  qed
  then obtain s' where s': "free_the_page c p k s = Some s'" "zone_inv s' z" "avail s' z = avail s z \<union> frames k p"
      "touched z (avail s z \<union> frames k p) ?s s'" by blast
  have t: "touched z (avail s z \<union> frames k p) s s'"
    by (rule touched_trans [OF touched_mono [OF touched_on_frames] s'(4)]) simp
  have zone: "page_zone_id (pages ?s q) = z \<and> page_zone_id (pages s' q) = z \<and> quiet (pages s' q)"
    if "q \<in> avail s z \<union> frames k p" for q
    using that avail_page(1) [OF inv, of q] avail_page(1,3) [OF s'(2), of q] s'(3) looseD [OF rel(1), of q]
    unfolding avail_on_frames clean_def by blast
  have o: "avail s' z' = avail s z'" if "z' < MAX_NR_ZONES" "z' \<noteq> z" for z'
    using pg_inv_touched(2) [OF rel(2) s'(2,4) zone that] by simp
  have "page_zone_id (pages s q) = z" if "q \<in> frames k p" for q
    using that assms(2) by (auto simp: owned_def frame_in_use_def)
  then have "keeps_others s (frames k p) s'"
    using keeps_others_touched [OF assms(1) _ z(1), of s' "frames k p"] o s'(3) t by (auto simp: touched_def)
  moreover have "pg_inv s'" by (rule pg_inv_touched(1) [OF rel(2) s'(2,4) zone])
  ultimately show ?thesis using s'(1,3) o t by blast
qed

text \<open>Changing descriptors of blocks in use, as taking and dropping references does.\<close>

lemma in_use_frame:
  assumes "pg_inv s" "z < MAX_NR_ZONES" "zones s' = zones s" "memblock_kernel s' = memblock_kernel s" "F \<inter> avail s z = {}"
    "\<And>q. q \<notin> F \<Longrightarrow> pages s' q = pages s q"
    "\<And>q. q \<in> F \<Longrightarrow> page_zone_id (pages s q) = z \<and> frame_in_use z (pages s' q)"
  shows "pg_inv s'" "avail s' z' = avail s z'"
proof -
  show av: "avail s' z' = avail s z'" for z' by (simp add: avail_def blocks_def cached_def assms(3))
  have "zone_inv s' z'" if z': "z' < MAX_NR_ZONES" for z'
  proof (rule zone_inv_frame(1) [of s z' s' F])
    show inv: "zone_inv s z'" using assms(1) z' by (simp add: pg_inv_def)
    show "F \<inter> avail s z' = {}" using assms(5,7) avail_page(1) [OF inv] by (metis disjoint_iff)
    show "quiet (pages s' q) \<and> (PageBuddy (pages s' q) \<longrightarrow> page_zone_id (pages s' q) \<noteq> z')" if "q \<in> F" for q
      using in_use_not_buddy assms(7) [OF that] by (auto simp: quiet_def simp del: page_type_simps)
  qed (use assms(3,4,6) in auto)
  then show "pg_inv s'" by (simp add: pg_inv_def)
qed

lemma keeps_others_frame:
  assumes "memblock_kernel s' = memblock_kernel s" "\<And>q. q \<notin> F \<Longrightarrow> pages s' q = pages s q" "\<And>z. avail s' z = avail s z"
  shows "keeps_others s F s'"
  unfolding keeps_others_def
proof (intro allI impI)
  fix z k p n
  assume o: "owned s z k p n \<and> frames k p \<inter> F = {}"
  show "owned s' z k p n"
  proof (rule owned_kept [of s])
    show "pages s' q = pages s q" if "q \<in> frames k p" for q by (rule assms(2)) (use o that in blast)
    show "frames k p \<inter> avail s' z = {}" using o by (simp add: assms(3) owned_def)
  qed (use o assms(1) in auto)
qed

lemma keeps_others_trans: "keeps_others s F s1 \<Longrightarrow> keeps_others s1 F s2 \<Longrightarrow> keeps_others s F s2"
  by (auto simp: keeps_others_def)

lemma frame_in_use_simps [simp]:
  "frame_in_use z (pg\<lparr>pg_refcount := a\<rparr>) = frame_in_use z pg" "frame_in_use z (pg\<lparr>pg_head := b\<rparr>) = frame_in_use z pg"
  "frame_in_use z (pg\<lparr>pg_order := d\<rparr>) = frame_in_use z pg" "frame_in_use z (pg\<lparr>pg_private := d\<rparr>) = frame_in_use z pg"
  by (simp_all add: frame_in_use_def)

definition with_count :: "nat \<Rightarrow> int \<Rightarrow> pg_data \<Rightarrow> pg_data" where
  "with_count p n s = upd_page p (\<lambda>pg. pg\<lparr>pg_refcount := n\<rparr>) s"

lemma avail_upd_page [simp]: "avail (upd_page p f s) z = avail s z"
  by (simp add: avail_def blocks_def cached_def)

lemma head_bit_simps [simp]:
  "head_bit (pg\<lparr>pg_refcount := a\<rparr>) = head_bit pg" "head_bit (pg\<lparr>pg_private := b\<rparr>) = head_bit pg"
  by (simp_all add: head_bit_def)

lemma with_count_ok:
  assumes "pg_inv s" "owned s z k p n"
  shows "pg_inv (with_count p m s)" "owned (with_count p m s) z k p m" "avail (with_count p m s) z' = avail s z'"
    "keeps_others s (frames k p) (with_count p m s)"
proof -
  let ?s = "with_count p m s"
  have F: "frame_in_use z (pages s p)" "z < MAX_NR_ZONES" "frames k p \<inter> avail s z = {}" using assms(2) by (auto simp: owned_def)
  have zone: "page_zone_id (pages s p) = z" using F(1) by (simp add: frame_in_use_def)
  have av: "avail ?s z' = avail s z'" for z' by (simp add: with_count_def)
  show "avail ?s z' = avail s z'" by (rule av)
  have "p \<notin> avail s z" using F(3) frames_self [of p k] by blast
  then show "pg_inv ?s"
    using in_use_frame(1) [OF assms(1) F(2), of ?s "{p}"] zone F(1) by (simp add: with_count_def)
  show "keeps_others s (frames k p) ?s"
    by (rule keeps_others_frame) (use av in \<open>auto simp: with_count_def\<close>)
  show "owned ?s z k p m" using assms(2) by (auto simp: owned_def with_count_def)
qed

lemma free_pages_pfn_ok:
  assumes "pg_inv s" "owned s z k p n" "0 < n"
  shows "\<exists>s'. free_pages_pfn c p k s = Some s' \<and> pg_inv s' \<and> keeps_others s (frames k p) s' \<and> touched z (avail s z \<union> frames k p) s s' \<and>
    avail s' z = (if n = 1 then avail s z \<union> frames k p else avail s z) \<and> (1 < n \<longrightarrow> owned s' z k p (n - 1)) \<and>
    (\<forall>z'<MAX_NR_ZONES. z' \<noteq> z \<longrightarrow> avail s' z' = avail s z')"
proof -
  let ?s = "with_count p (n - 1) s"
  note w = with_count_ok [OF assms(1,2), of "n - 1"]
  have n: "pg_refcount (pages s p) = n" using assms(2) by (simp add: owned_def)
  have eq: "free_pages_pfn c p k s = (if n = 1 then free_the_page c p k ?s else Some ?s)"
    using n assms(3) by (simp add: free_pages_pfn_def put_page_testzero_def with_count_def upd_page_def)
  have t: "touched z (avail s z \<union> frames k p) s ?s" by (simp add: touched_def with_count_def)
  show ?thesis
  proof (cases "n = 1")
    case True
    then have "owned ?s z k p 0" using w(2) by simp
    from free_block_ok [OF w(1) this, of c] obtain s' where
      "free_the_page c p k ?s = Some s'" "pg_inv s'" "avail s' z = avail ?s z \<union> frames k p"
      "\<forall>z'<MAX_NR_ZONES. z' \<noteq> z \<longrightarrow> avail s' z' = avail ?s z'" "keeps_others ?s (frames k p) s'" "touched z (avail ?s z \<union> frames k p) ?s s'" by blast
    then show ?thesis using eq True w(3) keeps_others_trans [OF w(4)] touched_trans [OF t] by simp
  next
    case False
    then show ?thesis using eq w assms(3) t by simp
  qed
qed

section \<open>Handing out a block\<close>

definition tail_of :: "nat \<Rightarrow> page \<Rightarrow> page" where
  "tail_of p pg = set_compound_head (set_page_count pg 0) p"

lemma prep_tails_eq: "prep_tails p i n s = on_frames (p + i) n (tail_of p) s"
proof (induction n arbitrary: i s)
  case (Suc n)
  then show ?case by (simp add: on_frames_Suc tail_of_def [abs_def])
qed simp

lemma zone_set_bit [simp]: "page_zone_id (pg\<lparr>pg_flags := set_bit 2 (pg_flags pg)\<rparr>) = page_zone_id pg"
proof -
  have "drop_bit 62 (set_bit 2 x) = drop_bit 62 x" for x :: u64
    by (rule bit_word_eqI) (auto simp: bit_simps)
  then show ?thesis by (simp add: page_zone_id_def)
qed

lemma clean_in_use: "clean z pg \<Longrightarrow> frame_in_use z pg"
proof -
  assume c: "clean z pg"
  have "PAGE_FLAGS_CHECK_AT_FREE = PAGE_FLAGS_CHECK_AT_PREP AND PAGE_FLAGS_CHECK_AT_FREE" by code_simp
  then have "pg_flags pg AND PAGE_FLAGS_CHECK_AT_FREE = (pg_flags pg AND PAGE_FLAGS_CHECK_AT_PREP) AND PAGE_FLAGS_CHECK_AT_FREE"
    by (metis and.assoc)
  with c show ?thesis by (simp add: clean_def frame_in_use_def)
qed

lemma clean_head_bit: "clean z pg \<Longrightarrow> \<not> head_bit pg"
proof
  assume "clean z pg" "head_bit pg"
  then have "bit (pg_flags pg AND PAGE_FLAGS_CHECK_AT_PREP) PG_head_bit"
    by (simp add: head_bit_def prep_mask bit_simps)
  with \<open>clean z pg\<close> show False by (simp add: clean_def)
qed

lemma in_use_set_head [simp]: "frame_in_use z (pg\<lparr>pg_flags := set_bit 2 (pg_flags pg)\<rparr>) = frame_in_use z pg"
proof -
  have free: "PAGE_FLAGS_CHECK_AT_FREE = 25" by code_simp
  have "set_bit 2 x AND 25 = x AND 25" for x :: u64
    by (simp add: set_bit_eq_or bit.conj_disj_distrib2)
  then show ?thesis by (simp add: frame_in_use_def free)
qed

definition prep_head :: "page \<Rightarrow> page" where
  "prep_head pg = pg\<lparr>pg_private := 0, pg_refcount := 1, pg_flags := set_bit 2 (pg_flags pg)\<rparr>"

lemma prep_head_in_use: "frame_in_use z (prep_head pg) = frame_in_use z pg"
proof -
  have "prep_head pg = pg\<lparr>pg_flags := set_bit 2 (pg_flags pg), pg_private := 0, pg_refcount := 1\<rparr>"
    by (cases pg) (simp add: prep_head_def)
  then show ?thesis by simp
qed

definition prep_block :: "nat \<Rightarrow> nat \<Rightarrow> pg_data \<Rightarrow> pg_data" where
  "prep_block k p s = on_frames (p + 1) (2 ^ k - 1) (tail_of p) (upd_page p prep_head (upd_page (p + 1) (\<lambda>pg. pg\<lparr>pg_order := k\<rparr>) s))"

lemma post_alloc_ok:
  "clean z (pages s p) \<Longrightarrow> post_alloc_hook p s = Some (upd_page p (\<lambda>pg. pg\<lparr>pg_private := 0, pg_refcount := 1\<rparr>) s)"
  by (simp add: post_alloc_hook_def try_page_def set_page_refcounted_def PageTail_def clean_def set_page_count_def upd_page_def)

lemma prep_compound_ok:
  assumes "clean z (pages s p)" "z < MAX_NR_ZONES"
  shows "prep_compound_page p k (upd_page p (\<lambda>pg. pg\<lparr>pg_private := 0, pg_refcount := 1\<rparr>) s) = Some (prep_block k p s)"
proof -
  have "\<not> PagePoisoned (pages s p)" by (rule in_use_not_poisoned [OF clean_in_use [OF assms(1)] assms(2)])
  then show ?thesis
    by (simp add: prep_compound_page_def try_page_def SetPageHead_def PagePoisoned_def prep_tails_eq prep_block_def)
      (simp add: upd_page_def prep_head_def fun_upd_twist [of p "Suc p"])
qed

lemma prep_block_owned:
  assumes "loose s z k p" "z < MAX_NR_ZONES" "0 < k" "k < MAX_ORDER" "frames k p \<inter> avail s z = {}"
  shows "owned (prep_block k p s) z k p 1" "q \<notin> frames k p \<Longrightarrow> pages (prep_block k p s) q = pages s q"
    "q \<in> frames k p \<Longrightarrow> frame_in_use z (pages (prep_block k p s) q)"
proof -
  let ?s = "prep_block k p s"
  have len: "1 < (2 :: nat) ^ k" using assms(3) by (intro one_less_power) simp_all
  have in_use: "frame_in_use z (pages s q)" "valid s q" if "q \<in> frames k p" for q
    using looseD [OF assms(1) that] clean_in_use by auto
  have head: "pages ?s p = prep_head (pages s p)" by (simp add: prep_block_def)
  have tail: "pages ?s q = tail_of p (if q = p + 1 then (pages s q)\<lparr>pg_order := k\<rparr> else pages s q)" if "q \<in> frames k p" "q \<noteq> p" for q
    using that by (auto simp: prep_block_def frames_def)
  have hd: "frame_in_use z (prep_head (pages s p))" "head_bit (prep_head (pages s p))" "pg_refcount (prep_head (pages s p)) = 1"
    "pg_head (prep_head (pages s p)) = None"
    using in_use(1) [of p] looseD [OF assms(1), of p]
    by (simp_all add: prep_head_in_use) (simp_all add: prep_head_def head_bit_def bit_simps clean_def)
  show use: "frame_in_use z (pages ?s q)" if "q \<in> frames k p" for q
    using that in_use [OF that] hd head tail [OF that] by (cases "q = p") (auto simp: tail_of_def set_compound_head_def set_page_count_def)
  show "pages ?s q = pages s q" if "q \<notin> frames k p" for q
    using that len by (auto simp: prep_block_def frames_def)
  have "pg_order (pages ?s (p + 1)) = k"
    using tail [of "p + 1"] len by (simp add: frames_def tail_of_def set_compound_head_def set_page_count_def)
  moreover have "tail_ok p True (pages ?s q)" if "q \<in> frames k p" "q \<noteq> p" for q
    using tail [OF that] by (simp add: tail_of_def set_compound_head_def set_page_count_def tail_ok_def)
  moreover have "avail ?s z = avail s z" "memblock_kernel ?s = memblock_kernel s" by (simp_all add: prep_block_def)
  ultimately show "owned ?s z k p 1"
    using assms in_use use hd head by (auto simp: owned_def loose_def)
qed

lemma clear_upd_page: "clear_frames i n (upd_page q f s) = upd_page q f (clear_frames i n s)"
  by (rule pg_data.equality) (auto simp: clear_frames_def upd_page_def fun_eq_iff)

lemma prep_new_page_ok:
  assumes "loose s z k p" "z < MAX_NR_ZONES" "k < MAX_ORDER" "frames k p \<inter> avail s z = {}"
  shows "\<exists>s'. prep_new_page p k gm s = Some s' \<and> owned s' z k p 1 \<and> zones s' = zones s \<and>
    memblock_kernel s' = memblock_kernel s \<and> (\<forall>q. q \<notin> frames k p \<longrightarrow> pages s' q = pages s q) \<and>
    (\<forall>q\<in>frames k p. frame_in_use z (pages s' q)) \<and>
    mem s' = (if gm AND GFP_ZERO \<noteq> 0 then (\<lambda>q. if q \<in> frames k p then (\<lambda>_. 0) else mem s q) else mem s)"
proof -
  let ?m = "if gm AND GFP_ZERO \<noteq> 0 then clear_frames p (2 ^ k) else id"
  let ?t = "?m s"
  have m: "pages (?m x) = pages x" "zones (?m x) = zones x" "memblock_kernel (?m x) = memblock_kernel x"
    "avail (?m x) z = avail x z" for x
    by (simp_all add: clear_frames_def upd_page_def avail_def blocks_def cached_def)
  have mem: "mem ?t = (if gm AND GFP_ZERO \<noteq> 0 then (\<lambda>q. if q \<in> frames k p then (\<lambda>_. 0) else mem s q) else mem s)"
    by (auto simp: clear_frames_def frames_def)
  have c: "clean z (pages s p)" "clean z (pages ?t p)" using looseD [OF assms(1), of p] m(1) by simp_all
  have l: "loose ?t z k p" using assms(1) by (simp add: loose_def m)
  let ?u = "upd_page p (\<lambda>pg. pg\<lparr>pg_private := 0, pg_refcount := 1\<rparr>) ?t"
  have eq: "prep_new_page p k gm s = (if k \<noteq> 0 then prep_compound_page p k ?u else Some ?u)"
    by (simp add: prep_new_page_def post_alloc_ok [OF c(1)] clear_upd_page)
  show ?thesis
  proof (cases "k = 0")
    case True
    then have "owned ?u z k p 1" using assms c looseD [OF assms(1), of p] clean_in_use [OF c(1)] clean_head_bit [OF c(1)]
      by (auto simp: owned_def m clean_def)
    then show ?thesis using eq True m mem clean_in_use [OF c(1)] by (auto simp: m(1))
  next
    case False
    have av: "frames k p \<inter> avail ?t z = {}" using assms(4) by (simp add: m)
    note o = prep_block_owned [OF l assms(2) _ assms(3) av]
    have "prep_new_page p k gm s = Some (prep_block k p ?t)"
      using eq False prep_compound_ok [OF c(2) assms(2), of k] by simp
    moreover have "zones (prep_block k p ?t) = zones s" "memblock_kernel (prep_block k p ?t) = memblock_kernel s"
      "mem (prep_block k p ?t) = mem ?t" by (simp_all add: prep_block_def m)
    ultimately show ?thesis using o False mem m(1) by auto
  qed
qed

definition alloc_result :: "pg_data \<Rightarrow> nat \<Rightarrow> nat \<Rightarrow> u32 \<Rightarrow> nat option \<Rightarrow> pg_data \<Rightarrow> bool" where
  "alloc_result s z k gm r s' \<longleftrightarrow> pg_inv s' \<and> keeps_others s {} s' \<and>
     (\<forall>z'<MAX_NR_ZONES. z' \<noteq> z \<longrightarrow> avail s' z' = avail s z') \<and>
     (case r of
        None \<Rightarrow> avail s' z = avail s z \<and> mem s' = mem s
      | Some p \<Rightarrow> owned s' z k p 1 \<and> frames k p \<subseteq> avail s z \<and> avail s' z = avail s z - frames k p \<and>
          mem s' = (if gm AND GFP_ZERO \<noteq> 0 then (\<lambda>q. if q \<in> frames k p then (\<lambda>_. 0) else mem s q) else mem s))"

lemma rearranged:
  assumes "pg_inv s" "z < MAX_NR_ZONES" "zone_inv s' z" "touched z (avail s z) s s'" "avail s' z = avail s z"
  shows "alloc_result s z k gm None s'"
proof -
  have inv: "zone_inv s z" using assms(1,2) by (simp add: pg_inv_def)
  have q: "page_zone_id (pages s q) = z \<and> page_zone_id (pages s' q) = z \<and> quiet (pages s' q)" if "q \<in> avail s z" for q
    using avail_page(1) [OF inv that] avail_page(1,3) [OF assms(3), of q] assms(5) that by simp
  note t = pg_inv_touched [OF assms(1,3,4) q]
  have "keeps_others s {} s'"
    using keeps_others_touched [OF assms(1) _ assms(2), of s' "{}"] assms(4,5) t(2) by (simp add: touched_def)
  with t assms(4,5) show ?thesis by (auto simp: alloc_result_def touched_def)
qed

lemma alloc_result_trans:
  assumes "alloc_result s z k gm None s1" "alloc_result s1 z k gm r s2"
  shows "alloc_result s z k gm r s2"
  using assms keeps_others_trans [of s "{}" s1 s2]
  by (cases r) (auto simp: alloc_result_def)

lemma handed_out:
  assumes "pg_inv s" "z < MAX_NR_ZONES" "k < MAX_ORDER" "gave s c z k (Some p) s1"
  shows "\<exists>s2. prep_new_page p k gm s1 = Some s2 \<and> alloc_result s z k gm (Some p) s2"
proof -
  have g: "zone_inv s1 z" "touched z (avail s z) s s1" "loose s1 z k p" "frames k p \<subseteq> avail s z" "avail s1 z = avail s z - frames k p"
    using assms(4) by (auto simp: gave_def)
  have inv: "zone_inv s z" using assms(1,2) by (simp add: pg_inv_def)
  have q: "page_zone_id (pages s q) = z \<and> page_zone_id (pages s1 q) = z \<and> quiet (pages s1 q)" if "q \<in> avail s z" for q
    using avail_page(1) [OF inv that] avail_page(1) [OF g(1), of q] looseD [OF g(3), of q] g(5) that
      repD(4) [OF zone_invD(1) [OF g(1)], of q] by (auto simp: clean_def)
  note t = pg_inv_touched [OF assms(1) g(1,2) q]
  have d: "frames k p \<inter> avail s1 z = {}" using g(5) by auto
  obtain s2 where s2: "prep_new_page p k gm s1 = Some s2" "owned s2 z k p 1" "zones s2 = zones s1"
    "memblock_kernel s2 = memblock_kernel s1" "\<forall>q. q \<notin> frames k p \<longrightarrow> pages s2 q = pages s1 q" "\<forall>q\<in>frames k p. frame_in_use z (pages s2 q)"
    "mem s2 = (if gm AND GFP_ZERO \<noteq> 0 then (\<lambda>q. if q \<in> frames k p then (\<lambda>_. 0) else mem s1 q) else mem s1)"
    using prep_new_page_ok [OF g(3) assms(2,3) d] by blast
  have zone1: "page_zone_id (pages s1 x) = z" if "x \<in> frames k p" for x using looseD [OF g(3) that] by (simp add: clean_def)
  note u = in_use_frame [OF t(1) assms(2) s2(3,4) d]
  have pinv: "pg_inv s2" and av: "avail s2 z' = avail s1 z'" for z' using u s2(5,6) zone1 by auto
  have "pages s2 x = pages s x" if "x \<notin> avail s z" for x
    using that g(2,4) s2(5) unfolding touched_def by (metis subsetD)
  then have "keeps_others s {} s2"
    using keeps_others_touched [OF assms(1) _ assms(2), of s2 "{}"] g(2,5) s2(4) t(2) av by (simp add: touched_def)
  moreover have "mem s1 = mem s" using g(2) by (simp add: touched_def)
  ultimately show ?thesis using s2(1,2,7) g(4,5) t(2) av pinv by (auto simp: alloc_result_def)
qed

lemma get_page_round:
  assumes inv: "pg_inv s" and z: "z < MAX_NR_ZONES" "k < MAX_ORDER"
  shows "(\<exists>s' p. get_page_from_freelist c gm k z t s = Some (s', Some p) \<and> alloc_result s z k gm (Some p) s') \<or>
    (\<exists>s2 t'. get_page_from_freelist c gm k z t s = (if t' then get_page_from_freelist c gm k z t' s2 else Some (s2, None)) \<and>
      alloc_result s z k gm None s2 \<and> online_cpus s2 = online_cpus s \<and>
      (\<forall>d\<in>set (online_cpus s). d \<noteq> c \<longrightarrow> pcp_list (pcp s2 z d) = []) \<and>
      ((\<forall>d\<in>set (online_cpus s). d \<noteq> c \<longrightarrow> pcp_list (pcp s z d) = []) \<longrightarrow> t' = (t \<and> (\<forall>d\<in>set (online_cpus s). d = c))))"
    (is "?some \<or> ?none")
proof -
  have zi: "zone_inv s z" using inv z(1) by (simp add: pg_inv_def)
  obtain s1 r where r: "rmqueue c z k s = Some (s1, r)" "gave s c z k r s1" using rmqueue_ok [OF zi] by blast
  show ?thesis
  proof (cases r)
    case (Some p)
    obtain s2 where s2: "prep_new_page p k gm s1 = Some s2" "alloc_result s z k gm (Some p) s2"
      using handed_out [OF inv z] r(2) Some by blast
    then have "get_page_from_freelist c gm k z t s = Some (s2, Some p)"
      using r(1) Some by (subst get_page_from_freelist.simps) simp
    with s2(2) show ?thesis by blast
  next
    case None
    then have g: "zone_inv s1 z" "touched z (avail s z) s s1" "avail s1 z = avail s z" "\<forall>d. d \<noteq> c \<longrightarrow> pcp s1 z d = pcp s z d"
      using r(2) by (auto simp: gave_def)
    have on: "online_cpus s1 = online_cpus s" using g(2) by (simp add: touched_def)
    obtain s2 t' where d: "drain_others c z (online_cpus s1) t s1 = Some (s2, t')" "zone_inv s2 z" "avail s2 z = avail s1 z"
      "touched z (avail s1 z) s1 s2" "\<forall>d\<in>set (online_cpus s1). d \<noteq> c \<longrightarrow> pcp_list (pcp s2 z d) = []"
      "(\<forall>d\<in>set (online_cpus s1). d \<noteq> c \<longrightarrow> pcp_list (pcp s1 z d) = []) \<longrightarrow> t' = (t \<and> (\<forall>d\<in>set (online_cpus s1). d = c))"
      using drain_others_ok [OF g(1), of c "online_cpus s1" t] by blast
    have "touched z (avail s z) s s2" by (rule touched_trans [OF g(2)]) (use d(4) g(3) in simp)
    then have res: "alloc_result s z k gm None s2" "online_cpus s2 = online_cpus s"
      using rearranged [OF inv z(1) d(2)] d(3) g(3) by (simp_all add: touched_def)
    have eq: "get_page_from_freelist c gm k z t s = (if t' then get_page_from_freelist c gm k z t' s2 else Some (s2, None))"
      using r(1) None d(1) by (subst get_page_from_freelist.simps) simp
    have "(\<forall>d\<in>set (online_cpus s). d \<noteq> c \<longrightarrow> pcp_list (pcp s1 z d) = []) =
        (\<forall>d\<in>set (online_cpus s). d \<noteq> c \<longrightarrow> pcp_list (pcp s z d) = [])" using g(4) by simp
    with d(5,6) res eq have ?none unfolding on by blast
    then show ?thesis by (rule disjI2)
  qed
qed

lemma get_page_from_freelist_ok:
  assumes "pg_inv s" "z < MAX_NR_ZONES" "k < MAX_ORDER"
  shows "\<exists>s' r. get_page_from_freelist c gm k z False s = Some (s', r) \<and> alloc_result s z k gm r s'"
proof -
  consider s' p where "get_page_from_freelist c gm k z False s = Some (s', Some p)" "alloc_result s z k gm (Some p) s'"
    | s2 t' where "get_page_from_freelist c gm k z False s = (if t' then get_page_from_freelist c gm k z t' s2 else Some (s2, None))"
      "alloc_result s z k gm None s2" "online_cpus s2 = online_cpus s"
      "\<forall>d\<in>set (online_cpus s). d \<noteq> c \<longrightarrow> pcp_list (pcp s2 z d) = []" "t' \<Longrightarrow> \<not> (\<forall>d\<in>set (online_cpus s). d = c)"
    using get_page_round [OF assms, of c gm False] by blast
  then show ?thesis
  proof cases
    case 2
    show ?thesis
    proof (cases t')
      case True
      have inv2: "pg_inv s2" using 2(2) by (simp add: alloc_result_def)
      consider s' p where "get_page_from_freelist c gm k z True s2 = Some (s', Some p)" "alloc_result s2 z k gm (Some p) s'"
        | s' where "get_page_from_freelist c gm k z True s2 = Some (s', None)" "alloc_result s2 z k gm None s'"
        using get_page_round [OF inv2 assms(2,3), of c gm True] 2(4) 2(5) [OF True] unfolding 2(3) by auto
      then show ?thesis using 2(1) True alloc_result_trans [OF 2(2)] by cases auto
    next
      case False
      then show ?thesis using 2(1,2) by auto
    qed
  qed blast
qed

end
