(* ===== verification/Buddy_Pool.thy ===== *)
theory Buddy_Pool
  imports Buddy_Props
begin

text \<open>
  Many users of one allocator. The locale \<open>frame_pool\<close> is what a user may rely on: taking a block removes its
  frames from the pool and leaves the blocks of others alone, giving it back returns them. Every sequence of
  such calls keeps the blocks in use disjoint and accounts for every frame. The page allocator implements
  the interface.
\<close>

section \<open>The interface\<close>

type_synonym block = "nat \<times> nat \<times> nat"

definition block_set :: "block \<Rightarrow> nat set" where
  "block_set b = (case b of (z, k, p) \<Rightarrow> frames k p)"

fun separate :: "block list \<Rightarrow> bool" where
  "separate [] \<longleftrightarrow> True"
| "separate (b # bs) \<longleftrightarrow> (\<forall>x\<in>set bs. block_set b \<inter> block_set x = {}) \<and> separate bs"

definition frames_of :: "block list \<Rightarrow> nat set" where
  "frames_of bs = (\<Union>b\<in>set bs. block_set b)"

lemma separate_Cons: "separate (b # bs) \<longleftrightarrow> separate bs \<and> block_set b \<inter> frames_of bs = {}"
  by (auto simp: frames_of_def)

lemma separate_split: "separate (xs @ b # ys) \<longleftrightarrow> separate (b # xs @ ys)"
  by (induction xs) auto

datatype 'r pool_call = Take 'r | Give nat

fun pool_step :: "('r \<Rightarrow> 's \<Rightarrow> ('s \<times> block option) option) \<Rightarrow> ('r \<Rightarrow> block \<Rightarrow> 's \<Rightarrow> 's option) \<Rightarrow>
    'r \<Rightarrow> 'r pool_call \<Rightarrow> 's \<times> block list \<Rightarrow> ('s \<times> block list) option" where
  "pool_step tk gv me (Take r) (s, bs) =
     map_option (\<lambda>(s', b). (s', case b of None \<Rightarrow> bs | Some x \<Rightarrow> x # bs)) (tk r s)"
| "pool_step tk gv me (Give i) (s, bs) =
     (if i < length bs then map_option (\<lambda>s'. (s', take i bs @ drop (Suc i) bs)) (gv me (bs ! i) s) else Some (s, bs))"

fun pool_run :: "('r \<Rightarrow> 's \<Rightarrow> ('s \<times> block option) option) \<Rightarrow> ('r \<Rightarrow> block \<Rightarrow> 's \<Rightarrow> 's option) \<Rightarrow>
    ('r \<times> 'r pool_call) list \<Rightarrow> 's \<times> block list \<Rightarrow> ('s \<times> block list) option" where
  "pool_run tk gv [] x = Some x"
| "pool_run tk gv ((me, c) # cs) x = Option.bind (pool_step tk gv me c x) (pool_run tk gv cs)"

locale frame_pool =
  fixes ok :: "'s \<Rightarrow> bool"
    and pool :: "'s \<Rightarrow> nat set"
    and owns :: "'s \<Rightarrow> block \<Rightarrow> bool"
    and tk :: "'r \<Rightarrow> 's \<Rightarrow> ('s \<times> block option) option"
    and gv :: "'r \<Rightarrow> block \<Rightarrow> 's \<Rightarrow> 's option"
  assumes take_law: "ok s \<Longrightarrow> \<exists>s' r. tk q s = Some (s', r) \<and> ok s' \<and> (\<forall>b. owns s b \<longrightarrow> owns s' b) \<and>
      (case r of None \<Rightarrow> pool s' = pool s
       | Some b \<Rightarrow> owns s' b \<and> block_set b \<subseteq> pool s \<and> pool s' = pool s - block_set b)"
    and give_law: "ok s \<Longrightarrow> owns s b \<Longrightarrow> \<exists>s'. gv q b s = Some s' \<and> ok s' \<and> pool s' = pool s \<union> block_set b \<and>
      (\<forall>b'. owns s b' \<and> block_set b' \<inter> block_set b = {} \<longrightarrow> owns s' b')"
    and owns_law: "owns s b \<Longrightarrow> ok s \<Longrightarrow> block_set b \<inter> pool s = {}"
begin

definition good :: "'s \<times> block list \<Rightarrow> bool" where
  "good x \<longleftrightarrow> (case x of (s, bs) \<Rightarrow> ok s \<and> (\<forall>b\<in>set bs. owns s b) \<and> separate bs)"

lemma good_apart:
  assumes "good (s, bs)"
  shows "frames_of bs \<inter> pool s = {}"
proof -
  have "block_set b \<inter> pool s = {}" if "b \<in> set bs" for b
    using owns_law [of s b] assms that by (simp add: good_def)
  then show ?thesis unfolding frames_of_def by blast
qed

lemma step_good:
  assumes "good (s, bs)"
  shows "\<exists>s' bs'. pool_step tk gv me c (s, bs) = Some (s', bs') \<and> good (s', bs') \<and>
    pool s' \<union> frames_of bs' = pool s \<union> frames_of bs"
proof (cases c)
  case (Take q)
  have g: "ok s" "\<forall>b\<in>set bs. owns s b" "separate bs" using assms by (auto simp: good_def)
  obtain s' r where t: "tk q s = Some (s', r)" "ok s'" "\<forall>b. owns s b \<longrightarrow> owns s' b"
    "case r of None \<Rightarrow> pool s' = pool s | Some b \<Rightarrow> owns s' b \<and> block_set b \<subseteq> pool s \<and> pool s' = pool s - block_set b"
    using take_law [OF g(1)] by blast
  have "frames_of bs \<inter> pool s = {}" by (rule good_apart [OF assms])
  then show ?thesis using Take t g by (cases r) (auto simp: good_def frames_of_def)
next
  case (Give i)
  have g: "ok s" "\<forall>b\<in>set bs. owns s b" "separate bs" using assms by (auto simp: good_def)
  show ?thesis
  proof (cases "i < length bs")
    case True
    let ?b = "bs ! i" and ?rest = "take i bs @ drop (Suc i) bs"
    have split: "bs = take i bs @ ?b # drop (Suc i) bs" using True by (rule id_take_nth_drop)
    then have "separate (?b # ?rest)" using g(3) separate_split [of "take i bs" ?b "drop (Suc i) bs"] by metis
    then have sep: "separate ?rest" "block_set ?b \<inter> frames_of ?rest = {}" unfolding separate_Cons by blast+
    have fr: "frames_of bs = block_set ?b \<union> frames_of ?rest" by (subst split) (auto simp: frames_of_def)
    obtain s' where s': "gv me ?b s = Some s'" "ok s'" "pool s' = pool s \<union> block_set ?b"
      "\<forall>b'. owns s b' \<and> block_set b' \<inter> block_set ?b = {} \<longrightarrow> owns s' b'"
      using give_law [OF g(1)] g(2) True by (meson nth_mem)
    have "owns s' b'" if b': "b' \<in> set ?rest" for b'
    proof -
      have "b' \<in> set bs" using b' by (auto dest: in_set_takeD in_set_dropD)
      moreover have "block_set b' \<inter> block_set ?b = {}" using sep(2) b' unfolding frames_of_def by blast
      ultimately show ?thesis using s'(4) g(2) by blast
    qed
    then show ?thesis using True Give s' sep fr by (auto simp: good_def)
  next
    case False
    then show ?thesis using Give assms by auto
  qed
qed

lemma run_good:
  assumes "good (s, bs)"
  shows "\<exists>s' bs'. pool_run tk gv cs (s, bs) = Some (s', bs') \<and> good (s', bs') \<and>
    pool s' \<union> frames_of bs' = pool s \<union> frames_of bs \<and> pool s' \<inter> frames_of bs' = {}"
  using assms
proof (induction cs arbitrary: s bs)
  case Nil
  then show ?case using good_apart [of s bs] by auto
next
  case (Cons c cs)
  obtain me d where c: "c = (me, d)" by (cases c)
  obtain s1 bs1 where 1: "pool_step tk gv me d (s, bs) = Some (s1, bs1)" "good (s1, bs1)"
    "pool s1 \<union> frames_of bs1 = pool s \<union> frames_of bs" using step_good [OF Cons.prems] by blast
  from Cons.IH [OF 1(2)] show ?case using 1 c by auto
qed

end

section \<open>The page allocator\<close>

type_synonym page_req = "nat \<times> u32 \<times> nat"

definition page_take :: "page_req \<Rightarrow> pg_data \<Rightarrow> (pg_data \<times> block option) option" where
  "page_take q s = (case q of (cpu, gm, order) \<Rightarrow>
     map_option (\<lambda>(s', r). (s', map_option (\<lambda>p. (gfp_zone gm, order, p)) r)) (alloc_pages cpu gm order s))"

definition page_give :: "page_req \<Rightarrow> block \<Rightarrow> pg_data \<Rightarrow> pg_data option" where
  "page_give q b s = (case q of (cpu, _, _) \<Rightarrow> (case b of (z, k, p) \<Rightarrow> free_pages_pfn cpu p k s))"

definition page_pool :: "pg_data \<Rightarrow> nat set" where
  "page_pool s = (\<Union>z\<in>{..<MAX_NR_ZONES}. avail s z)"

definition page_owns :: "pg_data \<Rightarrow> block \<Rightarrow> bool" where
  "page_owns s b \<longleftrightarrow> (case b of (z, k, p) \<Rightarrow> owned s z k p 1)"

lemma gfp_zone_less: "gfp_zone gm < MAX_NR_ZONES"
  by (simp add: gfp_zone_def)

lemma alloc_pages_ok:
  assumes "pg_inv s"
  shows "\<exists>s' r. alloc_pages cpu gm k s = Some (s', r) \<and> alloc_result s (gfp_zone gm) k gm r s' \<and> (MAX_ORDER \<le> k \<longrightarrow> r = None)"
proof (cases "k < MAX_ORDER")
  case True
  then show ?thesis using get_page_from_freelist_ok [OF assms gfp_zone_less True, of cpu gm gm] by (auto simp: alloc_pages_def)
next
  case False
  then show ?thesis using assms by (simp add: alloc_pages_def alloc_result_def keeps_others_def)
qed

lemma page_pool_split: "z < MAX_NR_ZONES \<Longrightarrow> page_pool s = avail s z \<union> (\<Union>z'\<in>{..<MAX_NR_ZONES} - {z}. avail s z')"
  by (auto simp: page_pool_def)

lemma zones_apart:
  assumes "pg_inv s" "z < MAX_NR_ZONES" "z' < MAX_NR_ZONES" "z \<noteq> z'"
  shows "avail s z \<inter> avail s z' = {}"
proof -
  have "zone_inv s z" "zone_inv s z'" using assms by (simp_all add: pg_inv_def)
  from avail_page(1) [OF this(1)] avail_page(1) [OF this(2)] assms(4) show ?thesis by auto
qed

lemma owned_apart:
  assumes "pg_inv s" "owned s z k p n"
  shows "frames k p \<inter> page_pool s = {}"
proof -
  have "frames k p \<inter> avail s z' = {}" if z': "z' < MAX_NR_ZONES" for z'
  proof (cases "z' = z")
    case False
    have "zone_inv s z'" using assms(1) z' by (simp add: pg_inv_def)
    from avail_page(1) [OF this] False assms(2) show ?thesis by (auto simp: owned_def frame_in_use_def)
  qed (use assms(2) in \<open>simp add: owned_def\<close>)
  then show ?thesis by (auto simp: page_pool_def)
qed

lemma pool_after_take:
  assumes "pg_inv s" "z < MAX_NR_ZONES" "alloc_result s z k gm r s'"
  shows "case r of None \<Rightarrow> page_pool s' = page_pool s
    | Some p \<Rightarrow> owned s' z k p 1 \<and> frames k p \<subseteq> page_pool s \<and> page_pool s' = page_pool s - frames k p"
proof -
  let ?o = "\<Union>z'\<in>{..<MAX_NR_ZONES} - {z}. avail s z'"
  have o: "(\<Union>z'\<in>{..<MAX_NR_ZONES} - {z}. avail s' z') = ?o" using assms(3) by (auto simp: alloc_result_def)
  have "avail s z \<inter> ?o = {}" using zones_apart [OF assms(1,2)] by auto
  then show ?thesis
    using assms(3) unfolding page_pool_split [OF assms(2)] o by (auto simp: alloc_result_def split: option.splits)
qed

interpretation buddy: frame_pool pg_inv page_pool page_owns page_take page_give
proof
  fix s :: pg_data and q :: page_req
  assume inv: "pg_inv s"
  obtain cpu gm k where q: "q = (cpu, gm, k)" by (cases q)
  obtain s' r where a: "alloc_pages cpu gm k s = Some (s', r)" "alloc_result s (gfp_zone gm) k gm r s'"
    using alloc_pages_ok [OF inv, of cpu gm k] by blast
  have "page_owns s' b" if "page_owns s b" for b
    using a(2) that by (auto simp: page_owns_def alloc_result_def keeps_others_def split: prod.splits)
  with a pool_after_take [OF inv gfp_zone_less a(2)]
  show "\<exists>s' r. page_take q s = Some (s', r) \<and> pg_inv s' \<and> (\<forall>b. page_owns s b \<longrightarrow> page_owns s' b) \<and>
      (case r of None \<Rightarrow> page_pool s' = page_pool s
       | Some b \<Rightarrow> page_owns s' b \<and> block_set b \<subseteq> page_pool s \<and> page_pool s' = page_pool s - block_set b)"
    by (cases r) (auto simp: page_take_def q page_owns_def block_set_def alloc_result_def)
next
  fix s :: pg_data and b :: block and q :: page_req
  assume inv: "pg_inv s" and o: "page_owns s b"
  obtain cpu gm k0 where q: "q = (cpu, gm, k0)" by (cases q)
  obtain z k p where b: "b = (z, k, p)" by (cases b)
  have ow: "owned s z k p 1" "z < MAX_NR_ZONES" using o by (auto simp: page_owns_def b owned_def)
  obtain s' where s': "free_pages_pfn cpu p k s = Some s'" "pg_inv s'" "keeps_others s (frames k p) s'"
    "avail s' z = avail s z \<union> frames k p" "\<forall>z'<MAX_NR_ZONES. z' \<noteq> z \<longrightarrow> avail s' z' = avail s z'"
    using free_pages_pfn_ok [OF inv ow(1), of cpu] by auto
  have "(\<Union>z'\<in>{..<MAX_NR_ZONES} - {z}. avail s' z') = (\<Union>z'\<in>{..<MAX_NR_ZONES} - {z}. avail s z')" using s'(5) by auto
  then have "page_pool s' = page_pool s \<union> frames k p" using s'(4) unfolding page_pool_split [OF ow(2)] by auto
  with s' show "\<exists>s'. page_give q b s = Some s' \<and> pg_inv s' \<and> page_pool s' = page_pool s \<union> block_set b \<and>
      (\<forall>b'. page_owns s b' \<and> block_set b' \<inter> block_set b = {} \<longrightarrow> page_owns s' b')"
    by (auto simp: page_give_def q b page_owns_def block_set_def keeps_others_def)
next
  fix s :: pg_data and b :: block
  assume "page_owns s b" "pg_inv s"
  then show "block_set b \<inter> page_pool s = {}" using owned_apart by (auto simp: page_owns_def block_set_def split: prod.splits)
qed

end
