(* ===== verification/Memblock_Ranges.thy ===== *)
theory Memblock_Ranges
  imports Memblock
begin

text \<open>
  What the region arrays of theory \<open>Memblock\<close> mean: a partial map \<open>mb_at\<close> from addresses to flags.
  Adding a range extends the map, removing restricts it, marking changes flags, merging and isolating
  leave it alone; the arrays stay sorted and free of overlap, and \<^verbatim>\<open>total_size\<close> is the sum of the sizes.
\<close>

section \<open>Meaning and invariant\<close>

definition covers :: "memblock_region \<Rightarrow> u64 \<Rightarrow> bool" where
  "covers r a \<longleftrightarrow> r_base r \<le> a \<and> a < r_end r"

definition mb_at :: "memblock_region list \<Rightarrow> u64 \<Rightarrow> u32 option" where
  "mb_at rs a = map_option r_flags (find (\<lambda>r. covers r a) rs)"

definition rgns_ok :: "memblock_region list \<Rightarrow> bool" where
  "rgns_ok rs \<longleftrightarrow> (\<forall>r\<in>set rs. r_base r < r_end r) \<and> sorted_wrt (\<lambda>a b. r_end a \<le> r_base b) rs"

fun minimal :: "memblock_region list \<Rightarrow> bool" where
  "minimal (a # b # rs) \<longleftrightarrow> (r_end a \<noteq> r_base b \<or> r_flags a \<noteq> r_flags b) \<and> minimal (b # rs)"
| "minimal _ \<longleftrightarrow> True"

definition sizes :: "memblock_region list \<Rightarrow> u64" where
  "sizes rs = sum_list (map r_size rs)"

definition type_ok :: "memblock_type \<Rightarrow> bool" where
  "type_ok type \<longleftrightarrow> regions type \<noteq> [] \<and> (regions type = [empty_region] \<or> rgns_ok (regions type)) \<and>
     total_size type = sizes (regions type) \<and> length (regions type) \<le> max_regions type"

lemma mb_at_Nil [simp]: "mb_at [] a = None"
  by (simp add: mb_at_def)

lemma mb_at_Cons: "mb_at (r # rs) a = (if covers r a then Some (r_flags r) else mb_at rs a)"
  by (simp add: mb_at_def)

lemma mb_at_append: "mb_at (xs @ ys) a = (case mb_at xs a of None \<Rightarrow> mb_at ys a | Some f \<Rightarrow> Some f)"
  by (induction xs) (auto simp: mb_at_Cons)

lemma mb_at_None: "mb_at rs a = None \<longleftrightarrow> (\<forall>r\<in>set rs. \<not> covers r a)"
  by (induction rs) (auto simp: mb_at_Cons)

lemma mb_at_empty [simp]: "mb_at [empty_region] a = None"
  by (simp add: mb_at_Cons covers_def r_end_def empty_region_def)

lemma sizes_simps [simp]: "sizes [] = 0" "sizes (r # rs) = r_size r + sizes rs" "sizes (xs @ ys) = sizes xs + sizes ys"
  by (simp_all add: sizes_def)

lemma rgns_ok_simps [simp]:
  "rgns_ok []"
  "rgns_ok (r # rs) \<longleftrightarrow> r_base r < r_end r \<and> (\<forall>x\<in>set rs. r_end r \<le> r_base x) \<and> rgns_ok rs"
  by (auto simp: rgns_ok_def)

lemma rgns_ok_append:
  "rgns_ok (xs @ ys) \<longleftrightarrow> rgns_ok xs \<and> rgns_ok ys \<and> (\<forall>x\<in>set xs. \<forall>y\<in>set ys. r_end x \<le> r_base y)"
  by (auto simp: rgns_ok_def sorted_wrt_append)

lemma r_end_span [simp]: "r_end \<lparr>r_base = b, r_size = e - b, r_flags = f\<rparr> = e"
  by (simp add: r_end_def)

text \<open>Below the lowest base nothing is covered.\<close>

lemma mb_at_below: "\<forall>r\<in>set rs. e \<le> r_base r \<Longrightarrow> a < e \<Longrightarrow> mb_at rs a = None"
  unfolding mb_at_None covers_def by force

section \<open>Merging\<close>

lemma rgns_ok_hd: "rgns_ok rs \<Longrightarrow> x \<in> set rs \<Longrightarrow> r_base (hd rs) \<le> r_base x"
  by (cases rs) (auto intro: order.trans less_imp_le)

text \<open>\<open>rs'\<close> covers the same addresses with the same flags as \<open>rs\<close>, from the same start.\<close>

definition merged :: "memblock_region list \<Rightarrow> memblock_region list \<Rightarrow> bool" where
  "merged rs rs' \<longleftrightarrow> rgns_ok rs' \<and> mb_at rs' = mb_at rs \<and> sizes rs' = sizes rs \<and> minimal rs' \<and>
     length rs' \<le> length rs \<and> (rs \<noteq> [] \<longrightarrow> rs' \<noteq> [] \<and> r_base (hd rs') = r_base (hd rs) \<and>
     r_flags (hd rs') = r_flags (hd rs))"

lemma merged_Cons:
  assumes "merged (n # rs) rs'" "rgns_ok (t # n # rs)" "r_end t \<noteq> r_base n \<or> r_flags t \<noteq> r_flags n"
  shows "merged (t # n # rs) (t # rs')"
proof -
  have "minimal (t # rs')" using assms by (cases rs') (auto simp: merged_def)
  moreover have "rgns_ok (t # rs')"
    using assms rgns_ok_hd [of rs'] by (auto simp: merged_def intro: order.trans)
  moreover have "mb_at (t # rs') = mb_at (t # n # rs)"
    using assms(1) by (auto simp: merged_def mb_at_Cons fun_eq_iff)
  ultimately show ?thesis using assms(1) by (simp add: merged_def)
qed

lemma merged_join:
  assumes "merged (t\<lparr>r_size := r_size t + r_size n\<rparr> # rs) rs'" "rgns_ok (t # n # rs)" "r_end t = r_base n" "r_flags t = r_flags n"
  shows "merged (t # n # rs) rs'"
proof -
  let ?t = "t\<lparr>r_size := r_size t + r_size n\<rparr>"
  have "r_end ?t = r_end n" using assms(3) by (simp add: r_end_def algebra_simps)
  then have "mb_at (?t # rs) = mb_at (t # n # rs)"
    using assms(2-4) by (auto simp: mb_at_Cons covers_def fun_eq_iff)
  then show ?thesis using assms(1) by (simp add: merged_def)
qed

lemma memblock_merge_ok:
  assumes "rgns_ok rs"
  shows "\<exists>rs'. memblock_merge rs = Some rs' \<and> merged rs rs'"
  using assms
proof (induction rs rule: memblock_merge.induct)
  case (1 this "next" rs)
  show ?case
  proof (cases "r_base this + r_size this \<noteq> r_base next \<or> r_flags this \<noteq> r_flags next")
    case True
    have nb: "\<not> r_base this + r_size this > r_base next" using "1.prems" by (simp add: r_end_def not_less)
    with 1(1) [OF True, of "()"] "1.prems" obtain rs' where
      rs': "memblock_merge (next # rs) = Some rs'" "merged (next # rs) rs'" by auto
    with merged_Cons [OF rs'(2) "1.prems"] True have "merged (this # next # rs) (this # rs')"
      by (simp add: r_end_def)
    with True nb rs' show ?thesis by simp
  next
    case False
    let ?t = "this\<lparr>r_size := r_size this + r_size next\<rparr>"
    have "r_end ?t = r_end next" using False by (simp add: r_end_def algebra_simps)
    moreover have "r_base this < r_end next" using False "1.prems" by (auto simp: r_end_def)
    ultimately have "rgns_ok (?t # rs)" using "1.prems" by simp
    with 1(2) [OF False] obtain rs' where "memblock_merge (?t # rs) = Some rs'" "merged (?t # rs) rs'"
      by auto
    with merged_join [OF this(2) "1.prems"] False show ?thesis by (simp add: r_end_def)
  qed
qed (auto simp: merged_def)

section \<open>Adding\<close>

text \<open>The pieces a range leaves between existing regions, and how many there are.\<close>

abbreviation span :: "u32 \<Rightarrow> u64 \<Rightarrow> u64 \<Rightarrow> memblock_region" where
  "span flags b e \<equiv> \<lparr>r_base = b, r_size = e - b, r_flags = flags\<rparr>"

fun add_pieces :: "u64 \<Rightarrow> u32 \<Rightarrow> u64 \<Rightarrow> memblock_region list \<Rightarrow> memblock_region list \<times> nat" where
  "add_pieces end flags base [] = (if base < end then ([span flags base end], 1) else ([], 0))"
| "add_pieces end flags base (r # rs) =
     (if r_base r \<ge> end then (if base < end then (span flags base end # r # rs, 1) else (r # rs, 0))
      else if r_end r \<le> base
      then (r # fst (add_pieces end flags base rs), snd (add_pieces end flags base rs))
      else let x = add_pieces end flags (min (r_end r) end) rs in
        if r_base r > base then (span flags base (r_base r) # r # fst x, Suc (snd x))
        else (r # fst x, snd x))"

lemma add_pieces_done: "end \<le> base \<Longrightarrow> add_pieces end flags base rs = (rs, 0)"
proof (induction rs arbitrary: base)
  case (Cons r rs)
  then show ?case by (auto simp: Let_def min_def not_less)
qed simp

lemma add_pieces_ok:
  assumes "rgns_ok rs" "\<And>r. r \<in> set rs \<Longrightarrow> lb \<le> r_base r" "lb \<le> base"
  shows "rgns_ok (fst (add_pieces end flags base rs)) \<and>
    (\<forall>r\<in>set (fst (add_pieces end flags base rs)). lb \<le> r_base r)"
  using assms
proof (induction rs arbitrary: base lb)
  case (Cons r rs)
  show ?case
  proof (cases "r_base r \<ge> end \<or> r_end r \<le> base")
    case True
    then show ?thesis using Cons.prems Cons.IH [of "r_end r" base] by (force simp: not_le)
  next
    case False
    let ?b = "min (r_end r) end"
    have "rgns_ok (r # fst (add_pieces end flags ?b rs))"
    proof (cases "r_end r \<le> end")
      case True
      then show ?thesis using Cons.prems Cons.IH [of "r_end r" ?b] by (auto simp: min_def)
    next
      case False
      then show ?thesis using Cons.prems by (simp add: add_pieces_done)
    qed
    then show ?thesis using False Cons.prems by (auto simp: Let_def not_le not_less intro: order.trans less_imp_le)
  qed
qed auto

lemma add_pieces_at:
  assumes "rgns_ok rs"
  shows "mb_at (fst (add_pieces end flags base rs)) a =
    (case mb_at rs a of Some f \<Rightarrow> Some f | None \<Rightarrow> if base \<le> a \<and> a < end then Some flags else None)"
  using assms
proof (induction rs arbitrary: base)
  case Nil
  then show ?case by (auto simp: mb_at_Cons covers_def)
next
  case (Cons r rs)
  consider (above) "r_base r \<ge> end" | (below) "\<not> r_base r \<ge> end" "r_end r \<le> base"
    | (over) "\<not> r_base r \<ge> end" "\<not> r_end r \<le> base" by blast
  then show ?case
  proof cases
    case above
    have "mb_at (r # rs) a = None" if "a < end"
      using rgns_ok_hd [OF Cons.prems] above that
      by (intro mb_at_below [of _ "end"]) (auto intro: order.trans [of _ "r_base r"])
    then show ?thesis using above by (auto simp: mb_at_Cons [of "span _ _ _"] covers_def [of "span _ _ _"] split: option.splits)
  next
    case below
    then show ?thesis using Cons by (auto simp: mb_at_Cons covers_def)
  next
    case over
    have "a < r_end r \<Longrightarrow> mb_at rs a = None"
      using mb_at_below [of rs "r_end r" a] Cons.prems by auto
    let ?x = "fst (add_pieces end flags (min (r_end r) end) rs)"
    have x: "mb_at ?x a = (case mb_at rs a of Some f \<Rightarrow> Some f
        | None \<Rightarrow> if min (r_end r) end \<le> a \<and> a < end then Some flags else None)"
      using Cons by simp
    have pieces: "mb_at (fst (add_pieces end flags base (r # rs))) a =
        (if covers r a then Some (r_flags r) else if base \<le> a \<and> a < r_base r then Some flags else mb_at ?x a)"
      using over by (auto simp: mb_at_Cons covers_def Let_def)
    show ?thesis
    proof (cases "a < r_base r")
      case True
      with Cons.prems have "a < r_end r" by (auto intro: less_trans)
      moreover have "a < end" using True over by (simp add: not_le)
      ultimately show ?thesis
        unfolding pieces x using True \<open>a < r_end r \<Longrightarrow> mb_at rs a = None\<close>
        by (auto simp: mb_at_Cons covers_def min_def not_le split: if_splits)
    next
      case False
      then show ?thesis
        unfolding pieces x using over
        by (cases "a < r_end r") (auto simp: mb_at_Cons covers_def min_def not_le not_less split: option.splits)
    qed
  qed
qed

lemma add_pieces_none: "snd (add_pieces end flags base rs) = 0 \<Longrightarrow> fst (add_pieces end flags base rs) = rs"
  by (induction rs arbitrary: base) (auto simp: Let_def split: if_splits)

lemma add_pieces_length: "length (fst (add_pieces end flags base rs)) = length rs + snd (add_pieces end flags base rs)"
  by (induction rs arbitrary: base) (auto simp: Let_def)

declare memblock_add_scan.simps [simp del] memblock_isolate_scan.simps [simp del]

lemma add_scan_stop:
  assumes "regions type = xs"
  shows "memblock_add_scan ins end flags (length xs) type base nr = Some (type, length xs, base, nr)"
  using assms by (subst memblock_add_scan.simps) simp

lemma add_scan_at:
  assumes "regions type = xs @ r # rs"
  shows "memblock_add_scan ins end flags (length xs) type base nr =
     (if r_base r \<ge> end then Some (type, length xs, base, nr)
      else if r_end r \<le> base then memblock_add_scan ins end flags (length (xs @ [r])) type base nr
      else if r_base r > base
        then (if ins
          then Option.bind (memblock_insert_region type (length xs) base (r_base r - base) flags)
             (\<lambda>t. memblock_add_scan ins end flags (length (xs @ [span flags base (r_base r), r])) t (min (r_end r) end) (Suc nr))
          else memblock_add_scan ins end flags (length (xs @ [r])) type (min (r_end r) end) (Suc nr))
      else memblock_add_scan ins end flags (length (xs @ [r])) type (min (r_end r) end) nr)"
  using assms by (subst memblock_add_scan.simps) (simp add: r_end_def Let_def)

lemma add_scan_count:
  assumes "regions type = xs @ ys"
  shows "\<exists>i b n. memblock_add_scan False end flags (length xs) type base nr = Some (type, i, b, n) \<and>
     (if b < end then Suc n else n) = nr + snd (add_pieces end flags base ys)"
  using assms
proof (induction ys arbitrary: xs base nr)
  case Nil
  then show ?case by (simp add: add_scan_stop)
next
  case (Cons r rs)
  have "regions type = (xs @ [r]) @ rs" using Cons.prems by simp
  note IH = Cons.IH [OF this]
  consider "r_base r \<ge> end" | "\<not> r_base r \<ge> end" "r_end r \<le> base"
    | "\<not> r_base r \<ge> end" "\<not> r_end r \<le> base" "r_base r > base"
    | "\<not> r_base r \<ge> end" "\<not> r_end r \<le> base" "\<not> r_base r > base" by blast
  then show ?case
  proof cases
    case 1
    then show ?thesis using Cons.prems by (simp add: add_scan_at)
  next
    case 2
    then show ?thesis using Cons.prems IH [of base nr] by (simp add: add_scan_at)
  next
    case 3
    then show ?thesis using Cons.prems IH [of "min (r_end r) end" "Suc nr"] by (simp add: add_scan_at Let_def)
  next
    case 4
    then show ?thesis using Cons.prems IH [of "min (r_end r) end" nr] by (simp add: add_scan_at Let_def)
  qed
qed

abbreviation add_finish :: "u64 \<Rightarrow> u32 \<Rightarrow> memblock_type \<times> nat \<times> u64 \<times> nat \<Rightarrow> (memblock_type \<times> nat) option" where
  "add_finish end flags \<equiv> (\<lambda>(t, i, b, n).
     if b < end then map_option (\<lambda>t'. (t', n + 1)) (memblock_insert_region t i b (end - b) flags)
     else Some (t, n))"

lemma add_scan_insert:
  assumes "regions type = xs @ ys"
    "length (regions type) + snd (add_pieces end flags base ys) \<le> max_regions type"
  shows "Option.bind (memblock_add_scan True end flags (length xs) type base nr) (add_finish end flags) =
     Some (type\<lparr>regions := xs @ fst (add_pieces end flags base ys),
             total_size := total_size type + (sizes (fst (add_pieces end flags base ys)) - sizes ys)\<rparr>,
           nr + snd (add_pieces end flags base ys))"
  using assms
proof (induction ys arbitrary: xs base nr type)
  case Nil
  then show ?case by (cases "base < end") (simp_all add: add_scan_stop memblock_insert_region_def)
next
  case (Cons r rs)
  consider (above) "r_base r \<ge> end" | (below) "\<not> r_base r \<ge> end" "r_end r \<le> base"
    | (piece) "\<not> r_base r \<ge> end" "\<not> r_end r \<le> base" "r_base r > base"
    | (no_piece) "\<not> r_base r \<ge> end" "\<not> r_end r \<le> base" "\<not> r_base r > base" by blast
  then show ?case
  proof cases
    case above
    then show ?thesis
      using Cons.prems by (cases "base < end") (simp_all add: add_scan_at memblock_insert_region_def)
  next
    case below
    then show ?thesis
      using Cons.prems Cons.IH [of type "xs @ [r]" base nr] by (simp add: add_scan_at)
  next
    case piece
    let ?p = "span flags base (r_base r)"
    let ?t = "type\<lparr>regions := xs @ ?p # r # rs, total_size := total_size type + (r_base r - base)\<rparr>"
    have "memblock_insert_region type (length xs) base (r_base r - base) flags = Some ?t"
      using Cons.prems piece by (simp add: insert_region_Some Let_def)
    then show ?thesis
      using Cons.prems piece Cons.IH [of ?t "xs @ [?p, r]" "min (r_end r) end" "Suc nr"]
      by (simp add: add_scan_at Let_def algebra_simps)
  next
    case no_piece
    then show ?thesis
      using Cons.prems Cons.IH [of type "xs @ [r]" "min (r_end r) end" nr] by (simp add: add_scan_at Let_def)
  qed
qed

lemma add_pass_count:
  "memblock_add_pass False end flags type base = Some (type, snd (add_pieces end flags base (regions type)))"
  using add_scan_count [of type "[]" "regions type" "end" flags base 0]
  by (auto simp: memblock_add_pass_def split: if_splits)

lemma add_pass_insert:
  assumes "length (regions type) + snd (add_pieces end flags base (regions type)) \<le> max_regions type"
  shows "memblock_add_pass True end flags type base =
     Some (type\<lparr>regions := fst (add_pieces end flags base (regions type)),
             total_size := total_size type + (sizes (fst (add_pieces end flags base (regions type))) - sizes (regions type))\<rparr>,
           snd (add_pieces end flags base (regions type)))"
  unfolding memblock_add_pass_def if_True
  using add_scan_insert [of type "[]" "regions type" "end" flags base 0] assms by simp

lemma cap_size_end:
  "base \<le> base + memblock_cap_size base sz" "memblock_cap_size base sz \<noteq> 0 \<Longrightarrow> base < base + memblock_cap_size base sz"
proof -
  have "memblock_cap_size base sz \<le> - 1 - base" by (simp add: memblock_cap_size_def)
  then show le: "base \<le> base + memblock_cap_size base sz"
    using word_plus_mono_right2 [of base "- 1 - base"] by simp
  show "memblock_cap_size base sz \<noteq> 0 \<Longrightarrow> base < base + memblock_cap_size base sz"
    using le by (simp add: order.strict_iff_order)
qed

text \<open>The map after adding a range: new addresses get the flags, old ones keep theirs.\<close>

definition added :: "u64 \<Rightarrow> u64 \<Rightarrow> u32 \<Rightarrow> (u64 \<Rightarrow> u32 option) \<Rightarrow> u64 \<Rightarrow> u32 option" where
  "added base end flags m a =
     (case m a of Some f \<Rightarrow> Some f | None \<Rightarrow> if base \<le> a \<and> a < end then Some flags else None)"

lemma add_pieces_bound: "snd (add_pieces end flags base rs) \<le> Suc (length rs)"
  by (induction rs arbitrary: base) (auto simp: Let_def intro: le_SucI)

lemma add_range_empty:
  assumes "regions type = [empty_region]" "1 \<le> max_regions type" "memblock_cap_size base sz \<noteq> 0"
  shows "\<exists>type'. memblock_add_range type base sz flags = Some (type', 0) \<and> type_ok type' \<and>
    max_regions type' = max_regions type \<and> minimal (regions type') \<and>
    mb_at (regions type') = added base (base + memblock_cap_size base sz) flags (mb_at (regions type))"
  using assms cap_size_end(2) [of base sz]
  by (auto simp: memblock_add_range_def Let_def type_ok_def empty_region_def added_def mb_at_Cons covers_def r_end_def
      fun_eq_iff)

lemma add_range_nonempty:
  fixes base sz
  defines "end \<equiv> base + memblock_cap_size base sz"
  assumes ok: "rgns_ok (regions type)" "regions type \<noteq> []" "total_size type = sizes (regions type)"
      "length (regions type) \<le> max_regions type"
    and sz: "memblock_cap_size base sz \<noteq> 0"
  shows "(memblock_add_range type base sz flags = Some (type, - ENOMEM) \<and> max_regions type < 2 * length (regions type) + 1) \<or>
    (\<exists>type'. memblock_add_range type base sz flags = Some (type', 0) \<and> type_ok type' \<and>
      max_regions type' = max_regions type \<and> (type' = type \<or> minimal (regions type')) \<and>
      mb_at (regions type') = added base end flags (mb_at (regions type)))"
proof -
  let ?p = "add_pieces end flags base (regions type)"
  let ?t = "type\<lparr>regions := fst ?p, total_size := total_size type + (sizes (fst ?p) - sizes (regions type))\<rparr>"
  have r0: "r_size (regions type ! 0) \<noteq> 0"
    using ok(1,2) by (cases "regions type") (auto simp: r_end_def)
  have at: "mb_at (fst ?p) = added base end flags (mb_at (regions type))"
    using add_pieces_at [OF ok(1)] by (simp add: fun_eq_iff added_def)
  have rok: "rgns_ok (fst ?p)" using add_pieces_ok [OF ok(1), of 0 base] by simp
  consider "snd ?p = 0" | "snd ?p \<noteq> 0" "length (regions type) + snd ?p > max_regions type"
    | "snd ?p \<noteq> 0" "length (regions type) + snd ?p \<le> max_regions type" by linarith
  then show ?thesis
  proof cases
    case 1
    then have "fst ?p = regions type" by (rule add_pieces_none)
    with 1 at ok r0 sz show ?thesis
      by (auto simp: memblock_add_range_def Let_def add_pass_count type_ok_def simp flip: end_def)
  next
    case 2
    with r0 sz add_pieces_bound [of "end" flags base "regions type"] show ?thesis
      by (auto simp: memblock_add_range_def Let_def add_pass_count simp flip: end_def)
  next
    case 3
    obtain rs where rs: "memblock_merge (fst ?p) = Some rs" "merged (fst ?p) rs"
      using memblock_merge_ok [OF rok] by blast
    have len: "length (fst ?p) = length (regions type) + snd ?p" by (rule add_pieces_length)
    then have "fst ?p \<noteq> []" using ok(2) by auto
    then have "memblock_add_range type base sz flags = Some (?t\<lparr>regions := rs\<rparr>, 0) \<and> type_ok (?t\<lparr>regions := rs\<rparr>)
        \<and> minimal rs \<and> mb_at rs = added base end flags (mb_at (regions type))"
      using 3 r0 sz rs ok at len
      by (simp add: memblock_add_range_def Let_def add_pass_count add_pass_insert memblock_merge_regions_def
          merged_def type_ok_def flip: end_def)
    then show ?thesis by (intro disjI2 exI [of _ "?t\<lparr>regions := rs\<rparr>"]) simp
  qed
qed

lemma added_nothing [simp]: "added base base flags m = m"
  by (auto simp: added_def fun_eq_iff split: option.splits)

lemma add_range_ok:
  assumes "type_ok type"
  shows "(memblock_add_range type base sz flags = Some (type, - ENOMEM) \<and> max_regions type < 2 * length (regions type) + 1) \<or>
    (\<exists>type'. memblock_add_range type base sz flags = Some (type', 0) \<and> type_ok type' \<and>
      max_regions type' = max_regions type \<and> (type' = type \<or> minimal (regions type')) \<and>
      mb_at (regions type') = added base (base + memblock_cap_size base sz) flags (mb_at (regions type)))"
proof (cases "memblock_cap_size base sz = 0")
  case True
  then show ?thesis using assms by (simp add: memblock_add_range_def Let_def)
next
  case False
  show ?thesis
  proof (cases "regions type = [empty_region]")
    case True
    with False assms add_range_empty [of type base sz flags] show ?thesis by (auto simp: type_ok_def)
  next
    case F: False
    with False assms add_range_nonempty [of type base sz flags] show ?thesis by (auto simp: type_ok_def)
  qed
qed

end
