(* ===== verification/Memblock_Isolate.thy ===== *)
theory Memblock_Isolate
  imports Memblock_Ranges
begin

text \<open>
  \<^verbatim>\<open>memblock_isolate_range\<close> and the operations built on it: removing a range and changing the flags of a
  range (theory \<open>Memblock\<close>). Isolating cuts the array into the regions below, inside and above the range.
\<close>

section \<open>Isolating\<close>

fun iso_high :: "u64 \<Rightarrow> memblock_region list \<Rightarrow> memblock_region list \<times> memblock_region list" where
  "iso_high end [] = ([], [])"
| "iso_high end (r # rs) =
     (if r_base r \<ge> end then ([], r # rs)
      else if r_end r > end then ([span (r_flags r) (r_base r) end], span (r_flags r) end (r_end r) # rs)
      else (r # fst (iso_high end rs), snd (iso_high end rs)))"

fun iso :: "u64 \<Rightarrow> u64 \<Rightarrow> memblock_region list \<Rightarrow>
    memblock_region list \<times> memblock_region list \<times> memblock_region list" where
  "iso base end [] = ([], [], [])"
| "iso base end (r # rs) =
     (if r_base r \<ge> end then ([], [], r # rs)
      else if r_end r \<le> base then (r # fst (iso base end rs), snd (iso base end rs))
      else if r_base r < base
      then ([span (r_flags r) (r_base r) base], iso_high end (span (r_flags r) base (r_end r) # rs))
      else ([], iso_high end (r # rs)))"

definition iso_list :: "u64 \<Rightarrow> u64 \<Rightarrow> memblock_region list \<Rightarrow> memblock_region list" where
  "iso_list base end rs = (case iso base end rs of (A, B, C) \<Rightarrow> A @ B @ C)"

abbreviation iso_high_list :: "u64 \<Rightarrow> memblock_region list \<Rightarrow> memblock_region list" where
  "iso_high_list end rs \<equiv> fst (iso_high end rs) @ snd (iso_high end rs)"

lemma region_span: "r = span (r_flags r) (r_base r) (r_end r)"
  by (cases r) (simp add: r_end_def)

lemma isolate_scan_stop:
  assumes "regions type = xs"
  shows "memblock_isolate_scan base end (length xs) type s e = Some (type, s, e)"
  using assms by (subst memblock_isolate_scan.simps) simp

lemma isolate_scan_at:
  assumes "regions type = xs @ r # rs"
  shows "memblock_isolate_scan base end (length xs) type s e =
    (if r_base r \<ge> end then Some (type, s, e)
     else if r_end r \<le> base then memblock_isolate_scan base end (length (xs @ [r])) type s e
     else if r_base r < base
     then (if length (regions type) < max_regions type
           then memblock_isolate_scan base end (length (xs @ [span (r_flags r) (r_base r) base]))
             (type\<lparr>regions := xs @ span (r_flags r) (r_base r) base # span (r_flags r) base (r_end r) # rs\<rparr>) s e
           else None)
     else if r_end r > end
     then (if length (regions type) < max_regions type
           then memblock_isolate_scan base end (length xs)
             (type\<lparr>regions := xs @ span (r_flags r) (r_base r) end # span (r_flags r) end (r_end r) # rs\<rparr>) s e
           else None)
     else memblock_isolate_scan base end (length (xs @ [r])) type (if e = 0 then length xs else s) (length (xs @ [r])))"
proof -
  obtain b z f where "r = \<lparr>r_base = b, r_size = z, r_flags = f\<rparr>" by (cases r)
  moreover have cut: "x - (y - b) = b + x - y" for x y :: u64 by simp
  ultimately show ?thesis
    using assms
    by (subst memblock_isolate_scan.simps) (simp add: r_end_def Let_def memblock_insert_region_def cut)
qed

lemma isolate_scan_high:
  assumes "regions type = xs @ ys" "rgns_ok ys" "\<forall>r\<in>set ys. base \<le> r_base r" "base < end"
    "length (regions type) + 1 \<le> max_regions type"
  shows "memblock_isolate_scan base end (length xs) type s e =
    Some (type\<lparr>regions := xs @ iso_high_list end ys\<rparr>,
      if fst (iso_high end ys) = [] \<or> e \<noteq> 0 then s else length xs,
      if fst (iso_high end ys) = [] then e else length xs + length (fst (iso_high end ys)))"
  using assms
proof (induction ys arbitrary: xs type s e)
  case Nil
  then show ?case by (simp add: isolate_scan_stop)
next
  case (Cons r rs)
  have nb: "\<not> r_end r \<le> base" "\<not> r_base r < base" using Cons.prems(2,3) by auto
  consider "r_base r \<ge> end" | "\<not> r_base r \<ge> end" "r_end r > end" | "\<not> r_base r \<ge> end" "\<not> r_end r > end" by blast
  then show ?case
  proof cases
    case 1
    then show ?thesis using Cons.prems by (simp add: isolate_scan_at)
  next
    case 2
    let ?m = "span (r_flags r) (r_base r) end" and ?h = "span (r_flags r) end (r_end r)"
    let ?t = "type\<lparr>regions := xs @ ?m # ?h # rs\<rparr>"
    have "memblock_isolate_scan base end (length xs) ?t s e =
        memblock_isolate_scan base end (length (xs @ [?m])) ?t (if e = 0 then length xs else s) (length (xs @ [?m]))"
      using 2 Cons.prems(3) \<open>base < end\<close> by (subst isolate_scan_at [of ?t xs ?m "?h # rs"]) auto
    also have "\<dots> = Some (?t, if e = 0 then length xs else s, length (xs @ [?m]))"
      by (subst isolate_scan_at [of ?t "xs @ [?m]" ?h rs]) auto
    finally show ?thesis using 2 nb Cons.prems by (simp add: isolate_scan_at)
  next
    case 3
    then show ?thesis using nb Cons.prems Cons.IH [of type "xs @ [r]"] by (simp add: isolate_scan_at)
  qed
qed

text \<open>Cutting one region in two keeps everything.\<close>

lemma cut_region:
  assumes "r_base r < m" "m < r_end r" "rgns_ok (r # rs)"
  shows "rgns_ok (span (r_flags r) (r_base r) m # span (r_flags r) m (r_end r) # rs)"
    "mb_at (span (r_flags r) (r_base r) m # span (r_flags r) m (r_end r) # rs) = mb_at (r # rs)"
    "sizes (span (r_flags r) (r_base r) m # span (r_flags r) m (r_end r) # rs) = sizes (r # rs)"
  using assms by (auto simp: mb_at_Cons covers_def fun_eq_iff r_end_def)

text \<open>What isolating promises: the same map from the same lower bound, cut at the ends of the range.\<close>

definition recut :: "memblock_region list \<Rightarrow> memblock_region list \<Rightarrow> bool" where
  "recut rs rs' \<longleftrightarrow> rgns_ok rs' \<and> mb_at rs' = mb_at rs \<and> sizes rs' = sizes rs \<and>
     (\<forall>lb. (\<forall>r\<in>set rs. lb \<le> r_base r) \<longrightarrow> (\<forall>r\<in>set rs'. lb \<le> r_base r)) \<and> (rs \<noteq> [] \<longrightarrow> rs' \<noteq> [])"

lemma recut_refl: "rgns_ok rs \<Longrightarrow> recut rs rs"
  by (simp add: recut_def)

lemma recut_Cons: "recut rs rs' \<Longrightarrow> rgns_ok (r # rs) \<Longrightarrow> recut (r # rs) (r # rs')"
  by (auto simp: recut_def mb_at_Cons fun_eq_iff)

lemma recut_trans: "recut a b \<Longrightarrow> recut b c \<Longrightarrow> recut a c"
  by (auto simp: recut_def)

lemma recut_cut:
  assumes "r_base r < m" "m < r_end r" "rgns_ok (r # rs)"
  shows "recut (r # rs) (span (r_flags r) (r_base r) m # span (r_flags r) m (r_end r) # rs)"
  using cut_region [OF assms] assms(1) unfolding recut_def
  by (auto intro: order.trans less_imp_le)

lemma iso_high_ok:
  assumes "rgns_ok ys"
  shows "recut ys (iso_high_list end ys) \<and> (\<forall>r\<in>set (fst (iso_high end ys)). r_end r \<le> end) \<and>
    (\<forall>r\<in>set (snd (iso_high end ys)). end \<le> r_base r) \<and> length (iso_high_list end ys) \<le> length ys + 1"
  using assms
proof (induction ys)
  case (Cons r rs)
  have up: "end \<le> r_end r \<Longrightarrow> x \<in> set rs \<Longrightarrow> end \<le> r_base x" for x
    using Cons.prems by (auto intro: order.trans)
  consider "r_base r \<ge> end" | "\<not> r_base r \<ge> end" "r_end r > end" | "\<not> r_base r \<ge> end" "\<not> r_end r > end" by blast
  then show ?case
  proof cases
    case 1
    then have "end \<le> r_end r" using Cons.prems by auto
    with 1 up Cons.prems show ?thesis by (auto simp: recut_refl)
  next
    case 2
    then show ?thesis using recut_cut [of r "end" rs] Cons.prems up by (auto simp: not_le)
  next
    case 3
    then show ?thesis using Cons recut_Cons [of rs "iso_high_list end rs" r] by (auto simp: not_less)
  qed
qed (simp add: recut_refl)

lemma iso_ok:
  assumes "rgns_ok ys" "base < end" "iso base end ys = (A, B, C)"
  shows "recut ys (A @ B @ C) \<and> (\<forall>r\<in>set A. r_end r \<le> base) \<and> (\<forall>r\<in>set B. base \<le> r_base r \<and> r_end r \<le> end) \<and>
    (\<forall>r\<in>set C. end \<le> r_base r) \<and> length (A @ B @ C) \<le> length ys + 2"
  using assms
proof (induction ys arbitrary: A B C)
  case (Cons r rs)
  have high: "\<forall>x\<in>set (iso_high_list end xs). base \<le> r_base x"
    if "rgns_ok xs" "\<forall>x\<in>set xs. base \<le> r_base x" for xs
    using iso_high_ok [OF that(1), of "end"] that(2) unfolding recut_def by blast
  have tail: "base \<le> r_end r \<Longrightarrow> \<forall>x\<in>set rs. base \<le> r_base x"
    using Cons.prems(1) by (auto intro: order.trans)
  consider "r_base r \<ge> end" | "\<not> r_base r \<ge> end" "r_end r \<le> base"
    | "\<not> r_base r \<ge> end" "\<not> r_end r \<le> base" "r_base r < base"
    | "\<not> r_base r \<ge> end" "\<not> r_end r \<le> base" "\<not> r_base r < base" by blast
  then show ?case
  proof cases
    case 1
    then have "\<forall>x\<in>set rs. end \<le> r_base x" using Cons.prems(1) by (auto intro: order.trans less_imp_le)
    with 1 Cons.prems show ?thesis by (auto simp: recut_refl)
  next
    case 2
    then obtain A' where "A = r # A'" "iso base end rs = (A', B, C)"
      using Cons.prems(3) by (cases "iso base end rs") auto
    with 2 Cons.IH [of A' B C] Cons.prems recut_Cons [of rs "A' @ B @ C" r] show ?thesis by auto
  next
    case 3
    let ?l = "span (r_flags r) (r_base r) base" and ?h = "span (r_flags r) base (r_end r)"
    have c: "recut (r # rs) (?l # ?h # rs)" using recut_cut [of r base rs] 3 Cons.prems(1) by (auto simp: not_le)
    then have ok: "rgns_ok (?l # ?h # rs)" by (simp add: recut_def)
    have "recut (?h # rs) (iso_high_list end (?h # rs))" using iso_high_ok [of "?h # rs" "end"] ok by simp
    with recut_Cons [OF this ok] recut_trans [OF c] have "recut (r # rs) (?l # iso_high_list end (?h # rs))" by blast
    moreover have "\<forall>x\<in>set (iso_high_list end (?h # rs)). base \<le> r_base x"
      using high [of "?h # rs"] tail 3 ok by auto
    ultimately show ?thesis
      using 3 Cons.prems iso_high_ok [of "?h # rs" "end"] ok by auto
  next
    case 4
    then have "\<forall>x\<in>set (iso_high_list end (r # rs)). base \<le> r_base x"
      using high [of "r # rs"] tail Cons.prems(1) by auto
    with 4 Cons.prems iso_high_ok [of "r # rs" "end"] show ?thesis by auto
  qed
qed (simp add: recut_refl)

lemma isolate_scan_all:
  assumes "regions type = xs @ ys" "rgns_ok ys" "base < end" "length (regions type) + 2 \<le> max_regions type"
    "iso base end ys = (A, B, C)"
  shows "memblock_isolate_scan base end (length xs) type 0 0 =
    Some (type\<lparr>regions := xs @ A @ B @ C\<rparr>, if B = [] then 0 else length (xs @ A), if B = [] then 0 else length (xs @ A @ B))"
  using assms
proof (induction ys arbitrary: xs type A)
  case Nil
  then show ?case by (simp add: isolate_scan_stop)
next
  case (Cons r rs)
  have tail: "base \<le> r_end r \<Longrightarrow> \<forall>x\<in>set rs. base \<le> r_base x"
    using Cons.prems(2) by (auto intro: order.trans)
  consider "r_base r \<ge> end" | "\<not> r_base r \<ge> end" "r_end r \<le> base"
    | "\<not> r_base r \<ge> end" "\<not> r_end r \<le> base" "r_base r < base"
    | "\<not> r_base r \<ge> end" "\<not> r_end r \<le> base" "\<not> r_base r < base" by blast
  then show ?case
  proof cases
    case 1
    then show ?thesis using Cons.prems by (auto simp: isolate_scan_at)
  next
    case 2
    then obtain A' where "A = r # A'" "iso base end rs = (A', B, C)"
      using Cons.prems(5) by (cases "iso base end rs") auto
    with 2 Cons.prems Cons.IH [of type "xs @ [r]" A'] show ?thesis by (simp add: isolate_scan_at)
  next
    case 3
    let ?l = "span (r_flags r) (r_base r) base" and ?h = "span (r_flags r) base (r_end r)"
    let ?t = "type\<lparr>regions := xs @ ?l # ?h # rs\<rparr>"
    have parts: "A = [?l]" "iso_high end (?h # rs) = (B, C)" using Cons.prems(5) 3 by auto
    have "rgns_ok (?h # rs)" "\<forall>x\<in>set (?h # rs). base \<le> r_base x" using Cons.prems(2) 3 tail by (auto simp: not_le)
    then have "memblock_isolate_scan base end (length (xs @ [?l])) ?t 0 0 =
        Some (?t\<lparr>regions := (xs @ [?l]) @ B @ C\<rparr>, if B = [] then 0 else length (xs @ [?l]),
          if B = [] then 0 else length (xs @ [?l]) + length B)"
      using isolate_scan_high [of ?t "xs @ [?l]" "?h # rs" base "end" 0 0] parts Cons.prems(1,3,4) by auto
    with 3 parts(1) Cons.prems(1,4) show ?thesis
      by (subst isolate_scan_at [of type xs r rs]) (auto simp: not_le)
  next
    case 4
    have parts: "A = []" "iso_high end (r # rs) = (B, C)" using Cons.prems(5) 4 by auto
    have "\<forall>x\<in>set (r # rs). base \<le> r_base x" using 4 tail by auto
    with isolate_scan_high [of type xs "r # rs" base "end" 0 0] parts Cons.prems show ?thesis by auto
  qed
qed

text \<open>The outcome of isolating: the indices delimit the part \<open>B\<close> inside the range.\<close>

definition isolated :: "memblock_type \<Rightarrow> u64 \<Rightarrow> u64 \<Rightarrow> memblock_type \<Rightarrow>
    memblock_region list \<Rightarrow> memblock_region list \<Rightarrow> memblock_region list \<Rightarrow> bool" where
  "isolated type base end type' A B C \<longleftrightarrow>
     type_ok type' \<and> max_regions type' = max_regions type \<and> mb_at (regions type') = mb_at (regions type) \<and>
     regions type' = A @ B @ C \<and> rgns_ok B \<and> (B \<noteq> [] \<longrightarrow> rgns_ok (A @ B @ C)) \<and> (\<forall>r\<in>set A. r_end r \<le> base) \<and>
     (\<forall>r\<in>set B. base \<le> r_base r \<and> r_end r \<le> end) \<and> (\<forall>r\<in>set C. end \<le> r_base r)"

lemma isolate_range_ok:
  assumes "type_ok type" "memblock_cap_size base sz \<noteq> 0" "length (regions type) + 2 \<le> max_regions type"
  shows "\<exists>type' A B C. memblock_isolate_range type base sz =
      Some (type', 0, if B = [] then 0 else length A, if B = [] then 0 else length (A @ B)) \<and>
    isolated type base (base + memblock_cap_size base sz) type' A B C"
proof -
  let ?lim = "base + memblock_cap_size base sz"
  have lt: "base < ?lim" using cap_size_end(2) assms(2) by blast
  show ?thesis
  proof (cases "regions type = [empty_region]")
    case True
    have "memblock_isolate_scan base ?lim 0 type 0 0 = Some (type, 0, 0)"
      using isolate_scan_at [of type "[]" empty_region "[]" base ?lim 0 0] lt True
        isolate_scan_stop [of type "[empty_region]" base ?lim 0 0]
      by (auto simp: empty_region_def r_end_def)
    with True assms show ?thesis
      by (intro exI [of _ type] exI [of _ "[empty_region]"] exI [of _ "[]"])
        (auto simp: memblock_isolate_range_def Let_def isolated_def empty_region_def r_end_def)
  next
    case False
    then have ok: "rgns_ok (regions type)" using assms(1) by (auto simp: type_ok_def)
    obtain A B C where iso: "iso base ?lim (regions type) = (A, B, C)" by (cases "iso base ?lim (regions type)")
    have props: "recut (regions type) (A @ B @ C)" "\<forall>r\<in>set A. r_end r \<le> base"
      "\<forall>r\<in>set B. base \<le> r_base r \<and> r_end r \<le> ?lim" "\<forall>r\<in>set C. ?lim \<le> r_base r"
      "length (A @ B @ C) \<le> length (regions type) + 2"
      using iso_ok [OF ok lt iso] by auto
    let ?t = "type\<lparr>regions := A @ B @ C\<rparr>"
    have "type_ok ?t" using props assms by (auto simp: type_ok_def recut_def)
    moreover have "rgns_ok B" "rgns_ok (A @ B @ C)" using props(1) by (auto simp: recut_def rgns_ok_append)
    ultimately have "isolated type base ?lim ?t A B C"
      using props by (auto simp: isolated_def recut_def)
    with isolate_scan_all [OF _ ok lt assms(3) iso, of "[]"] assms(2,3) show ?thesis
      by (intro exI [of _ ?t] exI [of _ A] exI [of _ B] exI [of _ C])
        (simp add: memblock_isolate_range_def Let_def)
  qed
qed

section \<open>Removing\<close>

lemma remove_region_at:
  assumes "regions type = xs @ r # ys"
  shows "memblock_remove_region type (length xs) =
    type\<lparr>total_size := total_size type - r_size r, regions := if xs @ ys = [] then [empty_region] else xs @ ys\<rparr>"
  using assms by (simp add: memblock_remove_region_def Let_def)

lemma remove_down_all:
  assumes "regions type = A @ B @ C"
  shows "B \<noteq> [] \<Longrightarrow> memblock_remove_down type (length A) (length A + length B) =
    type\<lparr>total_size := total_size type - sizes B, regions := if A @ C = [] then [empty_region] else A @ C\<rparr>"
  using assms
proof (induction B arbitrary: type C rule: rev_induct)
  case (snoc b B)
  let ?t = "memblock_remove_region type (length (A @ B))"
  have t: "?t = type\<lparr>total_size := total_size type - r_size b,
      regions := if A @ B @ C = [] then [empty_region] else A @ B @ C\<rparr>"
    using remove_region_at [of type "A @ B" b C] snoc.prems by simp
  have step: "memblock_remove_down type (length A) (length A + length (B @ [b])) =
      memblock_remove_down ?t (length A) (length A + length B)"
    by simp
  show ?case
  proof (cases "B = []")
    case True
    have "memblock_remove_down x (length A) (length A) = x" for x by (cases "length A") simp_all
    with True t step show ?thesis by simp
  next
    case False
    with t have "regions ?t = A @ B @ C" by simp
    from snoc.IH [OF False this] show ?thesis unfolding step using t False by (simp add: algebra_simps)
  qed
qed simp

lemma mb_at_outside:
  assumes "\<forall>r\<in>set A. r_end r \<le> base" "\<forall>r\<in>set B. base \<le> r_base r \<and> r_end r \<le> end"
    "\<forall>r\<in>set C. end \<le> r_base r"
  shows "mb_at (A @ C) a = (if base \<le> a \<and> a < end then None else mb_at (A @ B @ C) a)"
proof -
  have "mb_at A a = None" if "base \<le> a" using assms(1) that by (auto simp: mb_at_None covers_def not_less intro: order.trans)
  moreover have "mb_at B a = None" if "\<not> (base \<le> a \<and> a < end)" using assms(2) that by (auto simp: mb_at_None covers_def)
  moreover have "mb_at C a = None" if "a < end" using assms(3) that by (auto intro: mb_at_below)
  ultimately show ?thesis by (auto simp: mb_at_append split: option.splits)
qed

definition reflagged :: "u64 \<Rightarrow> u64 \<Rightarrow> (u32 \<Rightarrow> u32) \<Rightarrow> (u64 \<Rightarrow> u32 option) \<Rightarrow> u64 \<Rightarrow> u32 option" where
  "reflagged base end f m a = (if base \<le> a \<and> a < end then map_option f (m a) else m a)"

definition with_flags :: "(u32 \<Rightarrow> u32) \<Rightarrow> memblock_region \<Rightarrow> memblock_region" where
  "with_flags f r = r\<lparr>r_flags := f (r_flags r)\<rparr>"

lemma with_flags_simps [simp]:
  "r_base (with_flags f r) = r_base r" "r_size (with_flags f r) = r_size r" "r_end (with_flags f r) = r_end r"
  "covers (with_flags f r) a = covers r a" "r_flags (with_flags f r) = f (r_flags r)"
  by (simp_all add: with_flags_def r_end_def covers_def)

lemma with_flags_list:
  "sizes (map (with_flags f) rs) = sizes rs" "rgns_ok (map (with_flags f) rs) = rgns_ok rs"
  "mb_at (map (with_flags f) rs) a = map_option f (mb_at rs a)"
  by (induction rs) (auto simp: mb_at_Cons)

lemma mb_at_reflag:
  assumes "\<forall>r\<in>set A. r_end r \<le> base" "\<forall>r\<in>set B. base \<le> r_base r \<and> r_end r \<le> end" "\<forall>r\<in>set C. end \<le> r_base r"
  shows "mb_at (A @ map (with_flags f) B @ C) a = reflagged base end f (mb_at (A @ B @ C)) a"
proof -
  have "mb_at A a = None" if "base \<le> a" using assms(1) that by (auto simp: mb_at_None covers_def not_less intro: order.trans)
  moreover have "mb_at B a = None" if "\<not> (base \<le> a \<and> a < end)" using assms(2) that by (auto simp: mb_at_None covers_def)
  moreover have "mb_at C a = None" if "a < end" using assms(3) that by (auto intro: mb_at_below)
  ultimately show ?thesis by (auto simp: mb_at_append with_flags_list reflagged_def split: option.splits)
qed

definition removed :: "u64 \<Rightarrow> u64 \<Rightarrow> (u64 \<Rightarrow> u32 option) \<Rightarrow> u64 \<Rightarrow> u32 option" where
  "removed base end m a = (if base \<le> a \<and> a < end then None else m a)"

lemma removed_nothing [simp]: "removed base base m = m"
  by (auto simp: removed_def fun_eq_iff)

lemma isolated_at:
  assumes "isolated type base end type' A B C"
  shows "mb_at (A @ B @ C) = mb_at (regions type)"
    "mb_at (A @ C) = removed base end (mb_at (regions type))"
    "mb_at (A @ map (with_flags f) B @ C) = reflagged base end f (mb_at (regions type))"
proof -
  show at: "mb_at (A @ B @ C) = mb_at (regions type)" using assms unfolding isolated_def by metis
  have *: "\<forall>r\<in>set A. r_end r \<le> base" "\<forall>r\<in>set B. base \<le> r_base r \<and> r_end r \<le> end" "\<forall>r\<in>set C. end \<le> r_base r"
    using assms by (simp_all add: isolated_def)
  show "mb_at (A @ C) = removed base end (mb_at (regions type))"
    using mb_at_outside [OF *] unfolding at removed_def fun_eq_iff by simp
  show "mb_at (A @ map (with_flags f) B @ C) = reflagged base end f (mb_at (regions type))"
    using mb_at_reflag [OF *] unfolding at fun_eq_iff by simp
qed

lemma remove_isolated:
  assumes "isolated type base end type' A B C" "B \<noteq> []"
  defines "type'' \<equiv> type'\<lparr>total_size := total_size type' - sizes B, regions := if A @ C = [] then [empty_region] else A @ C\<rparr>"
  shows "type_ok type'' \<and> max_regions type'' = max_regions type \<and>
    mb_at (regions type'') = removed base end (mb_at (regions type))"
proof -
  have "rgns_ok (A @ B @ C)" using assms(1,2) by (simp add: isolated_def)
  then have ok: "rgns_ok (A @ C)" by (auto simp: rgns_ok_append)
  note out = isolated_at(2) [OF assms(1)]
  show ?thesis
  proof (cases "A @ C = []")
    case True
    then have "removed base end (mb_at (regions type)) = (\<lambda>a. None)" using out by (auto simp: fun_eq_iff)
    moreover have "1 \<le> max_regions type'" using assms(1) by (cases "regions type'") (auto simp: isolated_def type_ok_def)
    ultimately show ?thesis
      using True assms(1)
      by (auto simp: type''_def isolated_def type_ok_def empty_region_def mb_at_Cons covers_def r_end_def fun_eq_iff)
  next
    case False
    with ok out assms(1) show ?thesis
      by (auto simp: type''_def isolated_def type_ok_def)
  qed
qed

lemma remove_range_ok:
  assumes "type_ok type"
  shows "(memblock_remove_range type base sz = Some (type, - ENOMEM) \<and> max_regions type < length (regions type) + 2) \<or>
    (\<exists>type'. memblock_remove_range type base sz = Some (type', 0) \<and> type_ok type' \<and>
      max_regions type' = max_regions type \<and>
      mb_at (regions type') = removed base (base + memblock_cap_size base sz) (mb_at (regions type)))"
proof (cases "memblock_cap_size base sz = 0")
  case True
  with assms show ?thesis by (simp add: memblock_remove_range_def memblock_isolate_range_def Let_def)
next
  case False
  show ?thesis
  proof (cases "length (regions type) + 2 \<le> max_regions type")
    case True
    obtain type' A B C where i: "memblock_isolate_range type base sz =
        Some (type', 0, if B = [] then 0 else length A, if B = [] then 0 else length (A @ B))"
      "isolated type base (base + memblock_cap_size base sz) type' A B C"
      using isolate_range_ok [OF assms False True] by blast
    show ?thesis
    proof (cases "B = []")
      case True
      then have "mb_at (regions type') = removed base (base + memblock_cap_size base sz) (mb_at (regions type))"
        using isolated_at(1,2) [OF i(2)] i(2) by (simp add: isolated_def)
      with True i show ?thesis by (auto simp: memblock_remove_range_def isolated_def)
    next
      case False
      with i remove_isolated [OF i(2) False] remove_down_all [of type' A B C] show ?thesis
        by (auto simp: memblock_remove_range_def isolated_def)
    qed
  next
    case F: False
    with False show ?thesis by (simp add: memblock_remove_range_def memblock_isolate_range_def Let_def)
  qed
qed

section \<open>Changing flags\<close>

lemma map_middle:
  assumes "rs = A @ B @ C"
  shows "map (\<lambda>i. if length A \<le> i \<and> i < length (A @ B) then f (rs ! i) else rs ! i) [0..<length rs] = A @ map f B @ C"
  unfolding assms by (rule nth_equalityI) (auto simp: nth_append)

lemma merge_type_ok:
  assumes "type_ok type"
  shows "\<exists>type'. memblock_merge_regions type = Some type' \<and> type_ok type' \<and> max_regions type' = max_regions type \<and>
    mb_at (regions type') = mb_at (regions type) \<and> minimal (regions type')"
proof (cases "regions type = [empty_region]")
  case True
  with assms show ?thesis by (auto simp: memblock_merge_regions_def type_ok_def)
next
  case False
  with assms have "rgns_ok (regions type)" by (auto simp: type_ok_def)
  from memblock_merge_ok [OF this] obtain rs where "memblock_merge (regions type) = Some rs" "merged (regions type) rs"
    by blast
  with assms show ?thesis by (auto simp: memblock_merge_regions_def type_ok_def merged_def)
qed

lemma setclr_flag_ok:
  fixes flag :: u32 and st :: bool
  assumes "type_ok (memory mb)"
  defines "f \<equiv> (\<lambda>x. if st then x OR flag else x AND NOT flag)"
  shows "(memblock_setclr_flag mb base sz st flag = Some (mb, - ENOMEM) \<and>
      max_regions (memory mb) < length (regions (memory mb)) + 2) \<or>
    (\<exists>type'. memblock_setclr_flag mb base sz st flag = Some (mb\<lparr>memory := type'\<rparr>, 0) \<and> type_ok type' \<and>
      max_regions type' = max_regions (memory mb) \<and> minimal (regions type') \<and>
      mb_at (regions type') = reflagged base (base + memblock_cap_size base sz) f (mb_at (regions (memory mb))))"
proof -
  have ff: "(if st then memblock_set_region_flags flag else memblock_clear_region_flags flag) = with_flags f"
    by (auto simp: f_def fun_eq_iff with_flags_def memblock_set_region_flags_def memblock_clear_region_flags_def)
  show ?thesis
  proof (cases "memblock_cap_size base sz = 0")
    case True
    moreover have "reflagged base base f m = m" for m by (auto simp: reflagged_def fun_eq_iff)
    moreover have "memory mb\<lparr>regions := regions (memory mb)\<rparr> = memory mb" by simp
    ultimately show ?thesis
      using merge_type_ok [OF assms(1)]
      by (auto simp: memblock_setclr_flag_def memblock_isolate_range_def Let_def map_nth)
  next
    case nonzero: False
    show ?thesis
    proof (cases "length (regions (memory mb)) + 2 \<le> max_regions (memory mb)")
      case True
      let ?lim = "base + memblock_cap_size base sz"
      obtain type' A B C where i: "memblock_isolate_range (memory mb) base sz =
          Some (type', 0, if B = [] then 0 else length A, if B = [] then 0 else length (A @ B))"
        "isolated (memory mb) base ?lim type' A B C"
        using isolate_range_ok [OF assms(1) nonzero True] by blast
      let ?t = "type'\<lparr>regions := A @ map (with_flags f) B @ C\<rparr>"
      have at: "mb_at (regions ?t) = reflagged base ?lim f (mb_at (regions (memory mb)))"
        using isolated_at(3) [OF i(2)] by simp
      have "type_ok ?t"
        using i(2) by (cases "B = []") (auto simp: isolated_def type_ok_def with_flags_list rgns_ok_append)
      from merge_type_ok [OF this] obtain t where t: "memblock_merge_regions ?t = Some t" "type_ok t"
        "max_regions t = max_regions ?t" "mb_at (regions t) = mb_at (regions ?t)" "minimal (regions t)" by blast
      have "memblock_setclr_flag mb base sz st flag = Some (mb\<lparr>memory := t\<rparr>, 0)"
        using i t(1) map_middle [of "regions type'" A B C "with_flags f"]
        by (cases "B = []") (auto simp: memblock_setclr_flag_def isolated_def ff Let_def map_nth simp flip: length_append)
      with t at i(2) show ?thesis by (auto simp: isolated_def)
    next
      case False
      with nonzero show ?thesis by (simp add: memblock_setclr_flag_def memblock_isolate_range_def Let_def)
    qed
  qed
qed

end
