(* ===== verification/Memblock_Alloc.thy ===== *)
theory Memblock_Alloc
  imports Memblock_Isolate
begin

text \<open>
  Looking up and allocating boot memory (theory \<open>Memblock\<close>): the binary search finds the region of an
  address, the iteration over free ranges yields only free memory and ends, and an allocation returns
  an aligned block of free memory inside the limits and reserves exactly it.
\<close>

section \<open>Searching\<close>

lemma rgns_nth:
  assumes "rgns_ok rs" "i < j" "j < length rs"
  shows "r_end (rs ! i) \<le> r_base (rs ! j)" "r_base (rs ! i) < r_base (rs ! j)"
proof -
  show 1: "r_end (rs ! i) \<le> r_base (rs ! j)"
    using assms by (auto simp: rgns_ok_def intro: sorted_wrt_nth_less)
  have "r_base (rs ! i) < r_end (rs ! i)" using assms by (auto simp: rgns_ok_def)
  with 1 show "r_base (rs ! i) < r_base (rs ! j)" by simp
qed

lemma rgns_nth_end:
  assumes "rgns_ok rs" "i \<le> j" "j < length rs"
  shows "r_end (rs ! i) \<le> r_end (rs ! j)"
proof (cases "i = j")
  case False
  have "r_base (rs ! j) < r_end (rs ! j)" using assms by (auto simp: rgns_ok_def)
  with rgns_nth(1) [OF assms(1), of i j] False assms show ?thesis by simp
qed simp

lemma mb_at_nth: "mb_at rs a \<noteq> None \<longleftrightarrow> (\<exists>i<length rs. covers (rs ! i) a)"
  unfolding not_Some_eq mb_at_None by (metis in_set_conv_nth)

declare memblock_search_from.simps [simp del]

definition found_at :: "memblock_type \<Rightarrow> u64 \<Rightarrow> int \<Rightarrow> bool" where
  "found_at type a i \<longleftrightarrow> (i = - 1 \<and> mb_at (regions type) a = None) \<or>
     (0 \<le> i \<and> nat i < length (regions type) \<and> covers (regions type ! nat i) a)"

lemma search_from_ok:
  assumes "rgns_ok (regions type)" "left < right" "right \<le> length (regions type)"
    "\<forall>i<length (regions type). covers (regions type ! i) a \<longrightarrow> left \<le> i \<and> i < right"
  shows "found_at type a (memblock_search_from type a left right)"
  using assms
proof (induction type a left right rule: memblock_search_from.induct)
  case (1 type a left right)
  let ?mid = "(right + left) div 2" and ?rs = "regions type"
  have mid: "left \<le> ?mid" "?mid < right" "?mid < length ?rs" using "1.prems" by auto
  consider (low) "a < r_base (?rs ! ?mid)"
    | (high) "\<not> a < r_base (?rs ! ?mid)" "r_end (?rs ! ?mid) \<le> a" | (here) "covers (?rs ! ?mid) a"
    unfolding covers_def by fastforce
  then show ?case
  proof cases
    case low
    have "i < ?mid" if "i < length ?rs" "covers (?rs ! i) a" for i
      using rgns_nth(2) [OF "1.prems"(1), of ?mid i] low that by (cases "i = ?mid"; cases "?mid < i") (auto simp: covers_def)
    then have in_low: "\<forall>i<length ?rs. covers (?rs ! i) a \<longrightarrow> left \<le> i \<and> i < ?mid" using "1.prems"(4) by auto
    show ?thesis
    proof (cases "left < ?mid")
      case True
      then show ?thesis using 1(1) [OF refl refl low True] "1.prems"(1,3) mid in_low low
        by (simp add: memblock_search_from.simps [of type a left right] Let_def)
    next
      case False
      then have "\<not> (\<exists>i<length ?rs. covers (?rs ! i) a)" using in_low by (meson le_less_trans)
      then have "mb_at ?rs a = None" using mb_at_nth [of ?rs a] by blast
      with False low show ?thesis by (simp add: memblock_search_from.simps [of type a left right] Let_def found_at_def)
    qed
  next
    case high
    have "?mid < i" if "i < length ?rs" "covers (?rs ! i) a" for i
      using rgns_nth(1) [OF "1.prems"(1), of i ?mid] high mid that by (cases "i = ?mid"; cases "i < ?mid") (auto simp: covers_def)
    then have in_high: "\<forall>i<length ?rs. covers (?rs ! i) a \<longrightarrow> Suc ?mid \<le> i \<and> i < right" using "1.prems"(4) by (auto simp: Suc_le_eq)
    have h: "r_base (?rs ! ?mid) + r_size (?rs ! ?mid) \<le> a" using high by (simp add: r_end_def)
    show ?thesis
    proof (cases "?mid + 1 < right")
      case True
      then show ?thesis using 1(2) [OF refl refl high(1) h True] "1.prems"(1,3) in_high high(1) h
        by (simp add: memblock_search_from.simps [of type a left right] Let_def)
    next
      case False
      then have "\<not> (\<exists>i<length ?rs. covers (?rs ! i) a)" using in_high by (metis Suc_eq_plus1 le_less_trans)
      then have "mb_at ?rs a = None" using mb_at_nth [of ?rs a] by blast
      with False high(1) h show ?thesis
        by (simp add: memblock_search_from.simps [of type a left right] Let_def found_at_def)
    qed
  next
    case here
    then have "\<not> a < r_base (?rs ! ?mid)" "\<not> r_base (?rs ! ?mid) + r_size (?rs ! ?mid) \<le> a"
      by (simp_all add: covers_def r_end_def not_less not_le)
    then have "memblock_search_from type a left right = int ?mid"
      unfolding memblock_search_from.simps [of type a left right] Let_def by (simp only: if_False)
    with here mid show ?thesis by (simp add: found_at_def)
  qed
qed

lemma search_ok:
  assumes "type_ok type"
  shows "found_at type a (memblock_search type a)"
proof (cases "regions type = [empty_region]")
  case True
  then show ?thesis
    by (simp add: memblock_search_def memblock_search_from.simps found_at_def empty_region_def mb_at_Cons covers_def r_end_def)
next
  case False
  with assms show ?thesis
    using search_from_ok [of type 0 "length (regions type)" a] by (auto simp: type_ok_def memblock_search_def)
qed

section \<open>Free ranges\<close>

declare next_gap.simps [simp del] next_mem_range.simps [simp del]

definition free :: "memblock \<Rightarrow> u32 \<Rightarrow> u64 \<Rightarrow> bool" where
  "free mb flags a \<longleftrightarrow> mb_at (regions (memory mb)) a = Some flags \<and> mb_at (regions (reserved mb)) a = None"

lemma gap_free:
  assumes "type_ok type" "b \<le> length (regions type)" "gap_start type b \<le> a" "a < gap_end type b"
  shows "mb_at (regions type) a = None"
proof (cases "regions type = [empty_region]")
  case False
  then have ok: "rgns_ok (regions type)" using assms(1) by (auto simp: type_ok_def)
  have "\<not> covers (regions type ! i) a" if i: "i < length (regions type)" for i
  proof (cases "i < b")
    case True
    then have "r_end (regions type ! i) \<le> gap_start type b"
      using rgns_nth_end [OF ok, of i "b - 1"] assms(2) by (auto simp: gap_start_def simp flip: r_end_def)
    with assms(3) show ?thesis by (auto simp: covers_def)
  next
    case False
    then have "gap_end type b \<le> r_base (regions type ! i)"
      using rgns_nth(2) [OF ok, of b i] i by (cases "i = b") (auto simp: gap_end_def)
    with assms(4) show ?thesis by (auto simp: covers_def)
  qed
  then show ?thesis unfolding mb_at_None by (metis in_set_conv_nth)
qed simp

lemma region_at:
  assumes "type_ok type" "i < length (regions type)" "covers (regions type ! i) a"
  shows "mb_at (regions type) a = Some (r_flags (regions type ! i))"
proof -
  have ne: "regions type \<noteq> [empty_region]"
    using assms(2,3) by (auto simp: covers_def empty_region_def r_end_def)
  then have ok: "rgns_ok (regions type)" using assms(1) by (auto simp: type_ok_def)
  let ?rs = "regions type"
  have "\<not> covers r a" if r: "r \<in> set (take i ?rs)" for r
  proof -
    obtain j where j: "j < i" "r = ?rs ! j" using r by (metis in_set_conv_nth length_take min_less_iff_conj nth_take)
    with rgns_nth(1) [OF ok, of j i] assms(2,3) show ?thesis by (auto simp: covers_def)
  qed
  then have "mb_at (take i ?rs) a = None" by (simp add: mb_at_None)
  moreover have "?rs = take i ?rs @ ?rs ! i # drop (Suc i) ?rs" using assms(2) by (rule id_take_nth_drop)
  ultimately show ?thesis using assms(3) mb_at_append [of "take i ?rs" "?rs ! i # drop (Suc i) ?rs" a]
    by (simp add: mb_at_Cons)
qed

lemma next_gap_ok:
  assumes "b \<le> length (regions type) + 1"
  shows "case next_gap type s e b of
     Inl b' \<Rightarrow> b \<le> b' \<and> b' \<le> length (regions type) + 1
   | Inr b' \<Rightarrow> b \<le> b' \<and> b' \<le> length (regions type) \<and> gap_start type b' < e \<and> s < gap_end type b'"
  using assms
proof (induction type s e b rule: next_gap.induct)
  case (1 type s e b)
  then show ?case by (subst (1) next_gap.simps) (auto simp: not_le split: sum.splits)
qed

text \<open>What one call of the iterator promises: free memory only, and the indices move on.\<close>

definition range_ok :: "memblock \<Rightarrow> u32 \<Rightarrow> u64 \<Rightarrow> u64 \<Rightarrow> bool" where
  "range_ok mb flags s e \<longleftrightarrow> (\<forall>x. s \<le> x \<and> x < e \<longrightarrow> free mb flags x)"

lemma range_okI:
  assumes "type_ok (memory mb)" "type_ok (reserved mb)" "a < length (regions (memory mb))"
    "b \<le> length (regions (reserved mb))" "flags = r_flags (regions (memory mb) ! a)"
  shows "range_ok mb flags (max (r_base (regions (memory mb) ! a)) (gap_start (reserved mb) b))
     (min (r_base (regions (memory mb) ! a) + r_size (regions (memory mb) ! a)) (gap_end (reserved mb) b))"
  using region_at [OF assms(1,3)] gap_free [OF assms(2,4)] assms(5)
  by (auto simp: range_ok_def free_def covers_def r_end_def)

lemma next_range_at:
  assumes "a < length (regions A)"
  shows "next_mem_range flags A B a b =
     (let m = regions A ! a; m_start = r_base m; m_end = r_base m + r_size m in
        if flags \<noteq> r_flags m then next_mem_range flags A B (a + 1) b
        else (case B of
            None \<Rightarrow> Some (m_start, m_end, a + 1, b)
          | Some tb \<Rightarrow>
              (case next_gap tb m_start m_end b of
                 Inl b' \<Rightarrow> next_mem_range flags A B (a + 1) b'
               | Inr b' \<Rightarrow>
                   Some (max m_start (gap_start tb b'), min m_end (gap_end tb b'),
                         (if m_end \<le> gap_end tb b' then a + 1 else a),
                         (if m_end \<le> gap_end tb b' then b' else b' + 1)))))"
  using assms by (subst next_mem_range.simps) simp

lemma next_mem_range_ok:
  assumes "type_ok (memory mb)" "type_ok (reserved mb)" "b \<le> length (regions (reserved mb)) + 1"
    "next_mem_range flags (memory mb) (Some (reserved mb)) a b = Some (s, e, a', b')"
  shows "range_ok mb flags s e \<and> a' \<le> length (regions (memory mb)) \<and> b' \<le> length (regions (reserved mb)) + 1 \<and>
    a + b < a' + b'"
  using assms
proof (induction flags "memory mb" "Some (reserved mb)" a b rule: next_mem_range.induct)
  case (1 flags a b)
  have a: "a < length (regions (memory mb))"
    using "1.prems"(4) by (auto simp: next_mem_range.simps split: if_splits)
  let ?m = "regions (memory mb) ! a"
  show ?case
  proof (cases "flags = r_flags ?m")
    case False
    then show ?thesis using 1(1) [OF a refl refl refl False] "1.prems" a
      by (auto simp: next_range_at [OF a] Let_def)
  next
    case True
    let ?g = "next_gap (reserved mb) (r_base ?m) (r_base ?m + r_size ?m) b"
    show ?thesis
    proof (cases ?g)
      case (Inl b1)
      then have "b \<le> b1" "b1 \<le> length (regions (reserved mb)) + 1"
        using next_gap_ok [OF "1.prems"(3), of "r_base ?m + r_size ?m" "r_base ?m"] by auto
      with Inl show ?thesis
        using 1(2) [OF a refl refl refl _ refl Inl] "1.prems" a True
        by (auto simp: next_range_at [OF a] Let_def)
    next
      case (Inr b1)
      then have b1: "b \<le> b1" "b1 \<le> length (regions (reserved mb))"
        using next_gap_ok [OF "1.prems"(3), of "r_base ?m + r_size ?m" "r_base ?m"] by auto
      with Inr True a "1.prems"(4) range_okI [OF "1.prems"(1,2) a b1(2) True] show ?thesis
        by (auto simp: next_range_at [OF a] Let_def split: if_splits)
    qed
  qed
qed

lemma next_gap_rev_ok:
  assumes "b \<le> length (regions type) + 1"
  shows "case next_gap_rev type s e b of
     Inl b' \<Rightarrow> b' \<le> b
   | Inr b' \<Rightarrow> b' < b \<and> b' \<le> length (regions type)"
  using assms by (induction b) (auto split: sum.splits)

lemma next_mem_range_rev_ok:
  assumes "type_ok (memory mb)" "type_ok (reserved mb)" "a \<le> length (regions (memory mb))"
    "b \<le> length (regions (reserved mb)) + 1"
    "next_mem_range_rev flags (memory mb) (Some (reserved mb)) a b = Some (s, e, a', b')"
  shows "range_ok mb flags s e \<and> a' \<le> length (regions (memory mb)) \<and> b' \<le> length (regions (reserved mb)) + 1 \<and>
    a' + b' < a + b"
  using assms
proof (induction a arbitrary: b)
  case (Suc a)
  let ?m = "regions (memory mb) ! a"
  have a: "a < length (regions (memory mb))" using Suc.prems by simp
  show ?case
  proof (cases "flags = r_flags ?m")
    case False
    then show ?thesis using Suc.IH [of b] Suc.prems by (auto simp: Let_def)
  next
    case True
    note gap = next_gap_rev_ok [OF Suc.prems(4), of "r_base ?m" "r_base ?m + r_size ?m"]
    show ?thesis
    proof (cases "next_gap_rev (reserved mb) (r_base ?m) (r_base ?m + r_size ?m) b")
      case (Inl b1)
      then show ?thesis using Suc.IH [of b1] gap Suc.prems True by (auto simp: Let_def)
    next
      case (Inr b1)
      with gap have b1: "b1 < b" "b1 \<le> length (regions (reserved mb))" by auto
      with Inr True Suc.prems range_okI [OF Suc.prems(1,2) a b1(2) True] show ?thesis
        by (auto simp: Let_def split: if_splits)
    qed
  qed
qed simp

section \<open>Rounding and clamping\<close>

lemma round_up_ge: "round_up x a = 0 \<or> x \<le> round_up x a"
proof (cases "(x - 1) OR (a - 1) = - 1")
  case False
  let ?y = "(x - 1) OR (a - 1)"
  have "?y < ?y + 1" using inc_less_eq_triv_imp [of ?y] False by (auto simp: not_le [symmetric])
  then have "x - 1 < ?y + 1" using le_word_or2 [of "x - 1" "a - 1"] by simp
  then have "x \<le> ?y + 1" by (rule dec_less_imp_less_eq)
  then show ?thesis by (simp add: round_up_def)
qed (simp add: round_up_def)

lemma round_up_aligned: "round_up x (2 ^ k) AND (2 ^ k - 1) = 0"
proof -
  have m: "(2 ^ k - 1 :: u64) = mask k" by (simp add: mask_eq_decr_exp)
  have "(x - 1) OR mask k = push_bit k (drop_bit k (x - 1)) OR mask k" by (rule bit_eqI) (auto simp: bit_simps)
  also have "\<dots> = push_bit k (drop_bit k (x - 1)) + mask k"
    by (rule disjunctive_add_eq_or [symmetric]) (rule bit_eqI, auto simp: bit_simps)
  finally have "((x - 1) OR mask k) + 1 = push_bit k (drop_bit k (x - 1)) + push_bit k 1"
    by (simp add: mask_eq_decr_exp push_bit_eq_mult)
  then have "round_up x (2 ^ k) = push_bit k (drop_bit k (x - 1) + 1)" by (simp add: push_bit_add round_up_def m)
  then show ?thesis unfolding m by (simp add: bit_eq_iff bit_simps)
qed

lemma round_down_le: "round_down x a \<le> x"
  by (simp add: round_down_def word_and_le2)

lemma round_down_aligned: "round_down x a AND (a - 1) = 0"
  by (simp add: round_down_def and.assoc)

lemma clamp_between:
  assumes "lo \<le> hi" "clamp s lo hi \<le> x" "x < clamp e lo hi"
  shows "s \<le> x" "x < e"
  using assms by (auto simp: clamp_def min_def max_def split: if_splits)

lemma clamp_bounds: "lo \<le> hi \<Longrightarrow> lo \<le> clamp s lo hi" "clamp s lo hi \<le> hi"
  by (auto simp: clamp_def)

section \<open>Finding a block\<close>

definition block_ok :: "memblock \<Rightarrow> u32 \<Rightarrow> u64 \<Rightarrow> u64 \<Rightarrow> u64 \<Rightarrow> u64 \<Rightarrow> u64 \<Rightarrow> bool" where
  "block_ok mb flags lo hi sz align r \<longleftrightarrow> r AND (align - 1) = 0 \<and> lo \<le> r \<and> r \<le> r + sz \<and> r + sz \<le> hi \<and>
     range_ok mb flags r (r + sz)"

lemma block_okI:
  assumes "range_ok mb flags s e" "lo \<le> hi" "r AND (align - 1) = 0" "clamp s lo hi \<le> r" "r \<le> r + sz"
    "r + sz \<le> clamp e lo hi"
  shows "block_ok mb flags lo hi sz align r"
proof -
  have "range_ok mb flags r (r + sz)"
    unfolding range_ok_def
  proof (intro allI impI)
    fix x assume x: "r \<le> x \<and> x < r + sz"
    then have "clamp s lo hi \<le> x" "x < clamp e lo hi" using assms(4,6) by auto
    with clamp_between [OF assms(2)] assms(1) show "free mb flags x" by (auto simp: range_ok_def)
  qed
  then show ?thesis
    using assms clamp_bounds(1) [OF assms(2), of s] clamp_bounds(2) [of e lo hi]
    by (auto simp: block_ok_def intro: order.trans)
qed

lemma no_wrap_above:
  fixes r e :: u64
  assumes "r < e" "sz \<le> e - r"
  shows "r \<le> r + sz" "r + sz \<le> e"
  using assms word_plus_mono_right2 [of r "e - r" sz] le_plus' [of r e sz] by simp_all

lemma no_wrap_below:
  fixes r e :: u64
  assumes "sz \<le> e" "r \<le> e - sz"
  shows "r \<le> r + sz" "r + sz \<le> e"
proof -
  have "sz \<le> sz + r" using word_plus_mono_right2 [of sz "e - sz" r] assms by simp
  then show "r \<le> r + sz" unfolding no_olen_add by (simp only: add.commute)
  show "r + sz \<le> e" using le_plus' [of sz e r] assms by (simp add: add.commute)
qed

lemma find_range_bottom_up_ok:
  assumes ok: "type_ok (memory mb)" "type_ok (reserved mb)" "lo \<le> hi"
  shows "a \<le> length (regions (memory mb)) \<Longrightarrow> b \<le> length (regions (reserved mb)) + 1 \<Longrightarrow>
    length (regions (memory mb)) + length (regions (reserved mb)) + 1 < n + (a + b) \<Longrightarrow>
    \<exists>r. find_range_bottom_up n mb lo hi sz (2 ^ k) flags a b = Some r \<and>
      (r \<noteq> 0 \<longrightarrow> block_ok mb flags lo hi sz (2 ^ k) r)"
proof (induction n arbitrary: a b)
  case (Suc n)
  show ?case
  proof (cases "next_mem_range flags (memory mb) (Some (reserved mb)) a b")
    case (Some x)
    obtain s e a' b' where x: "x = (s, e, a', b')" by (cases x)
    note nx = next_mem_range_ok [OF ok(1,2) Suc.prems(2) Some [unfolded x]]
    let ?cand = "round_up (clamp s lo hi) (2 ^ k)" and ?e = "clamp e lo hi"
    show ?thesis
    proof (cases "?cand < ?e \<and> ?e - ?cand \<ge> sz")
      case True
      have "block_ok mb flags lo hi sz (2 ^ k) ?cand" if "?cand \<noteq> 0"
        using nx that True round_up_ge [of "clamp s lo hi" "2 ^ k"] no_wrap_above [of ?cand ?e sz] round_up_aligned
        by (intro block_okI [of mb flags s e] ok(3)) auto
      with True Some x show ?thesis by (simp add: Let_def)
    next
      case False
      with nx Suc.IH [of a' b'] Suc.prems Some x show ?thesis by (auto simp: Let_def)
    qed
  qed simp
qed simp

lemma find_range_top_down_ok:
  assumes ok: "type_ok (memory mb)" "type_ok (reserved mb)" "lo \<le> hi"
  shows "a \<le> length (regions (memory mb)) \<Longrightarrow> b \<le> length (regions (reserved mb)) + 1 \<Longrightarrow> a + b < n \<Longrightarrow>
    \<exists>r. find_range_top_down n mb lo hi sz align flags a b = Some r \<and>
      (r \<noteq> 0 \<longrightarrow> block_ok mb flags lo hi sz align r)"
proof (induction n arbitrary: a b)
  case (Suc n)
  show ?case
  proof (cases "next_mem_range_rev flags (memory mb) (Some (reserved mb)) a b")
    case (Some x)
    obtain s e a' b' where x: "x = (s, e, a', b')" by (cases x)
    note nx = next_mem_range_rev_ok [OF ok(1,2) Suc.prems(1,2) Some [unfolded x]]
    let ?e = "clamp e lo hi"
    let ?cand = "round_down (?e - sz) align"
    show ?thesis
    proof (cases "\<not> ?e < sz \<and> ?cand \<ge> clamp s lo hi")
      case True
      then have "block_ok mb flags lo hi sz align ?cand"
        using nx no_wrap_below [of sz ?e ?cand] round_down_le [of "?e - sz" align] round_down_aligned
        by (intro block_okI [of mb flags s e] ok(3)) (auto simp: not_less)
      with True Some x show ?thesis by (simp add: Let_def)
    next
      case False
      with nx Suc.IH [of a' b'] Suc.prems Some x show ?thesis by (auto simp: Let_def)
    qed
  qed simp
qed simp

text \<open>The limits \<^verbatim>\<open>__memblock_find_in_range\<close> works with.\<close>

definition find_lo :: "u64 \<Rightarrow> u64" where
  "find_lo start = max start PAGE_SIZE"

definition find_hi :: "memblock \<Rightarrow> u64 \<Rightarrow> u64 \<Rightarrow> u64" where
  "find_hi mb start end = max (find_lo start) (if end = MEMBLOCK_ALLOC_ACCESSIBLE then current_limit mb else end)"

lemma find_in_range_ok:
  assumes ok: "type_ok (memory mb)" "type_ok (reserved mb)"
  shows "\<exists>r. memblock_find_in_range_flags mb sz (2 ^ k) start end flags = Some r \<and>
    (r \<noteq> 0 \<longrightarrow> block_ok mb flags (find_lo start) (find_hi mb start end) sz (2 ^ k) r)"
proof -
  let ?lo = "find_lo start" and ?hi = "find_hi mb start end"
  have le: "?lo \<le> ?hi" by (simp add: find_hi_def)
  have eq: "memblock_find_in_range_flags mb sz (2 ^ k) start end flags =
      (if bottom_up mb
       then Option.bind (memblock_find_range_bottom_up mb ?lo ?hi sz (2 ^ k) flags)
         (\<lambda>ret. if ret \<noteq> 0 then Some ret else memblock_find_range_top_down mb ?lo ?hi sz (2 ^ k) flags)
       else memblock_find_range_top_down mb ?lo ?hi sz (2 ^ k) flags)"
    unfolding memblock_find_in_range_flags_def Let_def find_lo_def find_hi_def by (rule refl)
  obtain d where d: "memblock_find_range_top_down mb ?lo ?hi sz (2 ^ k) flags = Some d"
    "d \<noteq> 0 \<longrightarrow> block_ok mb flags ?lo ?hi sz (2 ^ k) d"
    using find_range_top_down_ok [OF ok le, of "length (regions (memory mb))" "Suc (length (regions (reserved mb)))"
        "range_rounds mb" sz "2 ^ k" flags]
    by (auto simp: memblock_find_range_top_down_def)
  obtain u where u: "memblock_find_range_bottom_up mb ?lo ?hi sz (2 ^ k) flags = Some u"
    "u \<noteq> 0 \<longrightarrow> block_ok mb flags ?lo ?hi sz (2 ^ k) u"
    using find_range_bottom_up_ok [OF ok le, of 0 0 "range_rounds mb" sz k flags]
    by (auto simp: memblock_find_range_bottom_up_def)
  show ?thesis unfolding eq using d u by auto
qed

section \<open>Allocating a block\<close>

lemma cap_size_id:
  assumes "r \<le> r + sz"
  shows "memblock_cap_size r sz = sz"
proof -
  have "uint r + uint sz < 2 ^ 64" using assms no_olen_add [of r sz] by simp
  moreover have "uint (- 1 - r) = 2 ^ 64 - 1 - uint r"
    using uint_sub_lem [of r "- 1"] uint_lt2p [of r] by (simp add: uint_word_ariths)
  ultimately have "sz \<le> - 1 - r" by (simp add: word_le_def)
  then show ?thesis by (simp add: memblock_cap_size_def)
qed

definition reserves :: "memblock \<Rightarrow> u64 \<Rightarrow> u64 \<Rightarrow> memblock \<Rightarrow> bool" where
  "reserves mb r sz mb' \<longleftrightarrow> memory mb' = memory mb \<and> type_ok (reserved mb') \<and>
     bottom_up mb' = bottom_up mb \<and> current_limit mb' = current_limit mb \<and>
     mb_at (regions (reserved mb')) = added r (r + sz) 0 (mb_at (regions (reserved mb)))"

lemma reserve_ok:
  assumes "type_ok (reserved mb)" "r \<le> r + sz"
  shows "memblock_reserve mb r sz = Some (mb, - ENOMEM) \<or>
    (\<exists>mb'. memblock_reserve mb r sz = Some (mb', 0) \<and> reserves mb r sz mb')"
  using add_range_ok [OF assms(1), of r sz 0] cap_size_id [OF assms(2)]
  by (auto simp: memblock_reserve_def reserves_def)

lemma alloc_range_ok:
  assumes ok: "type_ok (memory mb)" "type_ok (reserved mb)"
  shows "memblock_alloc_range mb sz (2 ^ k) start end flags = Some (mb, 0) \<or>
    (\<exists>r mb'. memblock_alloc_range mb sz (2 ^ k) start end flags = Some (mb', r) \<and> r \<noteq> 0 \<and>
      block_ok mb flags (find_lo start) (find_hi mb start end) sz (2 ^ k) r \<and> reserves mb r sz mb')"
proof (cases "(2 :: u64) ^ k = 0")
  case False
  obtain r where r: "memblock_find_in_range_flags mb sz (2 ^ k) start end flags = Some r"
    "r \<noteq> 0 \<longrightarrow> block_ok mb flags (find_lo start) (find_hi mb start end) sz (2 ^ k) r"
    using find_in_range_ok [OF ok] by blast
  show ?thesis
  proof (cases "r = 0")
    case True
    with False r show ?thesis by (simp add: memblock_alloc_range_def)
  next
    case nz: False
    with r have b: "block_ok mb flags (find_lo start) (find_hi mb start end) sz (2 ^ k) r" by simp
    then have "r \<le> r + sz" by (simp add: block_ok_def)
    with reserve_ok [OF ok(2), of r sz] False r b nz show ?thesis by (auto simp: memblock_alloc_range_def)
  qed
qed (simp add: memblock_alloc_range_def)

end
