(* ===== verification/Memblock_Iter.thy ===== *)
theory Memblock_Iter
  imports Memblock_Alloc
begin

text \<open>
  The loops \<^verbatim>\<open>for_each_free_mem_range\<close>, \<^verbatim>\<open>for_each_reserved_mem_region\<close> and \<^verbatim>\<open>for_each_mem_pfn_range\<close> of
  \<^verbatim>\<open>memblock.h\<close>. Their bodies do not change the arrays, so a loop is the list of the ranges it visits. The
  free ranges visited are disjoint and together are the free memory with the given flags.
\<close>

section \<open>The loops\<close>

text \<open>
  Each call of the iterator moves one of its two indices, so the number of regions bounds the rounds;
  running out of them is \<open>None\<close>, and does not happen.
\<close>

fun free_ranges_from :: "nat \<Rightarrow> memblock \<Rightarrow> u32 \<Rightarrow> nat \<Rightarrow> nat \<Rightarrow> (u64 \<times> u64) list option" where
  "free_ranges_from 0 mb flags a b = None"
| "free_ranges_from (Suc n) mb flags a b =
     (case next_mem_range flags (memory mb) (Some (reserved mb)) a b of
        None \<Rightarrow> Some []
      | Some (start, end, a', b') \<Rightarrow> map_option ((#) (start, end)) (free_ranges_from n mb flags a' b'))"

definition for_each_free_mem_range :: "memblock \<Rightarrow> u32 \<Rightarrow> (u64 \<times> u64) list option" where
  "for_each_free_mem_range mb flags =
     free_ranges_from (length (regions (memory mb)) + length (regions (reserved mb)) + 2) mb flags 0 0"

function reserved_from :: "memblock \<Rightarrow> nat \<Rightarrow> (u64 \<times> u64) list" where
  "reserved_from mb idx =
     (case next_reserved_mem_region mb idx of
        None \<Rightarrow> []
      | Some (start, end, idx') \<Rightarrow> (start, end) # reserved_from mb idx')"
  by pat_completeness auto
termination
  by (relation "measure (\<lambda>(mb, idx). length (regions (reserved mb)) - idx)")
    (auto simp: next_reserved_mem_region_def Let_def split: if_splits)

definition for_each_reserved_mem_region :: "memblock \<Rightarrow> (u64 \<times> u64) list" where
  "for_each_reserved_mem_region mb = reserved_from mb 0"

fun mem_pfn_from :: "nat \<Rightarrow> memblock \<Rightarrow> nat \<Rightarrow> (u64 \<times> u64) list" where
  "mem_pfn_from 0 mb idx = []"
| "mem_pfn_from (Suc n) mb idx =
     (case next_mem_pfn_range mb idx of
        None \<Rightarrow> []
      | Some (start, end, i) \<Rightarrow> (start, end) # mem_pfn_from n mb (i + 1))"

text \<open>The index grows in each round, so as many rounds as there are regions suffice.\<close>

definition for_each_mem_pfn_range :: "memblock \<Rightarrow> (u64 \<times> u64) list" where
  "for_each_mem_pfn_range mb = mem_pfn_from (length (regions (memory mb))) mb 0"

section \<open>The free ranges are the free memory\<close>

text \<open>
  \<open>ahead\<close>: address \<open>x\<close> is free, lies in a region not before \<open>a\<close> and in a gap between reservations not
  before \<open>b\<close>. It is what the iterator at \<open>(a, b)\<close> has still to visit.
\<close>

definition in_gap :: "memblock_type \<Rightarrow> nat \<Rightarrow> u64 \<Rightarrow> bool" where
  "in_gap type g x \<longleftrightarrow> g \<le> length (regions type) \<and> gap_start type g \<le> x \<and> x < gap_end type g"

definition ahead :: "memblock \<Rightarrow> u32 \<Rightarrow> nat \<Rightarrow> nat \<Rightarrow> u64 \<Rightarrow> bool" where
  "ahead mb flags a b x \<longleftrightarrow>
     (\<exists>i\<ge>a. i < length (regions (memory mb)) \<and> covers (regions (memory mb) ! i) x \<and> r_flags (regions (memory mb) ! i) = flags) \<and>
     (\<exists>g\<ge>b. in_gap (reserved mb) g x)"

lemma gap_order:
  assumes "type_ok type" "g < g'" "g' \<le> length (regions type)"
  shows "gap_end type g \<le> gap_start type g'"
proof (cases "regions type = [empty_region]")
  case True
  then have "g = 0" "g' = 1" using assms(2,3) by auto
  then show ?thesis using True by (simp add: gap_end_def empty_region_def)
next
  case False
  then have ok: "rgns_ok (regions type)" using assms(1) by (auto simp: type_ok_def)
  have g: "g < length (regions type)" using assms by simp
  have "r_base (regions type ! g) \<le> r_end (regions type ! g)" using ok g by (auto simp: rgns_ok_def intro: less_imp_le)
  also have "\<dots> \<le> r_end (regions type ! (g' - 1))" by (rule rgns_nth_end [OF ok]) (use assms in auto)
  finally show ?thesis using assms(2) g by (simp add: gap_end_def gap_start_def r_end_def)
qed

lemma gap_in:
  assumes "type_ok type" "g < length (regions type)"
  shows "gap_start type g \<le> gap_end type g"
proof (cases "g = 0")
  case False
  then show ?thesis using assms rgns_nth(1) [of "regions type" "g - 1" g]
    by (auto simp: type_ok_def gap_start_def gap_end_def simp flip: r_end_def)
qed (simp add: gap_start_def)

lemma region_order:
  assumes "type_ok type" "i < j" "j < length (regions type)"
  shows "r_end (regions type ! i) \<le> r_base (regions type ! j)"
  using assms rgns_nth(1) [of "regions type" i j] by (auto simp: type_ok_def)

lemma covers_end: "covers r x \<Longrightarrow> x < PHYS_ADDR_MAX"
  using order_less_le_trans [of x "r_end r" "- 1"] by (simp add: covers_def)

lemma ahead_start:
  assumes "type_ok (memory mb)" "type_ok (reserved mb)"
  shows "ahead mb flags 0 0 x \<longleftrightarrow> free mb flags x"
proof
  assume "ahead mb flags 0 0 x"
  then show "free mb flags x"
    using region_at [OF assms(1)] gap_free [OF assms(2)] by (auto simp: ahead_def in_gap_def free_def)
next
  assume f: "free mb flags x"
  have "mb_at (regions (memory mb)) x \<noteq> None" using f by (simp add: free_def)
  then obtain i where i: "i < length (regions (memory mb))" "covers (regions (memory mb) ! i) x" unfolding mb_at_nth by blast
  have fl: "r_flags (regions (memory mb) ! i) = flags" using region_at [OF assms(1) i] f by (simp add: free_def)
  let ?t = "reserved mb"
  let ?P = "\<lambda>g. g \<le> length (regions ?t) \<and> x < gap_end ?t g"
  have ex: "?P (length (regions ?t))" using covers_end [OF i(2)] by (simp add: gap_end_def)
  define g where "g = (LEAST g. ?P g)"
  have g: "?P g" unfolding g_def using ex by (rule LeastI)
  have "gap_start ?t g \<le> x"
  proof (cases g)
    case (Suc h)
    then have h: "h < length (regions ?t)" "\<not> x < gap_end ?t h" using g not_less_Least [of h ?P] by (auto simp: g_def)
    then have "\<not> covers (regions ?t ! h) x" using f by (auto simp: free_def mb_at_None)
    with h Suc show ?thesis by (auto simp: gap_end_def gap_start_def covers_def r_end_def not_less not_le)
  qed (simp add: gap_start_def)
  with g i fl show "ahead mb flags 0 0 x" by (auto simp: ahead_def in_gap_def)
qed

lemma next_gap_ahead:
  assumes ok: "type_ok (memory mb)" "type_ok (reserved mb)" and a: "a < length (regions (memory mb))"
    and m: "m_start = r_base (regions (memory mb) ! a)" "m_end = r_end (regions (memory mb) ! a)"
  shows "ahead mb flags a (case next_gap (reserved mb) m_start m_end b of Inl b' \<Rightarrow> b' | Inr b' \<Rightarrow> b') x = ahead mb flags a b x"
  using m
proof (induction "reserved mb" m_start m_end b rule: next_gap.induct)
  case (1 m_start m_end b)
  show ?case
  proof (cases "b < length (regions (reserved mb)) + 1 \<and> gap_start (reserved mb) b < m_end \<and> gap_end (reserved mb) b \<le> m_start")
    case False
    then show ?thesis by (subst next_gap.simps) (auto simp: not_le not_less)
  next
    case True
    have "\<not> in_gap (reserved mb) b x" if c: "i \<ge> a" "i < length (regions (memory mb))" "covers (regions (memory mb) ! i) x" for i
    proof -
      have "r_base (regions (memory mb) ! a) \<le> r_base (regions (memory mb) ! i)"
        using rgns_nth(2) [of "regions (memory mb)" a i] c(1,2) ok(1) by (cases "a = i") (auto simp: type_ok_def)
      then have "gap_end (reserved mb) b \<le> x" using True c(3) "1.prems"(1) by (auto simp: covers_def)
      then show ?thesis by (simp add: in_gap_def not_less)
    qed
    then have "ahead mb flags a (b + 1) x = ahead mb flags a b x" unfolding ahead_def
      by (metis Suc_eq_plus1 Suc_leD Suc_leI le_neq_implies_less)
    moreover have "ahead mb flags a (case next_gap (reserved mb) m_start m_end (b + 1) of Inl b' \<Rightarrow> b' | Inr b' \<Rightarrow> b') x =
        ahead mb flags a (b + 1) x"
      using 1(1) True "1.prems" by (auto simp: not_le not_less)
    ultimately show ?thesis using True by (subst next_gap.simps) (simp add: not_le not_less)
  qed
qed

lemma next_gap_stop:
  "next_gap type m_start m_end b = Inl b' \<Longrightarrow> length (regions type) < b' \<or> m_end \<le> gap_start type b'"
proof (induction type m_start m_end b rule: next_gap.induct)
  case (1 type m_start m_end b)
  then show ?case by (subst (asm) (2) next_gap.simps) (auto simp: not_le split: if_splits)
qed

lemma ahead_skip:
  assumes "type_ok (memory mb)" "type_ok (reserved mb)" "a < length (regions (memory mb))"
    "length (regions (reserved mb)) < b \<or> r_end (regions (memory mb) ! a) \<le> gap_start (reserved mb) b \<or>
      r_flags (regions (memory mb) ! a) \<noteq> flags"
  shows "ahead mb flags (a + 1) b x = ahead mb flags a b x"
proof -
  have "gap_start (reserved mb) b \<le> gap_start (reserved mb) g" if "b \<le> g" "in_gap (reserved mb) g x" for g
  proof (cases "g = b")
    case False
    then have "gap_end (reserved mb) b \<le> gap_start (reserved mb) g"
      using gap_order [OF assms(2), of b g] that by (auto simp: in_gap_def)
    moreover have "gap_start (reserved mb) b \<le> gap_end (reserved mb) b" using that False gap_in [OF assms(2), of b] by (auto simp: in_gap_def)
    ultimately show ?thesis by simp
  qed simp
  then have "\<not> (covers (regions (memory mb) ! a) x \<and> r_flags (regions (memory mb) ! a) = flags)"
    if "b \<le> g" "in_gap (reserved mb) g x" for g
    using that assms(4) by (fastforce simp: in_gap_def covers_def)
  then show ?thesis unfolding ahead_def by (metis Suc_eq_plus1 Suc_leD Suc_leI le_neq_implies_less)
qed

lemma ahead_here:
  fixes x :: u64
  assumes ok: "type_ok (memory mb)" "type_ok (reserved mb)" and a: "a < length (regions (memory mb))"
    and f: "r_flags (regions (memory mb) ! a) = flags" and b: "b \<le> length (regions (reserved mb))"
  defines "here \<equiv> covers (regions (memory mb) ! a) x \<and> in_gap (reserved mb) b x"
    and "m_end \<equiv> r_end (regions (memory mb) ! a)"
  shows "m_end \<le> gap_end (reserved mb) b \<Longrightarrow> (ahead mb flags a b x \<longleftrightarrow> here \<or> ahead mb flags (a + 1) b x) \<and>
      \<not> (here \<and> ahead mb flags (a + 1) b x)"
    "gap_end (reserved mb) b < m_end \<Longrightarrow> (ahead mb flags a b x \<longleftrightarrow> here \<or> ahead mb flags a (b + 1) x) \<and>
      \<not> (here \<and> ahead mb flags a (b + 1) x)"
proof -
  have later: "\<not> covers (regions (memory mb) ! i) x" if "covers (regions (memory mb) ! a) x" "a < i" "i < length (regions (memory mb))" for i
    using region_order [OF ok(1) that(2,3)] that(1) by (auto simp: covers_def)
  have later_gap: "\<not> in_gap (reserved mb) g x" if "in_gap (reserved mb) b x" "b < g" for g
    using gap_order [OF ok(2) that(2)] that(1) by (auto simp: in_gap_def)
  have far: "gap_end (reserved mb) b \<le> x" if "in_gap (reserved mb) g x" "b < g" for g
    using gap_order [OF ok(2) that(2)] that(1) by (auto simp: in_gap_def)
  have beyond: "m_end \<le> x" if "covers (regions (memory mb) ! i) x" "a < i" "i < length (regions (memory mb))" for i
    using region_order [OF ok(1) that(2,3)] that(1) by (auto simp: covers_def m_end_def)
  show "(ahead mb flags a b x \<longleftrightarrow> here \<or> ahead mb flags (a + 1) b x) \<and> \<not> (here \<and> ahead mb flags (a + 1) b x)"
    if le: "m_end \<le> gap_end (reserved mb) b"
  proof -
    have "in_gap (reserved mb) b x" if "covers (regions (memory mb) ! a) x" "g \<ge> b" "in_gap (reserved mb) g x" for g
      using far [OF that(3)] that le by (cases "g = b") (auto simp: covers_def m_end_def)
    then show ?thesis unfolding ahead_def here_def
      by (metis Suc_eq_plus1 Suc_le_eq Suc_leD a f later le_eq_less_or_eq order_refl)
  qed
  show "(ahead mb flags a b x \<longleftrightarrow> here \<or> ahead mb flags a (b + 1) x) \<and> \<not> (here \<and> ahead mb flags a (b + 1) x)"
    if lt: "gap_end (reserved mb) b < m_end"
  proof -
    have "i = a" if "covers (regions (memory mb) ! i) x" "i \<ge> a" "i < length (regions (memory mb))" "in_gap (reserved mb) b x" for i
      using beyond [OF that(1) _ that(3)] that lt by (cases "i = a") (auto simp: in_gap_def)
    then show ?thesis unfolding ahead_def here_def
      by (metis Suc_eq_plus1 Suc_le_eq Suc_leD a f later_gap le_eq_less_or_eq order_refl)
  qed
qed

lemma here_range:
  "b \<le> length (regions (reserved mb)) \<Longrightarrow>
    covers (regions (memory mb) ! a) x \<and> in_gap (reserved mb) b x \<longleftrightarrow>
      max (r_base (regions (memory mb) ! a)) (gap_start (reserved mb) b) \<le> x \<and>
      x < min (r_end (regions (memory mb) ! a)) (gap_end (reserved mb) b)"
  by (auto simp: covers_def in_gap_def)

definition visits :: "memblock \<Rightarrow> u32 \<Rightarrow> nat \<Rightarrow> nat \<Rightarrow> (u64 \<times> u64 \<times> nat \<times> nat) option \<Rightarrow> u64 \<Rightarrow> bool" where
  "visits mb flags a b r x \<longleftrightarrow>
     (case r of
        None \<Rightarrow> \<not> ahead mb flags a b x
      | Some (s, e, a', b') \<Rightarrow> (ahead mb flags a b x \<longleftrightarrow> s \<le> x \<and> x < e \<or> ahead mb flags a' b' x) \<and>
          \<not> (s \<le> x \<and> x < e \<and> ahead mb flags a' b' x))"

lemma visits_cong: "ahead mb flags a b x = ahead mb flags a1 b1 x \<Longrightarrow> visits mb flags a b r x = visits mb flags a1 b1 r x"
  by (simp add: visits_def split: option.splits)

lemma next_mem_range_visits:
  assumes ok: "type_ok (memory mb)" "type_ok (reserved mb)" and b: "b \<le> length (regions (reserved mb)) + 1"
  shows "visits mb flags a b (next_mem_range flags (memory mb) (Some (reserved mb)) a b) x"
  using b
proof (induction flags "memory mb" "Some (reserved mb)" a b rule: next_mem_range.induct)
  case (1 flags a b)
  show ?case
  proof (cases "a < length (regions (memory mb))")
    case False
    then show ?thesis by (subst next_mem_range.simps) (simp add: visits_def ahead_def)
  next
    case a: True
    let ?m = "regions (memory mb) ! a"
    let ?g = "next_gap (reserved mb) (r_base ?m) (r_base ?m + r_size ?m) b"
    show ?thesis
    proof (cases "flags = r_flags ?m")
      case False
      then have "ahead mb flags a b x = ahead mb flags (a + 1) b x" using ahead_skip [OF ok a] by simp
      from visits_cong [OF this] show ?thesis
        using 1(1) [OF a refl refl refl False] "1.prems" False by (simp add: next_range_at [OF a] Let_def)
    next
      case f: True
      have g: "ahead mb flags a (case ?g of Inl b' \<Rightarrow> b' | Inr b' \<Rightarrow> b') x = ahead mb flags a b x"
        by (rule next_gap_ahead [OF ok a]) (simp_all add: r_end_def)
      note bnd = next_gap_ok [OF "1.prems", of "r_base ?m + r_size ?m" "r_base ?m"]
      show ?thesis
      proof (cases ?g)
        case (Inl b1)
        have "length (regions (reserved mb)) < b1 \<or> r_end ?m \<le> gap_start (reserved mb) b1"
          using next_gap_stop [OF Inl] by (simp add: r_end_def)
        then have "ahead mb flags (a + 1) b1 x = ahead mb flags a b1 x" using ahead_skip [OF ok a] by blast
        then have "ahead mb flags a b x = ahead mb flags (a + 1) b1 x" using g Inl by simp
        from visits_cong [OF this] show ?thesis
          using 1(2) [OF a refl refl refl _ refl Inl] bnd Inl f by (simp add: next_range_at [OF a] Let_def)
      next
        case (Inr b1)
        have b1: "b1 \<le> length (regions (reserved mb))" using bnd Inr by simp
        have "ahead mb flags a b x = ahead mb flags a b1 x" using g Inr by simp
        note eq = visits_cong [OF this]
        note h = ahead_here [OF ok a f [symmetric] b1, of x, unfolded here_range [OF b1]]
        show ?thesis
        proof (cases "r_end ?m \<le> gap_end (reserved mb) b1")
          case True
          from h(1) [OF True] True show ?thesis unfolding eq next_range_at [OF a]
            by (auto simp: Let_def Inr f visits_def r_end_def)
        next
          case False
          then have "gap_end (reserved mb) b1 < r_end ?m" by simp
          from h(2) [OF this] False show ?thesis unfolding eq next_range_at [OF a]
            by (auto simp: Let_def Inr f visits_def r_end_def)
        qed
      qed
    qed
  qed
qed

definition in_range :: "u64 \<Rightarrow> u64 \<times> u64 \<Rightarrow> bool" where
  "in_range x r \<longleftrightarrow> fst r \<le> x \<and> x < snd r"

text \<open>A range ends where a memory region ends or before.\<close>

definition bounded :: "memblock \<Rightarrow> u64 \<times> u64 \<Rightarrow> bool" where
  "bounded mb r \<longleftrightarrow> fst r \<le> snd r \<and> (\<exists>m\<in>set (regions (memory mb)). snd r \<le> r_end m)"

lemma next_mem_range_bounded:
  assumes "type_ok (memory mb)" "type_ok (reserved mb)" "b \<le> length (regions (reserved mb)) + 1"
    "next_mem_range flags (memory mb) (Some (reserved mb)) a b = Some (s, e, a', b')"
  shows "bounded mb (s, e)"
  using assms
proof (induction flags "memory mb" "Some (reserved mb)" a b rule: next_mem_range.induct)
  case (1 flags a b)
  have a: "a < length (regions (memory mb))"
    using "1.prems"(4) by (auto simp: next_mem_range.simps split: if_splits)
  let ?m = "regions (memory mb) ! a"
  note bnd = next_gap_ok [OF "1.prems"(3), of "r_base ?m + r_size ?m" "r_base ?m"]
  show ?case
  proof (cases "flags = r_flags ?m")
    case False
    then show ?thesis using 1(1) [OF a refl refl refl False] "1.prems" a by (auto simp: next_range_at [OF a] Let_def)
  next
    case True
    let ?g = "next_gap (reserved mb) (r_base ?m) (r_base ?m + r_size ?m) b"
    show ?thesis
    proof (cases ?g)
      case (Inl b1)
      with bnd show ?thesis
        using 1(2) [OF a refl refl refl _ refl Inl] "1.prems" a True by (auto simp: next_range_at [OF a] Let_def)
    next
      case (Inr b1)
      then have b1: "b1 \<le> length (regions (reserved mb))" "gap_start (reserved mb) b1 < r_end ?m" "r_base ?m < gap_end (reserved mb) b1"
        using bnd by (auto simp: r_end_def)
      have "gap_start (reserved mb) b1 \<le> gap_end (reserved mb) b1"
        using gap_in [OF "1.prems"(2), of b1] b1(1) by (cases "b1 < length (regions (reserved mb))") (auto simp: gap_end_def)
      moreover have "r_base ?m \<le> r_end ?m"
        using "1.prems"(1) a by (auto simp: type_ok_def rgns_ok_def empty_region_def r_end_def intro: less_imp_le)
      ultimately have "max (r_base ?m) (gap_start (reserved mb) b1) \<le> min (r_end ?m) (gap_end (reserved mb) b1)"
        using b1(2,3) by (auto simp: less_imp_le)
      moreover have "s = max (r_base ?m) (gap_start (reserved mb) b1)" "e = min (r_end ?m) (gap_end (reserved mb) b1)"
        using Inr True "1.prems"(4) by (auto simp: next_range_at [OF a] Let_def r_end_def)
      moreover have "?m \<in> set (regions (memory mb))" using a by simp
      ultimately show ?thesis by (auto simp: bounded_def intro!: bexI [of _ ?m])
    qed
  qed
qed

lemma free_ranges_from_ok:
  assumes ok: "type_ok (memory mb)" "type_ok (reserved mb)" and b: "b \<le> length (regions (reserved mb)) + 1"
    and a: "a \<le> length (regions (memory mb))"
    and n: "length (regions (memory mb)) + length (regions (reserved mb)) + 1 < n + a + b"
  shows "\<exists>rs. free_ranges_from n mb flags a b = Some rs \<and> (\<forall>x. ahead mb flags a b x \<longleftrightarrow> (\<exists>r\<in>set rs. in_range x r)) \<and>
    sorted_wrt (\<lambda>r r'. \<forall>x. \<not> (in_range x r \<and> in_range x r')) rs \<and> (\<forall>r\<in>set rs. bounded mb r)"
  using a b n
proof (induction n arbitrary: a b)
  case (Suc n)
  let ?r = "next_mem_range flags (memory mb) (Some (reserved mb)) a b"
  have v: "visits mb flags a b ?r x" for x by (rule next_mem_range_visits [OF ok Suc.prems(2)])
  show ?case
  proof (cases ?r)
    case None
    then show ?thesis using v by (simp add: visits_def)
  next
    case (Some r)
    obtain s e a' b' where r: "r = (s, e, a', b')" by (cases r)
    note nx = next_mem_range_ok [OF ok Suc.prems(2) Some [unfolded r]]
    obtain rs where rs: "free_ranges_from n mb flags a' b' = Some rs"
      "\<forall>x. ahead mb flags a' b' x \<longleftrightarrow> (\<exists>r\<in>set rs. in_range x r)"
      "sorted_wrt (\<lambda>r r'. \<forall>x. \<not> (in_range x r \<and> in_range x r')) rs" "\<forall>r\<in>set rs. bounded mb r"
      using Suc.IH [of a' b'] nx Suc.prems(3) by auto
    have "\<forall>x. (ahead mb flags a b x \<longleftrightarrow> in_range x (s, e) \<or> ahead mb flags a' b' x) \<and> \<not> (in_range x (s, e) \<and> ahead mb flags a' b' x)"
      using v Some r by (simp add: visits_def in_range_def)
    then show ?thesis using rs Some r next_mem_range_bounded [OF ok Suc.prems(2) Some [unfolded r]]
      by (auto intro!: exI [of _ "(s, e) # rs"])
  qed
qed simp

lemma free_mem_ranges:
  assumes ok: "type_ok (memory mb)" "type_ok (reserved mb)"
  shows "\<exists>rs. for_each_free_mem_range mb flags = Some rs \<and> (\<forall>x. free mb flags x \<longleftrightarrow> (\<exists>r\<in>set rs. in_range x r)) \<and>
    sorted_wrt (\<lambda>r r'. \<forall>x. \<not> (in_range x r \<and> in_range x r')) rs \<and> (\<forall>r\<in>set rs. bounded mb r)"
proof -
  have "length (regions (memory mb)) + length (regions (reserved mb)) + 1 < length (regions (memory mb)) + length (regions (reserved mb)) + 2 + 0 + 0"
    by simp
  from free_ranges_from_ok [OF ok _ _ this, of flags] show ?thesis
    unfolding for_each_free_mem_range_def ahead_start [OF ok] by simp
qed

end
