(* ===== verification/Bitops.thy ===== *)
theory Bitops
  imports Prelude
begin

text \<open>
  Bit searches, rotations and logarithms of \<^verbatim>\<open>lib/base/include/base/bitops.h\<close>, \<^verbatim>\<open>log2.h\<close> and
  \<^verbatim>\<open>asm-generic/base/bitops/\<close>. \<^verbatim>\<open>__builtin_ctzl\<close> and \<^verbatim>\<open>__builtin_clzl\<close> are undefined on 0; the code tests for 0
  first, and the model gives them the width there.
\<close>

unbundle bit_operations_syntax

section \<open>Searching a word\<close>

definition builtin_ctz :: "'a::len word \<Rightarrow> nat" where
  "builtin_ctz w = (case find (bit w) [0..<LENGTH('a)] of Some n \<Rightarrow> n | None \<Rightarrow> LENGTH('a))"

definition builtin_clz :: "'a::len word \<Rightarrow> nat" where
  "builtin_clz w = (case find (\<lambda>n. bit w (LENGTH('a) - 1 - n)) [0..<LENGTH('a)] of Some n \<Rightarrow> n | None \<Rightarrow> LENGTH('a))"

definition find_first_set :: "u64 \<Rightarrow> nat" where
  "find_first_set word = builtin_ctz word"

definition find_last_set :: "u64 \<Rightarrow> nat" where
  "find_last_set word = 64 - 1 - builtin_clz word"

definition fls :: "u32 \<Rightarrow> nat" where
  "fls x = (if x \<noteq> 0 then 32 - builtin_clz x else 0)"

definition fls64 :: "u64 \<Rightarrow> nat" where
  "fls64 x = (if x = 0 then 0 else find_last_set x + 1)"

definition fls_long :: "u64 \<Rightarrow> nat" where
  "fls_long l = fls64 l"

definition ffz :: "u64 \<Rightarrow> nat" where
  "ffz x = find_first_set (NOT x)"

definition get_bitmask_order :: "u32 \<Rightarrow> nat" where
  "get_bitmask_order cnt = fls cnt"

definition get_count_order :: "u32 \<Rightarrow> int" where
  "get_count_order cnt = (let order = int (fls cnt) - 1 in if cnt AND (cnt - 1) \<noteq> 0 then order + 1 else order)"

definition get_count_order_long :: "u64 \<Rightarrow> int" where
  "get_count_order_long l =
     (if l = 0 then - 1 else if l AND (l - 1) \<noteq> 0 then int (fls_long l) else int (fls_long l) - 1)"

section \<open>Rotations and sign extension\<close>

text \<open>
  A shift by the width or more is undefined in C; the rotations are called with \<open>0 < shift < width\<close>, and
  \<^verbatim>\<open>rol32\<close> also with 0.
\<close>

definition rol64 :: "u64 \<Rightarrow> nat \<Rightarrow> u64" where
  "rol64 word shift = push_bit shift word OR drop_bit (64 - shift) word"

definition ror64 :: "u64 \<Rightarrow> nat \<Rightarrow> u64" where
  "ror64 word shift = drop_bit shift word OR push_bit (64 - shift) word"

definition rol32 :: "u32 \<Rightarrow> nat \<Rightarrow> u32" where
  "rol32 word shift = push_bit shift word OR drop_bit (unat (- (of_nat shift :: u32) AND 31)) word"

definition ror32 :: "u32 \<Rightarrow> nat \<Rightarrow> u32" where
  "ror32 word shift = drop_bit shift word OR push_bit (32 - shift) word"

definition rol16 :: "u16 \<Rightarrow> nat \<Rightarrow> u16" where
  "rol16 word shift = push_bit shift word OR drop_bit (16 - shift) word"

definition ror16 :: "u16 \<Rightarrow> nat \<Rightarrow> u16" where
  "ror16 word shift = drop_bit shift word OR push_bit (16 - shift) word"

definition rol8 :: "u8 \<Rightarrow> nat \<Rightarrow> u8" where
  "rol8 word shift = push_bit shift word OR drop_bit (8 - shift) word"

definition ror8 :: "u8 \<Rightarrow> nat \<Rightarrow> u8" where
  "ror8 word shift = drop_bit shift word OR push_bit (8 - shift) word"

definition sign_extend32 :: "u32 \<Rightarrow> nat \<Rightarrow> u32" where
  "sign_extend32 val index = signed_drop_bit (31 - index) (push_bit (31 - index) val)"

definition sign_extend64 :: "u64 \<Rightarrow> nat \<Rightarrow> u64" where
  "sign_extend64 val index = signed_drop_bit (63 - index) (push_bit (63 - index) val)"

section \<open>Logarithms\<close>

definition ilog2_u32 :: "u32 \<Rightarrow> int" where
  "ilog2_u32 n = int (fls n) - 1"

definition ilog2_u64 :: "u64 \<Rightarrow> int" where
  "ilog2_u64 n = int (fls64 n) - 1"

definition is_power_of_2 :: "u64 \<Rightarrow> bool" where
  "is_power_of_2 n \<longleftrightarrow> n \<noteq> 0 \<and> n AND (n - 1) = 0"

definition roundup_pow_of_two :: "u64 \<Rightarrow> u64" where
  "roundup_pow_of_two n = push_bit (fls_long (n - 1)) 1"

definition rounddown_pow_of_two :: "u64 \<Rightarrow> u64" where
  "rounddown_pow_of_two n = push_bit (fls_long n - 1) 1"

definition order_base_2 :: "u64 \<Rightarrow> int" where
  "order_base_2 n = (if n > 1 then ilog2_u64 (n - 1) + 1 else 0)"

section \<open>Properties\<close>

lemma find_upt:
  "find P [m..<n] = Some i \<longleftrightarrow> m \<le> i \<and> i < n \<and> P i \<and> (\<forall>j. m \<le> j \<and> j < i \<longrightarrow> \<not> P j)"
proof
  assume "find P [m..<n] = Some i"
  then obtain k where k: "k < n - m" "P (m + k)" "i = m + k" "\<forall>j<k. \<not> P (m + j)" by (auto simp: find_Some_iff)
  have "\<not> P j" if "m \<le> j" "j < i" for j
  proof -
    have "j - m < k" "m + (j - m) = j" using that k(3) by auto
    then show ?thesis using k(4) by metis
  qed
  then show "m \<le> i \<and> i < n \<and> P i \<and> (\<forall>j. m \<le> j \<and> j < i \<longrightarrow> \<not> P j)" using k by auto
qed (auto simp: find_Some_iff intro: exI [of _ "i - m"])

lemma ctz_bit:
  fixes w :: "'a::len word"
  assumes "w \<noteq> 0"
  shows "bit w (builtin_ctz w)" "builtin_ctz w < LENGTH('a)" "j < builtin_ctz w \<Longrightarrow> \<not> bit w j"
proof -
  obtain n where "n < LENGTH('a)" "bit w n" using assms by (auto simp: bit_eq_iff dest: bit_imp_le_length)
  then have "find (bit w) [0..<LENGTH('a)] \<noteq> None" by (auto simp: find_None_iff)
  then obtain i where i: "find (bit w) [0..<LENGTH('a)] = Some i" by auto
  then have "builtin_ctz w = i" by (simp add: builtin_ctz_def)
  with i show "bit w (builtin_ctz w)" "builtin_ctz w < LENGTH('a)" "j < builtin_ctz w \<Longrightarrow> \<not> bit w j"
    by (auto simp: find_upt)
qed

lemma clz_bit:
  fixes w :: "'a::len word"
  assumes "w \<noteq> 0"
  shows "bit w (LENGTH('a) - 1 - builtin_clz w)" "builtin_clz w < LENGTH('a)"
    "LENGTH('a) - 1 - builtin_clz w < j \<Longrightarrow> \<not> bit w j"
proof -
  obtain n where n: "n < LENGTH('a)" "bit w n" using assms by (auto simp: bit_eq_iff dest: bit_imp_le_length)
  then have "LENGTH('a) - 1 - n \<in> set [0..<LENGTH('a)]" "bit w (LENGTH('a) - 1 - (LENGTH('a) - 1 - n))" by auto
  then have "find (\<lambda>n. bit w (LENGTH('a) - 1 - n)) [0..<LENGTH('a)] \<noteq> None" unfolding find_None_iff by blast
  then obtain i where i: "find (\<lambda>n. bit w (LENGTH('a) - 1 - n)) [0..<LENGTH('a)] = Some i" by auto
  then have eq: "builtin_clz w = i" by (simp add: builtin_clz_def)
  from i show "bit w (LENGTH('a) - 1 - builtin_clz w)" "builtin_clz w < LENGTH('a)" by (auto simp: find_upt eq)
  show "\<not> bit w j" if "LENGTH('a) - 1 - builtin_clz w < j"
  proof
    assume b: "bit w j"
    then have l: "j < LENGTH('a)" by (rule bit_imp_le_length)
    then have "LENGTH('a) - 1 - j < i" using that eq by simp
    then show False using i b l by (auto simp: find_upt dest: spec [of _ "LENGTH('a) - 1 - j"])
  qed
qed

lemma ctz_dvd:
  fixes w :: "'a::len word"
  assumes "w \<noteq> 0" "k \<le> builtin_ctz w"
  shows "2 ^ k dvd unat w"
proof -
  have "take_bit k (unat w) = 0"
    using ctz_bit(3) [OF assms(1)] assms(2) by (intro bit_eqI) (auto simp: bit_simps bit_unsigned_iff)
  then show ?thesis by (simp add: take_bit_eq_mod mod_eq_0_iff_dvd)
qed

lemma last_set_bounds:
  fixes w :: "'a::len word"
  assumes "w \<noteq> 0"
  defines "k \<equiv> LENGTH('a) - 1 - builtin_clz w"
  shows "k < LENGTH('a)" "2 ^ k \<le> unat w" "unat w < 2 ^ (k + 1)"
proof -
  show "k < LENGTH('a)" by (simp add: k_def)
  have b: "bit (unat w) k" using clz_bit(1) [OF assms(1)] by (simp add: k_def bit_unsigned_iff)
  show "2 ^ k \<le> unat w"
  proof (rule ccontr)
    assume "\<not> 2 ^ k \<le> unat w"
    then have "take_bit k (unat w) = unat w" by (simp add: take_bit_nat_eq_self)
    with b show False by (metis bit_take_bit_iff less_irrefl)
  qed
  have "take_bit (k + 1) (unat w) = unat w"
  proof (rule bit_eqI)
    fix n
    show "bit (take_bit (k + 1) (unat w)) n = bit (unat w) n"
      using clz_bit(3) [OF assms(1), of n] by (cases "k < n") (auto simp: bit_take_bit_iff bit_unsigned_iff k_def)
  qed
  then show "unat w < 2 ^ (k + 1)" using take_bit_nat_less_exp [of "k + 1" "unat w"] by simp
qed

lemma rounddown_bounds:
  assumes "n \<noteq> 0"
  shows "\<exists>k<64. unat (rounddown_pow_of_two n) = 2 ^ k \<and> 2 ^ k \<le> unat n \<and> unat n < 2 ^ (k + 1)"
proof -
  let ?k = "63 - builtin_clz n"
  have "(2 :: nat) ^ ?k < 2 ^ 64" by (rule power_strict_increasing) auto
  then have "unat (of_nat (2 ^ ?k) :: u64) = 2 ^ ?k" by (simp only: unat_of_nat) (simp add: take_bit_nat_eq_self)
  then have "unat (push_bit ?k (1 :: u64)) = 2 ^ ?k" by (simp add: push_bit_eq_mult)
  then show ?thesis using last_set_bounds [OF assms]
    by (auto simp: rounddown_pow_of_two_def fls_long_def fls64_def find_last_set_def assms intro!: exI [of _ ?k])
qed

end
