(* ===== verification/Buddy_Init.thy ===== *)
theory Buddy_Init
  imports Buddy_Pool Memblock_Iter Bitops
begin

text \<open>
  How \<^verbatim>\<open>kernel/mm/page_alloc.c\<close> takes the memory over from the boot-time allocator: the zones and the
  descriptors are set up, reserved pages are marked, and the free ranges are cut into blocks that are freed
  into the buddy lists.
\<close>

section \<open>Reserved pages and the linear map\<close>

definition reserve_page :: "nat \<Rightarrow> pg_data \<Rightarrow> pg_data option" where
  "reserve_page p s =
     (if valid s p
      then try_page p SetPageReserved (upd_page p (\<lambda>pg. pg\<lparr>pg_head := None\<rparr>) s)
      else Some s)"

definition reserve_bootmem_region :: "u64 \<Rightarrow> u64 \<Rightarrow> pg_data \<Rightarrow> pg_data option" where
  "reserve_bootmem_region start end s = foreach reserve_page [unat (PFN_DOWN start)..<unat (PFN_UP end)] s"

section \<open>Freeing at boot\<close>

definition release_page :: "nat \<Rightarrow> pg_data \<Rightarrow> pg_data option" where
  "release_page p s = try_page p (\<lambda>pg. map_option (\<lambda>pg. set_page_count pg 0) (ClearPageReserved pg)) s"

definition free_pages_boot_core :: "nat \<Rightarrow> nat \<Rightarrow> nat \<Rightarrow> pg_data \<Rightarrow> pg_data option" where
  "free_pages_boot_core cpu page order s = do {
     s1 \<leftarrow> foreach release_page [page..<page + 2 ^ order] s;
     let s2 = upd_zone (page_zone_id (pages s1 page)) (\<lambda>zn. zn\<lparr>managed_pages := managed_pages zn + 2 ^ order\<rparr>) s1;
     s3 \<leftarrow> try_page page set_page_refcounted s2;
     free_pages_pfn cpu page order s3 }"

definition memblock_free_pages :: "nat \<Rightarrow> nat \<Rightarrow> nat \<Rightarrow> pg_data \<Rightarrow> pg_data option" where
  "memblock_free_pages cpu pfn order s = free_pages_boot_core cpu pfn order s"

text \<open>
  \<^verbatim>\<open>__free_pages_memory\<close>. Frame numbers are physical addresses without their last 12 bits, so the sums do not
  wrap. \<^verbatim>\<open>__ffs(0)\<close> is undefined.
\<close>

primrec fit_order :: "nat \<Rightarrow> nat \<Rightarrow> nat \<Rightarrow> nat" where
  "fit_order start end_pfn 0 = 0"
| "fit_order start end_pfn (Suc order) =
     (if start + 2 ^ Suc order > end_pfn then fit_order start end_pfn order else Suc order)"

definition boot_order :: "nat \<Rightarrow> nat \<Rightarrow> nat" where
  "boot_order start end_pfn = fit_order start end_pfn (min (MAX_ORDER - 1) (find_first_set (of_nat start)))"

function free_pages_memory :: "nat \<Rightarrow> nat \<Rightarrow> nat \<Rightarrow> pg_data \<Rightarrow> pg_data option" where
  "free_pages_memory cpu start end_pfn s =
     (if start < end_pfn
      then do {
        bug_on (start = 0);
        s' \<leftarrow> memblock_free_pages cpu start (boot_order start end_pfn) s;
        free_pages_memory cpu (start + 2 ^ boot_order start end_pfn) end_pfn s' }
      else Some s)"
  by pat_completeness auto
termination
proof (relation "measure (\<lambda>(cpu, start, end_pfn, s). end_pfn - start)")
  fix cpu start end_pfn :: nat and s s' :: pg_data
  assume "start < end_pfn"
  moreover have "0 < (2 :: nat) ^ boot_order start end_pfn" by simp
  ultimately show "((cpu, start + 2 ^ boot_order start end_pfn, end_pfn, s'), cpu, start, end_pfn, s)
      \<in> measure (\<lambda>(cpu, start, end_pfn, s). end_pfn - start)" unfolding in_measure prod.case by linarith
qed simp

definition free_range :: "nat \<Rightarrow> u64 \<times> u64 \<Rightarrow> pg_data \<times> u64 \<Rightarrow> (pg_data \<times> u64) option" where
  "free_range cpu r x = (case (r, x) of ((start, end), (s, n)) \<Rightarrow>
     let start_pfn = PFN_UP start; end_pfn = PFN_DOWN end in
     if start_pfn \<ge> end_pfn then Some (s, n)
     else map_option (\<lambda>s'. (s', n + (end_pfn - start_pfn))) (free_pages_memory cpu (unat start_pfn) (unat end_pfn) s))"

definition free_ranges :: "nat \<Rightarrow> u32 \<Rightarrow> pg_data \<times> u64 \<Rightarrow> (pg_data \<times> u64) option" where
  "free_ranges cpu flags x = do {
     rs \<leftarrow> for_each_free_mem_range (memblock_kernel (fst x)) flags;
     foreach (free_range cpu) rs x }"

definition memblock_free_all :: "nat \<Rightarrow> pg_data \<Rightarrow> (pg_data \<times> u64) option" where
  "memblock_free_all cpu s = do {
     s1 \<leftarrow> foreach (\<lambda>(start, end). reserve_bootmem_region start end) (for_each_reserved_mem_region (memblock_kernel s)) s;
     x2 \<leftarrow> free_ranges cpu MEMBLOCK_NONE (s1, 0);
     x3 \<leftarrow> free_ranges cpu MEMBLOCK_DMA x2;
     free_ranges cpu MEMBLOCK_MOVABLE x3 }"

section \<open>Zones and per-cpu lists\<close>

definition zone_init_free_lists :: "zone \<Rightarrow> zone" where
  "zone_init_free_lists zn =
     zn\<lparr>free_areas := (\<lambda>order. \<lparr>free_list = [], nr_free = 0\<rparr>)\<rparr>"

definition pageset_init :: per_cpu_pages where
  "pageset_init = \<lparr>pcp_count = 0, pcp_high = 0, pcp_batch = 0, pcp_list = []\<rparr>"

definition pageset_update_pcp :: "per_cpu_pages \<Rightarrow> u64 \<Rightarrow> u64 \<Rightarrow> per_cpu_pages" where
  "pageset_update_pcp p high batch =
     (let pcp1 = p\<lparr>pcp_batch := 1\<rparr>; pcp2 = pcp1\<lparr>pcp_high := sint (ucast high :: u32)\<rparr>
      in pcp2\<lparr>pcp_batch := sint (ucast batch :: u32)\<rparr>)"

definition pageset_set_batch :: "per_cpu_pages \<Rightarrow> u64 \<Rightarrow> per_cpu_pages" where
  "pageset_set_batch p batch = pageset_update_pcp p (6 * batch) (max 1 (1 * batch))"

text \<open>
  \<^verbatim>\<open>batch\<close> is an \<^verbatim>\<open>int\<close>; \<^verbatim>\<open>batch * PAGE_SIZE\<close> is computed in \<^verbatim>\<open>unsigned long\<close>, where a negative batch is
  above the limit, so the divisions are of numbers that are not negative.
\<close>

definition zone_batchsize :: "zone \<Rightarrow> int" where
  "zone_batchsize zn =
     (let batch = sint (ucast (managed_pages zn div 1024) :: u32);
          batch = (if of_int batch * PAGE_SIZE > 1024 * 1024 then 256 else batch);
          batch = batch div 4;
          batch = (if batch < 1 then 1 else batch)
      in sint (ucast (rounddown_pow_of_two (of_int (batch + batch div 2)) - 1) :: u32))"

definition pageset_set_high_and_batch :: "zone \<Rightarrow> per_cpu_pages \<Rightarrow> per_cpu_pages" where
  "pageset_set_high_and_batch zn p = pageset_set_batch p (of_int (zone_batchsize zn))"

definition zone_pageset_init :: "nat \<Rightarrow> zone \<Rightarrow> zone" where
  "zone_pageset_init cpu zn =
     zn\<lparr>pageset := (pageset zn)(cpu := pageset_set_high_and_batch zn pageset_init)\<rparr>"

section \<open>The node\<close>

definition init_zone :: "nat list \<Rightarrow> zone \<Rightarrow> zone" where
  "init_zone cpus zn =
     zone_init_free_lists ((fold zone_pageset_init cpus zn)\<lparr>zone_start_pfn := 0, managed_pages := 0\<rparr>)"

definition init_pages :: "nat \<Rightarrow> u64 \<times> u64 \<Rightarrow> pg_data \<Rightarrow> pg_data" where
  "init_pages z r s = (case r of (start, end) \<Rightarrow>
     fold (\<lambda>pfn. upd_page pfn (\<lambda>_. init_single_page (of_nat z))) [unat (PFN_UP start)..<unat (PFN_DOWN end)] s)"

definition init_zone_pages :: "nat \<Rightarrow> u32 \<Rightarrow> pg_data \<Rightarrow> pg_data option" where
  "init_zone_pages z flags s = do {
     rs \<leftarrow> for_each_free_mem_range (memblock_kernel s) flags;
     let min_pfn = fold (\<lambda>(start, end) m. min m (PFN_UP start)) rs (- 1);
     let s1 = fold (init_pages z) rs s;
     Some (upd_zone z (\<lambda>zn. zn\<lparr>zone_start_pfn := (if min_pfn \<noteq> - 1 then min_pfn else zone_start_pfn zn),
       zone_initialized := True\<rparr>) s1) }"

definition free_area_init_node :: "u64 \<Rightarrow> pg_data \<Rightarrow> pg_data option" where
  "free_area_init_node start s = (
     let reserved = for_each_reserved_mem_region (memblock_kernel s);
         s1 = s\<lparr>node_start_pfn := start,
                totalreserve_pages := fold (\<lambda>(start, end) n. n + (PFN_UP end - PFN_DOWN start)) reserved 0\<rparr>;
         s2 = fold (\<lambda>j. upd_zone j (init_zone (possible_cpus s))) [0..<MAX_NR_ZONES] s1
     in do {
       s3 \<leftarrow> init_zone_pages ZONE_DMA MEMBLOCK_DMA s2;
       s4 \<leftarrow> init_zone_pages ZONE_MOVABLE MEMBLOCK_MOVABLE s3;
       s5 \<leftarrow> init_zone_pages ZONE_NORMAL MEMBLOCK_NONE s4;
       Some (fold (init_pages ZONE_NORMAL) reserved s5) })"

definition find_min_pfn_for_mem :: "memblock \<Rightarrow> u64" where
  "find_min_pfn_for_mem mb =
     (let min_pfn = fold (\<lambda>(start, end) m. min m start) (for_each_mem_pfn_range mb) (- 1)
      in if min_pfn = - 1 then 0 else min_pfn)"

definition count_managed :: "nat \<Rightarrow> u32 \<Rightarrow> pg_data \<Rightarrow> pg_data option" where
  "count_managed z flags s = do {
     rs \<leftarrow> for_each_free_mem_range (memblock_kernel s) flags;
     Some (upd_zone z (\<lambda>zn. zn\<lparr>managed_pages := fold (\<lambda>(start, end) n. n + (PFN_DOWN end - PFN_UP start)) rs 0\<rparr>) s) }"

definition free_area_init_nodes :: "nat \<Rightarrow> pg_data \<Rightarrow> pg_data option" where
  "free_area_init_nodes cpu s = do {
     let s1 = s\<lparr>total_physpages := fold (\<lambda>(start, end) n. n + (end - start)) (for_each_mem_pfn_range (memblock_kernel s)) 0\<rparr>;
     s2 \<leftarrow> count_managed ZONE_NORMAL MEMBLOCK_NONE s1;
     s3 \<leftarrow> count_managed ZONE_DMA MEMBLOCK_DMA s2;
     s4 \<leftarrow> count_managed ZONE_MOVABLE MEMBLOCK_MOVABLE s3;
     s5 \<leftarrow> free_area_init_node (find_min_pfn_for_mem (memblock_kernel s4)) s4;
     map_option fst (memblock_free_all cpu s5) }"

section \<open>Freeing what was reserved\<close>

definition free_reserved_page :: "nat \<Rightarrow> nat \<Rightarrow> pg_data \<Rightarrow> pg_data option" where
  "free_reserved_page cpu p s = do {
     s1 \<leftarrow> try_page p (\<lambda>pg. map_option init_page_count (ClearPageReserved pg)) s;
     let s2 = upd_zone (page_zone_id (pages s1 p)) (\<lambda>zn. zn\<lparr>managed_pages := managed_pages zn + 1\<rparr>) s1;
     free_pages_pfn cpu p 0 s2 }"

section \<open>Counters\<close>

definition nr_managed_pages :: "pg_data \<Rightarrow> u64" where
  "nr_managed_pages s = fold (\<lambda>i n. n + managed_pages (zones s i)) [0..<MAX_NR_ZONES] 0"

definition nr_zone_free_pages :: "zone \<Rightarrow> u64" where
  "nr_zone_free_pages zn = fold (\<lambda>order n. n + nr_free (free_areas zn order) * 2 ^ order) [0..<MAX_ORDER] 0"

definition nr_free_pages :: "pg_data \<Rightarrow> u64" where
  "nr_free_pages s = fold (\<lambda>i n. n + nr_zone_free_pages (zones s i)) [0..<MAX_NR_ZONES] 0"

definition nr_zone_percpu_cache_pages :: "nat list \<Rightarrow> zone \<Rightarrow> int" where
  "nr_zone_percpu_cache_pages cpus zn = fold (\<lambda>cpu n. n + pcp_count (pageset zn cpu)) cpus 0"

definition nr_percpu_cache_pages :: "nat \<Rightarrow> pg_data \<Rightarrow> int" where
  "nr_percpu_cache_pages cpu s = fold (\<lambda>i n. n + pcp_count (pcp s i cpu)) [0..<MAX_NR_ZONES] 0"

end
