(* ===== verification/Memblock_Props.thy ===== *)
theory Memblock_Props
  imports Memblock_Alloc
begin

text \<open>
  The contract of the boot-time allocator. The interface of a region array is the locale \<open>range_store\<close>:
  a partial map from addresses to flags that is extended and restricted range by range. Its clients,
  the sequences of calls the boot code makes, are verified against the interface; the arrays of
  \<^verbatim>\<open>memblock.c\<close> implement it.
\<close>

section \<open>The interface of a region array\<close>

locale range_store =
  fixes ok :: "'s \<Rightarrow> bool"
    and at :: "'s \<Rightarrow> u64 \<Rightarrow> u32 option"
    and add :: "'s \<Rightarrow> u64 \<Rightarrow> u64 \<Rightarrow> u32 \<Rightarrow> ('s \<times> int) option"
    and remove :: "'s \<Rightarrow> u64 \<Rightarrow> u64 \<Rightarrow> ('s \<times> int) option"
  assumes add_law: "ok s \<Longrightarrow> add s b z f = Some (s, - ENOMEM) \<or>
      (\<exists>s'. add s b z f = Some (s', 0) \<and> ok s' \<and> at s' = added b (b + memblock_cap_size b z) f (at s))"
    and remove_law: "ok s \<Longrightarrow> remove s b z = Some (s, - ENOMEM) \<or>
      (\<exists>s'. remove s b z = Some (s', 0) \<and> ok s' \<and> at s' = removed b (b + memblock_cap_size b z) (at s))"
begin

lemma add_total: "ok s \<Longrightarrow> \<exists>s' r. add s b z f = Some (s', r) \<and> ok s'"
  using add_law [of s b z f] by auto

lemma remove_total: "ok s \<Longrightarrow> \<exists>s' r. remove s b z = Some (s', r) \<and> ok s'"
  using remove_law [of s b z] by auto

lemma add_remove:
  assumes "ok s" "add s b z f = Some (s1, 0)" "remove s1 b z = Some (s2, 0)"
    "\<And>a. b \<le> a \<Longrightarrow> a < b + memblock_cap_size b z \<Longrightarrow> at s a = None"
  shows "at s2 = at s"
proof -
  have "ok s1" "at s1 = added b (b + memblock_cap_size b z) f (at s)" using add_law [OF assms(1), of b z f] assms(2) by auto
  moreover have "at s2 = removed b (b + memblock_cap_size b z) (at s1)"
    using remove_law [OF \<open>ok s1\<close>, of b z] assms(3) by auto
  ultimately show ?thesis using assms(4) by (auto simp: added_def removed_def fun_eq_iff split: option.splits)
qed

end

interpretation mbt: range_store type_ok "\<lambda>t. mb_at (regions t)" memblock_add_range memblock_remove_range
proof
  fix s b z f
  assume ok: "type_ok s"
  show "memblock_add_range s b z f = Some (s, - ENOMEM) \<or>
      (\<exists>s'. memblock_add_range s b z f = Some (s', 0) \<and> type_ok s' \<and>
        mb_at (regions s') = added b (b + memblock_cap_size b z) f (mb_at (regions s)))"
    using add_range_ok [OF ok, of b z f] by blast
next
  fix s b z
  assume ok: "type_ok s"
  show "memblock_remove_range s b z = Some (s, - ENOMEM) \<or>
      (\<exists>s'. memblock_remove_range s b z = Some (s', 0) \<and> type_ok s' \<and>
        mb_at (regions s') = removed b (b + memblock_cap_size b z) (mb_at (regions s)))"
    using remove_range_ok [OF ok, of b z] by blast
qed

section \<open>Sequences of calls\<close>

definition memblock_inv :: "memblock \<Rightarrow> bool" where
  "memblock_inv mb \<longleftrightarrow> type_ok (memory mb) \<and> type_ok (reserved mb)"

text \<open>
  The calls that change the arrays, each with any arguments but an alignment, which is a power of two. \<^verbatim>\<open>memblock_trim_memory\<close> is not
  among them: it does not keep the invariant, see \<open>memblock_trim_stale\<close> below.
\<close>

datatype memblock_call =
    Call_add u64 u64 | Call_remove u64 u64 | Call_reserve u64 u64 | Call_free u64 u64
  | Call_setclr u64 u64 bool u32 | Call_alloc_range u64 nat u64 u64 u32 | Call_alloc_try_raw u64 nat u64 u64
  | Call_enforce_limit u64 | Call_cap_range u64 u64 | Call_limit_remove_map u64 | Call_set_limit u64
  | Call_set_bottom_up bool

fun memblock_do :: "memblock_call \<Rightarrow> memblock \<Rightarrow> memblock option" where
  "memblock_do (Call_add b z) mb = map_option fst (memblock_add mb b z)"
| "memblock_do (Call_remove b z) mb = map_option fst (memblock_remove mb b z)"
| "memblock_do (Call_reserve b z) mb = map_option fst (memblock_reserve mb b z)"
| "memblock_do (Call_free b z) mb = map_option fst (memblock_free mb b z)"
| "memblock_do (Call_setclr b z st f) mb = map_option fst (memblock_setclr_flag mb b z st f)"
| "memblock_do (Call_alloc_range z k s e f) mb = map_option fst (memblock_alloc_range mb z (2 ^ k) s e f)"
| "memblock_do (Call_alloc_try_raw z k lo hi) mb = map_option fst (memblock_alloc_try_raw mb z (2 ^ k) lo hi)"
| "memblock_do (Call_enforce_limit l) mb = memblock_enforce_memory_limit mb l"
| "memblock_do (Call_cap_range b z) mb = memblock_cap_memory_range mb b z"
| "memblock_do (Call_limit_remove_map l) mb = memblock_mem_limit_remove_map mb l"
| "memblock_do (Call_set_limit l) mb = Some (memblock_set_current_limit mb l)"
| "memblock_do (Call_set_bottom_up up) mb = Some (memblock_set_bottom_up mb up)"

fun memblock_run :: "memblock_call list \<Rightarrow> memblock \<Rightarrow> memblock option" where
  "memblock_run [] mb = Some mb"
| "memblock_run (c # cs) mb = Option.bind (memblock_do c mb) (memblock_run cs)"

lemma remove_region_ok:
  assumes "type_ok type" "i < length (regions type)"
  shows "type_ok (memblock_remove_region type i) \<and>
    length (regions type) \<le> length (regions (memblock_remove_region type i)) + 1 \<and>
    regions (memblock_remove_region type i) \<noteq> []"
proof -
  let ?rs = "regions type"
  have split: "?rs = take i ?rs @ ?rs ! i # drop (Suc i) ?rs" using assms(2) by (rule id_take_nth_drop)
  have sz: "sizes ?rs - r_size (?rs ! i) = sizes (take i ?rs @ drop (Suc i) ?rs)"
    by (subst split) (simp add: algebra_simps)
  have ok: "rgns_ok (take i ?rs @ drop (Suc i) ?rs)" if "rgns_ok ?rs"
    using that by (subst (asm) split) (auto simp: rgns_ok_append)
  have "?rs = [empty_region] \<Longrightarrow> i = 0" using assms(2) by simp
  then show ?thesis
    using assms ok sz
    by (auto simp: memblock_remove_region_def type_ok_def Let_def empty_region_def)
qed

lemma remove_map_down_ok:
  assumes "type_ok type" "hi \<le> length (regions type)"
  shows "type_ok (memblock_remove_map_down type lo hi)"
  using assms
proof (induction hi arbitrary: type)
  case (Suc i)
  then show ?case using remove_region_ok [of type i] by auto
qed simp

lemma remove_map_down_length:
  assumes "type_ok type" "lo \<le> hi" "hi \<le> length (regions type)"
  shows "lo \<le> length (regions (memblock_remove_map_down type lo hi))"
  using assms
proof (induction hi arbitrary: type)
  case (Suc i)
  then show ?case using remove_region_ok [of type i] by auto
qed simp

lemma alloc_once_ok:
  assumes "memblock_inv mb"
  shows "memblock_alloc_once mb sz (2 ^ k) lo hi = Some (mb, 0) \<or>
    (\<exists>r mb'. memblock_alloc_once mb sz (2 ^ k) lo hi = Some (mb', r) \<and> r \<noteq> 0 \<and>
      block_ok mb MEMBLOCK_NONE (find_lo lo) (find_hi mb lo hi) sz (2 ^ k) r \<and> reserves mb r sz mb')"
proof -
  have ok: "type_ok (memory mb)" "type_ok (reserved mb)" using assms by (auto simp: memblock_inv_def)
  obtain r where r: "memblock_find_in_range_flags mb sz (2 ^ k) lo hi choose_memblock_flags = Some r"
    "r \<noteq> 0 \<longrightarrow> block_ok mb choose_memblock_flags (find_lo lo) (find_hi mb lo hi) sz (2 ^ k) r"
    using find_in_range_ok [OF ok] by blast
  show ?thesis
  proof (cases "r = 0")
    case True
    with r show ?thesis by (simp add: memblock_alloc_once_def)
  next
    case False
    with r have b: "block_ok mb MEMBLOCK_NONE (find_lo lo) (find_hi mb lo hi) sz (2 ^ k) r"
      by (simp add: choose_memblock_flags_def)
    then have "r \<le> r + sz" by (simp add: block_ok_def)
    with reserve_ok [OF ok(2), of r sz] r b False show ?thesis by (auto simp: memblock_alloc_once_def)
  qed
qed

lemma reserves_inv: "memblock_inv mb \<Longrightarrow> reserves mb r sz mb' \<Longrightarrow> memblock_inv mb'"
  by (simp add: memblock_inv_def reserves_def)

definition alloc_hi :: "memblock \<Rightarrow> u64 \<Rightarrow> u64" where
  "alloc_hi mb max_addr = (if max_addr > current_limit mb then current_limit mb else max_addr)"

lemma alloc_internal_ok:
  assumes "memblock_inv mb"
  shows "memblock_alloc_internal mb sz (2 ^ k) min_addr max_addr = Some (mb, 0) \<or>
    (\<exists>r mb' lo. memblock_alloc_internal mb sz (2 ^ k) min_addr max_addr = Some (mb', r) \<and> r \<noteq> 0 \<and> lo \<in> {min_addr, 0} \<and>
      block_ok mb MEMBLOCK_NONE (find_lo lo) (find_hi mb lo (alloc_hi mb max_addr)) sz (2 ^ k) r \<and> reserves mb r sz mb')"
proof (cases "(2 :: u64) ^ k = 0")
  case False
  then show ?thesis
    using alloc_once_ok [OF assms, of sz k min_addr "alloc_hi mb max_addr"]
      alloc_once_ok [OF assms, of sz k 0 "alloc_hi mb max_addr"]
    by (cases "min_addr = 0") (auto simp: memblock_alloc_internal_def Let_def simp flip: alloc_hi_def)
qed (simp add: memblock_alloc_internal_def)

lemma remove_range_total: "type_ok t \<Longrightarrow> \<exists>t' r. memblock_remove_range t b z = Some (t', r) \<and> type_ok t'"
  by (rule mbt.remove_total)

lemma isolate_range_total:
  assumes "type_ok t"
  shows "\<exists>t' r s e. memblock_isolate_range t b z = Some (t', r, s, e) \<and> type_ok t' \<and>
    s \<le> e \<and> e \<le> length (regions t')"
proof (cases "memblock_cap_size b z = 0 \<or> length (regions t) + 2 > max_regions t")
  case True
  with assms show ?thesis by (auto simp: memblock_isolate_range_def Let_def)
next
  case False
  then obtain t' A B C where "memblock_isolate_range t b z =
      Some (t', 0, if B = [] then 0 else length A, if B = [] then 0 else length (A @ B))"
    and i: "isolated t b (b + memblock_cap_size b z) t' A B C"
    using isolate_range_ok [OF assms, of b z] by auto
  moreover have "type_ok t'" "regions t' = A @ B @ C" using i by (simp_all add: isolated_def)
  ultimately show ?thesis by (cases "B = []") simp_all
qed

lemma cap_memory_range_inv:
  assumes "memblock_inv mb"
  shows "\<exists>mb'. memblock_cap_memory_range mb b z = Some mb' \<and> memblock_inv mb'"
proof (cases "z = 0")
  case False
  have ok: "type_ok (memory mb)" "type_ok (reserved mb)" using assms by (auto simp: memblock_inv_def)
  obtain t r s e where i: "memblock_isolate_range (memory mb) b z = Some (t, r, s, e)" "type_ok t"
    "s \<le> e" "e \<le> length (regions t)" using isolate_range_total [OF ok(1)] by blast
  obtain r1 x1 where r1: "memblock_remove_range (reserved mb) 0 b = Some (r1, x1)" "type_ok r1"
    using remove_range_total [OF ok(2)] by blast
  obtain r2 x2 where r2: "memblock_remove_range r1 (b + z) PHYS_ADDR_MAX = Some (r2, x2)" "type_ok r2"
    using remove_range_total [OF r1(2)] by blast
  let ?t1 = "memblock_remove_map_down t e (length (regions t))"
  have "type_ok ?t1" using i(2) by (rule remove_map_down_ok) simp
  moreover have "s \<le> length (regions ?t1)"
    using remove_map_down_length [OF i(2,4)] i(3) by simp
  ultimately have "type_ok (memblock_remove_map_down ?t1 0 s)" by (rule remove_map_down_ok)
  then show ?thesis
    using False ok i r1 r2 by (auto simp: memblock_cap_memory_range_def memblock_inv_def Let_def)
next
  case True
  then show ?thesis using assms by (simp add: memblock_cap_memory_range_def)
qed


lemma memblock_do_inv:
  assumes "memblock_inv mb"
  shows "\<exists>mb'. memblock_do c mb = Some mb' \<and> memblock_inv mb'"
proof -
  have ok: "type_ok (memory mb)" "type_ok (reserved mb)" using assms by (auto simp: memblock_inv_def)
  have add: "\<exists>t' r. memblock_add_range t b z f = Some (t', r) \<and> type_ok t'" if "type_ok t" for t b z f
    using mbt.add_total [OF that] .
  show ?thesis
  proof (cases c)
    case (Call_add b z)
    then show ?thesis using add [OF ok(1), of b z 0] ok by (auto simp: memblock_add_def memblock_inv_def)
  next
    case (Call_remove b z)
    then show ?thesis using remove_range_total [OF ok(1), of b z] ok by (auto simp: memblock_remove_def memblock_inv_def)
  next
    case (Call_reserve b z)
    then show ?thesis using add [OF ok(2), of b z 0] ok by (auto simp: memblock_reserve_def memblock_inv_def)
  next
    case (Call_free b z)
    then show ?thesis using remove_range_total [OF ok(2), of b z] ok by (auto simp: memblock_free_def memblock_inv_def)
  next
    case (Call_setclr b z st f)
    then show ?thesis using setclr_flag_ok [OF ok(1), of b z st f] ok by (auto simp: memblock_inv_def)
  next
    case (Call_alloc_range z k s e f)
    then show ?thesis using alloc_range_ok [OF ok, of z k s e f] assms reserves_inv [OF assms]
      by (elim disjE exE conjE) simp_all
  next
    case (Call_alloc_try_raw z k lo hi)
    then show ?thesis using alloc_internal_ok [OF assms, of z k lo hi] assms reserves_inv [OF assms]
      by (elim disjE exE conjE) (simp_all add: memblock_alloc_try_raw_def)
  next
    case (Call_enforce_limit l)
    then show ?thesis
      using remove_range_total [OF ok(1), of "find_max_addr (regions (memory mb)) l" PHYS_ADDR_MAX]
        remove_range_total [OF ok(2), of "find_max_addr (regions (memory mb)) l" PHYS_ADDR_MAX] assms
      by (auto simp: memblock_enforce_memory_limit_def memblock_inv_def Let_def)
  next
    case (Call_cap_range b z)
    then show ?thesis using cap_memory_range_inv [OF assms] by simp
  next
    case (Call_limit_remove_map l)
    then show ?thesis using cap_memory_range_inv [OF assms] assms
      by (simp add: memblock_mem_limit_remove_map_def Let_def)
  next
    case (Call_set_limit l)
    then show ?thesis using assms by (simp add: memblock_set_current_limit_def memblock_inv_def)
  next
    case (Call_set_bottom_up up)
    then show ?thesis using assms by (simp add: memblock_set_bottom_up_def memblock_inv_def)
  qed
qed

lemma memblock_run_inv:
  assumes "memblock_inv mb"
  shows "\<exists>mb'. memblock_run cs mb = Some mb' \<and> memblock_inv mb'"
  using assms
proof (induction cs arbitrary: mb)
  case (Cons c cs)
  from memblock_do_inv [OF Cons.prems, of c] obtain mb1 where "memblock_do c mb = Some mb1" "memblock_inv mb1"
    by blast
  then show ?case using Cons.IH [of mb1] by simp
qed simp

lemma memblock_init_inv: "0 < n \<Longrightarrow> memblock_inv (memblock_init n)"
  by (auto simp: memblock_inv_def memblock_init_def type_ok_def empty_region_def Let_def)

section \<open>The contract\<close>

definition disjoint_blocks :: "u64 \<Rightarrow> u64 \<Rightarrow> u64 \<Rightarrow> u64 \<Rightarrow> bool" where
  "disjoint_blocks r1 z1 r2 z2 \<longleftrightarrow> (\<forall>x. \<not> ((r1 \<le> x \<and> x < r1 + z1) \<and> (r2 \<le> x \<and> x < r2 + z2)))"

definition in_block :: "u64 \<Rightarrow> u64 \<times> u64 \<Rightarrow> bool" where
  "in_block x b \<longleftrightarrow> fst b \<le> x \<and> x < fst b + snd b"

text \<open>
  A sequence of allocations, each a size, the exponent of its alignment and the two limits, with the blocks of those that
  succeed.
\<close>

fun memblock_allocs :: "(u64 \<times> nat \<times> u64 \<times> u64) list \<Rightarrow> memblock \<Rightarrow> (memblock \<times> (u64 \<times> u64) list) option" where
  "memblock_allocs [] mb = Some (mb, [])"
| "memblock_allocs ((z, k, lo, hi) # rs) mb =
     (case memblock_alloc_try_raw mb z (2 ^ k) lo hi of
        None \<Rightarrow> None
      | Some (mb1, r) \<Rightarrow> map_option (apsnd (if r = 0 then id else Cons (r, z))) (memblock_allocs rs mb1))"

lemma reserves_taken:
  assumes "reserves mb r sz mb'" "r \<le> x" "x < r + sz"
  shows "\<not> free mb' flags x"
  using assms by (auto simp: reserves_def free_def added_def split: option.splits)

definition memblock_sample :: memblock where
  "memblock_sample = \<lparr>bottom_up = False, current_limit = 0x80000000,
     memory = \<lparr>max_regions = 8, total_size = 0x40000000,
       regions = [\<lparr>r_base = 0x40000000, r_size = 0x40000000, r_flags = 0\<rparr>]\<rparr>,
     reserved = \<lparr>max_regions = 8, total_size = 0x3000,
       regions = [\<lparr>r_base = 0x40080000, r_size = 0x2000, r_flags = 0\<rparr>,
                  \<lparr>r_base = 0x40083000, r_size = 0x1000, r_flags = 0\<rparr>]\<rparr>\<rparr>"

text \<open>
  \<^verbatim>\<open>memblock_trim_memory\<close> shrinks a region and leaves \<^verbatim>\<open>total_size\<close> as it was.
\<close>

lemma memblock_trim_stale:
  "map_option (\<lambda>(mb, r). (type_ok (memory mb), type_ok (memory (memblock_trim_memory mb 0x1000)),
       total_size (memory (memblock_trim_memory mb 0x1000)), regions (memory (memblock_trim_memory mb 0x1000))))
     (memblock_add (memblock_init 128) 0x40000800 0x4000) =
   Some (True, False, 0x4000, [\<lparr>r_base = 0x40001000, r_size = 0x3000, r_flags = 0\<rparr>])"
  by code_simp

lemma memblock_sample_inv: "memblock_inv memblock_sample"
  by code_simp

text \<open>
  C30: \<^verbatim>\<open>memblock_add_range\<close> refines the union of an address map with a range. On a well-formed array it
  never trips its \<^verbatim>\<open>BUG_ON\<close>s and either reports \<^verbatim>\<open>-ENOMEM\<close>, leaving the array as it was, which only
  happens when the array has no room for \<open>cnt + 1\<close> further entries, or returns 0 with a well-formed array
  of the same capacity in which exactly the addresses of \<open>[base, base + size)\<close> that no region held before
  are now held with the given flags, the size being capped so that the end does not wrap around.
\<close>

theorem memblock_add_range_refines:
  assumes "type_ok type"
  shows "(memblock_add_range type base sz flags = Some (type, - ENOMEM) \<and> max_regions type < 2 * length (regions type) + 1) \<or>
    (\<exists>type'. memblock_add_range type base sz flags = Some (type', 0) \<and> type_ok type' \<and>
      max_regions type' = max_regions type \<and> (type' = type \<or> minimal (regions type')) \<and>
      mb_at (regions type') = added base (base + memblock_cap_size base sz) flags (mb_at (regions type)))"
  by (rule add_range_ok [OF assms])

theorem memblock_add_range_refines_witness:
  "\<exists>type'. memblock_add_range (reserved memblock_sample) 0x40081000 0x5000 0 = Some (type', 0) \<and> type_ok type' \<and>
     mb_at (regions type') = added 0x40081000 0x40086000 0 (mb_at (regions (reserved memblock_sample)))"
proof -
  have "type_ok (reserved memblock_sample)" by code_simp
  moreover have "\<not> max_regions (reserved memblock_sample) < 2 * length (regions (reserved memblock_sample)) + 1"
    by code_simp
  moreover have "(0x40081000 :: u64) + memblock_cap_size 0x40081000 0x5000 = 0x40086000" by code_simp
  ultimately show ?thesis
    using memblock_add_range_refines [of "reserved memblock_sample" "0x40081000" "0x5000" 0] by auto
qed

text \<open>
  C31: \<^verbatim>\<open>memblock_remove_range\<close> refines the restriction of an address map: it never trips a \<^verbatim>\<open>BUG_ON\<close> and
  either reports \<^verbatim>\<open>-ENOMEM\<close> with the array unchanged (only when there is no room for the two cuts) or
  returns 0 with a well-formed array in which exactly the addresses of the range are gone.
\<close>

theorem memblock_remove_range_refines:
  assumes "type_ok type"
  shows "(memblock_remove_range type base sz = Some (type, - ENOMEM) \<and> max_regions type < length (regions type) + 2) \<or>
    (\<exists>type'. memblock_remove_range type base sz = Some (type', 0) \<and> type_ok type' \<and>
      max_regions type' = max_regions type \<and>
      mb_at (regions type') = removed base (base + memblock_cap_size base sz) (mb_at (regions type)))"
  by (rule remove_range_ok [OF assms])

theorem memblock_remove_range_refines_witness:
  "\<exists>type'. memblock_remove_range (reserved memblock_sample) 0x40080800 0x2A00 = Some (type', 0) \<and> type_ok type' \<and>
     mb_at (regions type') = removed 0x40080800 0x40083200 (mb_at (regions (reserved memblock_sample)))"
proof -
  have "type_ok (reserved memblock_sample)" by code_simp
  moreover have "\<not> max_regions (reserved memblock_sample) < length (regions (reserved memblock_sample)) + 2"
    by code_simp
  moreover have "(0x40080800 :: u64) + memblock_cap_size 0x40080800 0x2A00 = 0x40083200" by code_simp
  ultimately show ?thesis
    using memblock_remove_range_refines [of "reserved memblock_sample" "0x40080800" "0x2A00"] by auto
qed

text \<open>
  C32: marking a range (\<^verbatim>\<open>memblock_setclr_flag\<close>, behind \<^verbatim>\<open>memblock_mark_nomap\<close> and its siblings) changes
  the flags of exactly the memory in the range, leaves the extent of memory and the reserved array alone
  and merges the regions again; it reports \<^verbatim>\<open>-ENOMEM\<close> only when there is no room for the two cuts.
\<close>

theorem memblock_setclr_flag_refines:
  fixes flag :: u32 and st :: bool
  assumes "type_ok (memory mb)"
  shows "(memblock_setclr_flag mb base sz st flag = Some (mb, - ENOMEM) \<and>
      max_regions (memory mb) < length (regions (memory mb)) + 2) \<or>
    (\<exists>type'. memblock_setclr_flag mb base sz st flag = Some (mb\<lparr>memory := type'\<rparr>, 0) \<and> type_ok type' \<and>
      max_regions type' = max_regions (memory mb) \<and> minimal (regions type') \<and>
      mb_at (regions type') = reflagged base (base + memblock_cap_size base sz)
        (\<lambda>x. if st then x OR flag else x AND NOT flag) (mb_at (regions (memory mb))))"
  by (rule setclr_flag_ok [OF assms])

theorem memblock_setclr_flag_refines_witness:
  "\<exists>type'. memblock_setclr_flag memblock_sample 0x50000000 0x1000 True MEMBLOCK_NOMAP =
       Some (memblock_sample\<lparr>memory := type'\<rparr>, 0) \<and> type_ok type' \<and>
     mb_at (regions type') = reflagged 0x50000000 0x50001000 (\<lambda>x. x OR 1) (mb_at (regions (memory memblock_sample)))"
proof -
  have "type_ok (memory memblock_sample)" by code_simp
  moreover have "\<not> max_regions (memory memblock_sample) < length (regions (memory memblock_sample)) + 2"
    by code_simp
  moreover have "(0x50000000 :: u64) + memblock_cap_size 0x50000000 0x1000 = 0x50001000" by code_simp
  ultimately show ?thesis
    using memblock_setclr_flag_refines [of memblock_sample "0x50000000" "0x1000" True MEMBLOCK_NOMAP] by auto
qed

text \<open>
  C28: an allocation from well-formed arrays always returns. Either it returns 0 and changes nothing, or it
  returns an address aligned to \<open>2 ^ k\<close>, at or above the first page, whose block does not wrap around, ends
  at or below the limit and lies in memory with no flag set and outside everything reserved before; after
  the call exactly this block is reserved in addition, and the memory array is as before.
\<close>

theorem memblock_alloc_try_raw_correct:
  assumes "memblock_inv mb"
  shows "memblock_alloc_try_raw mb sz (2 ^ k) min_addr max_addr = Some (mb, 0) \<or>
    (\<exists>r mb' lo. memblock_alloc_try_raw mb sz (2 ^ k) min_addr max_addr = Some (mb', r) \<and> r \<noteq> 0 \<and> lo \<in> {min_addr, 0} \<and>
      block_ok mb MEMBLOCK_NONE (find_lo lo) (find_hi mb lo (alloc_hi mb max_addr)) sz (2 ^ k) r \<and>
      reserves mb r sz mb' \<and> memblock_inv mb')"
  using alloc_internal_ok [OF assms, of sz k min_addr max_addr] reserves_inv [OF assms]
  unfolding memblock_alloc_try_raw_def by blast

lemma reserves_at:
  assumes "reserves mb r z mb'"
  shows "mb_at (regions (reserved mb')) x \<noteq> None \<longleftrightarrow> mb_at (regions (reserved mb)) x \<noteq> None \<or> in_block x (r, z)"
  using assms by (auto simp: reserves_def added_def in_block_def split: option.splits)

lemma reserves_free: "reserves mb r z mb' \<Longrightarrow> free mb' flags x \<Longrightarrow> free mb flags x"
  using reserves_at [of mb r z mb' x] by (auto simp: free_def reserves_def)

lemma memblock_sample_alloc:
  "map_option snd (memblock_alloc_try_raw memblock_sample 0x1800 (2 ^ 12) 0 0) = Some 0x7FFFE000"
  by code_simp

theorem memblock_alloc_try_raw_correct_witness:
  "\<exists>mb'. memblock_alloc_try_raw memblock_sample 0x1800 (2 ^ 12) 0 0 = Some (mb', 0x7FFFE000) \<and>
     block_ok memblock_sample MEMBLOCK_NONE 0x1000 0x80000000 0x1800 (2 ^ 12) 0x7FFFE000 \<and> memblock_inv mb'"
proof -
  have "find_lo 0 = 0x1000" "find_hi memblock_sample 0 (alloc_hi memblock_sample 0) = 0x80000000" by code_simp+
  with memblock_alloc_try_raw_correct [OF memblock_sample_inv, of "0x1800" 12 0 0] memblock_sample_alloc
  show ?thesis by auto
qed

text \<open>
  C29: the blocks of any sequence of allocations. From well-formed arrays every sequence of \<^verbatim>\<open>memblock_alloc_try_raw\<close> calls,
  each with an alignment that is a power of two, runs to its end and leaves the arrays well-formed and the memory array as before. The blocks
  the successful calls return have no address in common with one another; each lies in memory that was free
  before the first call; and the addresses reserved after the last call are those reserved before the first and those of the blocks.
\<close>

theorem memblock_allocs_disjoint:
  assumes "memblock_inv mb"
  shows "\<exists>mb' bs. memblock_allocs rs mb = Some (mb', bs) \<and> memblock_inv mb' \<and> memory mb' = memory mb \<and>
    sorted_wrt (\<lambda>(r1, z1) (r2, z2). disjoint_blocks r1 z1 r2 z2) bs \<and>
    (\<forall>r z x. (r, z) \<in> set bs \<longrightarrow> in_block x (r, z) \<longrightarrow> free mb MEMBLOCK_NONE x) \<and>
    (\<forall>x. mb_at (regions (reserved mb')) x \<noteq> None \<longleftrightarrow> mb_at (regions (reserved mb)) x \<noteq> None \<or> (\<exists>b \<in> set bs. in_block x b))"
  using assms
proof (induction rs arbitrary: mb)
  case Nil
  then show ?case by simp
next
  case (Cons a rs)
  obtain z k lo hi where a: "a = (z, k, lo, hi)" by (cases a)
  consider "memblock_alloc_try_raw mb z (2 ^ k) lo hi = Some (mb, 0)"
    | r mb1 l h where "memblock_alloc_try_raw mb z (2 ^ k) lo hi = Some (mb1, r)" "r \<noteq> 0"
      "block_ok mb MEMBLOCK_NONE l h z (2 ^ k) r" "reserves mb r z mb1"
    using alloc_internal_ok [OF Cons.prems, of z k lo hi] unfolding memblock_alloc_try_raw_def by blast
  then show ?case
  proof cases
    case 1
    then show ?thesis using Cons.IH [OF Cons.prems] a by auto
  next
    case 2
    obtain mb' bs where R: "memblock_allocs rs mb1 = Some (mb', bs)" "memblock_inv mb'" "memory mb' = memory mb1"
      "sorted_wrt (\<lambda>(r1, z1) (r2, z2). disjoint_blocks r1 z1 r2 z2) bs"
      "\<forall>r z x. (r, z) \<in> set bs \<longrightarrow> in_block x (r, z) \<longrightarrow> free mb1 MEMBLOCK_NONE x"
      "\<forall>x. mb_at (regions (reserved mb')) x \<noteq> None \<longleftrightarrow> mb_at (regions (reserved mb1)) x \<noteq> None \<or> (\<exists>b \<in> set bs. in_block x b)"
      using Cons.IH [OF reserves_inv [OF Cons.prems 2(4)]] by blast
    have sorted: "sorted_wrt (\<lambda>(r1, z1) (r2, z2). disjoint_blocks r1 z1 r2 z2) ((r, z) # bs)"
      using R(4,5) reserves_taken [OF 2(4)] by (fastforce simp: disjoint_blocks_def in_block_def)
    have block: "free mb MEMBLOCK_NONE x" if "in_block x (r, z)" for x
      using that 2(3) by (simp add: block_ok_def range_ok_def in_block_def)
    have before: "free mb MEMBLOCK_NONE x" if "(r', z') \<in> set ((r, z) # bs)" "in_block x (r', z')" for r' z' x
      using that block reserves_free [OF 2(4)] R(5) by auto
    have "mb_at (regions (reserved mb')) x \<noteq> None \<longleftrightarrow> mb_at (regions (reserved mb)) x \<noteq> None \<or> (\<exists>b \<in> set ((r, z) # bs). in_block x b)" for x
      using R(6) [rule_format, of x] reserves_at [OF 2(4), of x] by auto
    moreover have "memblock_allocs (a # rs) mb = Some (mb', (r, z) # bs)" using a 2(1,2) R(1) by simp
    moreover have "memory mb' = memory mb" using R(3) 2(4) by (simp add: reserves_def)
    ultimately show ?thesis using R(2) sorted before by blast
  qed
qed

theorem memblock_allocs_disjoint_witness:
  "\<exists>mb'. memblock_allocs [(0x1800, 12, 0, 0), (2 ^ 32, 12, 0, 0), (0x1000, 12, 0, 0)] memblock_sample =
       Some (mb', [(0x7FFFE000, 0x1800), (0x7FFFD000, 0x1000)]) \<and>
     memblock_inv mb' \<and> disjoint_blocks 0x7FFFE000 0x1800 0x7FFFD000 0x1000 \<and> mb_at (regions (reserved mb')) 0x7FFFD800 \<noteq> None"
proof -
  let ?rs = "[(0x1800, 12, 0, 0), (2 ^ 32, 12, 0, 0), (0x1000, 12, 0, 0)]"
  have "map_option snd (memblock_allocs ?rs memblock_sample) = Some [(0x7FFFE000, 0x1800), (0x7FFFD000, 0x1000)]" by code_simp
  then obtain mb' where r: "memblock_allocs ?rs memblock_sample = Some (mb', [(0x7FFFE000, 0x1800), (0x7FFFD000, 0x1000)])" by auto
  have "in_block 0x7FFFD800 (0x7FFFD000, 0x1000)" by code_simp
  then show ?thesis using memblock_allocs_disjoint [OF memblock_sample_inv, of ?rs] r by auto
qed

text \<open>
  C27: starting from the initial arrays, every sequence of the calls of \<open>memblock_call\<close> (adding, removing,
  reserving, freeing, marking, allocating with an alignment that is a power of two, limiting, choosing the direction) runs to its end without a \<^verbatim>\<open>BUG_ON\<close> and leaves both
  arrays sorted, disjoint, free of wrap-around, within their capacity and with \<^verbatim>\<open>total_size\<close> the sum of the
  sizes. \<^verbatim>\<open>memblock_trim_memory\<close> is not one of these calls.
\<close>

theorem memblock_run_safe:
  assumes "0 < n"
  shows "\<exists>mb. memblock_run cs (memblock_init n) = Some mb \<and> memblock_inv mb"
  by (rule memblock_run_inv [OF memblock_init_inv [OF assms]])

theorem memblock_run_safe_witness:
  "\<exists>mb. memblock_run [Call_add 0x40000000 0x40000000, Call_reserve 0x40080000 0x200000, Call_set_bottom_up True, Call_setclr 0x7F000000 0x1000 True 1,
     Call_alloc_try_raw 0x1000 12 0 0, Call_free 0x40100000 0x1000, Call_enforce_limit 0x20000000] (memblock_init 128) = Some mb \<and>
     memblock_inv mb"
  by (rule memblock_run_safe) simp

text \<open>
  C33: freeing what was reserved undoes it: when none of the range was reserved before, a successful
  \<^verbatim>\<open>memblock_reserve\<close> followed by a successful \<^verbatim>\<open>memblock_free\<close> of the same range gives back the same
  reserved addresses, and the memory array is untouched.
\<close>

theorem memblock_reserve_free:
  assumes "memblock_inv mb" "memblock_reserve mb b z = Some (mb1, 0)" "memblock_free mb1 b z = Some (mb2, 0)"
    and "\<And>a. b \<le> a \<Longrightarrow> a < b + memblock_cap_size b z \<Longrightarrow> mb_at (regions (reserved mb)) a = None"
  shows "mb_at (regions (reserved mb2)) = mb_at (regions (reserved mb)) \<and> memory mb2 = memory mb"
proof -
  have ok: "type_ok (reserved mb)" using assms(1) by (simp add: memblock_inv_def)
  obtain t1 where 1: "memblock_add_range (reserved mb) b z 0 = Some (t1, 0)" "mb1 = mb\<lparr>reserved := t1\<rparr>"
    using assms(2) by (auto simp: memblock_reserve_def)
  obtain t2 where 2: "memblock_remove_range t1 b z = Some (t2, 0)" "mb2 = mb1\<lparr>reserved := t2\<rparr>"
    using assms(3) 1(2) by (auto simp: memblock_free_def)
  have "mb_at (regions t2) = mb_at (regions (reserved mb))"
    by (rule mbt.add_remove [OF ok 1(1) 2(1) assms(4)])
  with 1(2) 2(2) show ?thesis by simp
qed

theorem memblock_reserve_free_witness:
  "\<exists>mb1 mb2. memblock_reserve memblock_sample 0x40082000 0x1000 = Some (mb1, 0) \<and>
     memblock_free mb1 0x40082000 0x1000 = Some (mb2, 0) \<and>
     mb_at (regions (reserved mb2)) = mb_at (regions (reserved memblock_sample)) \<and> memory mb2 = memory memblock_sample"
proof -
  have "map_option snd (memblock_reserve memblock_sample 0x40082000 0x1000) = Some 0" by code_simp
  then obtain mb1 where 1: "memblock_reserve memblock_sample 0x40082000 0x1000 = Some (mb1, 0)" by auto
  have "map_option snd (Option.bind (memblock_reserve memblock_sample 0x40082000 0x1000)
      (\<lambda>(mb1, _). memblock_free mb1 0x40082000 0x1000)) = Some 0" by code_simp
  with 1 obtain mb2 where 2: "memblock_free mb1 0x40082000 0x1000 = Some (mb2, 0)" by auto
  have gap: "mb_at (regions (reserved memblock_sample)) a = None"
    if "0x40082000 \<le> a" "a < 0x40082000 + memblock_cap_size 0x40082000 0x1000" for a
  proof -
    have "memblock_cap_size 0x40082000 0x1000 = 0x1000" by code_simp
    with that have "0x40082000 \<le> a" "a < 0x40083000" by simp_all
    then show ?thesis
      by (simp add: memblock_sample_def mb_at_def covers_def r_end_def not_less not_le)
  qed
  from memblock_reserve_free [OF memblock_sample_inv 1 2 gap] 1 2 show ?thesis by blast
qed

text \<open>
  C34: the binary search agrees with the array: \<^verbatim>\<open>memblock_is_memory\<close> and \<^verbatim>\<open>memblock_is_reserved\<close> answer
  whether some region holds the address, and \<^verbatim>\<open>memblock_is_map_memory\<close> whether one without the no-map flag
  does.
\<close>

theorem memblock_search_correct:
  assumes "memblock_inv mb"
  shows "memblock_is_memory mb a = (mb_at (regions (memory mb)) a \<noteq> None) \<and>
    memblock_is_reserved mb a = (mb_at (regions (reserved mb)) a \<noteq> None) \<and>
    memblock_is_map_memory mb a = (\<exists>f. mb_at (regions (memory mb)) a = Some f \<and> f AND MEMBLOCK_NOMAP = 0)"
proof -
  have m: "type_ok (memory mb)" and r: "type_ok (reserved mb)" using assms by (auto simp: memblock_inv_def)
  note fm = search_ok [OF m, of a, unfolded found_at_def] and fr = search_ok [OF r, of a, unfolded found_at_def]
  have "memblock_is_memory mb a = (mb_at (regions (memory mb)) a \<noteq> None)"
    using fm region_at [OF m, of _ a] by (auto simp: memblock_is_memory_def)
  moreover have "memblock_is_reserved mb a = (mb_at (regions (reserved mb)) a \<noteq> None)"
    using fr region_at [OF r, of _ a] by (auto simp: memblock_is_reserved_def)
  moreover have "memblock_is_map_memory mb a = (\<exists>f. mb_at (regions (memory mb)) a = Some f \<and> f AND MEMBLOCK_NOMAP = 0)"
    using fm region_at [OF m, of _ a] by (auto simp: memblock_is_map_memory_def memblock_is_nomap_def Let_def)
  ultimately show ?thesis by blast
qed

theorem memblock_search_correct_witness:
  "memblock_is_reserved memblock_sample 0x40081FFF \<and> \<not> memblock_is_reserved memblock_sample 0x40082000 \<and>
   memblock_is_map_memory memblock_sample 0x40082000"
  using memblock_search_correct [OF memblock_sample_inv, of "0x40081FFF"]
    memblock_search_correct [OF memblock_sample_inv, of "0x40082000"]
  by (simp add: memblock_sample_def mb_at_def covers_def r_end_def)

end
