(* ===== verification/Buddy_Boot.thy ===== *)
theory Buddy_Boot
  imports Buddy_Init Memblock_Props
begin

text \<open>
  The page allocator after boot (theory \<open>Buddy_Init\<close>): cutting a range of frames into blocks frees exactly
  the range, and after \<^verbatim>\<open>free_area_init_nodes\<close> the frames available in a zone are those that lie wholly in
  free memory of the zone's kind.
\<close>

section \<open>Cutting a range into blocks\<close>

lemma fit_order_ok:
  assumes "start < e"
  shows "fit_order start e k \<le> k" "start + 2 ^ fit_order start e k \<le> e"
  using assms by (induction k) auto

lemma boot_order_ok:
  assumes "0 < start" "start < e" "start < 2 ^ 64"
  shows "boot_order start e < MAX_ORDER" "2 ^ boot_order start e dvd start" "start + 2 ^ boot_order start e \<le> e"
proof -
  let ?k = "min (MAX_ORDER - 1) (find_first_set (of_nat start))"
  have le: "boot_order start e \<le> ?k" unfolding boot_order_def by (rule fit_order_ok [OF assms(2)])
  then show "boot_order start e < MAX_ORDER" by simp
  show "start + 2 ^ boot_order start e \<le> e" unfolding boot_order_def by (rule fit_order_ok [OF assms(2)])
  have u: "unat (of_nat start :: u64) = start" using assms(3) by (simp add: unat_of_nat take_bit_nat_eq_self)
  have "boot_order start e \<le> builtin_ctz (of_nat start :: u64)" using le by (simp add: find_first_set_def)
  moreover have "(of_nat start :: u64) \<noteq> 0" using u assms(1) by (metis unat_0 less_numeral_extra(3))
  ultimately have "2 ^ boot_order start e dvd unat (of_nat start :: u64)" by (intro ctz_dvd)
  then show "2 ^ boot_order start e dvd start" by (simp only: u)
qed

definition boot_page :: "nat \<Rightarrow> page \<Rightarrow> bool" where
  "boot_page z pg \<longleftrightarrow> frame_in_use z pg \<and> pg_head pg = None \<and> \<not> head_bit pg"

definition released :: "page \<Rightarrow> page" where
  "released pg = pg\<lparr>pg_flags := unset_bit PG_reserved (pg_flags pg), pg_refcount := 0\<rparr>"

lemma released_simps [simp]: "pg_refcount (released pg) = 0" "pg_head (released pg) = pg_head pg"
  by (simp_all add: released_def)

lemma boot_released_ok:
  assumes "boot_page z pg"
  shows "boot_page z (released pg)"
proof -
  have "drop_bit 62 (unset_bit 1 x) = drop_bit 62 x" for x :: u64
    by (rule bit_word_eqI) (auto simp: bit_simps)
  then have "page_zone_id (released pg) = page_zone_id pg" by (simp add: released_def page_zone_id_def)
  moreover have "unset_bit 1 x AND PAGE_FLAGS_CHECK_AT_FREE = unset_bit 1 (x AND PAGE_FLAGS_CHECK_AT_FREE)" for x :: u64
    by (rule bit_word_eqI) (auto simp: bit_simps)
  ultimately show ?thesis using assms
    by (simp add: boot_page_def frame_in_use_def head_bit_def released_def bit_unset_bit_iff)
qed

lemma release_page_ok:
  assumes "boot_page z (pages s p)" "z < MAX_NR_ZONES"
  shows "release_page p s = Some (upd_page p released s)"
proof -
  have "\<not> PagePoisoned (pages s p)" using assms in_use_not_poisoned by (auto simp: boot_page_def)
  moreover have "\<not> PageCompound (pages s p)" using assms(1) by (simp add: boot_page_def PageCompound_def PageTail_def head_bit_def)
  ultimately show ?thesis
    by (simp add: release_page_def try_page_def ClearPageReserved_def upd_page_def released_def set_page_count_def)
qed

lemma release_pages_ok:
  assumes "\<And>q. p \<le> q \<Longrightarrow> q < p + n \<Longrightarrow> boot_page z (pages s q)" "z < MAX_NR_ZONES"
  shows "foreach release_page [p..<p + n] s = Some (on_frames p n released s)"
  using assms(1)
proof (induction n arbitrary: p s)
  case (Suc n)
  have "foreach release_page [Suc p..<Suc p + n] (upd_page p released s) = Some (on_frames (Suc p) n released (upd_page p released s))"
    by (rule Suc.IH) (use Suc.prems in auto)
  moreover have "release_page p s = Some (upd_page p released s)" by (rule release_page_ok [OF _ assms(2)]) (use Suc.prems in auto)
  moreover have "[p..<p + Suc n] = p # [Suc p..<Suc p + n]" using upt_conv_Cons [of p "p + Suc n"] by (simp del: upt_Suc)
  ultimately show ?case by (simp add: on_frames_Suc del: upt_Suc)
qed simp

definition set_managed :: "nat \<Rightarrow> u64 \<Rightarrow> pg_data \<Rightarrow> pg_data" where
  "set_managed z v = upd_zone z (\<lambda>zn. zn\<lparr>managed_pages := v\<rparr>)"

lemma set_managed_simps [simp]:
  "pages (set_managed z v s) = pages s" "mem (set_managed z v s) = mem s" "memblock_kernel (set_managed z v s) = memblock_kernel s"
  "online_cpus (set_managed z v s) = online_cpus s" "free_areas (zones (set_managed z v s) z') = free_areas (zones s z')"
  "pageset (zones (set_managed z v s) z') = pageset (zones s z')"
  "zone_initialized (zones (set_managed z v s) z') = zone_initialized (zones s z')"
  "z' \<noteq> z \<Longrightarrow> zones (set_managed z v s) z' = zones s z'"
  by (simp_all add: set_managed_def upd_zone_def)

lemma avail_set_managed [simp]: "avail (set_managed z v s) z' = avail s z'"
  by (simp add: avail_def blocks_def cached_def)

lemma pg_inv_set_managed [simp]: "pg_inv (set_managed z v s) \<longleftrightarrow> pg_inv s"
proof -
  have "blocks (set_managed z v s) z' = blocks s z'" "cached (set_managed z v s) z' = cached s z'" for z'
    by (simp_all add: blocks_def cached_def)
  then have "zone_inv (set_managed z v s) z' = zone_inv s z'" for z'
    by (simp add: zone_inv_def rep_def lists_ok_def listed_def pcps_ok_def)
  then show ?thesis by (simp add: pg_inv_def)
qed

definition set_count1 :: "nat \<Rightarrow> pg_data \<Rightarrow> pg_data" where
  "set_count1 p = upd_page p (\<lambda>pg. pg\<lparr>pg_refcount := 1\<rparr>)"

lemma boot_core_ok:
  assumes inv: "pg_inv s" and z: "z < MAX_NR_ZONES" "k < MAX_ORDER" "2 ^ k dvd p" and off: "frames k p \<inter> avail s z = {}"
    and pg: "\<And>q. q \<in> frames k p \<Longrightarrow> valid s q \<and> boot_page z (pages s q)"
  shows "\<exists>s'. free_pages_boot_core c p k s = Some s' \<and> pg_inv s' \<and> avail s' z = avail s z \<union> frames k p \<and>
    touched z (avail s z \<union> frames k p) s s' \<and> (\<forall>z'<MAX_NR_ZONES. z' \<noteq> z \<longrightarrow> avail s' z' = avail s z')"
proof -
  let ?s1 = "on_frames p (2 ^ k) released s"
  let ?m = "managed_pages (zones s z) + 2 ^ k"
  let ?s3 = "set_count1 p (set_managed z ?m ?s1)"
  have rel: "boot_page z (pages ?s1 q)" if "q \<in> frames k p" for q
    using boot_released_ok pg [OF that] that by (auto simp: frames_def)
  have same: "pages ?s1 q = pages s q" if "q \<notin> frames k p" for q using that by (auto simp: frames_def)
  have z1: "page_zone_id (pages ?s1 p) = z" using rel [of p] by (simp add: boot_page_def frame_in_use_def)
  have pgs: "frame_in_use z (pages ?s3 q) \<and> pg_head (pages ?s3 q) = None \<and> \<not> head_bit (pages ?s3 q) \<and>
      pg_refcount (pages ?s3 q) = (if q = p then 1 else 0)" if "q \<in> frames k p" for q
    using rel [OF that] that by (auto simp: set_count1_def upd_page_def boot_page_def frames_def)
  have keep: "pages ?s3 q = pages s q" if "q \<notin> frames k p" for q
    using same that by (auto simp: set_count1_def upd_page_def)
  have zone: "page_zone_id (pages s q) = z" if "q \<in> frames k p" for q
    using pg [OF that] by (simp add: boot_page_def frame_in_use_def)
  have av: "avail ?s3 z' = avail s z'" for z' by (simp add: set_count1_def)
  have "foreach release_page [p..<p + 2 ^ k] s = Some ?s1"
    by (rule release_pages_ok [OF _ z(1)]) (use pg in \<open>auto simp: frames_def\<close>)
  moreover have "upd_zone z (\<lambda>zn. zn\<lparr>managed_pages := managed_pages zn + 2 ^ k\<rparr>) ?s1 = set_managed z ?m ?s1"
    by (simp add: set_managed_def upd_zone_def)
  moreover have "try_page p set_page_refcounted (set_managed z ?m ?s1) = Some ?s3"
    using rel [of p] by (simp add: try_page_def set_page_refcounted_def set_count1_def upd_page_def set_page_count_def PageTail_def boot_page_def)
  ultimately have eq: "free_pages_boot_core c p k s = free_pages_pfn c p k ?s3"
    using z1 by (simp add: free_pages_boot_core_def)
  have inv3: "pg_inv ?s3"
  proof -
    let ?t = "set_managed z (managed_pages (zones s z)) ?s3"
    have "zones ?t = zones s" by (auto simp: set_managed_def set_count1_def upd_zone_def upd_page_def fun_eq_iff)
    from in_use_frame(1) [OF inv z(1) this _ off] keep zone pgs have "pg_inv ?t" by (simp add: set_count1_def)
    then show ?thesis by simp
  qed
  have mbk: "memblock_kernel ?s3 = memblock_kernel s" by (simp add: set_count1_def)
  have own: "owned ?s3 z k p 1"
    using z off pg pgs by (auto simp: owned_def av mbk tail_ok_def)
  have t: "touched z (avail s z \<union> frames k p) s ?s3"
    using keep by (auto simp: touched_def set_count1_def)
  obtain s' where "free_pages_pfn c p k ?s3 = Some s'" "pg_inv s'" "touched z (avail ?s3 z \<union> frames k p) ?s3 s'"
    "avail s' z = avail ?s3 z \<union> frames k p" "\<forall>z'<MAX_NR_ZONES. z' \<noteq> z \<longrightarrow> avail s' z' = avail ?s3 z'"
    using free_pages_pfn_ok [OF inv3 own, of c] by auto
  then show ?thesis using eq touched_trans [OF t] by (simp add: av)
qed

declare free_pages_memory.simps [simp del]

text \<open>What is asked of frames that are about to be freed, and what freeing them does.\<close>

definition to_free :: "pg_data \<Rightarrow> nat \<Rightarrow> nat set \<Rightarrow> bool" where
  "to_free s z F \<longleftrightarrow> F \<inter> avail s z = {} \<and> (\<forall>q\<in>F. valid s q \<and> boot_page z (pages s q))"

definition freed :: "pg_data \<Rightarrow> nat \<Rightarrow> nat set \<Rightarrow> pg_data \<Rightarrow> bool" where
  "freed s z F s' \<longleftrightarrow> pg_inv s' \<and> avail s' z = avail s z \<union> F \<and> touched z (avail s z \<union> F) s s' \<and>
     (\<forall>z'<MAX_NR_ZONES. z' \<noteq> z \<longrightarrow> avail s' z' = avail s z')"

lemma freed_refl: "pg_inv s \<Longrightarrow> freed s z {} s"
  by (simp add: freed_def)

lemma freed_trans:
  assumes "freed s z F s1" "freed s1 z G s2"
  shows "freed s z (F \<union> G) s2"
proof -
  have "touched z (avail s z \<union> (F \<union> G)) s s2"
    by (rule touched_trans [of _ _ _ s1]; rule touched_mono) (use assms in \<open>auto simp: freed_def\<close>)
  then show ?thesis using assms by (auto simp: freed_def)
qed

lemma to_free_after:
  assumes "to_free s z (F \<union> G)" "F \<inter> G = {}" "freed s z F s'"
  shows "to_free s' z G"
proof -
  have "pages s' q = pages s q" if "q \<in> G" for q
    using assms that by (auto simp: to_free_def freed_def touched_def)
  then show ?thesis using assms by (auto simp: to_free_def freed_def touched_def)
qed

lemma free_pages_memory_ok:
  assumes "pg_inv s" "z < MAX_NR_ZONES" "0 < start" "e \<le> 2 ^ 64" "to_free s z {start..<e}"
  shows "\<exists>s'. free_pages_memory c start e s = Some s' \<and> freed s z {start..<e} s'"
  using assms
proof (induction c start e s rule: free_pages_memory.induct)
  case (1 c start e s)
  show ?case
  proof (cases "start < e")
    case False
    then show ?thesis using freed_refl [OF "1.prems"(1)] by (subst free_pages_memory.simps) simp
  next
    case True
    let ?k = "boot_order start e"
    note k = boot_order_ok [OF "1.prems"(3) True]
    have lt: "start < 2 ^ 64" using True "1.prems"(4) by simp
    have split: "{start..<e} = frames ?k start \<union> {start + 2 ^ ?k..<e}" "frames ?k start \<inter> {start + 2 ^ ?k..<e} = {}"
      using k(3) [OF lt] by (auto simp: frames_def)
    have now: "frames ?k start \<inter> avail s z = {}" "q \<in> frames ?k start \<Longrightarrow> valid s q \<and> boot_page z (pages s q)" for q
      using "1.prems"(5) split(1) by (auto simp: to_free_def)
    obtain s1 where s1: "free_pages_boot_core c start ?k s = Some s1" "freed s z (frames ?k start) s1"
      using boot_core_ok [OF "1.prems"(1,2) k(1,2) now] lt unfolding freed_def by blast
    have "to_free s1 z {start + 2 ^ ?k..<e}"
      using to_free_after [OF _ split(2) s1(2)] "1.prems"(5) split(1) by simp
    moreover have "memblock_free_pages c start ?k s = Some s1" using s1(1) by (simp add: memblock_free_pages_def)
    ultimately obtain s' where s': "free_pages_memory c (start + 2 ^ ?k) e s1 = Some s'" "freed s1 z {start + 2 ^ ?k..<e} s'"
      using "1.IH" [OF True _ _ _ "1.prems"(2) _ "1.prems"(4)] "1.prems"(3) s1(2) by (auto simp: freed_def)
    have "free_pages_memory c start e s = Some s'"
      using True "1.prems"(3) s'(1) \<open>memblock_free_pages c start ?k s = Some s1\<close> by (subst free_pages_memory.simps) simp
    with freed_trans [OF s1(2) s'(2)] split(1) show ?thesis by simp
  qed
qed

section \<open>Freeing all free ranges\<close>

definition range_frames :: "u64 \<times> u64 \<Rightarrow> nat set" where
  "range_frames r = {unat (PFN_UP (fst r))..<unat (PFN_DOWN (snd r))}"

definition ranges_frames :: "(u64 \<times> u64) list \<Rightarrow> nat set" where
  "ranges_frames rs = (\<Union>r\<in>set rs. range_frames r)"

lemma free_range_ok:
  assumes "pg_inv s" "z < MAX_NR_ZONES" "0 \<notin> range_frames r" "to_free s z (range_frames r)"
  shows "\<exists>s' n'. free_range c r (s, n) = Some (s', n') \<and> freed s z (range_frames r) s'"
proof -
  obtain b e where r: "r = (b, e)" by (cases r)
  let ?u = "unat (PFN_UP b)" and ?d = "unat (PFN_DOWN e)"
  show ?thesis
  proof (cases "PFN_DOWN e \<le> PFN_UP b")
    case True
    then have "range_frames r = {}" by (simp add: range_frames_def r word_le_nat_alt)
    with True show ?thesis using freed_refl [OF assms(1)] by (simp add: free_range_def r)
  next
    case False
    then have lt: "?u < ?d" by (simp add: word_le_nat_alt)
    then have "0 < ?u" using assms(3) by (auto simp: range_frames_def r)
    moreover have "?d \<le> 2 ^ 64" using unsigned_less [of "PFN_DOWN e", where ?'a = nat] by simp
    ultimately obtain s' where "free_pages_memory c ?u ?d s = Some s'" "freed s z (range_frames r) s'"
      using free_pages_memory_ok [OF assms(1,2), of ?u ?d c] assms(4) by (auto simp: range_frames_def r)
    then show ?thesis using False by (simp add: free_range_def r)
  qed
qed

lemma free_range_list_ok:
  assumes "pg_inv s" "z < MAX_NR_ZONES" "0 \<notin> ranges_frames rs" "to_free s z (ranges_frames rs)"
    "sorted_wrt (\<lambda>r r'. range_frames r \<inter> range_frames r' = {}) rs"
  shows "\<exists>s' n'. foreach (free_range c) rs (s, n) = Some (s', n') \<and> freed s z (ranges_frames rs) s'"
  using assms
proof (induction rs arbitrary: s n)
  case Nil
  then show ?case using freed_refl by (simp add: ranges_frames_def)
next
  case (Cons r rs)
  have split: "ranges_frames (r # rs) = range_frames r \<union> ranges_frames rs" "range_frames r \<inter> ranges_frames rs = {}"
    using Cons.prems(5) by (auto simp: ranges_frames_def)
  have "to_free s z (range_frames r)" using Cons.prems(4) split(1) by (auto simp: to_free_def)
  then obtain s1 n1 where 1: "free_range c r (s, n) = Some (s1, n1)" "freed s z (range_frames r) s1"
    using free_range_ok [OF Cons.prems(1,2)] Cons.prems(3) split(1) by blast
  have "to_free s1 z (ranges_frames rs)" using to_free_after [OF _ split(2) 1(2)] Cons.prems(4) split(1) by simp
  then obtain s2 n2 where 2: "foreach (free_range c) rs (s1, n1) = Some (s2, n2)" "freed s1 z (ranges_frames rs) s2"
    using Cons.IH [of s1 n1] Cons.prems split(1) 1(2) by (auto simp: freed_def)
  from freed_trans [OF 1(2) 2(2)] 1(1) 2(1) split(1) show ?case by simp
qed

end
