(* ===== verification/Buddy_Start.thy ===== *)
theory Buddy_Start
  imports Buddy_Boot
begin

text \<open>
  The state in which \<^verbatim>\<open>free_area_init_nodes\<close> leaves the page allocator.
\<close>

section \<open>The per-cpu batches\<close>

lemma batch_limit:
  assumes "- (2 ^ 31) \<le> b" "b < 2 ^ 31" "\<not> (of_int b * PAGE_SIZE :: u64) > 1024 * 1024"
  shows "0 \<le> b" "b \<le> 256"
proof -
  have "(of_int b * PAGE_SIZE :: u64) = of_int (b * 4096)" by simp
  then have u: "uint (of_int b * PAGE_SIZE :: u64) = b * 4096 mod 2 ^ 64" by (simp only: uint_word_of_int) (simp add: take_bit_eq_mod)
  have le: "b * 4096 mod 2 ^ 64 \<le> 1048576" using assms(3) unfolding word_less_alt u by simp
  show 0: "0 \<le> b"
  proof (rule ccontr)
    assume "\<not> 0 \<le> b"
    have "b * 4096 mod 2 ^ 64 = (b * 4096 + 2 ^ 64) mod 2 ^ 64" by simp
    also have "\<dots> = b * 4096 + 2 ^ 64" using \<open>\<not> 0 \<le> b\<close> assms(1) by (intro mod_pos_pos_trivial) auto
    finally have "b * 4096 mod 2 ^ 64 = b * 4096 + 2 ^ 64" .
    with le assms(1) show False by simp
  qed
  then have "b * 4096 mod 2 ^ 64 = b * 4096" using assms(2) by (intro mod_pos_pos_trivial) auto
  with le show "b \<le> 256" by simp
qed

lemma sint_small:
  assumes "unat (w :: u64) < 1000"
  shows "sint (ucast w :: u32) = int (unat w)"
proof -
  have u: "unat (ucast w :: u32) = unat w" using assms by (simp add: unsigned_ucast_eq take_bit_nat_eq_self)
  have "uint (ucast w :: u32) = int (unat w)" by (simp only: uint_nat u)
  moreover have "sint (ucast w :: u32) = signed_take_bit 31 (uint (ucast w :: u32))" by (simp add: sint_uint)
  moreover have "signed_take_bit 31 (int (unat w)) = int (unat w)"
    by (rule signed_take_bit_int_eq_self) (use assms in \<open>simp_all del: of_nat_unat\<close>)
  ultimately show ?thesis by (simp only:)
qed

lemma zone_batchsize_bounds: "0 \<le> zone_batchsize zn \<and> zone_batchsize zn \<le> 95"
proof -
  define b0 where "b0 = sint (ucast (managed_pages zn div 1024) :: u32)"
  define b1 where "b1 = (if of_int b0 * PAGE_SIZE > (1024 * 1024 :: u64) then 256 else b0)"
  define b3 where "b3 = (if b1 div 4 < 1 then 1 else b1 div 4)"
  define n where "n = b3 + b3 div 2"
  have "- (2 ^ 31) \<le> b0" "b0 < 2 ^ 31" unfolding b0_def
    using sint_greater_eq [of "ucast (managed_pages zn div 1024) :: u32"] sint_less [of "ucast (managed_pages zn div 1024) :: u32"] by simp_all
  then have "0 \<le> b1 \<and> b1 \<le> 256" using batch_limit [of b0] by (auto simp: b1_def)
  then have b3: "1 \<le> b3" "b3 \<le> 64" by (auto simp: b3_def)
  then have n: "1 \<le> n" "n \<le> 96" by (auto simp: n_def)
  have un: "unat (of_int n :: u64) = nat n"
    using n by (simp add: unat_eq_nat_uint uint_word_of_int take_bit_int_eq_self)
  then have "(of_int n :: u64) \<noteq> 0" using n(1) by auto
  then obtain k where k: "unat (rounddown_pow_of_two (of_int n)) = 2 ^ k" "2 ^ k \<le> nat n"
    using rounddown_bounds [of "of_int n"] un by auto
  let ?r = "rounddown_pow_of_two (of_int n)"
  have "nat n \<le> 96" using n(2) by simp
  then have "1 \<le> unat ?r" "unat ?r \<le> 96" unfolding k(1) using k(2) by (simp, linarith)
  then have "unat (?r - 1) = unat ?r - 1"
    by (metis One_nat_def unat_minus_one unat_gt_0 le_zero_eq less_one not_le unat_0)
  then have "sint (ucast (?r - 1) :: u32) = int (unat ?r - 1)" using \<open>unat ?r \<le> 96\<close> by (subst sint_small) auto
  moreover have "zone_batchsize zn = sint (ucast (?r - 1) :: u32)"
    unfolding zone_batchsize_def Let_def n_def b3_def b1_def b0_def by (rule refl)
  ultimately show ?thesis using \<open>unat ?r \<le> 96\<close> by simp
qed

lemma pageset_wf: "pcp_wf (pageset_set_high_and_batch zn pageset_init)" "pcp_list (pageset_set_high_and_batch zn pageset_init) = []"
  "0 < pcp_batch (pageset_set_high_and_batch zn pageset_init)"
proof -
  let ?b = "zone_batchsize zn" let ?w = "of_int (zone_batchsize zn) :: u64"
  have w: "unat ?w = nat ?b" using zone_batchsize_bounds [of zn]
    by (simp add: unat_eq_nat_uint uint_word_of_int take_bit_int_eq_self)
  have "nat ?b \<le> 95" using zone_batchsize_bounds [of zn] by linarith
  then have "unat (6 * ?w) = 6 * nat ?b" by (simp add: unat_word_ariths w)
  then have h: "sint (ucast (6 * ?w) :: u32) = 6 * ?b" using zone_batchsize_bounds [of zn] by (subst sint_small) auto
  have "unat (max 1 ?w) = max 1 (nat ?b)" using w by (auto simp: max_def word_le_nat_alt)
  then have b: "sint (ucast (max 1 ?w) :: u32) = max 1 ?b" using zone_batchsize_bounds [of zn] by (subst sint_small) auto
  show "pcp_wf (pageset_set_high_and_batch zn pageset_init)" "0 < pcp_batch (pageset_set_high_and_batch zn pageset_init)"
    using zone_batchsize_bounds [of zn]
    by (auto simp: pcp_wf_def pageset_set_high_and_batch_def pageset_set_batch_def pageset_update_pcp_def pageset_init_def h b)
  show "pcp_list (pageset_set_high_and_batch zn pageset_init) = []"
    by (simp add: pageset_set_high_and_batch_def pageset_set_batch_def pageset_update_pcp_def pageset_init_def)
qed

section \<open>Frames and addresses\<close>

definition page_of :: "u64 \<Rightarrow> nat" where
  "page_of a = unat a div 4096"

definition frame_base :: "nat \<Rightarrow> u64" where
  "frame_base q = of_nat (q * 4096)"

lemma drop_12: "unat (drop_bit 12 x) = unat x div 4096" for x :: u64
proof -
  have "take_bit 64 (unat x) = unat x" using unsigned_less [of x, where ?'a = nat] by (simp add: take_bit_nat_eq_self)
  then show ?thesis by (simp only: unsigned_drop_bit_eq) (simp add: drop_bit_eq_div)
qed

lemma pfn_up_nat: "unat x + 4095 < 2 ^ 64 \<Longrightarrow> unat (PFN_UP x) = (unat x + 4095) div 4096"
proof -
  assume a: "unat x + 4095 < 2 ^ 64"
  have "x + 4096 - 1 = x + 4095" by simp
  moreover have "unat (x + 4095) = unat x + 4095" using a by (simp add: unat_word_ariths)
  ultimately show ?thesis by (simp only: PFN_UP_def drop_12)
qed

lemma pfn_down_nat: "unat (PFN_DOWN x) = unat x div 4096"
  by (simp only: PFN_DOWN_def drop_12)

lemma page_of_base: "q < 2 ^ 52 \<Longrightarrow> unat (frame_base q) = q * 4096" "q < 2 ^ 52 \<Longrightarrow> page_of (frame_base q) = q"
  by (simp_all add: frame_base_def page_of_def unat_of_nat take_bit_nat_eq_self del: of_nat_mult)

definition mem_limit :: "memblock \<Rightarrow> bool" where
  "mem_limit mb \<longleftrightarrow> (\<forall>m\<in>set (regions (memory mb)). r_end m \<le> 2 ^ 48)"

lemma range_frames_iff:
  assumes "mem_limit mb" "bounded mb r"
  shows "q \<in> range_frames r \<longleftrightarrow> unat (fst r) \<le> q * 4096 \<and> (q + 1) * 4096 \<le> unat (snd r)"
proof -
  obtain m where "m \<in> set (regions (memory mb))" "snd r \<le> r_end m" "fst r \<le> snd r" using assms(2) by (auto simp: bounded_def)
  then have "snd r \<le> 2 ^ 48" "fst r \<le> 2 ^ 48" using assms(1) unfolding mem_limit_def by (meson order_trans)+
  then have "unat (fst r) \<le> 2 ^ 48" by (simp add: word_le_nat_alt)
  then have "unat (PFN_UP (fst r)) = (unat (fst r) + 4095) div 4096" by (intro pfn_up_nat) simp
  then show ?thesis unfolding range_frames_def pfn_down_nat by auto
qed

lemma range_frame_addr:
  assumes "mem_limit mb" "bounded mb r" "q \<in> range_frames r"
  shows "q < 2 ^ 52" "page_of a = q \<Longrightarrow> in_range a r"
proof -
  have q: "unat (fst r) \<le> q * 4096" "(q + 1) * 4096 \<le> unat (snd r)" using range_frames_iff [OF assms(1,2)] assms(3) by auto
  have "unat (snd r) < 2 ^ 64" using unsigned_less [of "snd r", where ?'a = nat] by simp
  then show "q < 2 ^ 52" using q(2) by simp
  show "in_range a r" if "page_of a = q"
  proof -
    have "q * 4096 \<le> unat a" "unat a < (q + 1) * 4096" using that by (auto simp: page_of_def)
    then show ?thesis using q by (simp add: in_range_def word_le_nat_alt word_less_nat_alt)
  qed
qed

definition zone_flag :: "nat \<Rightarrow> u32" where
  "zone_flag z = (if z = ZONE_DMA then MEMBLOCK_DMA else if z = ZONE_NORMAL then MEMBLOCK_NONE else MEMBLOCK_MOVABLE)"

text \<open>The frames that lie in one of the free ranges the loops visit.\<close>

definition free_frames :: "memblock \<Rightarrow> nat \<Rightarrow> nat set" where
  "free_frames mb z = ranges_frames (the (for_each_free_mem_range mb (zone_flag z)))"

lemma free_frames_ok:
  assumes "memblock_inv mb" "mem_limit mb"
  obtains rs where "for_each_free_mem_range mb (zone_flag z) = Some rs" "free_frames mb z = ranges_frames rs"
    "sorted_wrt (\<lambda>r r'. range_frames r \<inter> range_frames r' = {}) rs"
    "\<And>q a. q \<in> ranges_frames rs \<Longrightarrow> page_of a = q \<Longrightarrow> free mb (zone_flag z) a" "\<And>q. q \<in> ranges_frames rs \<Longrightarrow> q < 2 ^ 52"
proof -
  have ok: "type_ok (memory mb)" "type_ok (reserved mb)" using assms(1) by (auto simp: memblock_inv_def)
  obtain rs where rs: "for_each_free_mem_range mb (zone_flag z) = Some rs"
    "\<forall>x. free mb (zone_flag z) x \<longleftrightarrow> (\<exists>r\<in>set rs. in_range x r)"
    "sorted_wrt (\<lambda>r r'. \<forall>x. \<not> (in_range x r \<and> in_range x r')) rs" "\<forall>r\<in>set rs. bounded mb r"
    using free_mem_ranges [OF ok, of "zone_flag z"] by blast
  have addr: "q < 2 ^ 52" "page_of a = q \<Longrightarrow> in_range a r" if "r \<in> set rs" "q \<in> range_frames r" for q a r
    using range_frame_addr [OF assms(2), of r q] rs(4) that by auto
  have dis: "range_frames r \<inter> range_frames r' = {}"
    if "r \<in> set rs" "r' \<in> set rs" "\<forall>x. \<not> (in_range x r \<and> in_range x r')" for r r'
  proof -
    have "\<not> (q \<in> range_frames r \<and> q \<in> range_frames r')" for q
      using addr(2) [OF that(1), of q "frame_base q"] addr(2) [OF that(2), of q "frame_base q"] addr(1) [OF that(1), of q]
        page_of_base(2) [of q] that(3) by blast
    then show ?thesis by blast
  qed
  have "sorted_wrt (\<lambda>r r'. range_frames r \<inter> range_frames r' = {}) rs"
    by (rule sorted_wrt_mono_rel [OF _ rs(3)]) (rule dis)
  moreover have "free mb (zone_flag z) a" if "q \<in> ranges_frames rs" "page_of a = q" for q a
    using that addr(2) rs(2) unfolding ranges_frames_def by blast
  moreover have "q < 2 ^ 52" if "q \<in> ranges_frames rs" for q using that addr(1) by (auto simp: ranges_frames_def)
  ultimately show thesis using that [of rs] rs(1) by (simp add: free_frames_def)
qed

lemma free_frames_free:
  assumes "memblock_inv mb" "mem_limit mb" "q \<in> free_frames mb z"
  shows "page_of a = q \<Longrightarrow> free mb (zone_flag z) a" "q < 2 ^ 52"
  using free_frames_ok [OF assms(1,2), of z] assms(3) by metis+

lemma zone_flag_inj: "z < MAX_NR_ZONES \<Longrightarrow> z' < MAX_NR_ZONES \<Longrightarrow> zone_flag z = zone_flag z' \<Longrightarrow> z = z'"
  by (simp add: zone_flag_def split: if_splits)

lemma free_frames_apart:
  assumes "memblock_inv mb" "mem_limit mb" "q \<in> free_frames mb z" "q \<in> free_frames mb z'" "z < MAX_NR_ZONES" "z' < MAX_NR_ZONES"
  shows "z = z'"
proof -
  have q: "page_of (frame_base q) = q" by (rule page_of_base) (rule free_frames_free(2) [OF assms(1-3)])
  have "free mb (zone_flag z) (frame_base q)" "free mb (zone_flag z') (frame_base q)"
    using free_frames_free(1) [OF assms(1,2)] assms(3,4) q by auto
  then show ?thesis by (intro zone_flag_inj assms(5,6)) (simp add: free_def)
qed

lemma free_frames_valid:
  assumes "memblock_inv mb" "mem_limit mb" "q \<in> free_frames mb z"
  shows "pfn_valid mb q"
proof -
  have q: "q < 2 ^ 52" "page_of (frame_base q) = q" using free_frames_free(2) [OF assms] page_of_base by auto
  have fr: "free mb (zone_flag z) (frame_base q)" by (rule free_frames_free(1) [OF assms q(2)])
  have addr: "push_bit 12 (of_nat q :: u64) = frame_base q" by (simp add: frame_base_def push_bit_eq_mult)
  have "unat (drop_bit 12 (frame_base q)) = q" using pfn_down_nat [of "frame_base q"] page_of_base(1) [OF q(1)] by (simp add: PFN_DOWN_def)
  then have "drop_bit 12 (frame_base q) = of_nat q" by (metis of_nat_unat word_of_int_uint of_int_of_nat_eq)
  moreover have "memblock_is_map_memory mb (frame_base q)"
    using search_ok [of "memory mb" "frame_base q"] fr region_at [of "memory mb"] assms(1)
    by (auto simp: memblock_is_map_memory_def found_at_def memblock_inv_def free_def zone_flag_def memblock_is_nomap_def
        split: if_splits)
  ultimately show ?thesis by (simp add: pfn_valid_def addr)
qed

section \<open>Reserved pages\<close>

lemma reserved_from_eq:
  "reserved_from mb i = map (\<lambda>r. (r_base r, r_base r + r_size r - 1)) (drop i (regions (reserved mb)))"
proof (induction mb i rule: reserved_from.induct)
  case (1 mb i)
  show ?case
  proof (cases "i < length (regions (reserved mb))")
    case True
    then have n: "next_reserved_mem_region mb i =
        Some (r_base (regions (reserved mb) ! i), r_base (regions (reserved mb) ! i) + r_size (regions (reserved mb) ! i) - 1, i + 1)"
      by (simp add: next_reserved_mem_region_def Let_def)
    show ?thesis using 1 [OF n refl refl] True n by (subst reserved_from.simps) (simp add: Cons_nth_drop_Suc [symmetric])
  next
    case False
    then show ?thesis by (subst reserved_from.simps) (simp add: next_reserved_mem_region_def)
  qed
qed

declare reserved_from.simps [simp del]

definition reserved_frames :: "memblock \<Rightarrow> nat set" where
  "reserved_frames mb = (\<Union>r\<in>set (for_each_reserved_mem_region mb). {unat (PFN_DOWN (fst r))..<unat (PFN_UP (snd r))})"

lemma pfn_up_less: "q < unat (PFN_UP x) \<Longrightarrow> q * 4096 \<le> unat x"
proof -
  assume q: "q < unat (PFN_UP x)"
  have "x + 4096 - 1 = x + 4095" by simp
  then have "unat (PFN_UP x) = unat (x + 4095) div 4096" by (simp only: PFN_UP_def drop_12)
  then have "q + 1 \<le> unat (x + 4095) div 4096" using q by simp
  then have "(q + 1) * 4096 \<le> unat (x + 4095)" by (simp only: less_eq_div_iff_mult_less_eq)
  moreover have "unat (x + 4095) \<le> unat x + 4095" by (simp add: unat_word_ariths)
  ultimately show ?thesis by simp
qed

lemma reserved_frame_addr:
  assumes "type_ok (reserved mb)" "q \<in> reserved_frames mb"
  shows "\<exists>a. page_of a = q \<and> mb_at (regions (reserved mb)) a \<noteq> None"
proof -
  obtain r where r: "r \<in> set (regions (reserved mb))" and q: "unat (PFN_DOWN (r_base r)) \<le> q" "q < unat (PFN_UP (r_end r - 1))"
    using assms(2) by (auto simp: reserved_frames_def for_each_reserved_mem_region_def reserved_from_eq r_end_def)
  have ok: "r_base r < r_end r"
  proof (rule ccontr)
    assume "\<not> r_base r < r_end r"
    then have "r = empty_region" using assms(1) r by (auto simp: type_ok_def rgns_ok_def)
    then have "PFN_UP (r_end r - 1) = PFN_UP (- 1)" by (simp add: empty_region_def r_end_def)
    moreover have "PFN_UP (- 1) = 0" by code_simp
    ultimately show False using q(2) by simp
  qed
  have "unat (r_base r) div 4096 < q + 1" using q(1) unfolding pfn_down_nat by simp
  then have lo: "unat (r_base r) < (q + 1) * 4096" by (simp only: div_less_iff_less_mult)
  have e: "unat (r_end r - 1) = unat (r_end r) - 1" using ok by (metis unat_minus_one not_less0 word_less_nat_alt unat_0)
  have hi: "q * 4096 \<le> unat (r_end r) - 1" using pfn_up_less [OF q(2)] e by simp
  define a where "a = (if r_base r \<le> frame_base q then frame_base q else r_base r)"
  have "q < 2 ^ 52"
    using hi unsigned_less [of "r_end r", where ?'a = nat] by simp
  then have b: "unat (frame_base q) = q * 4096" by (rule page_of_base)
  have "covers r a" using ok hi b by (auto simp: a_def covers_def word_less_nat_alt word_le_nat_alt)
  moreover have "page_of a = q" using b lo by (auto simp: a_def page_of_def word_le_nat_alt not_le div_nat_eqI)
  ultimately show ?thesis using r by (auto simp: mb_at_None)
qed

lemma reserved_not_free:
  assumes "memblock_inv mb" "mem_limit mb" "q \<in> free_frames mb z"
  shows "q \<notin> reserved_frames mb"
proof
  assume "q \<in> reserved_frames mb"
  then obtain a where "page_of a = q" "mb_at (regions (reserved mb)) a \<noteq> None"
    using reserved_frame_addr assms(1) unfolding memblock_inv_def by blast
  with free_frames_free(1) [OF assms] show False by (auto simp: free_def)
qed

text \<open>\<open>tame\<close>: neither in a free list nor part of a compound page.\<close>

definition tame :: "page \<Rightarrow> bool" where
  "tame pg \<longleftrightarrow> pg_head pg = None \<and> \<not> head_bit pg \<and> \<not> PageBuddy pg"

definition pages_in :: "nat set \<Rightarrow> pg_data \<Rightarrow> pg_data \<Rightarrow> bool" where
  "pages_in Q s s' \<longleftrightarrow> (\<exists>pgs. s' = s\<lparr>pages := pgs\<rparr> \<and> (\<forall>q. q \<notin> Q \<longrightarrow> pgs q = pages s q))"

lemma pages_inD:
  assumes "pages_in Q s s'"
  shows "zones s' = zones s" "memblock_kernel s' = memblock_kernel s" "mem s' = mem s" "possible_cpus s' = possible_cpus s"
    "q \<notin> Q \<Longrightarrow> pages s' q = pages s q"
  using assms by (auto simp: pages_in_def)

lemma pages_in_refl: "pages_in Q s s"
  by (auto simp: pages_in_def intro!: exI [of _ "pages s"])

lemma pages_in_trans: "pages_in Q s s1 \<Longrightarrow> pages_in R s1 s2 \<Longrightarrow> pages_in (Q \<union> R) s s2"
  by (auto simp: pages_in_def)

lemma tame_reserved:
  assumes "tame pg"
  shows "\<exists>pg'. SetPageReserved (pg\<lparr>pg_head := None\<rparr>) = Some pg' \<and> tame pg'"
proof -
  have "\<not> PagePoisoned (pg\<lparr>pg_head := None\<rparr>)" using assms by (auto simp: tame_def PagePoisoned_def head_bit_def)
  moreover have "\<not> PageCompound (pg\<lparr>pg_head := None\<rparr>)" using assms by (simp add: tame_def PageCompound_def PageTail_def head_bit_def)
  ultimately show ?thesis using assms
    by (simp add: SetPageReserved_def tame_def head_bit_def PageBuddy_def PageType_def bit_set_bit_iff)
qed

lemma reserve_page_ok:
  assumes "\<forall>q. tame (pages s q)"
  shows "\<exists>s'. reserve_page p s = Some s' \<and> pages_in {p} s s' \<and> (\<forall>q. tame (pages s' q))"
proof (cases "valid s p")
  case True
  obtain pg' where "SetPageReserved (pages s p\<lparr>pg_head := None\<rparr>) = Some pg'" "tame pg'" using tame_reserved assms by blast
  then show ?thesis using True assms by (auto simp: reserve_page_def try_page_def upd_page_def pages_in_def)
next
  case False
  then show ?thesis using assms pages_in_refl by (auto simp: reserve_page_def)
qed

lemma reserve_pages_ok:
  assumes "\<forall>q. tame (pages s q)"
  shows "\<exists>s'. foreach reserve_page qs s = Some s' \<and> pages_in (set qs) s s' \<and> (\<forall>q. tame (pages s' q))"
  using assms
proof (induction qs arbitrary: s)
  case Nil
  then show ?case using pages_in_refl by simp
next
  case (Cons p qs)
  obtain s1 where 1: "reserve_page p s = Some s1" "pages_in {p} s s1" "\<forall>q. tame (pages s1 q)" using reserve_page_ok [OF Cons.prems] by blast
  obtain s2 where "foreach reserve_page qs s1 = Some s2" "pages_in (set qs) s1 s2" "\<forall>q. tame (pages s2 q)" using Cons.IH [OF 1(3)] by blast
  with 1 pages_in_trans [OF 1(2)] show ?case by auto
qed

lemma reserve_regions_ok:
  assumes "\<forall>q. tame (pages s q)"
  shows "\<exists>s'. foreach (\<lambda>(start, end). reserve_bootmem_region start end) rs s = Some s' \<and>
    pages_in (\<Union>r\<in>set rs. {unat (PFN_DOWN (fst r))..<unat (PFN_UP (snd r))}) s s' \<and> (\<forall>q. tame (pages s' q))"
  using assms
proof (induction rs arbitrary: s)
  case Nil
  then show ?case using pages_in_refl by simp
next
  case (Cons r rs)
  obtain b e where r: "r = (b, e)" by (cases r)
  obtain s1 where 1: "reserve_bootmem_region b e s = Some s1" "pages_in {unat (PFN_DOWN b)..<unat (PFN_UP e)} s s1" "\<forall>q. tame (pages s1 q)"
    using reserve_pages_ok [OF Cons.prems, of "[unat (PFN_DOWN b)..<unat (PFN_UP e)]"] by (auto simp: reserve_bootmem_region_def)
  obtain s2 where "foreach (\<lambda>(start, end). reserve_bootmem_region start end) rs s1 = Some s2"
    "pages_in (\<Union>r\<in>set rs. {unat (PFN_DOWN (fst r))..<unat (PFN_UP (snd r))}) s1 s2" "\<forall>q. tame (pages s2 q)"
    using Cons.IH [OF 1(3)] by blast
  with 1 pages_in_trans [OF 1(2)] r show ?case by auto
qed

section \<open>Setting up the descriptors\<close>

definition with_pages :: "nat set \<Rightarrow> page \<Rightarrow> pg_data \<Rightarrow> pg_data" where
  "with_pages F pg s = s\<lparr>pages := (\<lambda>q. if q \<in> F then pg else pages s q)\<rparr>"

lemma with_pages_simps [simp]:
  "pages (with_pages F pg s) q = (if q \<in> F then pg else pages s q)" "zones (with_pages F pg s) = zones s"
  "memblock_kernel (with_pages F pg s) = memblock_kernel s" "possible_cpus (with_pages F pg s) = possible_cpus s"
  "mem (with_pages F pg s) = mem s" "with_pages F pg (with_pages G pg s) = with_pages (F \<union> G) pg s" "with_pages {} pg s = s"
  by (auto simp: with_pages_def fun_eq_iff intro!: pg_data.equality)

lemma fold_upd_page: "fold (\<lambda>p. upd_page p (\<lambda>_. pg)) qs s = with_pages (set qs) pg s"
proof (induction qs arbitrary: s)
  case (Cons q qs)
  have "upd_page q (\<lambda>_. pg) s = with_pages {q} pg s" by (auto simp: upd_page_def with_pages_def fun_eq_iff intro!: pg_data.equality)
  with Cons show ?case by simp
qed simp

lemma init_pages_eq: "init_pages z r s = with_pages (range_frames r) (init_single_page (of_nat z)) s"
  by (cases r) (simp add: init_pages_def fold_upd_page range_frames_def)

lemma init_pages_list: "fold (init_pages z) rs s = with_pages (ranges_frames rs) (init_single_page (of_nat z)) s"
  by (induction rs arbitrary: s) (simp_all add: init_pages_eq ranges_frames_def Un_commute)

lemma init_single_page_ok:
  assumes "z < MAX_NR_ZONES"
  shows "boot_page z (init_single_page (of_nat z))" "tame (init_single_page w)" "tame page_zero"
proof -
  have z: "z \<in> {0, 1, 2}" using assms by auto
  have "page_zone_id (init_single_page (of_nat z)) = z \<and> pg_flags (init_single_page (of_nat z)) AND PAGE_FLAGS_CHECK_AT_FREE = 0 \<and>
      \<not> bit (pg_flags (init_single_page (of_nat z))) 2"
    using z by (elim insertE emptyE) (simp, code_simp)+
  then show "boot_page z (init_single_page (of_nat z))"
    by (simp add: boot_page_def frame_in_use_def head_bit_def init_single_page_def page_mapcount_reset_def init_page_count_def
        set_page_count_def set_page_zone_def page_zero_def)
  show "tame (init_single_page w)"
    by (simp add: tame_def head_bit_def init_single_page_def page_mapcount_reset_def init_page_count_def PageBuddy_def PageType_def
        set_page_count_def set_page_zone_def page_zero_def bit_simps)
  show "tame page_zero" by (simp add: tame_def head_bit_def page_zero_def PageBuddy_def PageType_def)
qed

section \<open>Empty zones\<close>

definition fresh :: "nat list \<Rightarrow> zone \<Rightarrow> bool" where
  "fresh cpus zn \<longleftrightarrow> (\<forall>k. free_areas zn k = \<lparr>free_list = [], nr_free = 0\<rparr>) \<and>
     (\<forall>c. pcp_wf (pageset zn c) \<and> pcp_list (pageset zn c) = []) \<and> (\<forall>c\<in>set cpus. 0 < pcp_batch (pageset zn c))"

lemma zone_pagesets:
  assumes "\<forall>c. pcp_wf (pageset zn c) \<and> pcp_list (pageset zn c) = []" "zn' = fold zone_pageset_init cpus zn"
  shows "\<forall>c. pcp_wf (pageset zn' c) \<and> pcp_list (pageset zn' c) = [] \<and>
    (c \<in> set cpus \<or> 0 < pcp_batch (pageset zn c) \<longrightarrow> 0 < pcp_batch (pageset zn' c))"
  using assms(1) unfolding assms(2)
proof (induction cpus arbitrary: zn)
  case (Cons d cpus)
  let ?zn = "zone_pageset_init d zn"
  have wf: "\<forall>c. pcp_wf (pageset ?zn c) \<and> pcp_list (pageset ?zn c) = []"
    using Cons.prems pageset_wf(1,2) [of zn] by (simp add: zone_pageset_init_def)
  show ?case
  proof
    fix c
    let ?z = "fold zone_pageset_init cpus ?zn"
    have "pcp_wf (pageset ?z c) \<and> pcp_list (pageset ?z c) = [] \<and> (c \<in> set cpus \<or> 0 < pcp_batch (pageset ?zn c) \<longrightarrow> 0 < pcp_batch (pageset ?z c))"
      using Cons.IH [OF wf] by blast
    moreover have "0 < pcp_batch (pageset ?zn c)" if "c = d \<or> 0 < pcp_batch (pageset zn c)"
      using that pageset_wf(3) by (auto simp: zone_pageset_init_def)
    ultimately show "pcp_wf (pageset (fold zone_pageset_init (d # cpus) zn) c) \<and> pcp_list (pageset (fold zone_pageset_init (d # cpus) zn) c) = [] \<and>
        (c \<in> set (d # cpus) \<or> 0 < pcp_batch (pageset zn c) \<longrightarrow> 0 < pcp_batch (pageset (fold zone_pageset_init (d # cpus) zn) c))"
      by auto
  qed
qed simp

lemma init_zone_fresh:
  assumes "\<forall>c. pcp_wf (pageset zn c) \<and> pcp_list (pageset zn c) = []"
  shows "fresh cpus (init_zone cpus zn)"
  using zone_pagesets [OF assms refl, of cpus] by (simp add: fresh_def init_zone_def zone_init_free_lists_def)

lemma pg_inv_fresh:
  assumes "\<And>z. z < MAX_NR_ZONES \<Longrightarrow> fresh cpus (zones s z) \<and> zone_initialized (zones s z)" "\<forall>q. tame (pages s q)"
  shows "pg_inv s" "z < MAX_NR_ZONES \<Longrightarrow> avail s z = {}"
proof -
  have e: "blocks s z = {} \<and> cached s z = {}" if "z < MAX_NR_ZONES" for z
    using assms(1) [OF that] by (auto simp: blocks_def cached_def fresh_def)
  then show "z < MAX_NR_ZONES \<Longrightarrow> avail s z = {}" by (simp add: avail_def block_frames_def)
  have "zone_inv s z" if z: "z < MAX_NR_ZONES" for z
    using assms(1) [OF z] e [OF z] assms(2)
    by (auto simp: zone_inv_def rep_def lists_ok_def pcps_ok_def fresh_def buddy_ok_def tame_def quiet_def block_frames_def)
  then show "pg_inv s" by (simp add: pg_inv_def)
qed

section \<open>Freeing zone after zone\<close>

definition stage :: "memblock \<Rightarrow> nat set \<Rightarrow> pg_data \<Rightarrow> bool" where
  "stage mb Z s \<longleftrightarrow> pg_inv s \<and> memblock_kernel s = mb \<and>
     (\<forall>z<MAX_NR_ZONES. avail s z = (if z \<in> Z then free_frames mb z else {}) \<and> (z \<notin> Z \<longrightarrow> to_free s z (free_frames mb z)))"

lemma stage_next:
  assumes mb: "memblock_inv mb" "mem_limit mb" "mb_at (regions (memory mb)) 0 = None"
    and st: "stage mb Z s" and z: "z < MAX_NR_ZONES" "z \<notin> Z"
  shows "\<exists>s' n'. free_ranges c (zone_flag z) (s, n) = Some (s', n') \<and> stage mb (insert z Z) s'"
proof -
  let ?F = "free_frames mb z"
  have inv: "pg_inv s" and mk: "memblock_kernel s = mb" and tf: "to_free s z ?F" using st z by (auto simp: stage_def)
  obtain rs where rs: "for_each_free_mem_range mb (zone_flag z) = Some rs" "?F = ranges_frames rs"
    "sorted_wrt (\<lambda>r r'. range_frames r \<inter> range_frames r' = {}) rs" using free_frames_ok [OF mb(1,2)] by metis
  have "0 \<notin> ?F"
  proof
    assume "0 \<in> ?F"
    then have "free mb (zone_flag z) 0" by (intro free_frames_free(1) [OF mb(1,2)]) (simp_all add: page_of_def)
    with mb(3) show False by (simp add: free_def)
  qed
  then obtain s' n' where s': "foreach (free_range c) rs (s, n) = Some (s', n')" "freed s z ?F s'"
    using free_range_list_ok [OF inv z(1) _ _ rs(3)] tf rs(2) by metis
  have "free_ranges c (zone_flag z) (s, n) = Some (s', n')" using s'(1) rs(1) mk by (simp add: free_ranges_def)
  moreover have "stage mb (insert z Z) s'"
    unfolding stage_def
  proof (intro conjI allI impI)
    show "pg_inv s'" using s'(2) by (simp add: freed_def)
    show "memblock_kernel s' = mb" using s'(2) mk by (simp add: freed_def touched_def)
    fix y assume y: "y < MAX_NR_ZONES"
    show "avail s' y = (if y \<in> insert z Z then free_frames mb y else {})"
      using s'(2) st y z by (cases "y = z") (auto simp: freed_def stage_def)
    assume "y \<notin> insert z Z"
    then have y2: "y \<noteq> z" "to_free s y (free_frames mb y)" "avail s' y = avail s y" "avail s z = {}"
      using st y z s'(2) by (auto simp: stage_def freed_def)
    have "free_frames mb y \<inter> ?F = {}" using free_frames_apart [OF mb(1,2) _ _ y z(1)] y2(1) by blast
    then have "pages s' q = pages s q" if "q \<in> free_frames mb y" for q
      using s'(2) that y2(4) by (auto simp: freed_def touched_def)
    then show "to_free s' y (free_frames mb y)"
      using y2(2,3) s'(2) by (auto simp: to_free_def freed_def touched_def)
  qed
  ultimately show ?thesis by blast
qed

lemma memblock_free_all_ok:
  assumes mb: "memblock_inv mb" "mem_limit mb" "mb_at (regions (memory mb)) 0 = None" "memblock_kernel s = mb"
    and z: "\<And>z. z < MAX_NR_ZONES \<Longrightarrow> fresh cpus (zones s z) \<and> zone_initialized (zones s z)" and t: "\<forall>q. tame (pages s q)"
    and pg: "\<And>z q. z < MAX_NR_ZONES \<Longrightarrow> q \<in> free_frames mb z \<Longrightarrow> boot_page z (pages s q)"
  shows "\<exists>s' n. memblock_free_all c s = Some (s', n) \<and> stage mb {0, 1, 2} s'"
proof -
  obtain s1 where s1: "foreach (\<lambda>(start, end). reserve_bootmem_region start end) (for_each_reserved_mem_region mb) s = Some s1"
    "pages_in (reserved_frames mb) s s1" "\<forall>q. tame (pages s1 q)"
    using reserve_regions_ok [OF t, of "for_each_reserved_mem_region mb"] unfolding reserved_frames_def by blast
  note p = pages_inD [OF s1(2)]
  have f: "fresh cpus (zones s1 y) \<and> zone_initialized (zones s1 y)" if "y < MAX_NR_ZONES" for y using z [OF that] p(1) by simp
  have "stage mb {} s1"
    using pg_inv_fresh [OF f s1(3)] p(2,5) reserved_not_free [OF mb(1,2)] free_frames_valid [OF mb(1,2)] pg mb(4)
    by (auto simp: stage_def to_free_def)
  then obtain s2 n2 where 2: "free_ranges c (zone_flag 1) (s1, 0) = Some (s2, n2)" "stage mb {1} s2"
    using stage_next [OF mb(1-3), of "{}" s1 1 c 0] by auto
  then obtain s3 n3 where 3: "free_ranges c (zone_flag 0) (s2, n2) = Some (s3, n3)" "stage mb {0, 1} s3"
    using stage_next [OF mb(1-3), of "{1}" s2 0 c n2] by auto
  then obtain s4 n4 where 4: "free_ranges c (zone_flag 2) (s3, n3) = Some (s4, n4)" "stage mb {2, 0, 1} s4"
    using stage_next [OF mb(1-3), of "{0, 1}" s3 2 c n3] by auto
  have "memblock_free_all c s = Some (s4, n4)" using s1(1) 2(1) 3(1) 4(1) mb(4) by (simp add: memblock_free_all_def zone_flag_def)
  moreover have "{2, 0, 1} = {0, 1, 2 :: nat}" by auto
  ultimately show ?thesis using 4(2) by auto
qed

section \<open>The node\<close>

text \<open>
  Before \<^verbatim>\<open>free_area_init_nodes\<close>: \<^verbatim>\<open>node_data\<close> is static, hence zero, and \<^verbatim>\<open>vmemmap_init\<close> has cleared the
  descriptors.
\<close>

definition zone_zero :: zone where
  "zone_zero = \<lparr>pageset = (\<lambda>_. pageset_init), zone_start_pfn = 0, managed_pages = 0, zone_initialized = False,
     free_areas = (\<lambda>_. \<lparr>free_list = [], nr_free = 0\<rparr>)\<rparr>"

definition boot_node :: "memblock \<Rightarrow> nat list \<Rightarrow> nat list \<Rightarrow> (nat \<Rightarrow> nat \<Rightarrow> u8) \<Rightarrow> pg_data" where
  "boot_node mb online possible contents =
     \<lparr>pages = (\<lambda>_. page_zero), mem = contents, zones = (\<lambda>_. zone_zero), memblock_kernel = mb, online_cpus = online,
      possible_cpus = possible, node_start_pfn = 0, totalreserve_pages = 0, total_physpages = 0\<rparr>"

lemma count_managed_eq:
  assumes "memblock_inv mb" "memblock_kernel s = mb"
  shows "\<exists>v. count_managed z flags s = Some (set_managed z v s)"
proof -
  obtain rs where "for_each_free_mem_range mb flags = Some rs"
    using free_mem_ranges [of mb flags] assms(1) by (auto simp: memblock_inv_def)
  then show ?thesis using assms(2) by (auto simp: count_managed_def set_managed_def)
qed

text \<open>One zone of \<^verbatim>\<open>free_area_init_node\<close>: its frames are set up, the zone is initialised, nothing else changes.\<close>

definition zone_ready :: "nat \<Rightarrow> nat set \<Rightarrow> pg_data \<Rightarrow> pg_data \<Rightarrow> bool" where
  "zone_ready z F s s' \<longleftrightarrow> memblock_kernel s' = memblock_kernel s \<and> mem s' = mem s \<and>
     pages s' = (\<lambda>q. if q \<in> F then init_single_page (of_nat z) else pages s q) \<and>
     (\<forall>y. pageset (zones s' y) = pageset (zones s y) \<and> free_areas (zones s' y) = free_areas (zones s y) \<and>
       zone_initialized (zones s' y) = (y = z \<or> zone_initialized (zones s y)))"

lemma init_zone_pages_ok:
  assumes "memblock_inv mb" "mem_limit mb" "memblock_kernel s = mb"
  shows "\<exists>s'. init_zone_pages z (zone_flag z) s = Some s' \<and> zone_ready z (free_frames mb z) s s'"
proof -
  obtain rs where rs: "for_each_free_mem_range mb (zone_flag z) = Some rs" "free_frames mb z = ranges_frames rs"
    using free_frames_ok [OF assms(1,2)] by metis
  then show ?thesis using assms(3)
    by (auto simp: init_zone_pages_def init_pages_list zone_ready_def upd_zone_def Let_def fun_eq_iff)
qed

lemma fresh_cong:
  "fresh cpus zn \<Longrightarrow> pageset zn' = pageset zn \<Longrightarrow> free_areas zn' = free_areas zn \<Longrightarrow> fresh cpus zn'"
  by (simp add: fresh_def)

text \<open>
  With no reservation at all the array holds one empty region, whose last byte is \<^verbatim>\<open>ULONG_MAX\<close>; the loop over
  the reserved regions would then run over every frame number. The kernel image is always reserved.
\<close>

definition res_limit :: "memblock \<Rightarrow> bool" where
  "res_limit mb \<longleftrightarrow> (\<forall>m\<in>set (regions (reserved mb)). r_base m < r_end m \<and> r_end m \<le> 2 ^ 48)"

lemma inner_reserved:
  assumes "res_limit mb" "q \<in> ranges_frames (for_each_reserved_mem_region mb)"
  shows "q \<in> reserved_frames mb"
proof -
  obtain m where m: "m \<in> set (regions (reserved mb))" "q \<in> range_frames (r_base m, r_end m - 1)"
    using assms(2) by (auto simp: ranges_frames_def for_each_reserved_mem_region_def reserved_from_eq r_end_def)
  have lim: "r_base m < r_end m" "r_end m \<le> 2 ^ 48" using assms(1) m(1) by (auto simp: res_limit_def)
  then have "unat (r_base m) < unat (r_end m)" "unat (r_end m) \<le> 2 ^ 48" by (simp_all add: word_less_nat_alt word_le_nat_alt)
  moreover have "unat (r_end m - 1) = unat (r_end m) - 1" using lim(1) by (metis unat_minus_one not_less0 word_less_nat_alt unat_0)
  ultimately have "unat (r_base m) + 4095 < 2 ^ 64" "unat (r_end m - 1) + 4095 < 2 ^ 64" by simp_all
  note up = this [THEN pfn_up_nat]
  with m(2) have "unat (PFN_DOWN (r_base m)) \<le> q" "q < unat (PFN_UP (r_end m - 1))"
    using div_le_mono [of "unat (r_base m)" "unat (r_base m) + 4095" 4096] div_le_mono [of "unat (r_end m - 1)" "unat (r_end m - 1) + 4095" 4096]
    unfolding range_frames_def pfn_down_nat by simp_all
  with m(1) show ?thesis
    by (force simp: reserved_frames_def for_each_reserved_mem_region_def reserved_from_eq r_end_def)
qed

lemma free_area_init_node_ok:
  assumes mb: "memblock_inv mb" "mem_limit mb" "res_limit mb" "memblock_kernel s = mb"
    and z: "\<And>z c. pcp_wf (pcp s z c) \<and> pcp_list (pcp s z c) = []" and t: "\<forall>q. pages s q = page_zero"
  shows "\<exists>s'. free_area_init_node v s = Some s' \<and> memblock_kernel s' = mb \<and> mem s' = mem s \<and>
    (\<forall>z<MAX_NR_ZONES. fresh (possible_cpus s) (zones s' z) \<and> zone_initialized (zones s' z)) \<and> (\<forall>q. tame (pages s' q)) \<and>
    (\<forall>z<MAX_NR_ZONES. \<forall>q\<in>free_frames mb z. boot_page z (pages s' q))"
proof -
  let ?res = "for_each_reserved_mem_region mb"
  let ?s1 = "s\<lparr>node_start_pfn := v, totalreserve_pages := fold (\<lambda>(start, end) n. n + (PFN_UP end - PFN_DOWN start)) ?res 0\<rparr>"
  define s2 where "s2 = fold (\<lambda>j. upd_zone j (init_zone (possible_cpus s))) [0..<MAX_NR_ZONES] ?s1"
  have s2: "memblock_kernel s2 = mb" "mem s2 = mem s" "pages s2 = pages s" using mb(4) by (simp_all add: s2_def upd_zone_def upt_rec)
  have "zones s2 y = init_zone (possible_cpus s) (zones s y)" if "y < MAX_NR_ZONES" for y
    using that less_antisym [of y 1] by (auto simp: s2_def upd_zone_def upt_rec less_Suc_eq numeral_3_eq_3)
  then have f2: "fresh (possible_cpus s) (zones s2 y)" if "y < MAX_NR_ZONES" for y using init_zone_fresh z that by simp
  obtain s3 where s3: "init_zone_pages 0 (zone_flag 0) s2 = Some s3" "zone_ready 0 (free_frames mb 0) s2 s3"
    using init_zone_pages_ok [OF mb(1,2) s2(1)] by blast
  have k3: "memblock_kernel s3 = mb" using s3(2) s2(1) by (simp add: zone_ready_def)
  obtain s4 where s4: "init_zone_pages 2 (zone_flag 2) s3 = Some s4" "zone_ready 2 (free_frames mb 2) s3 s4"
    using init_zone_pages_ok [OF mb(1,2) k3] by blast
  have k4: "memblock_kernel s4 = mb" using s4(2) k3 by (simp add: zone_ready_def)
  obtain s5 where s5: "init_zone_pages 1 (zone_flag 1) s4 = Some s5" "zone_ready 1 (free_frames mb 1) s4 s5"
    using init_zone_pages_ok [OF mb(1,2) k4] by blast
  let ?R = "ranges_frames ?res"
  let ?s6 = "with_pages ?R (init_single_page (of_nat ZONE_NORMAL)) s5"
  have "free_area_init_node v s = Some ?s6"
    using s3(1) s4(1) s5(1) mb(4) unfolding free_area_init_node_def Let_def
    by (simp add: s2_def [symmetric] zone_flag_def init_pages_list)
  moreover have "fresh (possible_cpus s) (zones ?s6 y) \<and> zone_initialized (zones ?s6 y)" if y: "y < MAX_NR_ZONES" for y
  proof
    show "fresh (possible_cpus s) (zones ?s6 y)"
      by (rule fresh_cong [OF f2 [OF y]]) (use s3(2) s4(2) s5(2) in \<open>auto simp: zone_ready_def\<close>)
    have "y \<in> {0, 1, 2}" using y by auto
    then show "zone_initialized (zones ?s6 y)" using s3(2) s4(2) s5(2) by (auto simp: zone_ready_def)
  qed
  moreover have pg: "pages ?s6 q = (if q \<in> ?R \<or> q \<in> free_frames mb 1 then init_single_page (of_nat 1)
      else if q \<in> free_frames mb 2 then init_single_page (of_nat 2)
      else if q \<in> free_frames mb 0 then init_single_page (of_nat 0) else page_zero)" for q
    using s3(2) s4(2) s5(2) s2(3) t by (simp add: zone_ready_def)
  moreover have "boot_page y (pages ?s6 q)" if y: "y < MAX_NR_ZONES" and q: "q \<in> free_frames mb y" for y q
  proof -
    have "q \<notin> ?R" using reserved_not_free [OF mb(1,2) q] inner_reserved [OF mb(3)] by blast
    moreover have "q \<notin> free_frames mb x" if "x < MAX_NR_ZONES" "x \<noteq> y" for x
      using free_frames_apart [OF mb(1,2) q _ y that(1)] that(2) by blast
    moreover have "y \<in> {0, 1, 2}" using y by auto
    ultimately have "pages ?s6 q = init_single_page (of_nat y)" using q unfolding pg by auto
    then show ?thesis using init_single_page_ok(1) [OF y] by simp
  qed
  moreover have "tame (pages ?s6 q)" for q unfolding pg using init_single_page_ok(2,3) [of 0] by auto
  moreover have "memblock_kernel ?s6 = mb" "mem ?s6 = mem s" using s3(2) s4(2) s5(2) s2 by (simp_all add: zone_ready_def)
  ultimately show ?thesis by blast
qed

end
