(* ===== verification/Page_Props.thy ===== *)
theory Page_Props
  imports Buddy_Start
begin

text \<open>
  The contract of the page allocator of \<^verbatim>\<open>kernel/mm/page_alloc.c\<close>: how it starts, what allocating and freeing
  do, what every sequence of calls keeps, and what the counters report.
\<close>

section \<open>Counters\<close>

lemma fold_plus: "fold (\<lambda>x n. n + g x) xs a = a + sum_list (map g xs)" for g :: "'a \<Rightarrow> 'b::comm_monoid_add"
  by (induction xs arbitrary: a) (simp_all add: add.assoc)

lemma blocks_Sigma:
  assumes "zone_inv s z"
  shows "blocks s z = (SIGMA k:{..<MAX_ORDER}. set (free_list (area s z k)))"
  using zone_invD(2) [OF assms] by (auto simp: blocks_def buddy_ok_def)

lemma card_block_frames:
  assumes "zone_inv s z"
  shows "card (block_frames (blocks s z)) = (\<Sum>k<MAX_ORDER. length (free_list (area s z k)) * 2 ^ k)"
proof -
  have fin: "finite (blocks s z)" by (simp add: blocks_Sigma [OF assms])
  have dis: "frames (fst x) (snd x) \<inter> frames (fst y) (snd y) = {}" if "x \<in> blocks s z" "y \<in> blocks s z" "x \<noteq> y" for x y
  proof -
    have "apart (blocks s z - {x}) (fst x) (snd x)" using zone_invD(2) [OF assms] that(1) by (cases x) (auto simp: buddy_ok_def)
    then show ?thesis using that(2,3) by (cases y) (auto simp: apart_def)
  qed
  have "block_frames (blocks s z) = (\<Union>x\<in>blocks s z. frames (fst x) (snd x))" by (auto simp: block_frames_def)
  also have "card \<dots> = (\<Sum>x\<in>blocks s z. card (frames (fst x) (snd x)))"
    by (rule card_UN_disjoint [OF fin]) (use dis in \<open>auto simp: frames_def\<close>)
  also have "\<dots> = (\<Sum>(k, p)\<in>(SIGMA k:{..<MAX_ORDER}. set (free_list (area s z k))). 2 ^ k)"
    unfolding blocks_Sigma [OF assms] by (intro sum.cong) (auto simp: frames_def)
  also have "\<dots> = (\<Sum>k<MAX_ORDER. \<Sum>p\<in>set (free_list (area s z k)). 2 ^ k)"
    by (rule sum.Sigma [symmetric]) auto
  also have "\<dots> = (\<Sum>k<MAX_ORDER. length (free_list (area s z k)) * 2 ^ k)"
  proof (rule sum.cong [OF refl])
    fix k
    have "distinct (free_list (area s z k))" using repD(2) [OF zone_invD(1) [OF assms]] by (simp add: lists_ok_def)
    then show "(\<Sum>p\<in>set (free_list (area s z k)). 2 ^ k) = length (free_list (area s z k)) * 2 ^ k"
      by (simp add: distinct_card)
  qed
  finally show ?thesis .
qed

lemma nr_zone_free_pages_card:
  assumes "zone_inv s z"
  shows "nr_zone_free_pages (zones s z) = of_nat (card (block_frames (blocks s z)))"
proof -
  have "nr_free (area s z k) = of_nat (length (free_list (area s z k)))" for k
    using repD(2) [OF zone_invD(1) [OF assms]] by (simp add: lists_ok_def)
  then have "nr_zone_free_pages (zones s z) = (\<Sum>k\<leftarrow>[0..<MAX_ORDER]. of_nat (length (free_list (area s z k))) * 2 ^ k)"
    unfolding nr_zone_free_pages_def fold_plus by simp
  also have "\<dots> = (\<Sum>k\<in>set [0..<MAX_ORDER]. of_nat (length (free_list (area s z k))) * 2 ^ k)"
    by (rule sum_list_distinct_conv_sum_set) (rule distinct_upt)
  also have "set [0..<MAX_ORDER] = {..<MAX_ORDER}" by auto
  finally show ?thesis by (simp add: card_block_frames [OF assms])
qed

lemma nr_zone_percpu_cache_card:
  assumes "zone_inv s z" "distinct cpus"
  shows "nr_zone_percpu_cache_pages cpus (zones s z) = int (card (\<Union>c\<in>set cpus. set (pcp_list (pcp s z c))))"
proof -
  have wf: "pcp_count (pcp s z c) = int (card (set (pcp_list (pcp s z c))))" for c
    using zone_invD(3) [OF assms(1), of c] by (simp add: pcp_wf_def distinct_card)
  have "card (\<Union>c\<in>set cpus. set (pcp_list (pcp s z c))) = (\<Sum>c\<in>set cpus. card (set (pcp_list (pcp s z c))))"
    by (rule card_UN_disjoint) (use zone_invD(4) [OF assms(1)] in auto)
  then show ?thesis
    unfolding nr_zone_percpu_cache_pages_def fold_plus by (simp add: wf sum_list_distinct_conv_sum_set [OF assms(2)])
qed

section \<open>An allocation finds a block when there is one\<close>

lemma alloc_pages_found:
  assumes "pg_inv s" "k < MAX_ORDER" "(j, p) \<in> blocks s (gfp_zone gm)" "k \<le> j" "0 < pcp_batch (pcp s (gfp_zone gm) c)"
  shows "\<exists>s' q. alloc_pages c gm k s = Some (s', Some q)"
proof -
  let ?z = "gfp_zone gm"
  have "zone_inv s ?z" using assms(1) gfp_zone_less by (simp add: pg_inv_def)
  then obtain s1 r where r: "rmqueue c ?z k s = Some (s1, r)" "gave s c ?z k r s1" using rmqueue_ok by blast
  then obtain q where q: "r = Some q" using assms(3-5) by (cases r) (auto simp: gave_def)
  obtain s2 where "prep_new_page q k gm s1 = Some s2" using handed_out [OF assms(1) gfp_zone_less assms(2)] r(2) q by blast
  then have "get_page_from_freelist c gm k ?z False s = Some (s2, Some q)"
    using r(1) q by (subst get_page_from_freelist.simps) simp
  then show ?thesis using assms(2) by (simp add: alloc_pages_def)
qed

section \<open>After boot\<close>

lemma free_area_init_nodes_ok:
  assumes mb: "memblock_inv mb" "mem_limit mb" "res_limit mb" "mb_at (regions (memory mb)) 0 = None"
  shows "\<exists>s. free_area_init_nodes c (boot_node mb online possible contents) = Some s \<and> stage mb {0, 1, 2} s"
proof -
  let ?s0 = "boot_node mb online possible contents"
  let ?s1 = "?s0\<lparr>total_physpages := fold (\<lambda>(start, end) n. n + (end - start)) (for_each_mem_pfn_range mb) 0\<rparr>"
  have s1: "memblock_kernel ?s0 = mb" "memblock_kernel ?s1 = mb" by (simp_all add: boot_node_def)
  obtain v2 where 2: "count_managed ZONE_NORMAL MEMBLOCK_NONE ?s1 = Some (set_managed 1 v2 ?s1)"
    using count_managed_eq [OF mb(1) s1(2), of ZONE_NORMAL MEMBLOCK_NONE] by auto
  let ?s2 = "set_managed 1 v2 ?s1"
  obtain v3 where 3: "count_managed ZONE_DMA MEMBLOCK_DMA ?s2 = Some (set_managed 0 v3 ?s2)"
    using count_managed_eq [OF mb(1), of ?s2] s1(2) by auto
  let ?s3 = "set_managed 0 v3 ?s2"
  obtain v4 where 4: "count_managed ZONE_MOVABLE MEMBLOCK_MOVABLE ?s3 = Some (set_managed 2 v4 ?s3)"
    using count_managed_eq [OF mb(1), of ?s3] s1(2) by auto
  let ?s4 = "set_managed 2 v4 ?s3"
  have pcps: "pcp_wf (pcp ?s4 z c) \<and> pcp_list (pcp ?s4 z c) = []" for z c
    by (simp add: boot_node_def zone_zero_def pageset_init_def pcp_wf_def)
  have pgs: "\<forall>q. pages ?s4 q = page_zero" and mk: "memblock_kernel ?s4 = mb" by (simp_all add: boot_node_def)
  obtain s5 where 5: "free_area_init_node (find_min_pfn_for_mem mb) ?s4 = Some s5" "memblock_kernel s5 = mb"
    "\<forall>z<MAX_NR_ZONES. fresh (possible_cpus ?s4) (zones s5 z) \<and> zone_initialized (zones s5 z)" "\<forall>q. tame (pages s5 q)"
    "\<forall>z<MAX_NR_ZONES. \<forall>q\<in>free_frames mb z. boot_page z (pages s5 q)"
    using free_area_init_node_ok [OF mb(1-3) mk pcps pgs] by blast
  obtain s6 n where 6: "memblock_free_all c s5 = Some (s6, n)" "stage mb {0, 1, 2} s6"
    using memblock_free_all_ok [OF mb(1,2,4) 5(2), of "possible_cpus ?s4"] 5(3-5) by blast
  have "free_area_init_nodes c ?s0 = Some s6"
    using 2 3 4 5(1) 6(1) mk s1(1) unfolding free_area_init_nodes_def Let_def by simp
  with 6(2) show ?thesis by blast
qed

definition page_sample :: pg_data where
  "page_sample = the (free_area_init_nodes 0 (boot_node memblock_sample [0, 1] [0, 1] (\<lambda>_ _. 0)))"

lemma memblock_sample_limits:
  "mem_limit memblock_sample" "res_limit memblock_sample" "mb_at (regions (memory memblock_sample)) 0 = None"
  by code_simp+

lemma page_sample_stage: "stage memblock_sample {0, 1, 2} page_sample"
  using free_area_init_nodes_ok [OF memblock_sample_inv memblock_sample_limits, of 0 "[0, 1]" "[0, 1]" "\<lambda>_ _. 0"]
  by (auto simp: page_sample_def)

lemma page_sample_inv: "pg_inv page_sample"
  using page_sample_stage by (simp add: stage_def)

section \<open>The contract\<close>

text \<open>
  C4: the page allocator takes over exactly the free memory. From static data and cleared descriptors,
  with a well-formed memory map below the physical address limit, at least one reservation (the kernel
  image is one) and no memory at address 0, \<^verbatim>\<open>free_area_init_nodes\<close> runs without a \<^verbatim>\<open>BUG_ON\<close>, leaves the
  invariant of the allocator, and in each zone the frames available are those that lie wholly within one of
  the free ranges of the zone's kind that the memory map lists.
\<close>

theorem free_area_init_nodes_correct:
  assumes "memblock_inv mb" "mem_limit mb" "res_limit mb" "mb_at (regions (memory mb)) 0 = None"
  shows "\<exists>s. free_area_init_nodes c (boot_node mb online possible contents) = Some s \<and> pg_inv s \<and>
    (\<forall>z<MAX_NR_ZONES. \<exists>rs. for_each_free_mem_range mb (zone_flag z) = Some rs \<and>
      avail s z = {q. \<exists>r\<in>set rs. unat (fst r) \<le> q * 4096 \<and> (q + 1) * 4096 \<le> unat (snd r)})"
proof -
  obtain s where s: "free_area_init_nodes c (boot_node mb online possible contents) = Some s" "stage mb {0, 1, 2} s"
    using free_area_init_nodes_ok [OF assms] by blast
  have "\<exists>rs. for_each_free_mem_range mb (zone_flag z) = Some rs \<and>
      avail s z = {q. \<exists>r\<in>set rs. unat (fst r) \<le> q * 4096 \<and> (q + 1) * 4096 \<le> unat (snd r)}" if z: "z < MAX_NR_ZONES" for z
  proof -
    obtain rs where rs: "for_each_free_mem_range mb (zone_flag z) = Some rs" "\<forall>r\<in>set rs. bounded mb r"
      using free_mem_ranges [of mb "zone_flag z"] assms(1) by (auto simp: memblock_inv_def)
    have "z \<in> {0, 1, 2}" using z by auto
    then have "avail s z = ranges_frames rs" using s(2) z rs(1) by (simp add: stage_def free_frames_def)
    also have "\<dots> = {q. \<exists>r\<in>set rs. unat (fst r) \<le> q * 4096 \<and> (q + 1) * 4096 \<le> unat (snd r)}"
      using range_frames_iff [OF assms(2)] rs(2) unfolding ranges_frames_def by blast
    finally show ?thesis using rs(1) by blast
  qed
  with s show ?thesis by (auto simp: stage_def)
qed

theorem free_area_init_nodes_correct_witness:
  "\<exists>s. free_area_init_nodes 0 (boot_node memblock_sample [0, 1] [0, 1] (\<lambda>_ _. 0)) = Some s \<and> pg_inv s \<and>
     0x40082 \<in> avail s ZONE_NORMAL \<and> 0x40081 \<notin> avail s ZONE_NORMAL"
proof -
  have rs: "for_each_free_mem_range memblock_sample (zone_flag ZONE_NORMAL) =
      Some [(0x40000000, 0x40080000), (0x40082000, 0x40083000), (0x40084000, 0x80000000)]" by code_simp
  obtain s where s: "free_area_init_nodes 0 (boot_node memblock_sample [0, 1] [0, 1] (\<lambda>_ _. 0)) = Some s" "pg_inv s"
    "\<forall>z<MAX_NR_ZONES. \<exists>rs. for_each_free_mem_range memblock_sample (zone_flag z) = Some rs \<and>
      avail s z = {q. \<exists>r\<in>set rs. unat (fst r) \<le> q * 4096 \<and> (q + 1) * 4096 \<le> unat (snd r)}"
    using free_area_init_nodes_correct [OF memblock_sample_inv memblock_sample_limits, of 0 "[0, 1]" "[0, 1]" "\<lambda>_ _. 0"] by blast
  have "ZONE_NORMAL < MAX_NR_ZONES" by simp
  from s(3) [rule_format, OF this] rs have
    "avail s ZONE_NORMAL = {q. \<exists>r\<in>set [(0x40000000 :: u64, 0x40080000 :: u64), (0x40082000, 0x40083000), (0x40084000, 0x80000000)].
       unat (fst r) \<le> q * 4096 \<and> (q + 1) * 4096 \<le> unat (snd r)}"
    by (simp only: option.inject) blast
  then have "0x40082 \<in> avail s ZONE_NORMAL" "0x40081 \<notin> avail s ZONE_NORMAL" by simp_all
  with s(1,2) show ?thesis by blast
qed

text \<open>
  C36: the loop \<^verbatim>\<open>for_each_free_mem_range\<close> over a well-formed memory map ends, and the ranges it visits are
  disjoint and together hold exactly the addresses that some memory region with the given flags holds and
  no reserved region does.
\<close>

theorem for_each_free_mem_range_correct:
  assumes "memblock_inv mb"
  shows "\<exists>rs. for_each_free_mem_range mb flags = Some rs \<and>
    (\<forall>a. (\<exists>r\<in>set rs. fst r \<le> a \<and> a < snd r) \<longleftrightarrow>
      mb_at (regions (memory mb)) a = Some flags \<and> mb_at (regions (reserved mb)) a = None) \<and>
    sorted_wrt (\<lambda>r r'. {fst r..<snd r} \<inter> {fst r'..<snd r'} = {}) rs"
proof -
  obtain rs where rs: "for_each_free_mem_range mb flags = Some rs" "\<forall>x. free mb flags x \<longleftrightarrow> (\<exists>r\<in>set rs. in_range x r)"
    "sorted_wrt (\<lambda>r r'. \<forall>x. \<not> (in_range x r \<and> in_range x r')) rs"
    using free_mem_ranges [of mb flags] assms by (auto simp: memblock_inv_def)
  have "sorted_wrt (\<lambda>r r'. {fst r..<snd r} \<inter> {fst r'..<snd r'} = {}) rs"
    by (rule sorted_wrt_mono_rel [OF _ rs(3)]) (simp only: disjoint_iff atLeastLessThan_iff in_range_def, blast)
  with rs(1,2) show ?thesis by (auto simp: in_range_def free_def)
qed

theorem for_each_free_mem_range_correct_witness:
  "\<exists>rs. for_each_free_mem_range memblock_sample 0 = Some rs \<and> (\<exists>r\<in>set rs. fst r \<le> 0x40082ABC \<and> 0x40082ABC < snd r)"
proof -
  have "mb_at (regions (memory memblock_sample)) 0x40082ABC = Some 0" "mb_at (regions (reserved memblock_sample)) 0x40082ABC = None"
    by code_simp+
  then show ?thesis using for_each_free_mem_range_correct [OF memblock_sample_inv, of 0] by blast
qed

text \<open>
  C5: an allocation. In every state that satisfies the invariant, \<^verbatim>\<open>__alloc_pages\<close> returns (its loops end and
  no \<^verbatim>\<open>BUG_ON\<close> is hit) in such a state. When it returns a page, the block of the order asked for was available
  in the zone the flags name, is no longer, and belongs to the caller with reference count 1, its contents
  cleared when \<^verbatim>\<open>__GFP_ZERO\<close> asks for it; when it returns NULL the same frames are available as before. The
  blocks of others, the other zones and all other memory stay as they were. It returns NULL for an order
  that is too large, and a page whenever the buddy lists hold a block of the order or a larger one.
\<close>

theorem alloc_pages_correct:
  assumes "pg_inv s"
  shows "\<exists>s' r. alloc_pages cpu gm k s = Some (s', r) \<and> alloc_result s (gfp_zone gm) k gm r s' \<and>
    (MAX_ORDER \<le> k \<longrightarrow> r = None) \<and>
    ((\<exists>j p. (j, p) \<in> blocks s (gfp_zone gm) \<and> k \<le> j) \<and> k < MAX_ORDER \<and> 0 < pcp_batch (pcp s (gfp_zone gm) cpu) \<longrightarrow> r \<noteq> None)"
proof -
  obtain s' r where s': "alloc_pages cpu gm k s = Some (s', r)" "alloc_result s (gfp_zone gm) k gm r s'" "MAX_ORDER \<le> k \<longrightarrow> r = None"
    using alloc_pages_ok [OF assms, of cpu gm k] by blast
  have found: "r \<noteq> None" if "(j, p) \<in> blocks s (gfp_zone gm)" "k \<le> j" "k < MAX_ORDER" "0 < pcp_batch (pcp s (gfp_zone gm) cpu)" for j p
    using alloc_pages_found [OF assms that(3,1,2,4)] s'(1) by auto
  show ?thesis by (intro exI [of _ s'] exI [of _ r]) (use s' found in auto)
qed

theorem alloc_pages_correct_witness:
  "\<exists>s' r. alloc_pages 1 GFP_ZERO 3 page_sample = Some (s', r) \<and> alloc_result page_sample ZONE_NORMAL 3 GFP_ZERO r s'"
proof -
  have "gfp_zone GFP_ZERO = ZONE_NORMAL" by code_simp
  then show ?thesis using alloc_pages_correct [OF page_sample_inv, of 1 GFP_ZERO 3] by auto
qed

text \<open>
  C6: freeing. Dropping a reference to a block in use (\<^verbatim>\<open>__free_pages\<close>) always returns, and the invariant
  holds afterwards. The last reference makes exactly the frames of the block available in its zone; with
  other references left the block stays in use with one reference less. The blocks of others, the frames
  available in other zones and the contents of memory stay as they were.
\<close>

theorem free_pages_correct:
  assumes "pg_inv s" "owned s z k p n" "0 < n"
  shows "\<exists>s'. free_pages_pfn cpu p k s = Some s' \<and> pg_inv s' \<and>
    (if n = 1 then avail s' z = avail s z \<union> frames k p else avail s' z = avail s z \<and> owned s' z k p (n - 1)) \<and>
    (\<forall>z'<MAX_NR_ZONES. z' \<noteq> z \<longrightarrow> avail s' z' = avail s z') \<and> keeps_others s (frames k p) s' \<and> mem s' = mem s"
  using free_pages_pfn_ok [OF assms, of cpu] assms(3) by (auto simp: touched_def)

text \<open>A machine whose frames are all in use, with the given number of references.\<close>

definition frame_sample :: "int \<Rightarrow> pg_data" where
  "frame_sample n = (boot_node memblock_sample [0] [0] (\<lambda>_ _. 0))
     \<lparr>pages := (\<lambda>_. (init_single_page 1)\<lparr>pg_refcount := n\<rparr>), zones := (\<lambda>_. zone_zero\<lparr>zone_initialized := True\<rparr>)\<rparr>"

lemma frame_sample_inv: "pg_inv (frame_sample n)" "z < MAX_NR_ZONES \<Longrightarrow> avail (frame_sample n) z = {}"
proof -
  have z: "fresh [] (zones (frame_sample n) y) \<and> zone_initialized (zones (frame_sample n) y)" for y
    by (simp add: frame_sample_def fresh_def zone_zero_def pageset_init_def pcp_wf_def)
  have t: "\<forall>q. tame (pages (frame_sample n) q)"
    using init_single_page_ok(2) [of 0 1] by (simp add: frame_sample_def tame_def head_bit_def PageBuddy_def PageType_def)
  show "pg_inv (frame_sample n)" by (rule pg_inv_fresh(1) [OF z t])
  show "z < MAX_NR_ZONES \<Longrightarrow> avail (frame_sample n) z = {}" by (rule pg_inv_fresh(2) [OF z t])
qed

lemma frame_sample_page:
  "valid (frame_sample n) 0x40082" "boot_page 1 (pages (frame_sample n) q)" "pg_refcount (pages (frame_sample n) q) = n"
proof -
  have "memblock_is_map_memory memblock_sample 0x40082000" by code_simp
  then have "pfn_valid memblock_sample 0x40082" by (simp add: pfn_valid_def Let_def)
  then show "valid (frame_sample n) 0x40082" by (simp add: frame_sample_def boot_node_def)
  show "boot_page 1 (pages (frame_sample n) q)"
    using init_single_page_ok(1) [of 1] by (simp add: frame_sample_def boot_page_def)
qed (simp add: frame_sample_def)

lemma frame_sample_owned: "owned (frame_sample n) ZONE_NORMAL 0 0x40082 n"
  using frame_sample_page [of n] frame_sample_inv(2) [of ZONE_NORMAL n] by (simp add: owned_def boot_page_def)

theorem free_pages_correct_witness:
  "(\<exists>s'. free_pages_pfn 0 0x40082 0 (frame_sample 1) = Some s' \<and> pg_inv s' \<and> avail s' ZONE_NORMAL = {0x40082}) \<and>
   (\<exists>s'. free_pages_pfn 0 0x40082 0 (frame_sample 3) = Some s' \<and> owned s' ZONE_NORMAL 0 0x40082 2)"
  using free_pages_correct [OF frame_sample_inv(1) frame_sample_owned [of 1], of 0]
    free_pages_correct [OF frame_sample_inv(1) frame_sample_owned [of 3], of 0]
  by (simp add: frame_sample_inv(2)) metis

text \<open>
  C7: many users. From every state that satisfies the invariant, with any blocks in use that do not
  overlap, every sequence of allocations and releases of blocks in use by any cpus runs to its end. Then the
  blocks in use do not overlap, none of their frames is available, and the frames available and in use are
  the same as in the beginning: no frame is lost, none is handed out twice.
\<close>

theorem page_runs_safe:
  assumes "pg_inv s" "\<forall>b\<in>set bs. page_owns s b" "separate bs"
  shows "\<exists>s' bs'. pool_run page_take page_give cs (s, bs) = Some (s', bs') \<and> pg_inv s' \<and>
    (\<forall>b\<in>set bs'. page_owns s' b) \<and> separate bs' \<and> page_pool s' \<inter> frames_of bs' = {} \<and>
    page_pool s' \<union> frames_of bs' = page_pool s \<union> frames_of bs"
proof -
  have "buddy.good (s, bs)" using assms by (simp add: buddy.good_def)
  from buddy.run_good [OF this, of cs] show ?thesis by (auto simp: buddy.good_def)
qed

theorem page_runs_safe_witness:
  "\<exists>s' bs'. pool_run page_take page_give [((0, 0, 0), Take (0, 0, 3)), ((1, 0, 0), Take (1, GFP_DMA, 0)), ((1, 0, 0), Give 0)]
     (page_sample, []) = Some (s', bs') \<and> separate bs' \<and> page_pool s' \<union> frames_of bs' = page_pool page_sample"
proof -
  have "\<forall>b\<in>set []. page_owns page_sample b" "separate []" by simp_all
  note runs = page_runs_safe [OF page_sample_inv this]
  have "frames_of [] = {}" by (simp add: frames_of_def)
  then show ?thesis using runs [of "[((0, 0, 0), Take (0, 0, 3)), ((1, 0, 0), Take (1, GFP_DMA, 0)), ((1, 0, 0), Give 0)]"]
    by (simp only: Un_empty_right) blast
qed

text \<open>
  C35: \<^verbatim>\<open>__free_one_page\<close> refines the insertion of a block into a set of blocks in which buddies are merged.
  Where the free lists of a zone represent a set of disjoint aligned blocks no two of which are buddies
  below the largest order, freeing a block apart from them represents such a set again, covering exactly the
  frames of the old set and of the block. No \<^verbatim>\<open>BUG_ON\<close> is hit, and only the lists of the zone and the
  descriptors of these frames change.
\<close>

theorem free_one_page_refines:
  assumes "rep s z B" "buddy_ok B" "loose s z k p" "apart B k p" "k < MAX_ORDER"
  shows "\<exists>s' B'. free_one_page z p k s = Some s' \<and> rep s' z B' \<and> buddy_ok B' \<and>
    block_frames B' = block_frames B \<union> frames k p \<and> only z (block_frames B \<union> frames k p) s s'"
  by (rule free_one_page_ok [OF assms])

theorem free_one_page_refines_witness:
  "\<exists>s' B'. free_one_page ZONE_NORMAL 0x40082 0 (frame_sample 0) = Some s' \<and> rep s' ZONE_NORMAL B' \<and> buddy_ok B' \<and>
     block_frames B' = {0x40082}"
proof -
  have z: "zone_inv (frame_sample 0) ZONE_NORMAL" using frame_sample_inv(1) [of 0] by (simp add: pg_inv_def)
  have e: "block_frames (blocks (frame_sample 0) ZONE_NORMAL) = {}" using frame_sample_inv(2) [of ZONE_NORMAL 0] by (simp add: avail_def)
  have "pages (frame_sample 0) 0x40082 = (init_single_page 1)\<lparr>pg_refcount := 0\<rparr>" by (simp add: frame_sample_def)
  moreover have "clean 1 ((init_single_page 1)\<lparr>pg_refcount := 0\<rparr>)" by code_simp
  ultimately have "loose (frame_sample 0) ZONE_NORMAL 0 0x40082" using frame_sample_page(1) [of 0] by (simp add: loose_def)
  moreover have "apart (blocks (frame_sample 0) ZONE_NORMAL) 0 0x40082" using e by (simp add: apart_iff)
  ultimately show ?thesis using free_one_page_refines [OF zone_invD(1,2) [OF z], of 0 "0x40082"] e by auto
qed

text \<open>
  C38: the counters. In a state that satisfies the invariant, \<^verbatim>\<open>nr_zone_free_pages\<close> is the number of frames
  in the buddy lists of the zone (modulo 2^64), and \<^verbatim>\<open>nr_zone_percpu_cache_pages\<close> the number of frames in
  the per-cpu lists.
\<close>

theorem nr_zone_pages_correct:
  assumes "pg_inv s" "z < MAX_NR_ZONES" "distinct cpus"
  shows "nr_zone_free_pages (zones s z) = of_nat (card (block_frames (blocks s z))) \<and>
    nr_zone_percpu_cache_pages cpus (zones s z) = int (card (\<Union>c\<in>set cpus. set (pcp_list (pcp s z c))))"
  using nr_zone_free_pages_card nr_zone_percpu_cache_card [OF _ assms(3)] assms(1,2) by (simp add: pg_inv_def)

theorem nr_zone_pages_correct_witness:
  "nr_zone_free_pages (zones page_sample ZONE_NORMAL) = of_nat (card (block_frames (blocks page_sample ZONE_NORMAL)))"
  using nr_zone_pages_correct [OF page_sample_inv, of ZONE_NORMAL "[0, 1]"] by simp

declare rmqueue_pcplist.simps [code] rmqueue_blocks.simps [code] get_page_from_freelist.simps [code]

text \<open>
  The frames 2 and 3 are free, both in the list of cpu 1; the lists of cpus 0 and 2 are empty.
\<close>

definition drain_map :: memblock where
  "drain_map = \<lparr>bottom_up = False, current_limit = 0x8000,
     memory = \<lparr>max_regions = 8, total_size = 0x7000, regions = [\<lparr>r_base = 0x1000, r_size = 0x7000, r_flags = 0\<rparr>]\<rparr>,
     reserved = \<lparr>max_regions = 8, total_size = 0, regions = [empty_region]\<rparr>\<rparr>"

definition drain_sample :: pg_data where
  "drain_sample = (boot_node drain_map [0, 1, 2] [0, 1, 2] (\<lambda>_ _. 0))
     \<lparr>pages := (\<lambda>q. if q = 2 \<or> q = 3 then (init_single_page 1)\<lparr>pg_refcount := 0\<rparr> else init_single_page 1),
      zones := (\<lambda>z. zone_zero\<lparr>zone_initialized := True,
        pageset := (\<lambda>c. if z = ZONE_NORMAL \<and> c = 1 then \<lparr>pcp_count = 2, pcp_high = 6, pcp_batch = 1, pcp_list = [2, 3]\<rparr>
          else \<lparr>pcp_count = 0, pcp_high = 6, pcp_batch = 1, pcp_list = []\<rparr>)\<rparr>)\<rparr>"

lemma drain_sample_inv: "pg_inv drain_sample"
proof -
  have p: "clean 1 ((init_single_page 1)\<lparr>pg_refcount := 0\<rparr>)" "pfn_valid drain_map 2" "pfn_valid drain_map 3" by code_simp+
  have t: "tame (pages drain_sample q)" for q
    using init_single_page_ok(2) [of 0 1] by (auto simp: drain_sample_def tame_def head_bit_def PageBuddy_def PageType_def)
  have b: "blocks drain_sample z = {}" for z by (simp add: blocks_def drain_sample_def zone_zero_def)
  have c: "cached drain_sample z = (if z = 1 then {2, 3} else {})" for z by (auto simp: cached_def drain_sample_def split: if_splits)
  have "pcps_ok drain_sample z" for z
    unfolding pcps_ok_def b c using p by (auto simp: drain_sample_def boot_node_def pcp_wf_def block_frames_def)
  moreover have "rep drain_sample z {}" for z
    using t by (auto simp: rep_def lists_ok_def tame_def quiet_def) (auto simp: drain_sample_def zone_zero_def)
  ultimately show ?thesis by (simp add: pg_inv_def zone_inv_def b buddy_ok_def)
qed

text \<open>
  C39: draining the lists of the other cpus is forgotten when the last of them has nothing to give. In a
  state that satisfies the invariant, with two free buddies in the list of cpu 1 and an empty list on cpu
  2, cpu 0 asks for a block of order 1: the frames are drained and merged into a block of order 1 in the
  buddy lists, but NULL is returned, since the answer of the last cpu (\<^verbatim>\<open>train = drain_pages_zone(...)\<close>)
  replaces that of cpu 1.
\<close>

theorem alloc_pages_drained_null:
  "pg_inv drain_sample \<and>
   map_option (\<lambda>(s, r). (r, free_list (area s ZONE_NORMAL 1))) (alloc_pages 0 0 1 drain_sample) = Some (None, [2])"
proof
  show "pg_inv drain_sample" by (rule drain_sample_inv)
  show "map_option (\<lambda>(s, r). (r, free_list (area s ZONE_NORMAL 1))) (alloc_pages 0 0 1 drain_sample) = Some (None, [2])"
    by code_simp
qed

end
