(* ===== verification/Linear_Map.thy ===== *)
theory Linear_Map
  imports Page_Props
begin

text \<open>
  The linear map of \<^verbatim>\<open>kernel/arch/arm64/include/asm/memory.h\<close> and the page allocator's interface in terms of
  virtual addresses (\<^verbatim>\<open>__get_free_pages\<close>, \<^verbatim>\<open>free_pages\<close>, \<^verbatim>\<open>free_reserved_area\<close>). The two offsets that boot code
  computes, \<^verbatim>\<open>memstart_addr\<close> and \<^verbatim>\<open>kimage_voffset\<close>, are arguments. \<^verbatim>\<open>VA_BITS\<close> is 48.
\<close>

section \<open>Addresses\<close>

definition PAGE_OFFSET :: u64 where
  "PAGE_OFFSET = 0xffffffffffffffff - 2 ^ (48 - 1) + 1"

definition PHYS_OFFSET :: "u64 \<Rightarrow> u64 option" where
  "PHYS_OFFSET memstart_addr = do { bug_on (memstart_addr AND 1 \<noteq> 0); Some memstart_addr }"

definition is_lm_address :: "u64 \<Rightarrow> bool" where
  "is_lm_address addr \<longleftrightarrow> bit addr (48 - 1)"

definition virt_to_phys :: "u64 \<Rightarrow> u64 \<Rightarrow> u64 \<Rightarrow> u64 option" where
  "virt_to_phys memstart_addr kimage_voffset x =
     (if is_lm_address x then map_option (\<lambda>off. (x AND NOT PAGE_OFFSET) + off) (PHYS_OFFSET memstart_addr)
      else Some (x - kimage_voffset))"

definition phys_to_virt :: "u64 \<Rightarrow> u64 \<Rightarrow> u64 option" where
  "phys_to_virt memstart_addr x = map_option (\<lambda>off. (x - off) OR PAGE_OFFSET) (PHYS_OFFSET memstart_addr)"

definition page_to_virt :: "u64 \<Rightarrow> nat \<Rightarrow> u64 option" where
  "page_to_virt memstart_addr page = phys_to_virt memstart_addr (PFN_PHYS (of_nat page))"

definition virt_to_page :: "u64 \<Rightarrow> u64 \<Rightarrow> u64 \<Rightarrow> nat option" where
  "virt_to_page memstart_addr kimage_voffset kaddr =
     map_option (\<lambda>pa. unat (drop_bit PAGE_SHIFT pa)) (virt_to_phys memstart_addr kimage_voffset kaddr)"

definition virt_addr_valid :: "u64 \<Rightarrow> u64 \<Rightarrow> memblock \<Rightarrow> u64 \<Rightarrow> bool option" where
  "virt_addr_valid memstart_addr kimage_voffset mb kaddr =
     (if kaddr \<ge> PAGE_OFFSET then map_option (pfn_valid mb) (virt_to_page memstart_addr kimage_voffset kaddr) else Some False)"

section \<open>Allocation by address\<close>

definition get_free_pages :: "u64 \<Rightarrow> nat \<Rightarrow> u32 \<Rightarrow> nat \<Rightarrow> pg_data \<Rightarrow> (pg_data \<times> u64) option" where
  "get_free_pages memstart_addr cpu gfp_mask order s = do {
     (s', page) \<leftarrow> alloc_pages cpu gfp_mask order s;
     (case page of None \<Rightarrow> Some (s', 0) | Some p \<Rightarrow> map_option (Pair s') (page_to_virt memstart_addr p)) }"

definition free_pages :: "u64 \<Rightarrow> u64 \<Rightarrow> nat \<Rightarrow> u64 \<Rightarrow> nat \<Rightarrow> pg_data \<Rightarrow> pg_data option" where
  "free_pages memstart_addr kimage_voffset cpu addr order s =
     (if addr \<noteq> 0
      then do {
        ok \<leftarrow> virt_addr_valid memstart_addr kimage_voffset (memblock_kernel s) addr;
        bug_on (\<not> ok);
        p \<leftarrow> virt_to_page memstart_addr kimage_voffset addr;
        free_pages_pfn cpu p order s }
      else Some s)"

text \<open>
  \<^verbatim>\<open>free_reserved_area\<close>; the loop advances by a page until \<open>pos\<close> reaches the end, which is page-aligned. The
  poison byte is written when it is one.
\<close>

definition poison_frame :: "int \<Rightarrow> nat \<Rightarrow> pg_data \<Rightarrow> pg_data" where
  "poison_frame poison p s =
     (if 0 \<le> poison \<and> poison \<le> 0xFF then s\<lparr>mem := (mem s)(p := (\<lambda>_. of_int poison))\<rparr> else s)"

definition free_reserved_at :: "u64 \<Rightarrow> u64 \<Rightarrow> nat \<Rightarrow> int \<Rightarrow> u64 \<Rightarrow> pg_data \<Rightarrow> pg_data option" where
  "free_reserved_at memstart_addr kimage_voffset cpu poison pos s = do {
     p \<leftarrow> virt_to_page memstart_addr kimage_voffset pos;
     free_reserved_page cpu p (poison_frame poison p s) }"

definition free_reserved_area :: "u64 \<Rightarrow> u64 \<Rightarrow> nat \<Rightarrow> u64 \<Rightarrow> u64 \<Rightarrow> int \<Rightarrow> pg_data \<Rightarrow> (pg_data \<times> nat) option" where
  "free_reserved_area memstart_addr kimage_voffset cpu start end poison s =
     (let start = (start + PAGE_SIZE - 1) AND NOT (PAGE_SIZE - 1); end = end AND NOT (PAGE_SIZE - 1);
          n = (if start < end then unat (end - start) div 4096 else 0)
      in map_option (\<lambda>s'. (s', n))
           (foreach (free_reserved_at memstart_addr kimage_voffset cpu poison) (map (\<lambda>i. start + of_nat i * PAGE_SIZE) [0..<n]) s))"

section \<open>Translation there and back\<close>

lemma page_offset_bits: "bit PAGE_OFFSET n \<longleftrightarrow> 47 \<le> n \<and> n < 64"
proof -
  have eq: "PAGE_OFFSET = NOT (mask 47)" by code_simp
  show ?thesis unfolding eq by (auto simp: bit_simps)
qed

lemma below_mask: "unat x < 2 ^ 47 \<Longrightarrow> bit x n \<Longrightarrow> n < 47" for x :: u64
proof (rule ccontr)
  assume a: "unat x < 2 ^ 47" "bit x n" "\<not> n < 47"
  have "take_bit 47 (unat x) = unat x" using a(1) by (simp add: take_bit_nat_eq_self)
  moreover have "bit (unat x) n" using a(2) by (simp add: bit_unsigned_iff)
  ultimately show False using a(3) by (metis bit_take_bit_iff)
qed

lemma linear_roundtrip:
  assumes "even (unat ms)" "ms \<le> x" "unat x < unat ms + 2 ^ 47"
  shows "\<exists>v. phys_to_virt ms x = Some v \<and> v \<noteq> 0 \<and> PAGE_OFFSET \<le> v \<and> virt_to_phys ms ko v = Some x"
proof -
  let ?d = "x - ms"
  have "\<not> bit (unat ms) 0" using assms(1) by (simp add: bit_0)
  then have "\<not> bit ms 0" by (simp add: bit_unsigned_iff)
  then have "ms AND 1 = 0" by (auto intro!: bit_word_eqI simp: bit_simps bit_1_iff)
  then have off: "PHYS_OFFSET ms = Some ms" by (simp add: PHYS_OFFSET_def)
  have "unat ?d = unat x - unat ms" using assms(2) by (simp add: unat_sub word_le_nat_alt)
  then have d: "unat ?d < 2 ^ 47" using assms(2,3) by (simp add: word_le_nat_alt)
  have "(?d OR PAGE_OFFSET) AND NOT PAGE_OFFSET = ?d"
  proof (rule bit_word_eqI)
    fix n
    show "bit ((?d OR PAGE_OFFSET) AND NOT PAGE_OFFSET) n = bit ?d n"
      using below_mask [OF d, of n] by (auto simp: bit_simps page_offset_bits)
  qed
  moreover have lm: "bit (?d OR PAGE_OFFSET) 47" by (simp add: bit_simps page_offset_bits)
  moreover have "PAGE_OFFSET \<le> ?d OR PAGE_OFFSET" by (rule le_word_or1)
  moreover have "?d OR PAGE_OFFSET \<noteq> 0" using lm by auto
  ultimately show ?thesis by (simp add: phys_to_virt_def virt_to_phys_def is_lm_address_def off)
qed

text \<open>\<open>in_map\<close>: the linear map covers frame \<open>q\<close>.\<close>

definition in_map :: "u64 \<Rightarrow> nat \<Rightarrow> bool" where
  "in_map ms q \<longleftrightarrow> even (unat ms) \<and> unat ms \<le> q * 4096 \<and> q * 4096 < unat ms + 2 ^ 47 \<and> q < 2 ^ 52"

lemma page_virt_roundtrip:
  assumes "in_map ms p"
  shows "\<exists>v. page_to_virt ms p = Some v \<and> v \<noteq> 0 \<and> virt_to_page ms ko v = Some p \<and> PAGE_OFFSET \<le> v"
proof -
  have p: "unat ms \<le> p * 4096" "p * 4096 < unat ms + 2 ^ 47" "p < 2 ^ 52" "even (unat ms)" using assms by (auto simp: in_map_def)
  have b: "unat (frame_base p) = p * 4096" by (rule page_of_base) (rule p(3))
  have phys: "PFN_PHYS (of_nat p) = frame_base p" by (simp add: PFN_PHYS_def frame_base_def push_bit_eq_mult)
  obtain v where v: "phys_to_virt ms (frame_base p) = Some v" "v \<noteq> 0" "PAGE_OFFSET \<le> v" "virt_to_phys ms ko v = Some (frame_base p)"
    using linear_roundtrip [of ms "frame_base p" ko] p b by (auto simp: word_le_nat_alt)
  have "virt_to_page ms ko v = Some p" using v(4) b by (simp add: virt_to_page_def drop_12)
  with v phys show ?thesis by (simp add: page_to_virt_def)
qed

text \<open>
  C37: allocation and release by address. When the linear map covers the available frames, \<^verbatim>\<open>__get_free_pages\<close> returns;
  it returns 0 with the same frames available, or the address of a block that \<^verbatim>\<open>free_pages\<close> accepts, on
  whichever cpu it runs, and afterwards the same frames are available in every zone as before the
  allocation.
\<close>

theorem get_free_pages_roundtrip:
  assumes "pg_inv s" "\<forall>z<MAX_NR_ZONES. \<forall>q\<in>avail s z. in_map ms q"
  shows "\<exists>s1 addr. get_free_pages ms c gm k s = Some (s1, addr) \<and> pg_inv s1 \<and>
    (if addr = 0 then \<forall>z<MAX_NR_ZONES. avail s1 z = avail s z
     else \<exists>s2. free_pages ms ko c' addr k s1 = Some s2 \<and> pg_inv s2 \<and> (\<forall>z<MAX_NR_ZONES. avail s2 z = avail s z))"
proof -
  let ?z = "gfp_zone gm"
  obtain s1 r where a: "alloc_pages c gm k s = Some (s1, r)" "alloc_result s ?z k gm r s1" using alloc_pages_ok [OF assms(1)] by blast
  have o: "\<forall>z<MAX_NR_ZONES. z \<noteq> ?z \<longrightarrow> avail s1 z = avail s z" and inv: "pg_inv s1" using a(2) by (auto simp: alloc_result_def)
  show ?thesis
  proof (cases r)
    case None
    then have "avail s1 ?z = avail s ?z" using a(2) by (simp add: alloc_result_def)
    then have "\<forall>z<MAX_NR_ZONES. avail s1 z = avail s z" using o by metis
    with None a(1) inv show ?thesis by (simp add: get_free_pages_def)
  next
    case (Some p)
    have p: "owned s1 ?z k p 1" "avail s1 ?z = avail s ?z - frames k p" "frames k p \<subseteq> avail s ?z"
      using a(2) Some by (auto simp: alloc_result_def)
    have "p \<in> avail s ?z" using p(3) by auto
    then have "in_map ms p" using assms(2) gfp_zone_less by blast
    then obtain v where v: "page_to_virt ms p = Some v" "v \<noteq> 0" "virt_to_page ms ko v = Some p" "PAGE_OFFSET \<le> v"
      using page_virt_roundtrip by blast
    have "pfn_valid (memblock_kernel s1) p" using p(1) by (auto simp: owned_def)
    then have ok: "virt_addr_valid ms ko (memblock_kernel s1) v = Some True" using v(3,4) by (simp add: virt_addr_valid_def)
    obtain s2 where s2: "free_pages_pfn c' p k s1 = Some s2" "pg_inv s2" "avail s2 ?z = avail s1 ?z \<union> frames k p"
      "\<forall>z<MAX_NR_ZONES. z \<noteq> ?z \<longrightarrow> avail s2 z = avail s1 z" using free_pages_pfn_ok [OF inv p(1), of c'] by auto
    have "avail s2 ?z = avail s ?z" using s2(3) p(2,3) by blast
    then have "\<forall>z<MAX_NR_ZONES. avail s2 z = avail s z" using s2(4) o by metis
    moreover have "free_pages ms ko c' v k s1 = Some s2" using v ok s2(1) by (simp add: free_pages_def)
    ultimately show ?thesis using a(1) Some v(1,2) inv s2(2) by (simp add: get_free_pages_def)
  qed
qed

theorem get_free_pages_roundtrip_witness:
  "\<exists>s1 addr. get_free_pages 0x40000000 0 0 4 page_sample = Some (s1, addr) \<and> pg_inv s1 \<and>
     (addr = 0 \<or> (\<exists>s2. free_pages 0x40000000 0 1 addr 4 s1 = Some s2))"
proof -
  have "in_map 0x40000000 q" if "z < MAX_NR_ZONES" "q \<in> avail page_sample z" for z q
  proof -
    have "q \<in> free_frames memblock_sample z"
      using page_sample_stage that less_antisym [of z 1] by (auto simp: stage_def numeral_3_eq_3 less_Suc_eq split: if_splits)
    note f = free_frames_free [OF memblock_sample_inv memblock_sample_limits(1) this]
    have "free memblock_sample (zone_flag z) (frame_base q)" by (rule f(1)) (rule page_of_base(2) [OF f(2)])
    then have "0x40000000 \<le> frame_base q" "frame_base q < 0x80000000"
      by (auto simp: free_def memblock_sample_def mb_at_def covers_def r_end_def split: if_splits)
    then show ?thesis using page_of_base(1) [OF f(2)] f(2) by (simp add: in_map_def word_le_nat_alt word_less_nat_alt)
  qed
  then have "\<forall>z<MAX_NR_ZONES. \<forall>q\<in>avail page_sample z. in_map 0x40000000 q" by blast
  from get_free_pages_roundtrip [OF page_sample_inv this, where c = 0 and gm = 0 and k = 4 and ko = 0 and c' = 1]
  show ?thesis by (metis (no_types, lifting))
qed

end
