(* ===== verification/Frames.thy ===== *)
theory Frames
  imports Linear_Map
begin

text \<open>
  Single frames with a reference count, as page tables and areas use them: \<^verbatim>\<open>get_page\<close>, \<^verbatim>\<open>put_page\<close>,
  \<^verbatim>\<open>put_pagetable_testzero\<close> and \<^verbatim>\<open>__put_page\<close> of \<^verbatim>\<open>kernel/include/minix_rt/mm.h\<close>, and what the page allocator
  promises of them.
\<close>

definition put_pagetable_testzero :: "nat \<Rightarrow> pg_data \<Rightarrow> (pg_data \<times> bool) option" where
  "put_pagetable_testzero p s = (let h = compound_head (pages s) p in do {
     (pg, zero) \<leftarrow> put_page_testzero (pages s h);
     Some (s\<lparr>pages := (pages s)(h := pg)\<rparr>, zero) })"

definition put_page_now :: "nat \<Rightarrow> nat \<Rightarrow> pg_data \<Rightarrow> pg_data option" where
  "put_page_now cpu p s = (if PageCompound (pages s p) then free_compound_page p s else free_unref_page cpu p s)"

text \<open>\<open>held s p n\<close>: frame \<open>p\<close> is in use by itself, with \<open>n\<close> references.\<close>

definition held :: "pg_data \<Rightarrow> nat \<Rightarrow> int \<Rightarrow> bool" where
  "held s p n \<longleftrightarrow> (\<exists>z. owned s z 0 p n)"

lemma held_page:
  assumes "held s p n"
  shows "pg_refcount (pages s p) = n" "pg_head (pages s p) = None" "\<not> PageCompound (pages s p)" "compound_head (pages s) p = p"
    "valid s p"
  using assms by (auto simp: held_def owned_def PageCompound_def PageTail_def head_bit_def compound_head_def)

lemma held_unique: "held s p n \<Longrightarrow> held s p m \<Longrightarrow> n = m"
  using held_page(1) by blast

lemma held_not_pool: "pg_inv s \<Longrightarrow> held s p n \<Longrightarrow> p \<notin> page_pool s"
  using owned_apart [of s _ 0 p n] by (auto simp: held_def)

lemma held_kept:
  assumes "keeps_others s F s'" "p \<notin> F" "held s p n"
  shows "held s' p n"
proof -
  obtain z where "owned s z 0 p n" using assms(3) by (auto simp: held_def)
  then have "owned s' z 0 p n" using assms(1,2) unfolding keeps_others_def by (metis Int_insert_left_if0 Int_empty_left frames_0)
  then show ?thesis by (auto simp: held_def)
qed

lemma with_mem:
  "pg_inv (s\<lparr>mem := m\<rparr>) = pg_inv s" "held (s\<lparr>mem := m\<rparr>) = held s" "page_pool (s\<lparr>mem := m\<rparr>) = page_pool s"
proof -
  have av: "avail (s\<lparr>mem := m\<rparr>) z = avail s z" for z by (simp add: avail_def blocks_def cached_def)
  have "pg_inv (s'\<lparr>mem := m'\<rparr>)" if "pg_inv s'" for s' m'
    using that zone_inv_frame(1) [of s' _ "s'\<lparr>mem := m'\<rparr>" "{}"] by (simp add: pg_inv_def)
  from this [of s m] this [of "s\<lparr>mem := m\<rparr>" "mem s"] show "pg_inv (s\<lparr>mem := m\<rparr>) = pg_inv s" by auto
  show "held (s\<lparr>mem := m\<rparr>) = held s" by (simp add: held_def owned_def av fun_eq_iff)
  show "page_pool (s\<lparr>mem := m\<rparr>) = page_pool s" by (simp add: page_pool_def av)
qed

lemma frame_alloc:
  assumes "pg_inv s"
  shows "\<exists>s' r. alloc_pages c gm 0 s = Some (s', r) \<and> pg_inv s' \<and> (\<forall>p n. held s p n \<longrightarrow> held s' p n) \<and>
    (case r of
       None \<Rightarrow> mem s' = mem s \<and> page_pool s' = page_pool s
     | Some p \<Rightarrow> held s' p 1 \<and> p \<in> page_pool s \<and> page_pool s' = page_pool s - {p} \<and>
         mem s' = (if gm AND GFP_ZERO \<noteq> 0 then (mem s)(p := (\<lambda>_. 0)) else mem s))"
proof -
  obtain s' r where a: "alloc_pages c gm 0 s = Some (s', r)" "alloc_result s (gfp_zone gm) 0 gm r s'"
    using alloc_pages_ok [OF assms] by blast
  have "\<forall>p n. held s p n \<longrightarrow> held s' p n" using a(2) held_kept [of s "{}" s'] by (auto simp: alloc_result_def)
  moreover have "(\<lambda>q. if q \<in> frames 0 p then (\<lambda>_. 0) else mem s q) = (mem s)(p := (\<lambda>_. 0))" for p
    by (auto simp: fun_eq_iff)
  ultimately show ?thesis
    using a pool_after_take [OF assms gfp_zone_less a(2)] by (cases r) (auto simp: alloc_result_def held_def)
qed

lemma pool_cong: "(\<And>z. z < MAX_NR_ZONES \<Longrightarrow> avail s' z = avail s z) \<Longrightarrow> page_pool s' = page_pool s"
  by (simp add: page_pool_def)

lemma frame_count:
  assumes "pg_inv s" "held s p n"
  shows "pg_inv (with_count p m s)" "held (with_count p m s) p m" "q \<noteq> p \<Longrightarrow> held s q k \<Longrightarrow> held (with_count p m s) q k"
    "mem (with_count p m s) = mem s" "page_pool (with_count p m s) = page_pool s"
proof -
  obtain z where o: "owned s z 0 p n" using assms(2) by (auto simp: held_def)
  note w = with_count_ok [OF assms(1) o, of m]
  show "pg_inv (with_count p m s)" "held (with_count p m s) p m" using w by (auto simp: held_def)
  show "q \<noteq> p \<Longrightarrow> held s q k \<Longrightarrow> held (with_count p m s) q k" using held_kept [OF w(4), of q k] by simp
  show "mem (with_count p m s) = mem s" by (simp add: with_count_def)
  show "page_pool (with_count p m s) = page_pool s" by (rule pool_cong) (rule w(3))
qed

lemma frame_get: "held s p n \<Longrightarrow> 0 < n \<Longrightarrow> get_page p s = Some (with_count p (n + 1) s)"
  using held_page [of s p n] by (simp add: get_page_def with_count_def upd_page_def)

lemma frame_testzero:
  "held s p n \<Longrightarrow> 0 < n \<Longrightarrow> put_pagetable_testzero p s = Some (with_count p (n - 1) s, n = 1)"
  using held_page [of s p n] by (auto simp: put_pagetable_testzero_def put_page_testzero_def with_count_def upd_page_def Let_def)

lemma frame_free:
  assumes "pg_inv s" "held s p 0"
  shows "\<exists>s'. put_page_now c p s = Some s' \<and> free_the_page c p 0 s = Some s' \<and> pg_inv s' \<and>
    (\<forall>q n. q \<noteq> p \<longrightarrow> held s q n \<longrightarrow> held s' q n) \<and> mem s' = mem s \<and> page_pool s' = insert p (page_pool s)"
proof -
  obtain z where o: "owned s z 0 p 0" using assms(2) by (auto simp: held_def)
  have z: "z < MAX_NR_ZONES" using o by (simp add: owned_def)
  obtain s' where s': "free_the_page c p 0 s = Some s'" "pg_inv s'" "avail s' z = avail s z \<union> frames 0 p"
    "\<forall>z'<MAX_NR_ZONES. z' \<noteq> z \<longrightarrow> avail s' z' = avail s z'" "keeps_others s (frames 0 p) s'"
    "touched z (avail s z \<union> frames 0 p) s s'" using free_block_ok [OF assms(1) o, of c] by blast
  have "page_pool s' = insert p (page_pool s)" using s'(3,4) unfolding page_pool_split [OF z] by auto
  moreover have "put_page_now c p s = Some s'" using s'(1) held_page(3) [OF assms(2)] by (simp add: put_page_now_def free_the_page_def)
  ultimately show ?thesis using s' held_kept [OF s'(5)] by (auto simp: touched_def)
qed

lemma frame_put:
  assumes "pg_inv s" "held s p 1"
  shows "\<exists>s'. put_page c p s = Some s' \<and> free_pages_pfn c p 0 s = Some s' \<and> pg_inv s' \<and>
    (\<forall>q n. q \<noteq> p \<longrightarrow> held s q n \<longrightarrow> held s' q n) \<and> mem s' = mem s \<and> page_pool s' = insert p (page_pool s)"
proof -
  note w = frame_count [OF assms, of 0]
  obtain s' where s': "put_page_now c p (with_count p 0 s) = Some s'" "free_the_page c p 0 (with_count p 0 s) = Some s'" "pg_inv s'"
    "\<forall>q n. q \<noteq> p \<longrightarrow> held (with_count p 0 s) q n \<longrightarrow> held s' q n" "mem s' = mem (with_count p 0 s)"
    "page_pool s' = insert p (page_pool (with_count p 0 s))" using frame_free [OF w(1,2), of c] by blast
  have "put_page c p s = Some s'"
    using s'(1) held_page [OF assms(2)] held_page(3) [OF w(2)]
    by (auto simp: put_page_def put_page_testzero_def put_page_now_def with_count_def upd_page_def Let_def)
  moreover have "free_pages_pfn c p 0 s = Some s'"
    using s'(2) held_page [OF assms(2)] by (simp add: free_pages_pfn_def put_page_testzero_def with_count_def upd_page_def)
  moreover have "held s' q n" if "q \<noteq> p" "held s q n" for q n
    using s'(4) frame_count(3) [OF assms that, of 0] that(1) by simp
  ultimately show ?thesis using s' w(4,5) by auto
qed

end
