(* ===== verification/Vma.thy ===== *)
theory Vma
  imports Frames Rbtree
begin

text \<open>
  Address spaces: \<^verbatim>\<open>struct mm_struct\<close>, \<^verbatim>\<open>struct vm_area_struct\<close> and the part of \<^verbatim>\<open>kernel/mm/mmap.c\<close> that keeps
  the areas of an address space in a red-black tree, with the frames that back them. Page tables are in
  \<open>Pgtable\<close>.

  A pointer to an area or to an address space is a number. \<^verbatim>\<open>kmalloc\<close> is a numbered sequence of calls: the
  environment decides which of them succeed, a successful call returns an object that was never handed out
  before, and \<^verbatim>\<open>kfree\<close> ends its life (the slab allocator's own use of the page allocator is left out). \<^verbatim>\<open>cpu\<close> is
  the processor the call runs on. Calls on address spaces are taken one after the other, on whichever cpu each: the code
  holds \<^verbatim>\<open>vma_lock\<close> only while it changes or searches the tree of areas, so that two calls that overlap in time are
  outside the model. \<^verbatim>\<open>BUG_ON(in_interrupt())\<close> is left out, as the
  calls come from tasks; so are \<^verbatim>\<open>BUG_ON(!mm->pgd)\<close>, since the pgd of a live address space is a frame number and never NULL,
  and the check of \<^verbatim>\<open>free_page\<close> that the address it is given is in the linear map, since it is given the address of a frame.
\<close>

section \<open>State\<close>

record vm_area_struct =
  vm_start :: u64
  vm_end :: u64
  vm_mm :: nat
  vm_page_prot :: u64
  vm_flags :: u64
  vma_pages :: "nat option list"  \<comment> \<open>\<^verbatim>\<open>struct page **pages\<close>, \<open>None\<close> being NULL\<close>
  nr_pages :: u32
  phys_addr :: u64
  pud_root :: "nat rb_tree"
  pmd_root :: "nat rb_tree"
  pte_root :: "nat rb_tree"

record mm_struct =
  vma_rb_root :: "nat rb_tree"
  task_size :: u64
  pgd :: nat  \<comment> \<open>the frame of the top-level table\<close>
  mm_count :: int
  pgtables_bytes :: u64
  mmap_base :: u64
  mmap_end :: u64
  start_brk :: u64
  brk :: u64

record vm =
  pgs :: pg_data
  mms :: "nat \<Rightarrow> mm_struct"
  mm_live :: "nat \<Rightarrow> bool"
  vmas :: "nat \<Rightarrow> vm_area_struct"
  vma_live :: "nat \<Rightarrow> bool"
  kmalloc_ok :: "nat \<Rightarrow> bool"
  kmallocs :: nat

definition kmalloc :: "vm \<Rightarrow> nat option \<times> vm" where
  "kmalloc s = ((if kmalloc_ok s (kmallocs s) then Some (kmallocs s) else None), s\<lparr>kmallocs := Suc (kmallocs s)\<rparr>)"

definition upd_vma :: "nat \<Rightarrow> (vm_area_struct \<Rightarrow> vm_area_struct) \<Rightarrow> vm \<Rightarrow> vm" where
  "upd_vma v f s = s\<lparr>vmas := (vmas s)(v := f (vmas s v))\<rparr>"

definition upd_mm :: "nat \<Rightarrow> (mm_struct \<Rightarrow> mm_struct) \<Rightarrow> vm \<Rightarrow> vm" where
  "upd_mm m f s = s\<lparr>mms := (mms s)(m := f (mms s m))\<rparr>"

definition set_pgs :: "pg_data \<Rightarrow> vm \<Rightarrow> vm" where
  "set_pgs p s = s\<lparr>pgs := p\<rparr>"

abbreviation (input) VM_READ :: u64 where "VM_READ \<equiv> 0x01"
abbreviation (input) VM_WRITE :: u64 where "VM_WRITE \<equiv> 0x02"
abbreviation (input) VM_EXEC :: u64 where "VM_EXEC \<equiv> 0x04"
abbreviation (input) VM_SHARED :: u64 where "VM_SHARED \<equiv> 0x08"
abbreviation (input) VM_IOREMAP :: u64 where "VM_IOREMAP \<equiv> 0x10"
abbreviation (input) VM_USER_STACK :: u64 where "VM_USER_STACK \<equiv> 0x20"
abbreviation (input) VM_PRIVATE_SHARE :: u64 where "VM_PRIVATE_SHARE \<equiv> 0x80"

definition PAGE_ALIGNED :: "u64 \<Rightarrow> bool" where
  "PAGE_ALIGNED a \<longleftrightarrow> a AND (PAGE_SIZE - 1) = 0"

definition PAGE_ALIGN :: "u64 \<Rightarrow> u64" where
  "PAGE_ALIGN a = (a + (PAGE_SIZE - 1)) AND NOT (PAGE_SIZE - 1)"

definition PAGE_ALIGN_DOWN :: "u64 \<Rightarrow> u64" where
  "PAGE_ALIGN_DOWN a = a AND NOT (PAGE_SIZE - 1)"

section \<open>Protection bits\<close>

text \<open>\<^verbatim>\<open>protection_map\<close> and \<^verbatim>\<open>vm_get_page_prot\<close>; \<^verbatim>\<open>MT_NORMAL\<close> is 4.\<close>

abbreviation (input) PTE_VALID :: u64 where "PTE_VALID \<equiv> 0x1"
abbreviation (input) PTE_USER :: u64 where "PTE_USER \<equiv> 0x40"
abbreviation (input) PTE_RDONLY :: u64 where "PTE_RDONLY \<equiv> 0x80"
abbreviation (input) PTE_NG :: u64 where "PTE_NG \<equiv> 0x800"
abbreviation (input) PTE_WRITE :: u64 where "PTE_WRITE \<equiv> 0x8000000000000"
abbreviation (input) PTE_PXN :: u64 where "PTE_PXN \<equiv> 0x20000000000000"
abbreviation (input) PTE_UXN :: u64 where "PTE_UXN \<equiv> 0x40000000000000"
abbreviation (input) PTE_PROT_NONE :: u64 where "PTE_PROT_NONE \<equiv> 0x400000000000000"

definition page_default :: u64 where
  "page_default = 0x3 OR 0x400 OR 0x300 OR push_bit 2 4"

definition PAGE_NONE :: u64 where
  "PAGE_NONE = (page_default AND NOT PTE_VALID) OR PTE_PROT_NONE OR PTE_RDONLY OR PTE_NG OR PTE_PXN OR PTE_UXN"
definition PAGE_SHARED :: u64 where
  "PAGE_SHARED = page_default OR PTE_USER OR PTE_NG OR PTE_PXN OR PTE_UXN OR PTE_WRITE"
definition PAGE_SHARED_EXEC :: u64 where
  "PAGE_SHARED_EXEC = page_default OR PTE_USER OR PTE_NG OR PTE_PXN OR PTE_WRITE"
definition PAGE_READONLY :: u64 where
  "PAGE_READONLY = page_default OR PTE_USER OR PTE_RDONLY OR PTE_NG OR PTE_PXN OR PTE_UXN"
definition PAGE_READONLY_EXEC :: u64 where
  "PAGE_READONLY_EXEC = page_default OR PTE_USER OR PTE_RDONLY OR PTE_NG OR PTE_PXN"
definition PAGE_EXECONLY :: u64 where
  "PAGE_EXECONLY = page_default OR PTE_RDONLY OR PTE_NG OR PTE_PXN"

definition protection_map :: "u64 list" where
  "protection_map =
     [PAGE_NONE, PAGE_READONLY, PAGE_READONLY, PAGE_READONLY,
      PAGE_EXECONLY, PAGE_READONLY_EXEC, PAGE_READONLY_EXEC, PAGE_READONLY_EXEC,
      PAGE_NONE, PAGE_READONLY, PAGE_SHARED, PAGE_SHARED,
      PAGE_EXECONLY, PAGE_READONLY_EXEC, PAGE_SHARED_EXEC, PAGE_SHARED_EXEC]"

definition vm_get_page_prot :: "u64 \<Rightarrow> u64" where
  "vm_get_page_prot flags = protection_map ! unat (flags AND (VM_READ OR VM_WRITE OR VM_EXEC OR VM_SHARED))"

section \<open>The tree of areas\<close>

definition vma_probe :: "(nat \<Rightarrow> vm_area_struct) \<Rightarrow> u64 \<times> u64 \<Rightarrow> nat \<Rightarrow> rb_dir" where
  "vma_probe va r this =
     (if snd r \<le> vm_start (va this) then Go_left
      else if fst r \<ge> vm_end (va this) then Go_right
      else Stop)"

definition insert_vma_area :: "nat \<Rightarrow> vm \<Rightarrow> (vm \<times> bool) option" where
  "insert_vma_area v s =
     (let vma = vmas s v in
      map_option (\<lambda>(root, inserted). (upd_mm (vm_mm vma) (\<lambda>m. m\<lparr>vma_rb_root := root\<rparr>) s, inserted))
        (rb_insert_at (vma_probe (vmas s) (vm_start vma, vm_end vma)) v (vma_rb_root (mms s (vm_mm vma)))))"

definition addr_probe :: "(nat \<Rightarrow> vm_area_struct) \<Rightarrow> u64 \<Rightarrow> nat \<Rightarrow> rb_dir" where
  "addr_probe va addr vma =
     (if addr < vm_start (va vma) then Go_left
      else if addr \<ge> vm_end (va vma) then Go_right
      else Stop)"

definition find_vma_node :: "u64 \<Rightarrow> nat \<Rightarrow> vm \<Rightarrow> (nat rb_tree \<times> nat rb_path) option" where
  "find_vma_node addr m s = rb_find (addr_probe (vmas s) addr) (vma_rb_root (mms s m))"

definition mmap_find_vma_area :: "u64 \<Rightarrow> nat option \<Rightarrow> vm \<Rightarrow> nat option" where
  "mmap_find_vma_area addr mm s = do { m \<leftarrow> mm; node \<leftarrow> find_vma_node addr m s; rb_entry node }"

text \<open>\<^verbatim>\<open>rb_next(&vma->vm_rb_node)\<close> starts from the node of the area, wherever it is in the tree.\<close>

fun rb_node_of :: "'a \<Rightarrow> 'a rb_tree \<Rightarrow> 'a rb_path \<Rightarrow> ('a rb_tree \<times> 'a rb_path) option" where
  "rb_node_of x RB_NULL path = None"
| "rb_node_of x (RB_Node c l a r) path =
     (if x = a then Some (RB_Node c l a r, path)
      else (case rb_node_of x l (RB_left c a r # path) of
              Some pos \<Rightarrow> Some pos
            | None \<Rightarrow> rb_node_of x r (RB_right c l a # path)))"

definition mmap_first_vma :: "nat \<Rightarrow> vm \<Rightarrow> nat option" where
  "mmap_first_vma m s = do { node \<leftarrow> rb_first (vma_rb_root (mms s m)); rb_entry node }"

definition mmap_next_vma :: "nat option \<Rightarrow> vm \<Rightarrow> nat option" where
  "mmap_next_vma vma s = do {
     v \<leftarrow> vma;
     (t, path) \<leftarrow> rb_node_of v (vma_rb_root (mms s (vm_mm (vmas s v)))) [];
     node \<leftarrow> rb_next t path;
     rb_entry node }"

text \<open>\<^verbatim>\<open>for_each_curr_vm_area\<close>: the areas the loop visits; the fuel bounds the number of rounds.\<close>

fun curr_vm_areas :: "nat \<Rightarrow> nat option \<Rightarrow> vm \<Rightarrow> nat list option" where
  "curr_vm_areas n None s = Some []"
| "curr_vm_areas 0 (Some v) s = None"
| "curr_vm_areas (Suc n) (Some v) s = map_option ((#) v) (curr_vm_areas n (mmap_next_vma (Some v) s) s)"

section \<open>Creating and freeing an area\<close>

text \<open>
  The loop that allocates the frames of an area returns those it got; when \<^verbatim>\<open>alloc_page\<close> fails it stops.
\<close>

abbreviation (input) GFP_KERNEL :: u32 where "GFP_KERNEL \<equiv> 0x20"
abbreviation (input) GFP_USER :: u32 where "GFP_USER \<equiv> 0x40"

fun alloc_vma_pages :: "nat \<Rightarrow> nat \<Rightarrow> pg_data \<Rightarrow> (pg_data \<times> nat list) option" where
  "alloc_vma_pages cpu 0 s = Some (s, [])"
| "alloc_vma_pages cpu (Suc n) s = do {
     (s1, page) \<leftarrow> alloc_pages cpu (GFP_USER OR GFP_ZERO) 0 s;
     (case page of
        None \<Rightarrow> Some (s1, [])
      | Some p \<Rightarrow> map_option (\<lambda>(s2, ps). (s2, p # ps)) (alloc_vma_pages cpu n s1)) }"

text \<open>The frames of a shared physical range; \<open>None\<close> when one of them is not memory.\<close>

fun phys_vma_pages :: "memblock \<Rightarrow> u64 \<Rightarrow> nat \<Rightarrow> nat list option" where
  "phys_vma_pages mb addr 0 = Some []"
| "phys_vma_pages mb addr (Suc n) =
     (if pfn_valid mb (unat (drop_bit PAGE_SHIFT addr))
      then map_option ((#) (unat (drop_bit PAGE_SHIFT addr))) (phys_vma_pages mb (addr + PAGE_SIZE) n)
      else None)"

definition new_vma :: "u64 \<Rightarrow> u64 \<Rightarrow> u64 \<Rightarrow> nat \<Rightarrow> vm_area_struct" where
  "new_vma vstart sz flags m =
     \<lparr>vm_start = vstart, vm_end = vstart + sz, vm_mm = m, vm_page_prot = vm_get_page_prot (flags OR VM_SHARED),
      vm_flags = flags, vma_pages = [], nr_pages = ucast (drop_bit PAGE_SHIFT sz), phys_addr = 0,
      pud_root = RB_NULL, pmd_root = RB_NULL, pte_root = RB_NULL\<rparr>"

text \<open>The end of \<^verbatim>\<open>mmap_get_vmap_area\<close>: the area goes into the tree, or is freed again.\<close>

definition link_vma :: "nat \<Rightarrow> vm_area_struct \<Rightarrow> vm \<Rightarrow> (vm \<times> nat option) option" where
  "link_vma v vma s = do {
     let s1 = s\<lparr>vmas := (vmas s)(v := vma), vma_live := (vma_live s)(v := True)\<rparr>;
     (s2, inserted) \<leftarrow> insert_vma_area v s1;
     if \<not> inserted then Some (s2\<lparr>vma_live := (vma_live s2)(v := False)\<rparr>, None) else Some (s2, Some v) }"

definition mmap_get_vmap_area ::
    "nat \<Rightarrow> u64 \<Rightarrow> u64 \<Rightarrow> u64 \<Rightarrow> nat option \<Rightarrow> u64 \<Rightarrow> vm \<Rightarrow> (vm \<times> nat option) option" where
  "mmap_get_vmap_area cpu vstart sz flags mm phys s =
     (case mm of
        None \<Rightarrow> Some (s, None)
      | Some m \<Rightarrow>
          if \<not> PAGE_ALIGNED vstart \<or> \<not> PAGE_ALIGNED sz \<or> sz = 0 \<or> vstart = 0 then Some (s, None)
          else (case kmalloc s of
            (None, s1) \<Rightarrow> Some (s1, None)
          | (Some v, s1) \<Rightarrow>
              let vma = new_vma vstart sz flags m; n = unat (nr_pages vma) in
              (case kmalloc s1 of
                 (None, s2) \<Rightarrow> Some (s2, None)
               | (Some _, s2) \<Rightarrow>
                   if flags AND VM_PRIVATE_SHARE = 0
                   then do {
                     (p1, got) \<leftarrow> alloc_vma_pages cpu n (pgs s2);
                     if length got < n
                     then map_option (\<lambda>p2. (set_pgs p2 s2, None)) (foreach (\<lambda>p. free_pages_pfn cpu p 0) got p1)
                     else link_vma v (vma\<lparr>vma_pages := map Some got\<rparr>) (set_pgs p1 s2) }
                   else if flags AND VM_IOREMAP = 0
                   then (if \<not> PAGE_ALIGNED phys then Some (s2, None)
                         else (case phys_vma_pages (memblock_kernel (pgs s2)) phys n of
                            None \<Rightarrow> Some (s2, None)
                          | Some ps \<Rightarrow> link_vma v (vma\<lparr>vma_pages := map Some ps, phys_addr := phys\<rparr>) s2))
                   else link_vma v (vma\<lparr>vma_pages := replicate n None\<rparr>) s2)))"

definition put_vma_page :: "nat \<Rightarrow> nat option \<Rightarrow> pg_data \<Rightarrow> pg_data option" where
  "put_vma_page cpu page s = do { p \<leftarrow> page; put_page cpu p s }"

definition mmap_free_vmap_area :: "nat \<Rightarrow> u64 \<Rightarrow> nat option \<Rightarrow> vm \<Rightarrow> vm option" where
  "mmap_free_vmap_area cpu addr mm s =
     (case mm of
        None \<Rightarrow> Some s
      | Some m \<Rightarrow>
          (case find_vma_node addr m s of
             None \<Rightarrow> Some s
           | Some (t, path) \<Rightarrow> do {
               v \<leftarrow> rb_entry (t, path);
               let vma = vmas s v;
               bug_on (rb_first (pud_root vma) \<noteq> None);
               bug_on (rb_first (pmd_root vma) \<noteq> None);
               bug_on (rb_first (pte_root vma) \<noteq> None);
               root \<leftarrow> rb_erase t path;
               let s1 = upd_mm m (\<lambda>x. x\<lparr>vma_rb_root := root\<rparr>) s;
               p \<leftarrow> (if vm_flags vma AND VM_PRIVATE_SHARE = 0
                     then foreach (put_vma_page cpu) (take (unat (nr_pages vma)) (vma_pages vma)) (pgs s1)
                     else Some (pgs s1));
               Some ((set_pgs p s1)\<lparr>vma_live := (vma_live s1)(v := False)\<rparr>) }))"

section \<open>Address spaces\<close>

text \<open>\<^verbatim>\<open>mmap_alloc_mm_struct\<close> and \<^verbatim>\<open>mmap_free_mm_struct\<close>; \<^verbatim>\<open>get_free_page\<close> and \<^verbatim>\<open>free_page\<close> use frame numbers here.\<close>

definition mmap_alloc_mm_struct :: "nat \<Rightarrow> vm \<Rightarrow> (vm \<times> nat option) option" where
  "mmap_alloc_mm_struct cpu s =
     (case kmalloc s of
        (None, s1) \<Rightarrow> Some (s1, None)
      | (Some m, s1) \<Rightarrow> do {
          (p1, page) \<leftarrow> alloc_pages cpu (GFP_KERNEL OR GFP_ZERO) 0 (pgs s1);
          (case page of
             None \<Rightarrow> Some (set_pgs p1 s1, None)
           | Some p \<Rightarrow>
               Some ((set_pgs p1 s1)\<lparr>mms := (mms s1)(m := \<lparr>vma_rb_root = RB_NULL, task_size = 2 ^ 48, pgd = p,
                        mm_count = 1, pgtables_bytes = 0, mmap_base = 2 ^ 48 - 1, mmap_end = 0, start_brk = 0, brk = 0\<rparr>),
                        mm_live := (mm_live s1)(m := True)\<rparr>, Some m)) })"

definition mmap_free_mm_struct :: "nat \<Rightarrow> nat option \<Rightarrow> vm \<Rightarrow> vm option" where
  "mmap_free_mm_struct cpu mm s =
     (case mm of
        None \<Rightarrow> Some s
      | Some m \<Rightarrow> do {
          let x = mms s m;
          bug_on (pgtables_bytes x \<noteq> 0);
          bug_on (rb_first (vma_rb_root x) \<noteq> None);
          bug_on (mm_count x - 1 \<noteq> 0);
          p \<leftarrow> free_pages_pfn cpu (pgd x) 0 (pgs s);
          Some ((set_pgs p s)\<lparr>mms := (mms s)(m := x\<lparr>mm_count := mm_count x - 1\<rparr>), mm_live := (mm_live s)(m := False)\<rparr>) })"

end
