(* ===== verification/Pgtable.thy ===== *)
theory Pgtable
  imports Vma Message
begin

text \<open>
  Page tables: the walks of \<^verbatim>\<open>kernel/mm/mmap.c\<close> that map, unmap and re-protect an area, over the helpers of
  \<^verbatim>\<open>kernel/arch/arm64/include/asm/pgtable.h\<close>.

  There are four levels (\<^verbatim>\<open>CONFIG_PGTABLE_LEVELS\<close>), numbered as in \<^verbatim>\<open>ARM64_HW_PGTABLE_LEVEL_SHIFT\<close>: 0 for the
  pgd, 1 for pud tables, 2 for pmd tables, 3 for pte tables. A table is a frame of 512 entries of eight
  bytes; a pointer to an entry is a frame and an index, and leaving the table is \<open>None\<close>. The linear map gives
  each frame one virtual address, so \<^verbatim>\<open>__va\<close> and \<^verbatim>\<open>virt_to_page\<close> are left out. The three levels the code
  repeats share one definition with the level as an argument. Barriers and TLB flushes are left out.

  As in \<open>Vma\<close>, calls on address spaces are taken one after the other: the code tests whether a table is present before it takes
  \<^verbatim>\<open>page_table_lock\<close>, which it holds for the store of the new entry and the count alone. The index into \<^verbatim>\<open>vma->pages\<close>, an \<^verbatim>\<open>int\<close> in the code, is a
  natural number here; it stays below the number of pages of an area of user space.
\<close>

section \<open>Entries\<close>

definition entry :: "pg_data \<Rightarrow> nat \<Rightarrow> nat \<Rightarrow> u64" where
  "entry s f i = of_bytes (map (mem s f) [8 * i..<8 * i + 8])"

definition set_entry :: "nat \<Rightarrow> nat \<Rightarrow> u64 \<Rightarrow> pg_data \<Rightarrow> pg_data" where
  "set_entry f i e s =
     s\<lparr>mem := (mem s)(f := (\<lambda>o'. if 8 * i \<le> o' \<and> o' < 8 * i + 8 then bytes_of 8 e ! (o' - 8 * i) else mem s f o'))\<rparr>"

definition PTE_ADDR_MASK :: u64 where
  "PTE_ADDR_MASK = push_bit PAGE_SHIFT (push_bit (48 - PAGE_SHIFT) 1 - 1)"

text \<open>\<^verbatim>\<open>pfn_to_page(__phys_to_pfn(__pmd_to_phys(pmd)))\<close>, \<^verbatim>\<open>mk_pte\<close>, and the entry that \<^verbatim>\<open>__pmd_populate\<close> stores.\<close>

definition entry_page :: "u64 \<Rightarrow> nat" where
  "entry_page e = unat (drop_bit PAGE_SHIFT (e AND PTE_ADDR_MASK))"

definition mk_pte :: "nat \<Rightarrow> u64 \<Rightarrow> u64" where
  "mk_pte page prot = push_bit PAGE_SHIFT (of_nat page) OR prot"

abbreviation (input) PMD_TYPE_TABLE :: u64 where "PMD_TYPE_TABLE \<equiv> 3"

definition table_entry :: "nat \<Rightarrow> u64" where
  "table_entry page = push_bit PAGE_SHIFT (of_nat page) OR PMD_TYPE_TABLE"

section \<open>Levels\<close>

definition level_shift :: "nat \<Rightarrow> nat" where
  "level_shift n = 9 * (4 - n) + 3"

definition table_index :: "nat \<Rightarrow> u64 \<Rightarrow> nat" where
  "table_index n addr = unat (drop_bit (level_shift n) addr AND (512 - 1))"

text \<open>\<^verbatim>\<open>pgd_addr_end\<close>, \<^verbatim>\<open>pud_addr_end\<close>, \<^verbatim>\<open>pmd_addr_end\<close>.\<close>

definition addr_end :: "nat \<Rightarrow> u64 \<Rightarrow> u64 \<Rightarrow> u64" where
  "addr_end n addr end =
     (let boundary = (addr + push_bit (level_shift n) 1) AND NOT (push_bit (level_shift n) 1 - 1) in
      if boundary - 1 < end - 1 then boundary else end)"

text \<open>\<^verbatim>\<open>pud_offset\<close>, \<^verbatim>\<open>pmd_offset\<close>, \<^verbatim>\<open>pte_offset_kernel\<close>: from the entry \<open>(f, i)\<close> into the table of level \<open>n\<close> it names.\<close>

definition table_offset :: "nat \<Rightarrow> nat \<times> nat \<Rightarrow> u64 \<Rightarrow> pg_data \<Rightarrow> nat \<times> nat" where
  "table_offset n dir addr s = (entry_page (entry s (fst dir) (snd dir)), table_index n addr)"

section \<open>The tables of an area\<close>

text \<open>
  An area remembers the tables it uses: \<^verbatim>\<open>pud_root\<close>, \<^verbatim>\<open>pmd_root\<close>, \<^verbatim>\<open>pte_root\<close>, trees ordered by the address of the
  page descriptor.
\<close>

definition table_root :: "nat \<Rightarrow> vm_area_struct \<Rightarrow> nat rb_tree" where
  "table_root n vma = (if n = 1 then pud_root vma else if n = 2 then pmd_root vma else pte_root vma)"

definition set_table_root :: "nat \<Rightarrow> nat rb_tree \<Rightarrow> vm_area_struct \<Rightarrow> vm_area_struct" where
  "set_table_root n t vma =
     (if n = 1 then vma\<lparr>pud_root := t\<rparr> else if n = 2 then vma\<lparr>pmd_root := t\<rparr> else vma\<lparr>pte_root := t\<rparr>)"

definition page_probe :: "nat \<Rightarrow> nat \<Rightarrow> rb_dir" where
  "page_probe page this = (if page < this then Go_left else if page > this then Go_right else Stop)"

definition vma_find_table :: "nat \<Rightarrow> nat \<Rightarrow> nat \<Rightarrow> vm \<Rightarrow> (nat rb_tree \<times> nat rb_path) option" where
  "vma_find_table n v page s = rb_find (page_probe page) (table_root n (vmas s v))"

definition vma_insert_table :: "nat \<Rightarrow> nat \<Rightarrow> nat \<Rightarrow> vm \<Rightarrow> (vm \<times> bool) option" where
  "vma_insert_table n v page s =
     map_option (\<lambda>(t, inserted). (upd_vma v (set_table_root n t) s, inserted))
       (rb_insert_at (page_probe page) page (table_root n (vmas s v)))"

definition vma_erase_table :: "nat \<Rightarrow> nat \<Rightarrow> (nat rb_tree \<times> nat rb_path) \<Rightarrow> vm \<Rightarrow> vm option" where
  "vma_erase_table n v pos s =
     map_option (\<lambda>t. upd_vma v (set_table_root n t) s) (rb_erase (fst pos) (snd pos))"

text \<open>\<^verbatim>\<open>mm_inc_nr_puds\<close>, \<^verbatim>\<open>mm_dec_nr_puds\<close> and the like: each table is \<^verbatim>\<open>PTRS_PER_PTE * sizeof(pte_t)\<close> bytes.\<close>

definition inc_tables :: "nat \<Rightarrow> vm \<Rightarrow> vm" where
  "inc_tables v s = upd_mm (vm_mm (vmas s v)) (\<lambda>m. m\<lparr>pgtables_bytes := pgtables_bytes m + 512 * 8\<rparr>) s"

definition dec_tables :: "nat \<Rightarrow> vm \<Rightarrow> vm" where
  "dec_tables v s = upd_mm (vm_mm (vmas s v)) (\<lambda>m. m\<lparr>pgtables_bytes := pgtables_bytes m - 512 * 8\<rparr>) s"

section \<open>Mapping\<close>

text \<open>
  \<^verbatim>\<open>pud_alloc\<close>, \<^verbatim>\<open>pmd_alloc\<close>, \<^verbatim>\<open>pte_alloc\<close>: the table of level \<open>n\<close> below the entry \<open>dir\<close>, shared with the other areas
  that use it or new. \<open>None\<close> as a result is NULL.
\<close>

definition table_alloc ::
    "nat \<Rightarrow> nat \<Rightarrow> nat \<Rightarrow> nat \<times> nat \<Rightarrow> u64 \<Rightarrow> vm \<Rightarrow> (vm \<times> (nat \<times> nat) option) option" where
  "table_alloc n cpu v dir addr s =
     (case kmalloc s of
        (None, s1) \<Rightarrow> Some (s1, None)
      | (Some _, s1) \<Rightarrow>
          (let e = entry (pgs s1) (fst dir) (snd dir) in
           if e \<noteq> 0
           then do {
             p1 \<leftarrow> get_page (entry_page e) (pgs s1);
             (s2, inserted) \<leftarrow> vma_insert_table n v (entry_page e) (set_pgs p1 s1);
             if \<not> inserted
             then map_option (\<lambda>p2. (set_pgs p2 s2, None)) (put_page cpu (entry_page e) (pgs s2))
             else Some (s2, Some (table_offset n dir addr (pgs s2))) }
           else do {
             (p1, new) \<leftarrow> alloc_pages cpu (GFP_KERNEL OR GFP_ZERO) 0 (pgs s1);
             (case new of
                None \<Rightarrow> Some (set_pgs p1 s1, None)
              | Some page \<Rightarrow> do {
                  (s2, inserted) \<leftarrow> vma_insert_table n v page (set_pgs p1 s1);
                  if \<not> inserted
                  then map_option (\<lambda>p2. (set_pgs p2 s2, None)) (free_pages_pfn cpu page 0 (pgs s2))
                  else (let s3 = inc_tables v (set_pgs (set_entry (fst dir) (snd dir) (table_entry page) (pgs s2)) s2) in
                        Some (s3, Some (table_offset n dir addr (pgs s3)))) }) }))"

definition pud_alloc :: "nat \<Rightarrow> nat \<Rightarrow> nat \<times> nat \<Rightarrow> u64 \<Rightarrow> vm \<Rightarrow> (vm \<times> (nat \<times> nat) option) option" where
  "pud_alloc = table_alloc 1"
definition pmd_alloc :: "nat \<Rightarrow> nat \<Rightarrow> nat \<times> nat \<Rightarrow> u64 \<Rightarrow> vm \<Rightarrow> (vm \<times> (nat \<times> nat) option) option" where
  "pmd_alloc = table_alloc 2"
definition pte_alloc :: "nat \<Rightarrow> nat \<Rightarrow> nat \<times> nat \<Rightarrow> u64 \<Rightarrow> vm \<Rightarrow> (vm \<times> (nat \<times> nat) option) option" where
  "pte_alloc = table_alloc 3"

text \<open>The loop of \<^verbatim>\<open>vmap_pte_range\<close>, from entry \<open>(f, i)\<close> on; \<open>nr\<close> is the running index into \<^verbatim>\<open>vma->pages\<close>.\<close>

partial_function (option) vmap_pte_loop ::
    "nat \<Rightarrow> nat \<Rightarrow> nat \<Rightarrow> u64 \<Rightarrow> u64 \<Rightarrow> nat \<Rightarrow> vm \<Rightarrow> (vm \<times> nat \<times> int) option" where
  "vmap_pte_loop v f i addr end nr s =
     (if i \<ge> 512 \<or> nr \<ge> length (vma_pages (vmas s v)) then None
      else if entry (pgs s) f i \<noteq> 0 then Some (s, nr, - EBUSY)
      else (case vma_pages (vmas s v) ! nr of
          None \<Rightarrow> Some (s, nr, - ENOMEM)
        | Some page \<Rightarrow>
            (let s1 = set_pgs (set_entry f i (mk_pte page (vm_page_prot (vmas s v))) (pgs s)) s in
             if addr + PAGE_SIZE \<noteq> end then vmap_pte_loop v f (i + 1) (addr + PAGE_SIZE) end (nr + 1) s1
             else Some (s1, nr + 1, 0))))"

definition vmap_pte_range ::
    "nat \<Rightarrow> nat \<Rightarrow> nat \<times> nat \<Rightarrow> u64 \<Rightarrow> u64 \<Rightarrow> nat \<Rightarrow> vm \<Rightarrow> (vm \<times> nat \<times> int) option" where
  "vmap_pte_range cpu v pmdp addr end nr s = do {
     (s1, pte) \<leftarrow> pte_alloc cpu v pmdp addr s;
     (case pte of
        None \<Rightarrow> Some (s1, nr, - ENOMEM)
      | Some (f, i) \<Rightarrow> vmap_pte_loop v f i addr end nr s1) }"

text \<open>The loops of \<^verbatim>\<open>vmap_pmd_range\<close>, \<^verbatim>\<open>vmap_pud_range\<close> and \<^verbatim>\<open>vmap_page_range\<close> over the entries of a table of level \<open>n\<close>.\<close>

partial_function (option) vmap_loop ::
    "(nat \<times> nat \<Rightarrow> u64 \<Rightarrow> u64 \<Rightarrow> nat \<Rightarrow> vm \<Rightarrow> (vm \<times> nat \<times> int) option) \<Rightarrow>
     nat \<Rightarrow> nat \<Rightarrow> nat \<Rightarrow> u64 \<Rightarrow> u64 \<Rightarrow> nat \<Rightarrow> vm \<Rightarrow> (vm \<times> nat \<times> int) option" where
  "vmap_loop below n f i addr end nr s =
     (if i \<ge> 512 then None
      else (let next = addr_end n addr end in
        Option.bind (below (f, i) addr next nr s) (\<lambda>(s1, nr1, err).
          if err \<noteq> 0 then Some (s1, nr1, - ENOMEM)
          else if next \<noteq> end then vmap_loop below n f (i + 1) next end nr1 s1
          else Some (s1, nr1, 0))))"

definition vmap_pmd_range ::
    "nat \<Rightarrow> nat \<Rightarrow> nat \<times> nat \<Rightarrow> u64 \<Rightarrow> u64 \<Rightarrow> nat \<Rightarrow> vm \<Rightarrow> (vm \<times> nat \<times> int) option" where
  "vmap_pmd_range cpu v pudp addr end nr s = do {
     (s1, pmd) \<leftarrow> pmd_alloc cpu v pudp addr s;
     (case pmd of
        None \<Rightarrow> Some (s1, nr, - ENOMEM)
      | Some (f, i) \<Rightarrow> vmap_loop (vmap_pte_range cpu v) 2 f i addr end nr s1) }"

definition vmap_pud_range ::
    "nat \<Rightarrow> nat \<Rightarrow> nat \<times> nat \<Rightarrow> u64 \<Rightarrow> u64 \<Rightarrow> nat \<Rightarrow> vm \<Rightarrow> (vm \<times> nat \<times> int) option" where
  "vmap_pud_range cpu v pgdp addr end nr s = do {
     (s1, pud) \<leftarrow> pud_alloc cpu v pgdp addr s;
     (case pud of
        None \<Rightarrow> Some (s1, nr, - ENOMEM)
      | Some (f, i) \<Rightarrow> vmap_loop (vmap_pmd_range cpu v) 1 f i addr end nr s1) }"

section \<open>Unmapping\<close>

text \<open>
  The end of \<^verbatim>\<open>vunmap_pte_range\<close>, \<^verbatim>\<open>vunmap_pmd_range\<close>, \<^verbatim>\<open>vumap_pud_range\<close>: the area stops using the table of level \<open>n\<close> that
  the entry \<open>dir\<close> names; the last user clears the entry and frees the table.
\<close>

definition put_table :: "nat \<Rightarrow> nat \<Rightarrow> nat \<times> nat \<Rightarrow> nat \<Rightarrow> vm \<Rightarrow> vm option" where
  "put_table cpu v dir page s = do {
     (p1, zero) \<leftarrow> put_pagetable_testzero page (pgs s);
     if zero
     then do {
       p2 \<leftarrow> put_page_now cpu page (set_entry (fst dir) (snd dir) 0 p1);
       Some (dec_tables v (set_pgs p2 s)) }
     else Some (set_pgs p1 s) }"

definition table_free :: "nat \<Rightarrow> nat \<Rightarrow> nat \<Rightarrow> nat \<times> nat \<Rightarrow> vm \<Rightarrow> vm option" where
  "table_free n cpu v dir s = do {
     let page = entry_page (entry (pgs s) (fst dir) (snd dir));
     ur \<leftarrow> vma_find_table n v page s;
     s1 \<leftarrow> vma_erase_table n v ur s;
     put_table cpu v dir page s1 }"

partial_function (option) vunmap_pte_loop :: "nat \<Rightarrow> nat \<Rightarrow> u64 \<Rightarrow> u64 \<Rightarrow> vm \<Rightarrow> vm option" where
  "vunmap_pte_loop f i addr end s =
     (if i \<ge> 512 then None
      else (let s1 = (if entry (pgs s) f i = 0 then s else set_pgs (set_entry f i 0 (pgs s)) s) in
        if addr + PAGE_SIZE \<noteq> end then vunmap_pte_loop f (i + 1) (addr + PAGE_SIZE) end s1 else Some s1))"

definition vunmap_pte_range :: "nat \<Rightarrow> nat \<Rightarrow> nat \<times> nat \<Rightarrow> u64 \<Rightarrow> u64 \<Rightarrow> vm \<Rightarrow> vm option" where
  "vunmap_pte_range cpu v pmdp addr end s = do {
     let ptep = table_offset 3 pmdp addr (pgs s);
     s1 \<leftarrow> vunmap_pte_loop (fst ptep) (snd ptep) addr end s;
     table_free 3 cpu v pmdp s1 }"

text \<open>
  The loops over the entries of a pgd, pud or pmd table. \<^verbatim>\<open>pud_clear_huge\<close> and \<^verbatim>\<open>pmd_clear_huge\<close> clear a section
  (not tested at the pgd), \<^verbatim>\<open>pmd_none_or_clear_bad\<close> clears what is not a table; both go on with the next entry.
\<close>

partial_function (option) vunmap_loop ::
    "(nat \<times> nat \<Rightarrow> u64 \<Rightarrow> u64 \<Rightarrow> vm \<Rightarrow> vm option) \<Rightarrow> nat \<Rightarrow> nat \<Rightarrow> nat \<Rightarrow> u64 \<Rightarrow> u64 \<Rightarrow> vm \<Rightarrow> vm option" where
  "vunmap_loop below n f i addr end s =
     (if i \<ge> 512 then None
      else (let next = addr_end n addr end; e = entry (pgs s) f i in
        Option.bind
          (if n \<noteq> 0 \<and> e AND 3 = 1 then Some (set_pgs (set_entry f i 0 (pgs s)) s)
           else if e = 0 then Some s
           else if e AND 2 = 0 then Some (set_pgs (set_entry f i 0 (pgs s)) s)
           else below (f, i) addr next s)
          (\<lambda>s1. if next \<noteq> end then vunmap_loop below n f (i + 1) next end s1 else Some s1)))"

definition vunmap_pmd_range :: "nat \<Rightarrow> nat \<Rightarrow> nat \<times> nat \<Rightarrow> u64 \<Rightarrow> u64 \<Rightarrow> vm \<Rightarrow> vm option" where
  "vunmap_pmd_range cpu v pudp addr end s = do {
     let pmdp = table_offset 2 pudp addr (pgs s);
     s1 \<leftarrow> vunmap_loop (vunmap_pte_range cpu v) 2 (fst pmdp) (snd pmdp) addr end s;
     table_free 2 cpu v pudp s1 }"

definition vumap_pud_range :: "nat \<Rightarrow> nat \<Rightarrow> nat \<times> nat \<Rightarrow> u64 \<Rightarrow> u64 \<Rightarrow> vm \<Rightarrow> vm option" where
  "vumap_pud_range cpu v pgdp addr end s = do {
     let pudp = table_offset 1 pgdp addr (pgs s);
     s1 \<leftarrow> vunmap_loop (vunmap_pmd_range cpu v) 1 (fst pudp) (snd pudp) addr end s;
     table_free 1 cpu v pgdp s1 }"

definition vumap_page_range :: "nat \<Rightarrow> nat option \<Rightarrow> vm \<Rightarrow> vm option" where
  "vumap_page_range cpu vma s =
     (case vma of
        None \<Rightarrow> Some s
      | Some v \<Rightarrow>
          let addr = vm_start (vmas s v); end = vm_end (vmas s v) in
          if addr \<ge> end then Some s
          else vunmap_loop (vumap_pud_range cpu v) 0 (pgd (mms s (vm_mm (vmas s v)))) (table_index 0 addr) addr end s)"

section \<open>Undoing a partial mapping\<close>

text \<open>
  \<^verbatim>\<open>vmap_free_bad_area\<close>. A table the area does not remember is left alone; the table is put before the area
  forgets it.
\<close>

definition bad_table_free :: "nat \<Rightarrow> nat \<Rightarrow> nat \<Rightarrow> nat \<times> nat \<Rightarrow> vm \<Rightarrow> vm option" where
  "bad_table_free n cpu v dir s =
     (let page = entry_page (entry (pgs s) (fst dir) (snd dir)) in
      case vma_find_table n v page s of
        None \<Rightarrow> Some s
      | Some ur \<Rightarrow> do {
          s1 \<leftarrow> put_table cpu v dir page s;
          vma_erase_table n v ur s1 })"

definition vunmap_bad_pte_range :: "nat \<Rightarrow> nat \<Rightarrow> nat \<times> nat \<Rightarrow> u64 \<Rightarrow> u64 \<Rightarrow> vm \<Rightarrow> vm option" where
  "vunmap_bad_pte_range cpu v pmdp addr end s =
     (let ptep = table_offset 3 pmdp addr (pgs s) in vunmap_pte_loop (fst ptep) (snd ptep) addr end s)"

definition vunmap_bad_pmd_range :: "nat \<Rightarrow> nat \<Rightarrow> nat \<times> nat \<Rightarrow> u64 \<Rightarrow> u64 \<Rightarrow> vm \<Rightarrow> vm option" where
  "vunmap_bad_pmd_range cpu v pudp addr end s =
     (let pmdp = table_offset 2 pudp addr (pgs s) in
      vunmap_loop
        (\<lambda>dir addr next s. do { s1 \<leftarrow> vunmap_bad_pte_range cpu v dir addr next s; bad_table_free 3 cpu v dir s1 })
        2 (fst pmdp) (snd pmdp) addr end s)"

definition vumap_bad_pud_range :: "nat \<Rightarrow> nat \<Rightarrow> nat \<times> nat \<Rightarrow> u64 \<Rightarrow> u64 \<Rightarrow> vm \<Rightarrow> vm option" where
  "vumap_bad_pud_range cpu v pgdp addr end s =
     (let pudp = table_offset 1 pgdp addr (pgs s) in
      vunmap_loop
        (\<lambda>dir addr next s. do { s1 \<leftarrow> vunmap_bad_pmd_range cpu v dir addr next s; bad_table_free 2 cpu v dir s1 })
        1 (fst pudp) (snd pudp) addr end s)"

definition vmap_free_bad_area :: "nat \<Rightarrow> nat option \<Rightarrow> vm \<Rightarrow> vm option" where
  "vmap_free_bad_area cpu vma s =
     (case vma of
        None \<Rightarrow> Some s
      | Some v \<Rightarrow>
          let addr = vm_start (vmas s v); end = vm_end (vmas s v) in
          if addr \<ge> end then Some s
          else vunmap_loop
                 (\<lambda>dir addr next s. do { s1 \<leftarrow> vumap_bad_pud_range cpu v dir addr next s; bad_table_free 1 cpu v dir s1 })
                 0 (pgd (mms s (vm_mm (vmas s v)))) (table_index 0 addr) addr end s)"

text \<open>\<^verbatim>\<open>vmap_page_range\<close>: the number of pages mapped, or an error (0 when the count is wrong) with everything undone.\<close>

definition vmap_page_range :: "nat \<Rightarrow> nat option \<Rightarrow> vm \<Rightarrow> (vm \<times> int) option" where
  "vmap_page_range cpu vma s =
     (case vma of
        None \<Rightarrow> Some (s, - EINVAL)
      | Some v \<Rightarrow>
          let addr = vm_start (vmas s v); end = vm_end (vmas s v) in
          if addr \<ge> end then Some (s, - EINVAL)
          else do {
            (s1, nr, err) \<leftarrow> vmap_loop (vmap_pud_range cpu v) 0 (pgd (mms s (vm_mm (vmas s v)))) (table_index 0 addr) addr end 0 s;
            if err \<noteq> 0 \<or> nr \<noteq> unat (nr_pages (vmas s1 v))
            then map_option (\<lambda>s2. (s2, err)) (vmap_free_bad_area cpu (Some v) s1)
            else Some (s1, int nr) })"

section \<open>Changing the protection\<close>

partial_function (option) mprotect_pte_loop :: "nat \<Rightarrow> nat \<Rightarrow> u64 \<Rightarrow> u64 \<Rightarrow> u64 \<Rightarrow> vm \<Rightarrow> vm option" where
  "mprotect_pte_loop f i addr end newprot s =
     (if i \<ge> 512 then None
      else (let s1 = set_pgs (set_entry f i (mk_pte (entry_page (entry (pgs s) f i)) newprot) (pgs s)) s in
        if addr + PAGE_SIZE \<noteq> end then mprotect_pte_loop f (i + 1) (addr + PAGE_SIZE) end newprot s1 else Some s1))"

definition mprotect_fixup_pte_range :: "u64 \<Rightarrow> nat \<times> nat \<Rightarrow> u64 \<Rightarrow> u64 \<Rightarrow> vm \<Rightarrow> vm option" where
  "mprotect_fixup_pte_range newprot pmdp addr end s = do {
     bug_on (entry (pgs s) (fst pmdp) (snd pmdp) = 0);
     let pte = table_offset 3 pmdp addr (pgs s);
     mprotect_pte_loop (fst pte) (snd pte) addr end newprot s }"

partial_function (option) mprotect_loop ::
    "(nat \<times> nat \<Rightarrow> u64 \<Rightarrow> u64 \<Rightarrow> vm \<Rightarrow> vm option) \<Rightarrow> nat \<Rightarrow> nat \<Rightarrow> nat \<Rightarrow> u64 \<Rightarrow> u64 \<Rightarrow> vm \<Rightarrow> vm option" where
  "mprotect_loop below n f i addr end s =
     (if i \<ge> 512 then None
      else (let next = addr_end n addr end in
        Option.bind (below (f, i) addr next s)
          (\<lambda>s1. if next \<noteq> end then mprotect_loop below n f (i + 1) next end s1 else Some s1)))"

definition mprotect_fixup_pmd_range :: "u64 \<Rightarrow> nat \<times> nat \<Rightarrow> u64 \<Rightarrow> u64 \<Rightarrow> vm \<Rightarrow> vm option" where
  "mprotect_fixup_pmd_range newprot pudp addr end s = do {
     bug_on (entry (pgs s) (fst pudp) (snd pudp) = 0);
     let pmd = table_offset 2 pudp addr (pgs s);
     mprotect_loop (mprotect_fixup_pte_range newprot) 2 (fst pmd) (snd pmd) addr end s }"

definition mprotect_fixup_pud_range :: "u64 \<Rightarrow> nat \<times> nat \<Rightarrow> u64 \<Rightarrow> u64 \<Rightarrow> vm \<Rightarrow> vm option" where
  "mprotect_fixup_pud_range newprot pgdp addr end s = do {
     bug_on (entry (pgs s) (fst pgdp) (snd pgdp) = 0);
     let pud = table_offset 1 pgdp addr (pgs s);
     mprotect_loop (mprotect_fixup_pmd_range newprot) 1 (fst pud) (snd pud) addr end s }"

definition mmap_mprotect_fixup :: "nat option \<Rightarrow> u64 \<Rightarrow> u64 \<Rightarrow> u64 \<Rightarrow> vm \<Rightarrow> (vm \<times> int) option" where
  "mmap_mprotect_fixup vma start end flags s =
     (case vma of
        None \<Rightarrow> Some (s, - EINVAL)
      | Some v \<Rightarrow>
          if start < vm_start (vmas s v) \<or> end > vm_end (vmas s v) \<or> start \<ge> end \<or> \<not> PAGE_ALIGNED start \<or> \<not> PAGE_ALIGNED end
          then Some (s, - EINVAL)
          else map_option (\<lambda>s1. (s1, 0))
                 (mprotect_loop (mprotect_fixup_pud_range (vm_get_page_prot (flags OR VM_SHARED))) 0
                    (pgd (mms s (vm_mm (vmas s v)))) (table_index 0 start) start end s))"

end
