(* ===== verification/Pgt_Walk.thy ===== *)
theory Pgt_Walk
  imports Pgtable
begin

text \<open>
  The arithmetic of a page-table walk: reading and writing entries, page numbers instead of addresses, and
  the table that a walk from the top reaches.
\<close>

section \<open>Entries\<close>

lemma entry_set_entry:
  "entry (set_entry f i e s) g j = (if g = f \<and> j = i then e else entry s g j)"
proof (cases "g = f \<and> j = i")
  case True
  have "map (\<lambda>o'. if 8 * i \<le> o' \<and> o' < 8 * i + 8 then bytes_of 8 e ! (o' - 8 * i) else mem s f o') [8 * i..<8 * i + 8] = bytes_of 8 e"
    by (rule nth_equalityI) (auto simp: nth_append simp del: upt_Suc)
  then show ?thesis
    using True of_bytes_bytes_of [of 8 e] by (simp add: entry_def set_entry_def take_bit_word_eq_self)
next
  case False
  have "mem (set_entry f i e s) g o' = mem s g o'" if "o' \<in> set [8 * j..<8 * j + 8]" for o'
    using False that by (cases "g = f") (auto simp: set_entry_def simp del: upt_Suc)
  then have "map (mem (set_entry f i e s) g) [8 * j..<8 * j + 8] = map (mem s g) [8 * j..<8 * j + 8]" by (intro map_cong) auto
  then show ?thesis using False by (simp only: entry_def) auto
qed

lemma set_entry_simps [simp]:
  "pg_inv (set_entry f i e s) = pg_inv s" "held (set_entry f i e s) = held s" "page_pool (set_entry f i e s) = page_pool s"
  by (simp_all add: set_entry_def with_mem)

lemma mem_set_entry: "g \<noteq> f \<Longrightarrow> mem (set_entry f i e s) g = mem s g"
  by (simp add: set_entry_def)

lemma entry_cong: "mem s' f = mem s f \<Longrightarrow> entry s' f i = entry s f i"
  by (simp add: entry_def)

lemma of_bytes_zero: "of_bytes (replicate n 0) = 0"
  by (induction n) simp_all

lemma entry_zero: "mem s f = (\<lambda>_. 0) \<Longrightarrow> entry s f i = 0"
proof -
  assume "mem s f = (\<lambda>_. 0)"
  then have "map (mem s f) [8 * i..<8 * i + 8] = replicate 8 0" by (simp add: map_replicate_const)
  then show ?thesis by (simp only: entry_def of_bytes_zero)
qed

lemma addr_mask: "PTE_ADDR_MASK = push_bit 12 (mask 36)"
  by code_simp

lemma frame_bits: "bit (of_nat p :: u64) n \<Longrightarrow> p < 2 ^ 36 \<Longrightarrow> n < 36"
proof -
  assume b: "bit (of_nat p :: u64) n" "p < 2 ^ 36"
  have "bit p n" using b(1) by (simp add: bit_simps)
  then have "bit (take_bit 36 p) n" using b(2) by (simp add: take_bit_nat_eq_self)
  then show ?thesis by (simp add: bit_take_bit_iff)
qed

lemma entry_page_of:
  assumes "p < 2 ^ 36" "prot AND PTE_ADDR_MASK = 0"
  shows "entry_page (push_bit 12 (of_nat p) OR prot) = p"
proof -
  have m: "drop_bit 12 (push_bit 12 (of_nat p :: u64) AND PTE_ADDR_MASK) = of_nat p"
  proof (rule bit_word_eqI)
    fix n
    show "bit (drop_bit 12 (push_bit 12 (of_nat p :: u64) AND PTE_ADDR_MASK)) n = bit (of_nat p :: u64) n"
      using frame_bits [OF _ assms(1), of n] by (auto simp: bit_simps addr_mask)
  qed
  have "(push_bit 12 (of_nat p :: u64) OR prot) AND PTE_ADDR_MASK = push_bit 12 (of_nat p) AND PTE_ADDR_MASK"
    using assms(2) by (simp add: bit.conj_disj_distrib2)
  then show ?thesis using assms(1) m by (simp add: entry_page_def unat_of_nat)
qed

lemma table_entry_page: "p < 2 ^ 36 \<Longrightarrow> entry_page (table_entry p) = p"
  unfolding table_entry_def by (rule entry_page_of) (simp_all add: PTE_ADDR_MASK_def)

lemma table_entry_bits: "table_entry p \<noteq> 0" "table_entry p AND 3 = 3" "table_entry p AND 2 \<noteq> 0"
proof -
  have b: "bit (table_entry p) 0" "bit (table_entry p) 1" by (simp_all add: table_entry_def bit_simps)
  have three: "(3 :: u64) = mask 2" by (simp add: mask_eq_exp_minus_1)
  show "table_entry p \<noteq> 0" using b(1) by auto
  show "table_entry p AND 3 = 3" unfolding three
    by (rule bit_word_eqI) (use b in \<open>auto simp: bit_simps less_Suc_eq numeral_2_eq_2\<close>)
  have "bit (table_entry p AND 2) 1" using b(2) by (simp add: bit_simps)
  then show "table_entry p AND 2 \<noteq> 0" by auto
qed

text \<open>Protection values leave the address bits alone and are not 0.\<close>

definition prot_ok :: "u64 \<Rightarrow> bool" where
  "prot_ok prot \<longleftrightarrow> prot AND PTE_ADDR_MASK = 0 \<and> prot AND NOT PTE_ADDR_MASK \<noteq> 0"

lemma mk_pte_page: "p < 2 ^ 36 \<Longrightarrow> prot_ok prot \<Longrightarrow> entry_page (mk_pte p prot) = p"
  unfolding mk_pte_def by (rule entry_page_of) (simp_all add: prot_ok_def)

lemma mk_pte_nonzero: "prot_ok prot \<Longrightarrow> mk_pte p prot \<noteq> 0"
proof
  assume a: "prot_ok prot" "mk_pte p prot = 0"
  then have "prot = 0" by (simp add: mk_pte_def or_eq_0_iff)
  with a(1) show False by (simp add: prot_ok_def)
qed

lemma protection_map_ok: "\<forall>prot\<in>set protection_map. prot_ok prot"
  unfolding prot_ok_def by code_simp

lemma vm_get_page_prot_ok: "prot_ok (vm_get_page_prot flags)"
proof -
  have e: "flags AND (VM_READ OR VM_WRITE OR VM_EXEC OR VM_SHARED) = take_bit 4 flags"
    by (simp add: take_bit_eq_mask mask_eq_exp_minus_1)
  have "unat (flags AND (VM_READ OR VM_WRITE OR VM_EXEC OR VM_SHARED)) < 2 ^ 4"
    unfolding e unsigned_take_bit_eq by (rule take_bit_nat_less_exp)
  then have "vm_get_page_prot flags \<in> set protection_map"
    unfolding vm_get_page_prot_def by (intro nth_mem) (simp add: protection_map_def)
  then show ?thesis using protection_map_ok by blast
qed

section \<open>Page numbers\<close>

text \<open>\<open>adr k\<close> is the address of virtual page \<open>k\<close>; an entry of a table of level \<open>n\<close> covers \<open>extent n\<close> pages.\<close>

definition adr :: "nat \<Rightarrow> u64" where
  "adr k = of_nat (k * 4096)"

definition extent :: "nat \<Rightarrow> nat" where
  "extent n = 512 ^ (3 - n)"

lemma unat_u64: "n < 2 ^ 64 \<Longrightarrow> unat (of_nat n :: u64) = n"
  by (simp add: unat_of_nat)

lemma unat_adr: "k \<le> 2 ^ 36 \<Longrightarrow> unat (adr k) = k * 4096"
  unfolding adr_def by (rule unat_u64) simp

lemma adr_inj: "a \<le> 2 ^ 36 \<Longrightarrow> b \<le> 2 ^ 36 \<Longrightarrow> adr a = adr b \<longleftrightarrow> a = b"
  using unat_adr [of a] unat_adr [of b] by (metis mult_right_cancel zero_neq_numeral)

lemma adr_Suc: "adr k + 4096 = adr (Suc k)"
  by (simp add: adr_def)

lemma adr_less: "a \<le> 2 ^ 36 \<Longrightarrow> b \<le> 2 ^ 36 \<Longrightarrow> adr a < adr b \<longleftrightarrow> a < b"
  by (simp add: word_less_nat_alt unat_adr)

lemma extent_pos [simp]: "0 < extent n" "extent n \<noteq> 0"
  by (simp_all add: extent_def)

lemma extent_Suc: "n < 3 \<Longrightarrow> extent n = 512 * extent (Suc n)"
  by (simp add: extent_def Suc_diff_Suc flip: power_Suc)

lemma extent_shift: "n \<le> 3 \<Longrightarrow> 2 ^ level_shift n = extent n * 4096"
proof -
  assume "n \<le> 3"
  then have e: "level_shift n = 9 * (3 - n) + 12" by (simp add: level_shift_def)
  have "(2 :: nat) ^ level_shift n = 2 ^ (9 * (3 - n)) * 2 ^ 12" unfolding e by (rule power_add)
  also have "(2 :: nat) ^ (9 * (3 - n)) = (2 ^ 9) ^ (3 - n)" by (rule power_mult)
  finally show ?thesis by (simp add: extent_def)
qed

lemma push_bit_one: "m < 64 \<Longrightarrow> unat (push_bit m 1 :: u64) = 2 ^ m"
proof -
  assume "m < 64"
  then have "(2 :: nat) ^ m < 2 ^ 64" by (intro power_strict_increasing) simp_all
  then show ?thesis using unat_u64 [of "2 ^ m"] by (simp add: push_bit_eq_mult)
qed

lemma unat_drop: "unat (drop_bit m x) = unat x div 2 ^ m" for x :: u64
  unfolding unat_drop_bit_eq by (rule drop_bit_eq_div)

lemma table_index_adr:
  assumes "k \<le> 2 ^ 36" "n \<le> 3"
  shows "table_index n (adr k) = k div extent n mod 512"
proof -
  have "drop_bit (level_shift n) (adr k) AND (512 - 1) = take_bit 9 (drop_bit (level_shift n) (adr k))"
    by (simp add: take_bit_eq_mask mask_eq_exp_minus_1)
  then have "table_index n (adr k) = unat (take_bit 9 (drop_bit (level_shift n) (adr k)))" by (simp only: table_index_def)
  also have "\<dots> = (k * 4096) div (extent n * 4096) mod 512"
    unfolding unsigned_take_bit_eq unat_drop unat_adr [OF assms(1)] extent_shift [OF assms(2)] by (simp add: take_bit_eq_mod)
  finally show ?thesis by simp
qed

lemma align_down: "m < 64 \<Longrightarrow> unat (x AND NOT (push_bit m 1 - 1)) = unat x div 2 ^ m * 2 ^ m" for x :: u64
proof -
  assume m: "m < 64"
  have "x - take_bit m x = x AND NOT (take_bit m x)" by (rule disjunctive_diff) (simp add: bit_simps)
  also have "\<dots> = x AND NOT (mask m)" by (rule bit_word_eqI) (auto simp: bit_simps)
  also have "mask m = (push_bit m 1 - 1 :: u64)" by (simp add: mask_eq_exp_minus_1 push_bit_eq_mult)
  finally have "x AND NOT (push_bit m 1 - 1) = x - take_bit m x" by simp
  moreover have "take_bit m x \<le> x" unfolding word_le_nat_alt unsigned_take_bit_eq by (rule take_bit_nat_less_eq_self)
  ultimately have "unat (x AND NOT (push_bit m 1 - 1)) = unat x - unat (take_bit m x)" by (simp add: unat_sub)
  also have "unat (take_bit m x) = unat x mod 2 ^ m" unfolding unsigned_take_bit_eq by (rule take_bit_eq_mod)
  finally show ?thesis by (simp add: minus_mod_eq_div_mult)
qed

lemma addr_end_adr:
  assumes "a < b" "b \<le> 2 ^ 36" "n \<le> 3"
  shows "addr_end n (adr a) (adr b) = adr (min (Suc (a div extent n) * extent n) b)"
proof -
  let ?sh = "level_shift n" and ?c = "Suc (a div extent n) * extent n"
  let ?bd = "(adr a + push_bit ?sh 1) AND NOT (push_bit ?sh 1 - 1)"
  have sh: "?sh < 64" by (simp add: level_shift_def)
  have "extent n \<le> 512 ^ 3" unfolding extent_def by (rule power_increasing) simp_all
  then have sp: "extent n \<le> 2 ^ 27" by simp
  have c: "?c \<le> a + extent n" by simp
  have a: "unat (adr a + push_bit ?sh 1) = a * 4096 + extent n * 4096"
    using assms sp
    by (subst unat_add_lem [THEN iffD1]) (simp_all only: unat_adr push_bit_one [OF sh] extent_shift [OF assms(3)], simp_all)
  have "(a * 4096 + extent n * 4096) div (extent n * 4096) = (a + extent n) div extent n"
    using div_mult_mult2 [of 4096 "a + extent n" "extent n"] by (simp only: add_mult_distrib)
  then have "(a * 4096 + extent n * 4096) div (extent n * 4096) = Suc (a div extent n)"
    using div_add_self2 [of "extent n" a] extent_pos(1) [of n] by linarith
  then have u: "unat ?bd = ?c * 4096"
    unfolding align_down [OF sh] a extent_shift [OF assms(3)] by (simp only: mult.assoc)
  have "?c \<le> 2 ^ 36 + 2 ^ 27" using c sp assms(1,2) by linarith
  then have "?c * 4096 \<le> (2 ^ 36 + 2 ^ 27) * 4096" by (rule mult_le_mono1)
  then have "?c * 4096 < 2 ^ 64" by (rule le_less_trans) simp
  then have bd: "?bd = adr ?c" using u by (simp only: word_unat_eq_iff adr_def unat_u64)
  have nz: "?bd \<noteq> 0" "adr b \<noteq> 0" using u unat_adr [OF assms(2)] assms(1) extent_pos(1) [of n] by auto
  have "?bd - 1 < adr b - 1 \<longleftrightarrow> ?c < b"
    using nz assms u unfolding word_less_nat_alt unat_minus_one [OF nz(1)] unat_minus_one [OF nz(2)]
    by (simp only: unat_adr) linarith
  then have "adr ?c - 1 < adr b - 1 \<longleftrightarrow> ?c < b" unfolding bd .
  moreover have "min ?c b = (if ?c < b then ?c else b)" by (simp only: min_def) auto
  ultimately show ?thesis unfolding addr_end_def Let_def bd by (cases "?c < b") (simp_all only: if_True if_False)
qed

end
