(* ===== verification/Pgt_Inv.thy ===== *)
theory Pgt_Inv
  imports Pgt_Walk
begin

text \<open>
  What a page table is: the tables that a walk from the top reaches, who uses them, and the four steps every
  operation is made of: an area starts to use a table, stops to use it, maps a page, unmaps a page.
\<close>

section \<open>Walking\<close>

text \<open>
  \<open>tab s g n x\<close>: the table of level \<open>n\<close> that the walk from the top-level table \<open>g\<close> reaches by the indices that
  are the digits of \<open>x\<close> to the base 512. \<open>ent s g n x\<close> is the entry with the digits \<open>x\<close> in a table of level \<open>n\<close>,
  0 when the walk does not get there; for the last level \<open>x\<close> is a page number.
\<close>

fun tab :: "pg_data \<Rightarrow> nat \<Rightarrow> nat \<Rightarrow> nat \<Rightarrow> nat option" where
  "tab s g 0 x = (if x = 0 then Some g else None)"
| "tab s g (Suc n) x = (case tab s g n (x div 512) of
     None \<Rightarrow> None
   | Some f \<Rightarrow> if entry s f (x mod 512) = 0 then None else Some (entry_page (entry s f (x mod 512))))"

definition ent :: "pg_data \<Rightarrow> nat \<Rightarrow> nat \<Rightarrow> nat \<Rightarrow> u64" where
  "ent s g n x = (case tab s g n (x div 512) of None \<Rightarrow> 0 | Some f \<Rightarrow> entry s f (x mod 512))"

lemma tab_ent: "tab s g (Suc n) x = (if ent s g n x = 0 then None else Some (entry_page (ent s g n x)))"
  by (simp add: ent_def split: option.splits)

lemma tab_bound: "tab s g n x = Some f \<Longrightarrow> x < 512 ^ n"
proof (induction n arbitrary: x f)
  case (Suc n)
  then obtain f' where "tab s g n (x div 512) = Some f'" by (auto split: option.splits)
  from Suc.IH [OF this] show ?case by (simp add: div_less_iff_less_mult mult.commute)
qed (simp split: if_splits)

lemma tab_same:
  assumes "\<And>n' y f j. n' < N \<Longrightarrow> tab s g n' y = Some f \<Longrightarrow> entry s' f j = entry s f j" "n \<le> N"
  shows "tab s' g n x = tab s g n x"
  using assms(2)
proof (induction n arbitrary: x)
  case (Suc n)
  then have "tab s' g n (x div 512) = tab s g n (x div 512)" by simp
  then show ?case using assms(1) [of n "x div 512"] Suc.prems by (auto split: option.splits)
qed simp

text \<open>One entry of one table changes: only the walks through that entry can.\<close>

lemma tab_elsewhere:
  assumes same: "\<And>n' y f' j. n' < N \<Longrightarrow> tab s g n' y = Some f' \<Longrightarrow> f' \<noteq> f \<or> j \<noteq> i \<Longrightarrow> entry s' f' j = entry s f' j"
    and uniq: "\<And>n' y'. n' \<le> N \<Longrightarrow> tab s g n' y' = Some f \<Longrightarrow> n' = n \<and> y' = y"
    and "i < 512" "n' \<le> N" "\<not> (n < n' \<and> x div 512 ^ (n' - Suc n) = 512 * y + i)"
  shows "tab s' g n' x = tab s g n' x"
  using assms(4,5)
proof (induction n' arbitrary: x)
  case (Suc k)
  have "\<not> (n < k \<and> x div 512 div 512 ^ (k - Suc n) = 512 * y + i)"
  proof
    assume a: "n < k \<and> x div 512 div 512 ^ (k - Suc n) = 512 * y + i"
    then have "Suc (k - Suc n) = Suc k - Suc n" by linarith
    then have "x div 512 ^ (Suc k - Suc n) = x div 512 div 512 ^ (k - Suc n)" by (metis div_mult2_eq power_Suc)
    with a Suc.prems(2) show False by simp
  qed
  then have t: "tab s' g k (x div 512) = tab s g k (x div 512)" using Suc by simp
  have "entry s' f' (x mod 512) = entry s f' (x mod 512)" if f': "tab s g k (x div 512) = Some f'" for f'
  proof (rule same [OF _ f'])
    show "k < N" using Suc.prems by simp
    show "f' \<noteq> f \<or> x mod 512 \<noteq> i"
    proof (rule ccontr)
      assume "\<not> (f' \<noteq> f \<or> x mod 512 \<noteq> i)"
      then have "f' = f" "x mod 512 = i" by simp_all
      with uniq [of k "x div 512"] f' Suc.prems(1) have "k = n" "x div 512 = y" by simp_all
      with \<open>x mod 512 = i\<close> Suc.prems(2) div_mult_mod_eq [of x 512] show False by simp
    qed
  qed
  then show ?case using t by (auto split: option.splits)
qed simp

lemma tab_gone: "tab s g n x = None \<Longrightarrow> n \<le> n' \<Longrightarrow> x' div 512 ^ (n' - n) = x \<Longrightarrow> tab s g n' x' = None"
proof (induction "n' - n" arbitrary: n' x')
  case (Suc k)
  then obtain l where l: "n' = Suc l" "n \<le> l" by (cases n') auto
  then have "x' div 512 div 512 ^ (l - n) = x" using Suc.prems(3) by (simp add: Suc_diff_le div_mult2_eq)
  then have "tab s g l (x' div 512) = None" using Suc l by simp
  then show ?case by (simp add: l)
qed simp

lemma split_digit: "x div 512 ^ Suc d = y \<Longrightarrow> \<exists>i<512. x div 512 ^ d = 512 * y + i" for x :: nat
proof -
  assume "x div 512 ^ Suc d = y"
  then have "x div 512 ^ d div 512 = y" unfolding power_Suc2 div_mult2_eq .
  then have "x div 512 ^ d = 512 * y + x div 512 ^ d mod 512" by (metis mult_div_mod_eq)
  then show ?thesis by (intro exI [of _ "x div 512 ^ d mod 512"]) simp
qed

lemma tab_digit:
  "j < 512 \<Longrightarrow> tab s g (Suc n) (512 * x + j) = (case tab s g n x of
     None \<Rightarrow> None | Some f \<Rightarrow> if entry s f j = 0 then None else Some (entry_page (entry s f j)))"
proof -
  assume "j < 512"
  then have "(512 * x + j) mod 512 = j" "(512 * x + j) div 512 = x" using mod_mult_self4 [of 512 x j] by simp_all
  then show ?thesis by (simp only: tab.simps)
qed

text \<open>A new, empty table \<open>p\<close> below entry \<open>i\<close> of the table \<open>f\<close>.\<close>

lemma tab_populate:
  assumes e: "\<And>f' j. f' \<noteq> p \<Longrightarrow> f' \<noteq> f \<or> j \<noteq> i \<Longrightarrow> entry s' f' j = entry s f' j" "entry s' f i = table_entry p"
      "\<And>j. entry s' p j = 0" "p < 2 ^ 36"
    and fresh: "\<And>n' y. n' \<le> 3 \<Longrightarrow> tab s g n' y \<noteq> Some p"
    and uniq: "\<And>n' y'. n' \<le> 3 \<Longrightarrow> tab s g n' y' = Some f \<Longrightarrow> n' = n \<and> y' = y"
    and f: "i < 512" "n < 3" "tab s g n y = Some f" "entry s f i = 0"
    and "n' \<le> 3"
  shows "tab s' g n' x = (if n' = Suc n \<and> x = 512 * y + i then Some p else tab s g n' x)"
proof (cases "n < n' \<and> x div 512 ^ (n' - Suc n) = 512 * y + i")
  case False
  have "tab s' g n' x = tab s g n' x"
  proof (rule tab_elsewhere [where N = 3 and f = f and i = i and n = n and y = y, OF _ uniq f(1) assms(11) False])
    show "entry s' f' j = entry s f' j" if "k < 3" "tab s g k z = Some f'" "f' \<noteq> f \<or> j \<noteq> i" for k z f' j
      using that fresh [of k z] by (intro e(1)) auto
  qed
  then show ?thesis using False by auto
next
  case True
  have "tab s' g n y = tab s g n y"
  proof (rule tab_elsewhere [where N = 3 and f = f and i = i and n = n and y = y, OF _ uniq f(1)])
    show "entry s' f' j = entry s f' j" if "k < 3" "tab s g k z = Some f'" "f' \<noteq> f \<or> j \<noteq> i" for k z f' j
      using that fresh [of k z] by (intro e(1)) auto
  qed (use f in auto)
  then have new: "tab s' g (Suc n) (512 * y + i) = Some p" and old: "tab s g (Suc n) (512 * y + i) = None"
    using f e(2,4) by (simp_all add: table_entry_bits table_entry_page)
  show ?thesis
  proof (cases "n' = Suc n")
    case True
    with \<open>n < n' \<and> x div 512 ^ (n' - Suc n) = 512 * y + i\<close> new show ?thesis by simp
  next
    case False
    then have d: "Suc (n' - Suc (Suc n)) = n' - Suc n" "Suc n \<le> n'" "Suc (Suc n) \<le> n'" using True by linarith+
    obtain j where j: "j < 512" "x div 512 ^ (n' - Suc (Suc n)) = 512 * (512 * y + i) + j"
      using split_digit [of x "n' - Suc (Suc n)" "512 * y + i"] True by (auto simp: d(1))
    have "tab s' g (Suc (Suc n)) (512 * (512 * y + i) + j) = None" unfolding tab_digit [OF j(1)] new by (simp add: e(3))
    from tab_gone [OF this d(3) j(2)] tab_gone [OF old d(2)] True False show ?thesis by simp
  qed
qed

lemma ent_populate:
  assumes e: "\<And>f' j. f' \<noteq> p \<Longrightarrow> f' \<noteq> f \<or> j \<noteq> i \<Longrightarrow> entry s' f' j = entry s f' j" "entry s' f i = table_entry p"
      "\<And>j. entry s' p j = 0" "p < 2 ^ 36"
    and fresh: "\<And>n' y. n' \<le> 3 \<Longrightarrow> tab s g n' y \<noteq> Some p"
    and uniq: "\<And>n' y'. n' \<le> 3 \<Longrightarrow> tab s g n' y' = Some f \<Longrightarrow> n' = n \<and> y' = y"
    and f: "i < 512" "n < 3" "tab s g n y = Some f" "entry s f i = 0"
    and "n' \<le> 3"
  shows "ent s' g n' x = (if n' = n \<and> x = 512 * y + i then table_entry p else ent s g n' x)"
proof -
  have t: "tab s' g n' (x div 512) = (if n' = Suc n \<and> x div 512 = 512 * y + i then Some p else tab s g n' (x div 512))"
    by (rule tab_populate [OF e fresh uniq f assms(11)]) simp_all
  show ?thesis
  proof (cases "n' = Suc n \<and> x div 512 = 512 * y + i")
    case True
    then have n: "Suc n = n'" "x div 512 = 512 * y + i" by simp_all
    have "tab s g (Suc n) (512 * y + i) = None" unfolding tab_digit [OF f(1)] f(3) by (simp add: f(4))
    then have "tab s g n' (x div 512) = None" unfolding n .
    moreover have "tab s' g n' (x div 512) = Some p" using t True by (simp only: if_True simp_thms)
    ultimately show ?thesis using True by (simp add: ent_def e(3))
  next
    case False
    then have t': "tab s' g n' (x div 512) = tab s g n' (x div 512)" using t by auto
    show ?thesis
    proof (cases "tab s g n' (x div 512)")
      case None
      then have "\<not> (n' = n \<and> x = 512 * y + i)" using f by auto
      then show ?thesis using None t' by (auto simp: ent_def)
    next
      case (Some f')
      have p: "f' \<noteq> p" using fresh [OF assms(11), of "x div 512"] Some by auto
      have "f' = f \<and> x mod 512 = i \<longleftrightarrow> n' = n \<and> x = 512 * y + i"
        using uniq [OF assms(11), of "x div 512"] Some f div_mult_mod_eq [of x 512] by auto
      then show ?thesis using Some t' e(1) [OF p, of "x mod 512"] e(2) by (auto simp: ent_def)
    qed
  qed
qed

text \<open>Entry \<open>i\<close> of the table \<open>f\<close> is cleared, when the table below it is empty.\<close>

lemma tab_unlink:
  assumes e: "\<And>f' j. f' \<noteq> f \<or> j \<noteq> i \<Longrightarrow> entry s' f' j = entry s f' j" "entry s' f i = 0"
    and uniq: "\<And>n' y'. n' \<le> 3 \<Longrightarrow> tab s g n' y' = Some f \<Longrightarrow> n' = n \<and> y' = y"
    and f: "i < 512" "n < 3" "tab s g n y = Some f"
    and empty: "\<And>z. z div 512 = 512 * y + i \<Longrightarrow> ent s g (Suc n) z = 0"
    and "n' \<le> 3"
  shows "tab s' g n' x = (if n' = Suc n \<and> x = 512 * y + i then None else tab s g n' x)"
proof (cases "n < n' \<and> x div 512 ^ (n' - Suc n) = 512 * y + i")
  case False
  have "tab s' g n' x = tab s g n' x"
    by (rule tab_elsewhere [where N = 3 and f = f and i = i and n = n and y = y, OF _ uniq f(1) assms(8) False]) (use e in auto)
  then show ?thesis using False by auto
next
  case True
  have "tab s' g n y = tab s g n y"
    by (rule tab_elsewhere [where N = 3 and f = f and i = i and n = n and y = y, OF _ uniq f(1)]) (use e f in auto)
  then have new: "tab s' g (Suc n) (512 * y + i) = None" using f e(2) by simp
  have old: "tab s g n' x = None" if "n' \<noteq> Suc n"
  proof -
    have d: "Suc (n' - Suc (Suc n)) = n' - Suc n" "Suc (Suc n) \<le> n'" using True that by linarith+
    obtain j where j: "j < 512" "x div 512 ^ (n' - Suc (Suc n)) = 512 * (512 * y + i) + j"
      using split_digit [of x "n' - Suc (Suc n)" "512 * y + i"] True by (auto simp: d(1))
    have "(512 * z + j) div 512 = z" for z using j(1) by simp
    then have "ent s g (Suc n) (512 * (512 * y + i) + j) = 0" by (intro empty)
    then have "tab s g (Suc (Suc n)) (512 * (512 * y + i) + j) = None" by (simp only: tab_ent simp_thms if_True)
    from tab_gone [OF this d(2) j(2)] show ?thesis .
  qed
  show ?thesis using tab_gone [OF new, of n' x] True old by (cases "n' = Suc n") auto
qed

lemma ent_unlink:
  assumes e: "\<And>f' j. f' \<noteq> f \<or> j \<noteq> i \<Longrightarrow> entry s' f' j = entry s f' j" "entry s' f i = 0"
    and uniq: "\<And>n' y'. n' \<le> 3 \<Longrightarrow> tab s g n' y' = Some f \<Longrightarrow> n' = n \<and> y' = y"
    and f: "i < 512" "n < 3" "tab s g n y = Some f"
    and empty: "\<And>z. z div 512 = 512 * y + i \<Longrightarrow> ent s g (Suc n) z = 0"
    and "n' \<le> 3"
  shows "ent s' g n' x = (if n' = n \<and> x = 512 * y + i then 0 else ent s g n' x)"
proof -
  have t: "tab s' g n' (x div 512) = (if n' = Suc n \<and> x div 512 = 512 * y + i then None else tab s g n' (x div 512))"
    by (rule tab_unlink [OF e uniq f empty assms(8)]) simp_all
  show ?thesis
  proof (cases "n' = Suc n \<and> x div 512 = 512 * y + i")
    case True
    then have "ent s' g n' x = 0" using t by (simp add: ent_def)
    then show ?thesis using empty [of x] True by simp
  next
    case False
    then have t': "tab s' g n' (x div 512) = tab s g n' (x div 512)" using t by auto
    show ?thesis
    proof (cases "tab s g n' (x div 512)")
      case None
      then have "\<not> (n' = n \<and> x = 512 * y + i)" using f by auto
      then show ?thesis using None t' by (auto simp: ent_def)
    next
      case (Some f')
      have "f' = f \<and> x mod 512 = i \<longleftrightarrow> n' = n \<and> x = 512 * y + i"
        using uniq [OF assms(8), of "x div 512"] Some f div_mult_mod_eq [of x 512] by auto
      then show ?thesis using Some t' e(1) [of f' "x mod 512"] e(2) by (auto simp: ent_def)
    qed
  qed
qed

text \<open>An entry of a table of the last level changes: the walks stay.\<close>

lemma tab_leaf:
  assumes "\<And>f' j. f' \<noteq> f \<or> j \<noteq> i \<Longrightarrow> entry s' f' j = entry s f' j"
    and "\<And>n' y'. n' \<le> 3 \<Longrightarrow> tab s g n' y' = Some f \<Longrightarrow> n' = 3 \<and> y' = y" "n' \<le> 3"
  shows "tab s' g n' x = tab s g n' x"
proof (rule tab_same [OF _ assms(3)])
  fix k z f' j
  assume k: "k < 3" "tab s g k z = Some f'"
  then have "f' \<noteq> f" using assms(2) [of k z] by auto
  then show "entry s' f' j = entry s f' j" by (intro assms(1)) simp
qed

lemma ent_leaf:
  assumes e: "\<And>f' j. f' \<noteq> f \<or> j \<noteq> i \<Longrightarrow> entry s' f' j = entry s f' j"
    and uniq: "\<And>n' y'. n' \<le> 3 \<Longrightarrow> tab s g n' y' = Some f \<Longrightarrow> n' = 3 \<and> y' = y"
    and "n' \<le> 3" "i < 512"
  shows "ent s' g n' x = (if tab s g 3 y = Some f \<and> n' = 3 \<and> x = 512 * y + i then entry s' f i else ent s g n' x)"
proof -
  have t: "tab s' g n' (x div 512) = tab s g n' (x div 512)" by (rule tab_leaf [OF e uniq assms(3)]) simp_all
  show ?thesis
  proof (cases "tab s g n' (x div 512)")
    case None
    then have "\<not> (tab s g 3 y = Some f \<and> n' = 3 \<and> x = 512 * y + i)" using assms(4) by auto
    then show ?thesis using None t by (auto simp: ent_def)
  next
    case (Some f')
    have "f' = f \<and> x mod 512 = i \<longleftrightarrow> tab s g 3 y = Some f \<and> n' = 3 \<and> x = 512 * y + i"
      using uniq [OF assms(3), of "x div 512"] Some assms(4) div_mult_mod_eq [of x 512] by auto
    then show ?thesis using Some t e [of f' "x mod 512"] by (auto simp: ent_def)
  qed
qed

end
