(* ===== verification/Pgt_Steps.thy ===== *)
theory Pgt_Steps
  imports Pgt_Inv
begin

text \<open>
  The invariant of all page tables of the system and the four steps every operation is made of: an area
  starts to use a table, stops to use it, maps a page, unmaps a page.
\<close>

section \<open>The tables an area remembers\<close>

interpretation pgi: rb_index_insert "\<lambda>_ :: nat. True" "(<)" page_probe "\<lambda>p. p"
  by unfold_locales (auto simp: page_probe_def split: if_splits)

definition remembers :: "nat rb_tree \<Rightarrow> nat set \<Rightarrow> bool" where
  "remembers t S \<longleftrightarrow> rb_index_ok (\<lambda>_. True) (<) t \<and> set (rb_inorder t) = S"

lemma page_probe_Stop: "page_probe p a = Stop \<longleftrightarrow> a = p"
  by (auto simp: page_probe_def)

lemma remembers_insert:
  assumes "remembers t S" "p \<notin> S"
  shows "\<exists>t'. rb_insert_at (page_probe p) p t = Some (t', True) \<and> remembers t' (insert p S)"
proof -
  have "\<forall>a\<in>set (rb_inorder t). page_probe p a \<noteq> Stop" using assms by (auto simp: remembers_def page_probe_Stop)
  then obtain t' ls rs where t': "rb_insert_at (page_probe p) p t = Some (t', True)" "rb_index_ok (\<lambda>_. True) (<) t'"
    "rb_inorder t = ls @ rs" "rb_inorder t' = ls @ p # rs" using pgi.insert_new [of t p] assms by (auto simp: remembers_def)
  then have "remembers t' (insert p S)" using assms(1) by (auto simp: remembers_def)
  with t'(1) show ?thesis by blast
qed

lemma remembers_find:
  assumes "remembers t S"
  shows "rb_find (page_probe p) t = None \<longleftrightarrow> p \<notin> S"
  using pgi.find_None [of t p] assms by (auto simp: remembers_def page_probe_Stop)

lemma remembers_erase:
  assumes "remembers t S" "p \<in> S"
  shows "\<exists>u q t'. rb_find (page_probe p) t = Some (u, q) \<and> rb_erase u q = Some t' \<and> remembers t' (S - {p})"
proof -
  obtain u q where f: "rb_find (page_probe p) t = Some (u, q)"
    using remembers_find [OF assms(1), of p] assms(2) by (cases "rb_find (page_probe p) t") auto
  from pgi.find_Some [OF f] have plug: "rb_plug u q = t" and e: "rb_entry (u, q) = Some p" by (auto simp: page_probe_Stop)
  from pgi.erase_spec [of u q p] assms(1) plug e obtain t' where "rb_erase u q = Some t'" "remembers t' (S - {p})"
    by (auto simp: remembers_def)
  with f show ?thesis by blast
qed

lemma remembers_empty: "remembers t {} \<longleftrightarrow> t = RB_NULL"
  using rb_index_ok_empty by (cases t) (auto simp: remembers_def)

text \<open>The levels whose tables areas remember.\<close>

definition lvl :: "nat \<Rightarrow> bool" where
  "lvl n \<longleftrightarrow> 1 \<le> n \<and> n \<le> 3"

lemma lvl_simps [simp]: "lvl 3" "lvl 2" "lvl 1" "lvl (Suc 0)" "\<not> lvl 0" "\<not> lvl 4"
  by (simp_all add: lvl_def)

lemma lvl_cases: "lvl n \<longleftrightarrow> n = 1 \<or> n = 2 \<or> n = 3"
  by (auto simp: lvl_def)

lemma table_root_set [simp]:
  "lvl n \<Longrightarrow> lvl k \<Longrightarrow> table_root k (set_table_root n t a) = (if k = n then t else table_root k a)"
  by (auto simp: table_root_def set_table_root_def lvl_cases)

section \<open>The invariant\<close>

abbreviation tabm :: "vm \<Rightarrow> nat \<Rightarrow> nat \<Rightarrow> nat \<Rightarrow> nat option" where
  "tabm s m \<equiv> tab (pgs s) (pgd (mms s m))"

abbreviation entm :: "vm \<Rightarrow> nat \<Rightarrow> nat \<Rightarrow> nat \<Rightarrow> u64" where
  "entm s m \<equiv> ent (pgs s) (pgd (mms s m))"

text \<open>
  \<open>R v n\<close> is the set of tables of level \<open>n\<close> that area \<open>v\<close> uses, by the digits of their walk, and \<open>M v\<close> the set
  of pages it has mapped.
\<close>

type_synonym uses = "nat \<Rightarrow> nat \<Rightarrow> nat set"
type_synonym maps = "nat \<Rightarrow> nat set"

definition users :: "vm \<Rightarrow> uses \<Rightarrow> nat \<Rightarrow> nat \<Rightarrow> nat \<Rightarrow> nat set" where
  "users s R m n x = {v. vma_live s v \<and> vm_mm (vmas s v) = m \<and> x \<in> R v n}"

definition pt_base :: "vm \<Rightarrow> bool" where
  "pt_base s \<longleftrightarrow> pg_inv (pgs s) \<and> page_pool (pgs s) \<subseteq> {..<2 ^ 36} \<and>
     (\<forall>v. vma_live s v \<longrightarrow> v < kmallocs s \<and> mm_live s (vm_mm (vmas s v)) \<and> prot_ok (vm_page_prot (vmas s v))) \<and>
     (\<forall>m. mm_live s m \<longrightarrow> held (pgs s) (pgd (mms s m)) 1 \<and> pgd (mms s m) < 2 ^ 36)"

definition pt_tabs :: "vm \<Rightarrow> uses \<Rightarrow> bool" where
  "pt_tabs s R \<longleftrightarrow> (\<forall>m n x. mm_live s m \<longrightarrow> lvl n \<longrightarrow>
     (case tabm s m n x of
        None \<Rightarrow> users s R m n x = {}
      | Some f \<Rightarrow> users s R m n x \<noteq> {} \<and> held (pgs s) f (int (card (users s R m n x))) \<and> f < 2 ^ 36 \<and>
          entm s m (n - 1) x = table_entry f))"

definition pt_inj :: "vm \<Rightarrow> bool" where
  "pt_inj s \<longleftrightarrow> (\<forall>m n x m' n' x' f. mm_live s m \<longrightarrow> mm_live s m' \<longrightarrow> n \<le> 3 \<longrightarrow> n' \<le> 3 \<longrightarrow>
     tabm s m n x = Some f \<longrightarrow> tabm s m' n' x' = Some f \<longrightarrow> m = m' \<and> n = n' \<and> x = x')"

text \<open>The frame an area keeps for page \<open>k\<close>.\<close>

definition vma_page :: "vm_area_struct \<Rightarrow> nat \<Rightarrow> nat option" where
  "vma_page a k = (let i = k - unat (vm_start a) div 4096 in if i < length (vma_pages a) then vma_pages a ! i else None)"

definition pt_leaf :: "vm \<Rightarrow> maps \<Rightarrow> bool" where
  "pt_leaf s M \<longleftrightarrow>
     (\<forall>v k. vma_live s v \<longrightarrow> k \<in> M v \<longrightarrow>
        (\<exists>p prot. vma_page (vmas s v) k = Some p \<and> prot_ok prot \<and> entm s (vm_mm (vmas s v)) 3 k = mk_pte p prot)) \<and>
     (\<forall>m k. mm_live s m \<longrightarrow> (\<forall>v. vma_live s v \<longrightarrow> vm_mm (vmas s v) = m \<longrightarrow> k \<notin> M v) \<longrightarrow> entm s m 3 k = 0) \<and>
     (\<forall>v w. vma_live s v \<longrightarrow> vma_live s w \<longrightarrow> v \<noteq> w \<longrightarrow> vm_mm (vmas s v) = vm_mm (vmas s w) \<longrightarrow> M v \<inter> M w = {})"

definition pt_roots :: "vm \<Rightarrow> uses \<Rightarrow> bool" where
  "pt_roots s R \<longleftrightarrow> (\<forall>v n. vma_live s v \<longrightarrow> lvl n \<longrightarrow>
     remembers (table_root n (vmas s v)) {f. \<exists>x\<in>R v n. tabm s (vm_mm (vmas s v)) n x = Some f})"

definition pt_up :: "vm \<Rightarrow> uses \<Rightarrow> maps \<Rightarrow> bool" where
  "pt_up s R M \<longleftrightarrow> (\<forall>v. vma_live s v \<longrightarrow>
     (\<forall>n x. lvl n \<longrightarrow> lvl (Suc n) \<longrightarrow> x \<in> R v (Suc n) \<longrightarrow> x div 512 \<in> R v n) \<and> (\<forall>k\<in>M v. k div 512 \<in> R v 3))"

definition tab_keys :: "vm \<Rightarrow> nat \<Rightarrow> (nat \<times> nat) set" where
  "tab_keys s m = {(n, x). lvl n \<and> tabm s m n x \<noteq> None}"

definition pt_bytes :: "vm \<Rightarrow> bool" where
  "pt_bytes s \<longleftrightarrow> (\<forall>m. mm_live s m \<longrightarrow> pgtables_bytes (mms s m) = of_nat (4096 * card (tab_keys s m)))"

definition pt_ok :: "vm \<Rightarrow> uses \<Rightarrow> maps \<Rightarrow> bool" where
  "pt_ok s R M \<longleftrightarrow> pt_base s \<and> pt_tabs s R \<and> pt_inj s \<and> pt_leaf s M \<and> pt_roots s R \<and> pt_up s R M \<and> pt_bytes s"

section \<open>What the steps leave alone\<close>

definition core_vma :: "vm_area_struct \<Rightarrow> vm_area_struct" where
  "core_vma a = a\<lparr>pud_root := RB_NULL, pmd_root := RB_NULL, pte_root := RB_NULL\<rparr>"

definition core_mm :: "mm_struct \<Rightarrow> mm_struct" where
  "core_mm m = m\<lparr>pgtables_bytes := 0\<rparr>"

definition tables :: "vm \<Rightarrow> nat set" where
  "tables s = {f. \<exists>m n x. mm_live s m \<and> n \<le> 3 \<and> tabm s m n x = Some f}"

definition vm_kept :: "vm \<Rightarrow> vm \<Rightarrow> bool" where
  "vm_kept s s' \<longleftrightarrow> (\<forall>v. core_vma (vmas s' v) = core_vma (vmas s v)) \<and> (\<forall>m. core_mm (mms s' m) = core_mm (mms s m)) \<and>
     mm_live s' = mm_live s \<and> vma_live s' = vma_live s \<and> kmalloc_ok s' = kmalloc_ok s \<and> kmallocs s \<le> kmallocs s'"

definition frames_kept :: "vm \<Rightarrow> vm \<Rightarrow> bool" where
  "frames_kept s s' \<longleftrightarrow> page_pool (pgs s') \<union> tables s' = page_pool (pgs s) \<union> tables s \<and>
     (\<forall>p n. held (pgs s) p n \<longrightarrow> p \<notin> tables s \<longrightarrow>
        held (pgs s') p n \<and> p \<notin> tables s' \<and> mem (pgs s') p = mem (pgs s) p)"

lemma core_vma_fields:
  assumes "core_vma a = core_vma b"
  shows "vm_start a = vm_start b" "vm_end a = vm_end b" "vm_mm a = vm_mm b" "vm_page_prot a = vm_page_prot b"
    "vm_flags a = vm_flags b" "vma_pages a = vma_pages b" "nr_pages a = nr_pages b" "vma_page a k = vma_page b k"
proof -
  show p: "vm_start a = vm_start b" using arg_cong [OF assms, of vm_start] by (simp add: core_vma_def)
  show "vm_end a = vm_end b" using arg_cong [OF assms, of vm_end] by (simp add: core_vma_def)
  show "vm_mm a = vm_mm b" using arg_cong [OF assms, of vm_mm] by (simp add: core_vma_def)
  show "vm_page_prot a = vm_page_prot b" using arg_cong [OF assms, of vm_page_prot] by (simp add: core_vma_def)
  show "vm_flags a = vm_flags b" using arg_cong [OF assms, of vm_flags] by (simp add: core_vma_def)
  show q: "vma_pages a = vma_pages b" using arg_cong [OF assms, of vma_pages] by (simp add: core_vma_def)
  show "nr_pages a = nr_pages b" using arg_cong [OF assms, of nr_pages] by (simp add: core_vma_def)
  show "vma_page a k = vma_page b k" unfolding vma_page_def p q ..
qed

lemma core_set_root [simp]: "core_vma (set_table_root n t a) = core_vma a"
  by (simp add: core_vma_def set_table_root_def)

lemma core_pgd: "core_mm a = core_mm b \<Longrightarrow> pgd a = pgd b"
  by (drule arg_cong [of _ _ pgd]) (simp add: core_mm_def)

lemma vm_kept_refl [simp]: "vm_kept s s"
  by (simp add: vm_kept_def)

lemma vm_kept_trans: "vm_kept s s1 \<Longrightarrow> vm_kept s1 s2 \<Longrightarrow> vm_kept s s2"
  by (auto simp: vm_kept_def)

lemma frames_kept_refl [simp]: "frames_kept s s"
  by (simp add: frames_kept_def)

lemma frames_kept_trans: "frames_kept s s1 \<Longrightarrow> frames_kept s1 s2 \<Longrightarrow> frames_kept s s2"
  unfolding frames_kept_def by metis

lemma vm_keptD:
  assumes "vm_kept s s'"
  shows "vm_start (vmas s' v) = vm_start (vmas s v)" "vm_end (vmas s' v) = vm_end (vmas s v)"
    "vm_mm (vmas s' v) = vm_mm (vmas s v)" "vm_page_prot (vmas s' v) = vm_page_prot (vmas s v)"
    "vm_flags (vmas s' v) = vm_flags (vmas s v)" "vma_pages (vmas s' v) = vma_pages (vmas s v)"
    "nr_pages (vmas s' v) = nr_pages (vmas s v)" "vma_page (vmas s' v) k = vma_page (vmas s v) k"
    "pgd (mms s' m) = pgd (mms s m)" "mm_live s' = mm_live s" "vma_live s' = vma_live s" "kmallocs s \<le> kmallocs s'"
  using assms core_vma_fields [of "vmas s' v" "vmas s v"] core_pgd [of "mms s' m" "mms s m"] by (auto simp: vm_kept_def)

section \<open>An area starts or stops to use a table\<close>

definition add_use :: "uses \<Rightarrow> nat \<Rightarrow> nat \<Rightarrow> nat \<Rightarrow> uses" where
  "add_use R v n x = (\<lambda>w k. if w = v \<and> k = n then insert x (R w k) else R w k)"

definition del_use :: "uses \<Rightarrow> nat \<Rightarrow> nat \<Rightarrow> nat \<Rightarrow> uses" where
  "del_use R v n x = (\<lambda>w k. if w = v \<and> k = n then R w k - {x} else R w k)"

lemma users_add:
  assumes "vm_kept s s'" "vma_live s v"
  shows "users s' (add_use R v n x) m' n' x' =
    (if m' = vm_mm (vmas s v) \<and> n' = n \<and> x' = x then insert v (users s R m' n' x') else users s R m' n' x')"
  using assms vm_keptD [OF assms(1)] by (auto simp: users_def add_use_def)

lemma users_del:
  assumes "vm_kept s s'"
  shows "users s' (del_use R v n x) m' n' x' =
    (if m' = vm_mm (vmas s v) \<and> n' = n \<and> x' = x then users s R m' n' x' - {v} else users s R m' n' x')"
  using assms vm_keptD [OF assms(1)] by (auto simp: users_def del_use_def)

lemma finite_users: "pt_base s \<Longrightarrow> finite (users s R m n x)"
  by (rule finite_subset [of _ "{..<kmallocs s}"]) (auto simp: users_def pt_base_def)

text \<open>
  \<open>relink s s' v n x new\<close>: from \<open>s\<close> to \<open>s'\<close> the walk to the table \<open>x\<close> of level \<open>n\<close> in the address space of area \<open>v\<close>
  ends at \<open>new\<close>, and what area \<open>v\<close> remembers of that level may change; nothing else does.
\<close>

definition relink :: "vm \<Rightarrow> vm \<Rightarrow> nat \<Rightarrow> nat \<Rightarrow> nat \<Rightarrow> nat option \<Rightarrow> bool" where
  "relink s s' v n x new \<longleftrightarrow> vm_kept s s' \<and>
     (\<forall>w k. (w, k) \<noteq> (v, n) \<longrightarrow> lvl k \<longrightarrow> table_root k (vmas s' w) = table_root k (vmas s w)) \<and>
     (\<forall>m' n' x'. mm_live s m' \<longrightarrow> n' \<le> 3 \<longrightarrow> tabm s' m' n' x' =
        (if m' = vm_mm (vmas s v) \<and> n' = n \<and> x' = x then new else tabm s m' n' x')) \<and>
     (\<forall>m' n' x'. mm_live s m' \<longrightarrow> n' \<le> 3 \<longrightarrow> entm s' m' n' x' =
        (if m' = vm_mm (vmas s v) \<and> Suc n' = n \<and> x' = x then (case new of None \<Rightarrow> 0 | Some g \<Rightarrow> table_entry g) else entm s m' n' x'))"

lemma relinkD:
  assumes "relink s s' v n x new"
  shows "vm_kept s s'"
    "mm_live s m' \<Longrightarrow> n' \<le> 3 \<Longrightarrow> tabm s' m' n' x' = (if m' = vm_mm (vmas s v) \<and> n' = n \<and> x' = x then new else tabm s m' n' x')"
    "mm_live s m' \<Longrightarrow> n' \<le> 3 \<Longrightarrow> entm s' m' n' x' =
       (if m' = vm_mm (vmas s v) \<and> Suc n' = n \<and> x' = x then (case new of None \<Rightarrow> 0 | Some g \<Rightarrow> table_entry g) else entm s m' n' x')"
    "(w, k) \<noteq> (v, n) \<Longrightarrow> lvl k \<Longrightarrow> table_root k (vmas s' w) = table_root k (vmas s w)"
proof -
  show "vm_kept s s'" using assms by (simp add: relink_def)
  show "mm_live s m' \<Longrightarrow> n' \<le> 3 \<Longrightarrow> tabm s' m' n' x' = (if m' = vm_mm (vmas s v) \<and> n' = n \<and> x' = x then new else tabm s m' n' x')"
    using assms by (simp add: relink_def)
  show "mm_live s m' \<Longrightarrow> n' \<le> 3 \<Longrightarrow> entm s' m' n' x' =
       (if m' = vm_mm (vmas s v) \<and> Suc n' = n \<and> x' = x then (case new of None \<Rightarrow> 0 | Some g \<Rightarrow> table_entry g) else entm s m' n' x')"
    using assms by (simp add: relink_def)
  show "(w, k) \<noteq> (v, n) \<Longrightarrow> lvl k \<Longrightarrow> table_root k (vmas s' w) = table_root k (vmas s w)"
    using assms by (simp add: relink_def)
qed

lemma pt_okD:
  assumes "pt_ok s R M"
  shows "pt_base s" "pt_tabs s R" "pt_inj s" "pt_leaf s M" "pt_roots s R" "pt_up s R M" "pt_bytes s"
  using assms by (auto simp: pt_ok_def)

lemma pt_tabsD:
  assumes "pt_tabs s R" "mm_live s m" "lvl n" "tabm s m n x = Some f"
  shows "users s R m n x \<noteq> {}" "held (pgs s) f (int (card (users s R m n x)))" "f < 2 ^ 36" "entm s m (n - 1) x = table_entry f"
proof -
  have "case tabm s m n x of
        None \<Rightarrow> users s R m n x = {}
      | Some f \<Rightarrow> users s R m n x \<noteq> {} \<and> held (pgs s) f (int (card (users s R m n x))) \<and> f < 2 ^ 36 \<and>
          entm s m (n - 1) x = table_entry f"
    using assms(1-3) unfolding pt_tabs_def by blast
  then show "users s R m n x \<noteq> {}" "held (pgs s) f (int (card (users s R m n x)))" "f < 2 ^ 36" "entm s m (n - 1) x = table_entry f"
    using assms(4) by simp_all
qed

lemma pt_tabs_None:
  assumes "pt_tabs s R" "mm_live s m" "lvl n" "tabm s m n x = None"
  shows "users s R m n x = {}"
proof -
  have "case tabm s m n x of
        None \<Rightarrow> users s R m n x = {}
      | Some f \<Rightarrow> users s R m n x \<noteq> {} \<and> held (pgs s) f (int (card (users s R m n x))) \<and> f < 2 ^ 36 \<and>
          entm s m (n - 1) x = table_entry f"
    using assms(1-3) unfolding pt_tabs_def by blast
  then show ?thesis using assms(4) by simp
qed

lemma pt_injD:
  assumes "pt_inj s" "mm_live s m" "mm_live s m'" "n \<le> 3" "n' \<le> 3" "tabm s m n x = Some f" "tabm s m' n' x' = Some f"
  shows "m = m'" "n = n'" "x = x'"
  using assms unfolding pt_inj_def by blast+

lemma pt_baseD:
  assumes "pt_base s"
  shows "pg_inv (pgs s)" "page_pool (pgs s) \<subseteq> {..<2 ^ 36}" "vma_live s v \<Longrightarrow> v < kmallocs s"
    "vma_live s v \<Longrightarrow> mm_live s (vm_mm (vmas s v))" "vma_live s v \<Longrightarrow> prot_ok (vm_page_prot (vmas s v))"
    "mm_live s m \<Longrightarrow> held (pgs s) (pgd (mms s m)) 1" "mm_live s m \<Longrightarrow> pgd (mms s m) < 2 ^ 36"
  using assms by (auto simp: pt_base_def)

lemma relink_leaf:
  assumes "relink s s' v n x new" "pt_leaf s M" "lvl n" "pt_base s"
  shows "pt_leaf s' M"
proof -
  note k = vm_keptD [OF relinkD(1) [OF assms(1)]]
  have e: "ent (pgs s') (pgd (mms s m')) 3 k = entm s m' 3 k" if "mm_live s m'" for m' k
    using relinkD(3) [OF assms(1) that, of 3 k] assms(3) by (auto simp: lvl_def k(9))
  show ?thesis using assms(2) unfolding pt_leaf_def k by (auto simp: e pt_baseD(4) [OF assms(4)])
qed

lemma relink_up: "relink s s' v n x new \<Longrightarrow> pt_up s' R M = pt_up s R M"
  by (simp add: pt_up_def vm_keptD(11) [OF relinkD(1)])

lemma relink_inj:
  assumes r: "relink s s' v n x new" and "pt_inj s" "vma_live s v" "pt_base s" "lvl n"
    and g: "\<And>g m' n' x'. new = Some g \<Longrightarrow> mm_live s m' \<Longrightarrow> n' \<le> 3 \<Longrightarrow> tabm s m' n' x' = Some g \<Longrightarrow>
      m' = vm_mm (vmas s v) \<and> n' = n \<and> x' = x"
  shows "pt_inj s'"
  unfolding pt_inj_def
proof (intro allI impI)
  fix m1 n1 x1 m2 n2 x2 f
  assume a: "mm_live s' m1" "mm_live s' m2" "n1 \<le> 3" "n2 \<le> 3" "tabm s' m1 n1 x1 = Some f" "tabm s' m2 n2 x2 = Some f"
  let ?key = "\<lambda>m' n' x'. m' = vm_mm (vmas s v) \<and> n' = n \<and> x' = x"
  have l: "mm_live s m1" "mm_live s m2" using a(1,2) vm_keptD(10) [OF relinkD(1) [OF r]] by simp_all
  note t1 = relinkD(2) [OF r l(1) a(3), of x1] and t2 = relinkD(2) [OF r l(2) a(4), of x2]
  show "m1 = m2 \<and> n1 = n2 \<and> x1 = x2"
  proof (cases "?key m1 n1 x1")
    case k1: True
    then have f: "new = Some f" using t1 a(5) by (simp only: simp_thms if_True)
    show ?thesis
    proof (cases "?key m2 n2 x2")
      case False
      then have "tabm s m2 n2 x2 = Some f" using t2 a(6) by (simp only: if_False)
      from g [OF f l(2) a(4) this] False show ?thesis by blast
    qed (use k1 in simp)
  next
    case k1: False
    then have f1: "tabm s m1 n1 x1 = Some f" using t1 a(5) by (simp only: if_False)
    show ?thesis
    proof (cases "?key m2 n2 x2")
      case True
      then have "new = Some f" using t2 a(6) by (simp only: simp_thms if_True)
      from g [OF this l(1) a(3) f1] True show ?thesis by simp
    next
      case False
      then have "tabm s m2 n2 x2 = Some f" using t2 a(6) by (simp only: if_False)
      then show ?thesis using pt_injD [OF assms(2) l a(3,4) f1] by blast
    qed
  qed
qed

text \<open>The bytes of tables: \<open>d\<close> is the number of tables gained.\<close>

lemma finite_keys: "finite (tab_keys s m)"
proof (rule finite_subset)
  show "tab_keys s m \<subseteq> {..3} \<times> {..<512 ^ 3}"
  proof
    fix k assume "k \<in> tab_keys s m"
    then obtain n x f where k: "k = (n, x)" "lvl n" "tabm s m n x = Some f" by (auto simp: tab_keys_def)
    have "x < 512 ^ n" by (rule tab_bound [OF k(3)])
    also have "\<dots> \<le> (512 :: nat) ^ 3" using k(2) by (intro power_increasing) (auto simp: lvl_def)
    finally show "k \<in> {..3} \<times> {..<512 ^ 3}" using k by (auto simp: lvl_def)
  qed
qed simp

lemma relink_keys:
  assumes "relink s s' v n x new" "lvl n" "mm_live s m"
  shows "tab_keys s' m = (if m = vm_mm (vmas s v)
    then (if new = None then tab_keys s m - {(n, x)} else insert (n, x) (tab_keys s m)) else tab_keys s m)"
proof -
  have "n' \<le> 3 \<Longrightarrow> tabm s' m n' x' = (if m = vm_mm (vmas s v) \<and> n' = n \<and> x' = x then new else tabm s m n' x')" for n' x'
    by (rule relinkD(2) [OF assms(1,3)])
  then have "(n', x') \<in> tab_keys s' m \<longleftrightarrow> lvl n' \<and> (if m = vm_mm (vmas s v) \<and> n' = n \<and> x' = x then new else tabm s m n' x') \<noteq> None" for n' x'
    by (auto simp: tab_keys_def lvl_def)
  then show ?thesis using assms(2) by (auto simp: tab_keys_def split: if_splits)
qed

lemma relink_base:
  assumes ok: "pt_ok s R M" and r: "relink s s' v n x new" and n: "lvl n" and v: "vma_live s v"
    and pg: "pg_inv (pgs s')" "page_pool (pgs s') \<subseteq> {..<2 ^ 36}"
    and h: "\<And>p c. p \<noteq> g \<Longrightarrow> held (pgs s) p c \<Longrightarrow> held (pgs s') p c"
    and g: "\<And>m' n' x'. mm_live s m' \<Longrightarrow> n' \<le> 3 \<Longrightarrow> tabm s m' n' x' = Some g \<Longrightarrow> n' = n"
  shows "pt_base s'"
proof -
  note k = vm_keptD [OF relinkD(1) [OF r]] and b = pt_baseD [OF pt_okD(1) [OF ok]]
  have "pgd (mms s m) \<noteq> g" if "mm_live s m" for m using g [OF that, of 0 0] n by auto
  then have "held (pgs s') (pgd (mms s m)) 1" if "mm_live s m" for m using h b(6) that by blast
  moreover have "v < kmallocs s'" if "vma_live s v" for v using b(3) [OF that] k(12) by simp
  ultimately show ?thesis using pg b(4,5,7) unfolding pt_base_def k by blast
qed

lemma pt_ok_add:
  assumes ok: "pt_ok s R M" and v: "vma_live s v" "m = vm_mm (vmas s v)" and r: "relink s s' v n x (Some g)" and n: "lvl n"
    and x: "x \<notin> R v n" "n \<noteq> 1 \<Longrightarrow> x div 512 \<in> R v (n - 1)"
    and g: "\<And>m' n' x'. mm_live s m' \<Longrightarrow> n' \<le> 3 \<Longrightarrow> tabm s m' n' x' = Some g \<Longrightarrow> m' = m \<and> n' = n \<and> x' = x"
      "tabm s m n x = Some g \<or> tabm s m n x = None" "g < 2 ^ 36"
    and pg: "pg_inv (pgs s')" "page_pool (pgs s') \<subseteq> page_pool (pgs s)"
    and h: "\<And>p c. p \<noteq> g \<Longrightarrow> held (pgs s) p c \<Longrightarrow> held (pgs s') p c" "held (pgs s') g (int (card (users s R m n x)) + 1)"
    and root: "remembers (table_root n (vmas s' v)) (insert g {f. \<exists>x\<in>R v n. tabm s m n x = Some f})"
    and bytes: "\<And>m'. mm_live s m' \<Longrightarrow> pgtables_bytes (mms s' m') =
      pgtables_bytes (mms s m') + (if m' = m \<and> tabm s m n x = None then 4096 else 0)"
  shows "pt_ok s' (add_use R v n x) M"
proof -
  note k = vm_keptD [OF relinkD(1) [OF r]] and b = pt_baseD [OF pt_okD(1) [OF ok]] and D = pt_okD [OF ok]
  have live: "mm_live s m" using b(4) v by simp
  have T: "tabm s' m' n' x' = (if m' = m \<and> n' = n \<and> x' = x then Some g else tabm s m' n' x')" if "mm_live s m'" "n' \<le> 3" for m' n' x'
    using relinkD(2) [OF r that] v(2) by simp
  have n3: "n \<le> 3" "1 \<le> n" using n by (simp_all add: lvl_def)
  have "pt_base s'" using relink_base [OF ok r n v(1) pg(1) _ h(1)] g(1) pg(2) b(2) by blast
  moreover have "pt_tabs s' (add_use R v n x)"
    unfolding pt_tabs_def k
  proof (intro allI impI)
    fix m' n' x' assume m': "mm_live s m'" and n': "lvl n'"
    have U: "users s' (add_use R v n x) m' n' x' = (if m' = m \<and> n' = n \<and> x' = x then insert v (users s R m' n' x') else users s R m' n' x')"
      using users_add [OF relinkD(1) [OF r] v(1)] v(2) by simp
    have n3': "n' \<le> 3" "n' - 1 \<le> 3" "Suc (n' - 1) = n'" using n' by (auto simp: lvl_def)
    have E: "entm s' m' (n' - 1) x' = (if m' = m \<and> n' = n \<and> x' = x then table_entry g else entm s m' (n' - 1) x')"
      using relinkD(3) [OF r m' n3'(2), of x'] n3'(3) v(2) by simp
    show "case tab (pgs s') (pgd (mms s m')) n' x' of None \<Rightarrow> users s' (add_use R v n x) m' n' x' = {}
        | Some f \<Rightarrow> users s' (add_use R v n x) m' n' x' \<noteq> {} \<and> held (pgs s') f (int (card (users s' (add_use R v n x) m' n' x'))) \<and>
            f < 2 ^ 36 \<and> ent (pgs s') (pgd (mms s m')) (n' - 1) x' = table_entry f"
    proof (cases "m' = m \<and> n' = n \<and> x' = x")
      case True
      have "v \<notin> users s R m n x" using x(1) by (simp add: users_def)
      then have "int (card (insert v (users s R m n x))) = int (card (users s R m n x)) + 1"
        using finite_users [OF D(1), of R m n x] by simp
      then show ?thesis using True U E T [OF m' n3'(1), of x'] h(2) g(3) by (simp add: k)
    next
      case False
      then have t: "tabm s' m' n' x' = tabm s m' n' x'" and u: "users s' (add_use R v n x) m' n' x' = users s R m' n' x'"
        and e: "entm s' m' (n' - 1) x' = entm s m' (n' - 1) x'" using U E T [OF m' n3'(1), of x'] by auto
      show ?thesis
      proof (cases "tabm s m' n' x'")
        case None
        then show ?thesis using t u pt_tabs_None [OF D(2) m' n' None] by (simp add: k)
      next
        case (Some f)
        have "f \<noteq> g" using g(1) [OF m' n3'(1)] Some False by blast
        then show ?thesis using t u e Some pt_tabsD [OF D(2) m' n' Some] h(1) by (simp add: k)
      qed
    qed
  qed
  moreover have "pt_inj s'" by (rule relink_inj [OF r D(3) v(1) D(1) n]) (use g(1) v(2) in auto)
  moreover have "pt_leaf s' M" by (rule relink_leaf [OF r D(4) n D(1)])
  moreover have "pt_roots s' (add_use R v n x)"
    unfolding pt_roots_def k
  proof (intro allI impI)
    fix w l assume w: "vma_live s w" and l: "lvl l"
    have same: "tabm s' (vm_mm (vmas s w)) l y = tabm s (vm_mm (vmas s w)) l y" if "y \<in> R w l" for y
    proof (cases "vm_mm (vmas s w) = m \<and> l = n \<and> y = x")
      case True
      then have "w \<in> users s R m n x" using w that by (simp add: users_def)
      then have "tabm s m n x \<noteq> None" using pt_tabs_None [OF D(2) live n] by auto
      then show ?thesis using g(2) T [OF live n3(1), of x] True by auto
    next
      case False
      then show ?thesis using T [OF b(4) [OF w], of l y] l by (auto simp: lvl_def)
    qed
    have eq: "{f. \<exists>y\<in>R w l. tab (pgs s') (pgd (mms s (vm_mm (vmas s w)))) l y = Some f} = {f. \<exists>y\<in>R w l. tabm s (vm_mm (vmas s w)) l y = Some f}"
      using same by (auto simp: k)
    show "remembers (table_root l (vmas s' w)) {f. \<exists>x\<in>add_use R v n x w l. tab (pgs s') (pgd (mms s (vm_mm (vmas s w)))) l x = Some f}"
    proof (cases "(w, l) = (v, n)")
      case True
      have "tab (pgs s') (pgd (mms s m)) n x = Some g" using T [OF live n3(1), of x] by (simp add: k)
      then have "{f. \<exists>y\<in>add_use R v n x w l. tab (pgs s') (pgd (mms s (vm_mm (vmas s w)))) l y = Some f} =
          insert g {f. \<exists>y\<in>R v n. tabm s m n y = Some f}" using eq True v(2) by (auto simp: add_use_def)
      then show ?thesis using root True by simp
    next
      case False
      then have "add_use R v n x w l = R w l" by (auto simp: add_use_def)
      moreover have "remembers (table_root l (vmas s w)) {f. \<exists>y\<in>R w l. tabm s (vm_mm (vmas s w)) l y = Some f}"
        using D(5) w l unfolding pt_roots_def by blast
      ultimately show ?thesis using eq relinkD(4) [OF r False l] by simp
    qed
  qed
  moreover have "pt_up s' (add_use R v n x) M"
    using D(6) x(2) unfolding pt_up_def k add_use_def by (auto simp: lvl_def)
  moreover have "pt_bytes s'"
    unfolding pt_bytes_def k
  proof (intro allI impI)
    fix m' assume m': "mm_live s m'"
    have K: "tab_keys s' m' = (if m' = m then insert (n, x) (tab_keys s m') else tab_keys s m')"
      using relink_keys [OF r n m'] v(2) by simp
    have "(n, x) \<in> tab_keys s m \<longleftrightarrow> tabm s m n x \<noteq> None" using n by (simp add: tab_keys_def)
    then have "card (tab_keys s' m') = card (tab_keys s m') + (if m' = m \<and> tabm s m n x = None then 1 else 0)"
      using K finite_keys [of s m'] by (auto simp: insert_absorb)
    then show "pgtables_bytes (mms s' m') = of_nat (4096 * card (tab_keys s' m'))"
      using bytes [OF m'] D(7) m' unfolding pt_bytes_def by auto
  qed
  ultimately show ?thesis by (simp add: pt_ok_def)
qed

lemma pt_ok_del:
  assumes ok: "pt_ok s R M" and v: "vma_live s v" "m = vm_mm (vmas s v)" and n: "lvl n" and x: "x \<in> R v n" "tabm s m n x = Some g"
    and child: "\<And>y. lvl (Suc n) \<Longrightarrow> y \<in> R v (Suc n) \<Longrightarrow> y div 512 \<noteq> x" "\<And>k. n = 3 \<Longrightarrow> k \<in> M v \<Longrightarrow> k div 512 \<noteq> x"
    and new: "new = (if users s R m n x = {v} then None else Some g)" and r: "relink s s' v n x new"
    and pg: "pg_inv (pgs s')" "page_pool (pgs s') \<subseteq> {..<2 ^ 36}"
    and h: "\<And>p c. p \<noteq> g \<Longrightarrow> held (pgs s) p c \<Longrightarrow> held (pgs s') p c"
      "new \<noteq> None \<Longrightarrow> held (pgs s') g (int (card (users s R m n x)) - 1)"
    and root: "remembers (table_root n (vmas s' v)) ({f. \<exists>x\<in>R v n. tabm s m n x = Some f} - {g})"
    and bytes: "\<And>m'. mm_live s m' \<Longrightarrow> pgtables_bytes (mms s' m') =
      pgtables_bytes (mms s m') - (if m' = m \<and> new = None then 4096 else 0)"
  shows "pt_ok s' (del_use R v n x) M"
proof -
  note k = vm_keptD [OF relinkD(1) [OF r]] and b = pt_baseD [OF pt_okD(1) [OF ok]] and D = pt_okD [OF ok]
  have live: "mm_live s m" using b(4) v by simp
  have T: "tabm s' m' n' x' = (if m' = m \<and> n' = n \<and> x' = x then new else tabm s m' n' x')" if "mm_live s m'" "n' \<le> 3" for m' n' x'
    using relinkD(2) [OF r that] v(2) by simp
  have n3: "n \<le> 3" "1 \<le> n" using n by (simp_all add: lvl_def)
  have g: "m' = m \<and> n' = n \<and> x' = x" if "mm_live s m'" "n' \<le> 3" "tabm s m' n' x' = Some g" for m' n' x'
    using pt_injD [OF D(3) that(1) live that(2) n3(1) that(3) x(2)] by simp
  have vu: "v \<in> users s R m n x" using v x(1) by (simp add: users_def)
  have "pt_base s'" by (rule relink_base [OF ok r n v(1) pg h(1)]) (use g in blast)+
  moreover have "pt_tabs s' (del_use R v n x)"
    unfolding pt_tabs_def k
  proof (intro allI impI)
    fix m' n' x' assume m': "mm_live s m'" and n': "lvl n'"
    have U: "users s' (del_use R v n x) m' n' x' = (if m' = m \<and> n' = n \<and> x' = x then users s R m' n' x' - {v} else users s R m' n' x')"
      using users_del [OF relinkD(1) [OF r]] v(2) by simp
    have n3': "n' \<le> 3" "n' - 1 \<le> 3" "Suc (n' - 1) = n'" using n' by (auto simp: lvl_def)
    have E: "entm s' m' (n' - 1) x' = (if m' = m \<and> n' = n \<and> x' = x then (case new of None \<Rightarrow> 0 | Some g \<Rightarrow> table_entry g)
        else entm s m' (n' - 1) x')"
      using relinkD(3) [OF r m' n3'(2), of x'] n3'(3) v(2) by simp
    show "case tab (pgs s') (pgd (mms s m')) n' x' of None \<Rightarrow> users s' (del_use R v n x) m' n' x' = {}
        | Some f \<Rightarrow> users s' (del_use R v n x) m' n' x' \<noteq> {} \<and> held (pgs s') f (int (card (users s' (del_use R v n x) m' n' x'))) \<and>
            f < 2 ^ 36 \<and> ent (pgs s') (pgd (mms s m')) (n' - 1) x' = table_entry f"
    proof (cases "m' = m \<and> n' = n \<and> x' = x")
      case key: True
      have fin: "finite (users s R m n x)" by (rule finite_users [OF D(1)])
      have c: "int (card (users s R m n x - {v})) = int (card (users s R m n x)) - 1"
        using card_Suc_Diff1 [OF fin vu] by simp
      show ?thesis
      proof (cases "users s R m n x = {v}")
        case True
        then show ?thesis using key U T [OF m' n3'(1), of x'] new by (simp add: k)
      next
        case False
        then have "users s R m n x - {v} \<noteq> {}" using vu by blast
        then show ?thesis using key U E T [OF m' n3'(1), of x'] h(2) c new False pt_tabsD(3) [OF D(2) live n x(2)] by (simp add: k)
      qed
    next
      case False
      then have t: "tabm s' m' n' x' = tabm s m' n' x'" and u: "users s' (del_use R v n x) m' n' x' = users s R m' n' x'"
        and e: "entm s' m' (n' - 1) x' = entm s m' (n' - 1) x'" using U E T [OF m' n3'(1), of x'] by auto
      show ?thesis
      proof (cases "tabm s m' n' x'")
        case None
        then show ?thesis using t u pt_tabs_None [OF D(2) m' n' None] by (simp add: k)
      next
        case (Some f)
        have "f \<noteq> g" using g [OF m' n3'(1)] Some False by blast
        then show ?thesis using t u e Some pt_tabsD [OF D(2) m' n' Some] h(1) by (simp add: k)
      qed
    qed
  qed
  moreover have "pt_inj s'"
  proof (rule relink_inj [OF r D(3) v(1) D(1) n])
    show "m' = vm_mm (vmas s v) \<and> n' = n \<and> x' = x"
      if "new = Some g'" "mm_live s m'" "n' \<le> 3" "tabm s m' n' x' = Some g'" for g' m' n' x'
      using that g [of m' n' x'] new v(2) by (auto split: if_splits)
  qed
  moreover have "pt_leaf s' M" by (rule relink_leaf [OF r D(4) n D(1)])
  moreover have "pt_roots s' (del_use R v n x)"
    unfolding pt_roots_def k
  proof (intro allI impI)
    fix w l assume w: "vma_live s w" and l: "lvl l"
    have same: "tabm s' (vm_mm (vmas s w)) l y = tabm s (vm_mm (vmas s w)) l y" if "y \<in> del_use R v n x w l" for y
    proof (cases "vm_mm (vmas s w) = m \<and> l = n \<and> y = x")
      case True
      then have "w \<noteq> v" "y \<in> R w l" using that by (auto simp: del_use_def split: if_splits)
      then have "w \<in> users s R m n x" using w True by (simp add: users_def)
      then have "new = Some g" using new \<open>w \<noteq> v\<close> by auto
      then show ?thesis using x(2) T [OF live n3(1), of x] True by auto
    next
      case False
      then show ?thesis using T [OF b(4) [OF w], of l y] l by (auto simp: lvl_def)
    qed
    have eq: "{f. \<exists>y\<in>del_use R v n x w l. tab (pgs s') (pgd (mms s (vm_mm (vmas s w)))) l y = Some f} =
        {f. \<exists>y\<in>del_use R v n x w l. tabm s (vm_mm (vmas s w)) l y = Some f}"
      using same by (auto simp: k)
    show "remembers (table_root l (vmas s' w)) {f. \<exists>x\<in>del_use R v n x w l. tab (pgs s') (pgd (mms s (vm_mm (vmas s w)))) l x = Some f}"
    proof (cases "(w, l) = (v, n)")
      case True
      have "tabm s m n y = Some g \<longleftrightarrow> y = x" for y using g [OF live n3(1), of y] x(2) by blast
      then have "(\<exists>y\<in>R v n - {x}. tabm s m n y = Some f) \<longleftrightarrow> (\<exists>y\<in>R v n. tabm s m n y = Some f) \<and> f \<noteq> g" for f
        by (metis Diff_iff option.inject singletonD singletonI)
      then have S: "{f. \<exists>y\<in>R v n - {x}. tabm s m n y = Some f} = {f. \<exists>y\<in>R v n. tabm s m n y = Some f} - {g}" by blast
      have wl: "w = v" "l = n" using True by simp_all
      have "del_use R v n x v n = R v n - {x}" by (simp add: del_use_def)
      then show ?thesis unfolding eq unfolding wl v(2) [symmetric] using root S by (simp only:)
    next
      case False
      then have "del_use R v n x w l = R w l" by (auto simp: del_use_def)
      moreover have "remembers (table_root l (vmas s w)) {f. \<exists>y\<in>R w l. tabm s (vm_mm (vmas s w)) l y = Some f}"
        using D(5) w l unfolding pt_roots_def by blast
      ultimately show ?thesis using eq relinkD(4) [OF r False l] by simp
    qed
  qed
  moreover have "pt_up s' (del_use R v n x) M"
    using D(6) child unfolding pt_up_def k del_use_def by (auto simp: lvl_def)
  moreover have "pt_bytes s'"
    unfolding pt_bytes_def k
  proof (intro allI impI)
    fix m' assume m': "mm_live s m'"
    have K: "tab_keys s' m' = (if m' = m \<and> new = None then tab_keys s m' - {(n, x)} else tab_keys s m')"
      using relink_keys [OF r n m'] v(2) n x(2) by (auto simp: tab_keys_def)
    have "(n, x) \<in> tab_keys s m" using n x(2) by (simp add: tab_keys_def)
    then have "card (tab_keys s m') = card (tab_keys s' m') + (if m' = m \<and> new = None then 1 else 0)"
      using K card_Suc_Diff1 [OF finite_keys [of s m'], of "(n, x)"] by auto
    moreover have "pgtables_bytes (mms s m') = of_nat (4096 * card (tab_keys s m'))" using D(7) m' by (simp add: pt_bytes_def)
    ultimately show "pgtables_bytes (mms s' m') = of_nat (4096 * card (tab_keys s' m'))"
      using bytes [OF m'] by auto
  qed
  ultimately show ?thesis by (simp add: pt_ok_def)
qed

section \<open>An area maps or unmaps a page\<close>

definition put_entry :: "nat \<Rightarrow> nat \<Rightarrow> u64 \<Rightarrow> vm \<Rightarrow> vm" where
  "put_entry f i e s = set_pgs (set_entry f i e (pgs s)) s"

lemma put_entry_simps [simp]:
  "mms (put_entry f i e s) = mms s" "vmas (put_entry f i e s) = vmas s" "mm_live (put_entry f i e s) = mm_live s"
  "vma_live (put_entry f i e s) = vma_live s" "kmallocs (put_entry f i e s) = kmallocs s" "kmalloc_ok (put_entry f i e s) = kmalloc_ok s"
  "pgs (put_entry f i e s) = set_entry f i e (pgs s)"
  by (simp_all add: put_entry_def set_pgs_def)

lemma put_entry_kept [simp]: "vm_kept s (put_entry f i e s)"
  by (simp add: vm_kept_def)

lemma leaf_write:
  assumes "pt_inj s" "mm_live s m" "tabm s m 3 y = Some f" "i < 512" "mm_live s m'" "n' \<le> 3"
  shows "tabm (put_entry f i e s) m' n' x' = tabm s m' n' x'"
    "entm (put_entry f i e s) m' n' x' = (if m' = m \<and> n' = 3 \<and> x' = 512 * y + i then e else entm s m' n' x')"
proof -
  have w: "entry (set_entry f i e (pgs s)) f' j = entry (pgs s) f' j" if "f' \<noteq> f \<or> j \<noteq> i" for f' j
    using that by (auto simp: entry_set_entry)
  have u: "n'' = 3 \<and> y' = y" if "n'' \<le> 3" "tabm s m' n'' y' = Some f" for n'' y'
    using pt_injD [OF assms(1) assms(5,2) that(1) _ that(2) assms(3)] by simp
  show "tabm (put_entry f i e s) m' n' x' = tabm s m' n' x'"
    unfolding put_entry_simps by (rule tab_leaf [OF w u assms(6)]) simp_all
  have "entm (put_entry f i e s) m' n' x' = (if tabm s m' 3 y = Some f \<and> n' = 3 \<and> x' = 512 * y + i
      then entry (set_entry f i e (pgs s)) f i else entm s m' n' x')"
    unfolding put_entry_simps by (rule ent_leaf [OF w u assms(6,4)]) simp_all
  then have "entm (put_entry f i e s) m' n' x' = (if tabm s m' 3 y = Some f \<and> n' = 3 \<and> x' = 512 * y + i then e else entm s m' n' x')"
    by (simp only: entry_set_entry simp_thms if_True)
  moreover have "tabm s m' 3 y = Some f \<longleftrightarrow> m' = m"
    using pt_injD(1) [OF assms(1) assms(5,2) _ _ _ assms(3), of 3 y] assms(3) by auto
  ultimately show "entm (put_entry f i e s) m' n' x' = (if m' = m \<and> n' = 3 \<and> x' = 512 * y + i then e else entm s m' n' x')"
    by simp
qed

lemma leaf_frames:
  assumes "pt_inj s" "mm_live s m" "tabm s m 3 y = Some f" "i < 512"
  shows "frames_kept s (put_entry f i e s)"
proof -
  have "mm_live s m' \<and> n' \<le> 3 \<and> tabm (put_entry f i e s) m' n' x' = Some q \<longleftrightarrow> mm_live s m' \<and> n' \<le> 3 \<and> tabm s m' n' x' = Some q"
    for m' n' x' q using leaf_write(1) [OF assms, of m' n' e x'] by auto
  then have t: "tables (put_entry f i e s) = tables s" by (simp only: tables_def put_entry_simps(3))
  have "f \<in> tables s" using assms(2,3) by (auto simp: tables_def)
  then have "mem (set_entry f i e (pgs s)) p = mem (pgs s) p" if "p \<notin> tables s" for p using that by (intro mem_set_entry) auto
  then show ?thesis using t by (simp add: frames_kept_def)
qed

lemma leaf_others:
  assumes ok: "pt_ok s R M" and "mm_live s m" "tabm s m 3 y = Some f" "i < 512"
  shows "pt_base (put_entry f i e s)" "pt_tabs (put_entry f i e s) R" "pt_inj (put_entry f i e s)" "pt_roots (put_entry f i e s) R"
    "pt_bytes (put_entry f i e s)"
proof -
  let ?s = "put_entry f i e s"
  note D = pt_okD [OF ok] and W = leaf_write [OF D(3) assms(2-4)]
  show "pt_base ?s" using D(1) by (simp add: pt_base_def)
  have H: "held (pgs ?s) = held (pgs s)" by simp
  have U: "users ?s R = users s R" by (simp add: users_def fun_eq_iff)
  show "pt_inj ?s" using D(3) unfolding pt_inj_def put_entry_simps(3) by (simp only: W(1) cong: imp_cong) blast
  show "pt_tabs ?s R"
    unfolding pt_tabs_def put_entry_simps(3)
  proof (intro allI impI)
    fix m' n' x' assume a: "mm_live s m'" "lvl n'"
    then have n: "n' \<le> 3" "n' - 1 \<le> 3" "n' - 1 \<noteq> 3" by (auto simp: lvl_def)
    have e: "entm ?s m' (n' - 1) x' = entm s m' (n' - 1) x'" using W(2) [OF a(1) n(2), of e x'] n(3) by (simp only: simp_thms if_False)
    show "case tabm ?s m' n' x' of None \<Rightarrow> users ?s R m' n' x' = {}
        | Some f \<Rightarrow> users ?s R m' n' x' \<noteq> {} \<and> held (pgs ?s) f (int (card (users ?s R m' n' x'))) \<and> f < 2 ^ 36 \<and>
            entm ?s m' (n' - 1) x' = table_entry f"
      unfolding W(1) [OF a(1) n(1)] e U H using D(2) a unfolding pt_tabs_def by blast
  qed
  have live: "mm_live s (vm_mm (vmas s v))" if "vma_live s v" for v using pt_baseD(4) [OF D(1) that] .
  show "pt_roots ?s R"
    unfolding pt_roots_def put_entry_simps(4)
  proof (intro allI impI)
    fix v n assume v: "vma_live s v" "lvl n"
    then have "n \<le> 3" by (simp add: lvl_def)
    then show "remembers (table_root n (vmas ?s v)) {f. \<exists>x\<in>R v n. tabm ?s (vm_mm (vmas ?s v)) n x = Some f}"
      using D(5) v unfolding pt_roots_def put_entry_simps(2) W(1) [OF live [OF v(1)] \<open>n \<le> 3\<close>] by blast
  qed
  have "tab_keys ?s m' = tab_keys s m'" if "mm_live s m'" for m'
    using W(1) [OF that] unfolding tab_keys_def by (auto simp: lvl_def simp del: put_entry_simps(7))
  then show "pt_bytes ?s" using D(7) by (simp add: pt_bytes_def)
qed

lemma pt_leafD:
  assumes "pt_leaf s M"
  shows "vma_live s v \<Longrightarrow> k \<in> M v \<Longrightarrow>
      \<exists>p prot. vma_page (vmas s v) k = Some p \<and> prot_ok prot \<and> entm s (vm_mm (vmas s v)) 3 k = mk_pte p prot"
    "mm_live s m \<Longrightarrow> (\<And>v. vma_live s v \<Longrightarrow> vm_mm (vmas s v) = m \<Longrightarrow> k \<notin> M v) \<Longrightarrow> entm s m 3 k = 0"
    "vma_live s v \<Longrightarrow> vma_live s w \<Longrightarrow> vm_mm (vmas s v) = vm_mm (vmas s w) \<Longrightarrow> k \<in> M v \<Longrightarrow> k \<in> M w \<Longrightarrow> v = w"
  using assms unfolding pt_leaf_def by blast+

lemma pt_ok_map:
  assumes ok: "pt_ok s R M" and v: "vma_live s v" "m = vm_mm (vmas s v)" and f: "tabm s m 3 y = Some f" "y \<in> R v 3" "i < 512"
    and p: "vma_page (vmas s v) (512 * y + i) = Some p" "prot_ok prot" "entm s m 3 (512 * y + i) = 0 \<or> 512 * y + i \<in> M v"
  shows "pt_ok (put_entry f i (mk_pte p prot) s) R (M(v := insert (512 * y + i) (M v)))"
proof -
  let ?k = "512 * y + i" and ?s = "put_entry f i (mk_pte p prot) s" and ?M = "M(v := insert (512 * y + i) (M v))"
  note D = pt_okD [OF ok] and b = pt_baseD [OF pt_okD(1) [OF ok]]
  have live: "mm_live s m" using b(4) v by simp
  note W = leaf_write(2) [OF D(3) live f(1,3) _ order_refl, where e = "mk_pte p prot"]
  have free: "?k \<notin> M w" if "vma_live s w" "vm_mm (vmas s w) = m" "w \<noteq> v" for w
  proof (cases "?k \<in> M v")
    case True
    have "vm_mm (vmas s v) = vm_mm (vmas s w)" using that(2) v(2) by simp
    from pt_leafD(3) [OF D(4) v(1) that(1) this True] that(3) show ?thesis by metis
  next
    case False
    then show ?thesis using pt_leafD(1) [OF D(4) that(1), of ?k] mk_pte_nonzero p(3) that(2) by fastforce
  qed
  have "pt_leaf ?s ?M"
    unfolding pt_leaf_def put_entry_simps(2-4)
  proof (intro conjI allI impI)
    fix w k assume w: "vma_live s w" and k: "k \<in> ?M w"
    show "\<exists>q prot. vma_page (vmas s w) k = Some q \<and> prot_ok prot \<and> entm ?s (vm_mm (vmas s w)) 3 k = mk_pte q prot"
    proof (cases "w = v \<and> k = ?k")
      case True
      then show ?thesis using p(1,2) W [OF live, of ?k] v(2) by auto
    next
      case False
      then have "k \<in> M w" using k by (auto split: if_splits)
      moreover have "\<not> (vm_mm (vmas s w) = m \<and> k = ?k)" using free [OF w] \<open>k \<in> M w\<close> False by auto
      ultimately show ?thesis using pt_leafD(1) [OF D(4) w] W [OF b(4) [OF w], of k] by auto
    qed
  next
    fix m' k assume m': "mm_live s m'" and none: "\<forall>w. vma_live s w \<longrightarrow> vm_mm (vmas s w) = m' \<longrightarrow> k \<notin> ?M w"
    have "\<not> (m' = m \<and> k = ?k)" using none v by auto
    moreover have "entm s m' 3 k = 0" using pt_leafD(2) [OF D(4) m', of k] none by (auto split: if_splits)
    ultimately show "entm ?s m' 3 k = 0" using W [OF m', of k] by auto
  next
    fix a w assume a: "vma_live s a" "vma_live s w" "a \<noteq> w" "vm_mm (vmas s a) = vm_mm (vmas s w)"
    have "k \<notin> M w" if "k \<in> M a" for k using pt_leafD(3) [OF D(4) a(1,2,4) that] a(3) by blast
    then show "?M a \<inter> ?M w = {}" using free [OF a(1)] free [OF a(2)] a(3,4) v(2) by auto
  qed
  moreover have "pt_up ?s R ?M" using D(6) f(2,3) unfolding pt_up_def by auto
  ultimately show ?thesis using leaf_others [OF ok live f(1,3)] by (simp add: pt_ok_def)
qed

lemma pt_ok_unmap:
  assumes ok: "pt_ok s R M" and v: "vma_live s v" "m = vm_mm (vmas s v)" and f: "tabm s m 3 y = Some f" "i < 512" "512 * y + i \<in> M v"
  shows "pt_ok (put_entry f i 0 s) R (M(v := M v - {512 * y + i}))"
proof -
  let ?k = "512 * y + i" and ?s = "put_entry f i 0 s" and ?M = "M(v := M v - {512 * y + i})"
  note D = pt_okD [OF ok] and b = pt_baseD [OF pt_okD(1) [OF ok]]
  have live: "mm_live s m" using b(4) v by simp
  note W = leaf_write(2) [OF D(3) live f(1,2) _ order_refl, where e = 0]
  have "pt_leaf ?s ?M"
    unfolding pt_leaf_def put_entry_simps(2-4)
  proof (intro conjI allI impI)
    fix w k assume w: "vma_live s w" and k: "k \<in> ?M w"
    have kM: "k \<in> M w" using k by (cases "w = v") simp_all
    have "\<not> (vm_mm (vmas s w) = m \<and> k = ?k)"
    proof
      assume a: "vm_mm (vmas s w) = m \<and> k = ?k"
      then have "vm_mm (vmas s v) = vm_mm (vmas s w)" "?k \<in> M w" using kM v(2) by (simp_all only: simp_thms)
      from pt_leafD(3) [OF D(4) v(1) w this(1) f(3) this(2)] a k show False by simp
    qed
    then show "\<exists>q prot. vma_page (vmas s w) k = Some q \<and> prot_ok prot \<and> entm ?s (vm_mm (vmas s w)) 3 k = mk_pte q prot"
      using pt_leafD(1) [OF D(4) w kM] W [OF b(4) [OF w], of k] by auto
  next
    fix m' k assume m': "mm_live s m'" and none: "\<forall>w. vma_live s w \<longrightarrow> vm_mm (vmas s w) = m' \<longrightarrow> k \<notin> ?M w"
    show "entm ?s m' 3 k = 0"
    proof (cases "m' = m \<and> k = ?k")
      case False
      have "k \<notin> M w" if "vma_live s w" "vm_mm (vmas s w) = m'" for w
        using none that False v(2) by (cases "w = v") auto
      then have "entm s m' 3 k = 0" by (rule pt_leafD(2) [OF D(4) m'])
      then show ?thesis using W [OF m', of k] by simp
    qed (use W [OF m', of k] in simp)
  next
    fix a w assume a: "vma_live s a" "vma_live s w" "a \<noteq> w" "vm_mm (vmas s a) = vm_mm (vmas s w)"
    have "k \<notin> M w" if "k \<in> M a" for k using pt_leafD(3) [OF D(4) a(1,2,4) that] a(3) by blast
    then show "?M a \<inter> ?M w = {}" by auto
  qed
  moreover have "pt_up ?s R ?M" using D(6) unfolding pt_up_def by auto
  ultimately show ?thesis using leaf_others [OF ok live f(1,2)] by (simp add: pt_ok_def)
qed

end
