(* ===== verification/Pgt_Ops.thy ===== *)
theory Pgt_Ops
  imports Pgt_Steps
begin

text \<open>
  The code's table operations (\<^verbatim>\<open>pud_alloc\<close> and its copies, the ends of the unmapping functions) are the steps of
  \<open>Pgt_Steps\<close>.
\<close>

section \<open>Small updates\<close>

lemma pt_ok_kmallocs: "pt_ok s R M \<Longrightarrow> kmallocs s \<le> c \<Longrightarrow> pt_ok (s\<lparr>kmallocs := c\<rparr>) R M"
proof -
  let ?s = "s\<lparr>kmallocs := c\<rparr>"
  assume a: "pt_ok s R M" "kmallocs s \<le> c"
  have "pt_base ?s" using pt_okD(1) [OF a(1)] a(2) by (auto simp: pt_base_def)
  moreover have "pt_tabs ?s R" using pt_okD(2) [OF a(1)] by (simp add: pt_tabs_def users_def cong: option.case_cong)
  moreover have "pt_inj ?s" "pt_leaf ?s M" "pt_roots ?s R" "pt_up ?s R M" "pt_bytes ?s"
    using pt_okD(3-) [OF a(1)] by (simp_all add: pt_inj_def pt_leaf_def pt_roots_def pt_up_def pt_bytes_def tab_keys_def)
  ultimately show ?thesis by (simp add: pt_ok_def)
qed

lemma set_pgs_simps [simp]:
  "mms (set_pgs p s) = mms s" "vmas (set_pgs p s) = vmas s" "mm_live (set_pgs p s) = mm_live s" "vma_live (set_pgs p s) = vma_live s"
  "kmallocs (set_pgs p s) = kmallocs s" "kmalloc_ok (set_pgs p s) = kmalloc_ok s" "pgs (set_pgs p s) = p"
  by (simp_all add: set_pgs_def)

lemma tab_mem: "mem s' = mem s \<Longrightarrow> tab s' g n x = tab s g n x"
proof -
  assume m: "mem s' = mem s"
  show ?thesis by (rule tab_same [where N = n]) (rule entry_cong, simp only: m, rule order_refl)
qed

lemma ent_mem: "mem s' = mem s \<Longrightarrow> ent s' g n x = ent s g n x"
proof -
  assume m: "mem s' = mem s"
  show ?thesis unfolding ent_def tab_mem [OF m] entry_def m ..
qed

lemma table_held:
  assumes "pt_ok s R M" "mm_live s m" "n \<le> 3" "tabm s m n x = Some f"
  shows "\<exists>c. held (pgs s) f c" "f \<notin> page_pool (pgs s)" "f < 2 ^ 36"
proof -
  note D = pt_okD [OF assms(1)] and b = pt_baseD [OF pt_okD(1) [OF assms(1)]]
  have "(\<exists>c. held (pgs s) f c) \<and> f < 2 ^ 36"
  proof (cases "n = 0")
    case True
    then have "f = pgd (mms s m)" using assms(4) by (simp split: if_splits)
    then show ?thesis using b(6,7) [OF assms(2)] by auto
  next
    case False
    then have "lvl n" using assms(3) by (simp add: lvl_def)
    from pt_tabsD(2,3) [OF D(2) assms(2) this assms(4)] show ?thesis by auto
  qed
  then show "\<exists>c. held (pgs s) f c" "f \<notin> page_pool (pgs s)" "f < 2 ^ 36" using held_not_pool [OF b(1)] by auto
qed

text \<open>The page allocator may do its own work as long as what is held stays.\<close>

lemma pt_ok_pgs:
  assumes ok: "pt_ok s R M" and p: "pg_inv p" "page_pool p \<subseteq> page_pool (pgs s)" "mem p = mem (pgs s)"
    and h: "\<And>q c. held (pgs s) q c \<Longrightarrow> held p q c"
  shows "pt_ok (set_pgs p s) R M"
proof -
  note D = pt_okD [OF ok]
  have T: "tab p (pgd (mms s m)) n x = tabm s m n x" for m n x by (rule tab_mem [OF p(3)])
  have E: "ent p (pgd (mms s m)) n x = entm s m n x" for m n x by (rule ent_mem [OF p(3)])
  have U: "users (set_pgs p s) R = users s R" by (simp add: users_def fun_eq_iff)
  have "pt_base (set_pgs p s)" using D(1) p h by (auto simp: pt_base_def)
  moreover have "pt_tabs (set_pgs p s) R"
    unfolding pt_tabs_def U set_pgs_simps T E
  proof (intro allI impI)
    fix m n x assume m: "mm_live s m" "lvl n"
    show "case tabm s m n x of None \<Rightarrow> users s R m n x = {}
        | Some f \<Rightarrow> users s R m n x \<noteq> {} \<and> held p f (int (card (users s R m n x))) \<and> f < 2 ^ 36 \<and> entm s m (n - 1) x = table_entry f"
      using pt_tabs_None [OF D(2) m, of x] pt_tabsD [OF D(2) m, of x] h by (cases "tabm s m n x") auto
  qed
  moreover have "pt_inj (set_pgs p s)" using D(3) unfolding pt_inj_def set_pgs_simps T .
  moreover have "pt_leaf (set_pgs p s) M" using D(4) unfolding pt_leaf_def set_pgs_simps E .
  moreover have "pt_roots (set_pgs p s) R" using D(5) unfolding pt_roots_def set_pgs_simps T .
  moreover have "pt_up (set_pgs p s) R M" using D(6) unfolding pt_up_def set_pgs_simps .
  moreover have "pt_bytes (set_pgs p s)" using D(7) unfolding pt_bytes_def tab_keys_def set_pgs_simps T .
  ultimately show ?thesis by (simp add: pt_ok_def)
qed

lemma tables_cong:
  assumes "mm_live s' = mm_live s" "\<And>m n x. mm_live s m \<Longrightarrow> n \<le> 3 \<Longrightarrow> tabm s' m n x = tabm s m n x"
  shows "tables s' = tables s"
proof -
  have "mm_live s' m \<and> n \<le> 3 \<and> tabm s' m n x = Some q \<longleftrightarrow> mm_live s m \<and> n \<le> 3 \<and> tabm s m n x = Some q" for m n x q
    using assms(2) [of m n x] assms(1) by auto
  then show ?thesis by (simp only: tables_def)
qed

lemma tables_link:
  assumes r: "relink s s' v n x (Some g)" and "mm_live s (vm_mm (vmas s v))" "lvl n"
    "tabm s (vm_mm (vmas s v)) n x = Some g \<or> tabm s (vm_mm (vmas s v)) n x = None"
  shows "tables s' = insert g (tables s)"
proof -
  let ?m = "vm_mm (vmas s v)"
  have l: "mm_live s' = mm_live s" by (rule vm_keptD(10) [OF relinkD(1) [OF r]])
  have n: "n \<le> 3" using assms(3) by (simp add: lvl_def)
  have T: "tabm s' m' n' x' = (if m' = ?m \<and> n' = n \<and> x' = x then Some g else tabm s m' n' x')" if "mm_live s m'" "n' \<le> 3" for m' n' x'
    by (rule relinkD(2) [OF r that])
  have "q = g \<or> q \<in> tables s" if qt: "q \<in> tables s'" for q
  proof -
    obtain m' n' x' where q: "mm_live s m'" "n' \<le> 3" "tabm s' m' n' x' = Some q" using qt l by (auto simp: tables_def)
    then show ?thesis using T [OF q(1,2), of x'] by (auto simp: tables_def split: if_splits)
  qed
  moreover have "g \<in> tables s'" using T [OF assms(2) n, of x] assms(2) n l by (auto simp: tables_def)
  moreover have "q \<in> tables s'" if qt: "q \<in> tables s" for q
  proof -
    obtain m' n' x' where q: "mm_live s m'" "n' \<le> 3" "tabm s m' n' x' = Some q" using qt by (auto simp: tables_def)
    then have "tabm s' m' n' x' = Some q" using T [OF q(1,2), of x'] assms(4) by auto
    then show ?thesis using q l by (auto simp: tables_def)
  qed
  ultimately show ?thesis by blast
qed

lemma tables_unlink:
  assumes r: "relink s s' v n x None" and "mm_live s (vm_mm (vmas s v))" "lvl n" "pt_inj s" "tabm s (vm_mm (vmas s v)) n x = Some g"
  shows "tables s' = tables s - {g}"
proof -
  let ?m = "vm_mm (vmas s v)"
  have l: "mm_live s' = mm_live s" by (rule vm_keptD(10) [OF relinkD(1) [OF r]])
  have n: "n \<le> 3" using assms(3) by (simp add: lvl_def)
  have T: "tabm s' m' n' x' = (if m' = ?m \<and> n' = n \<and> x' = x then None else tabm s m' n' x')" if "mm_live s m'" "n' \<le> 3" for m' n' x'
    by (rule relinkD(2) [OF r that])
  have "q \<in> tables s - {g}" if qt: "q \<in> tables s'" for q
  proof -
    obtain m' n' x' where q: "mm_live s m'" "n' \<le> 3" "tabm s' m' n' x' = Some q" using qt l by (auto simp: tables_def)
    then have k: "\<not> (m' = ?m \<and> n' = n \<and> x' = x)" and t: "tabm s m' n' x' = Some q" using T [OF q(1,2), of x'] by (auto split: if_splits)
    have "q \<noteq> g" using pt_injD [OF assms(4) q(1) assms(2) q(2) n _ assms(5), of x'] t k by auto
    then show ?thesis using t q by (auto simp: tables_def)
  qed
  moreover have "q \<in> tables s'" if qt: "q \<in> tables s" "q \<noteq> g" for q
  proof -
    obtain m' n' x' where q: "mm_live s m'" "n' \<le> 3" "tabm s m' n' x' = Some q" using qt by (auto simp: tables_def)
    then have "tabm s' m' n' x' = Some q" using T [OF q(1,2), of x'] assms(5) qt(2) by auto
    then show ?thesis using q l by (auto simp: tables_def)
  qed
  ultimately show ?thesis by blast
qed

section \<open>Linking and unlinking a table\<close>

lemma entry_of_mem: "mem P = mem Q \<Longrightarrow> entry P f i = entry Q f i"
  by (simp add: entry_def)

lemma other_walks:
  assumes "\<And>n' y f' j. n' \<le> 3 \<Longrightarrow> tab s g n' y = Some f' \<Longrightarrow> entry P f' j = entry s f' j" "n \<le> 3"
  shows "tab P g n x = tab s g n x" "ent P g n x = ent s g n x"
proof -
  have t: "tab P g k z = tab s g k z" if "k \<le> 3" for k z
    by (rule tab_same [OF _ that]) (rule assms(1), simp_all)
  then show "tab P g n x = tab s g n x" using assms(2) by blast
  show "ent P g n x = ent s g n x"
    using t [OF assms(2), of "x div 512"] assms(1) [OF assms(2), of "x div 512"] by (auto simp: ent_def split: option.splits)
qed

lemma populate_walks:
  assumes ok: "pt_ok s R M" and m: "mm_live s m" and n: "lvl n" and f: "tabm s m (n - 1) y = Some f" "i < 512" "entry (pgs s) f i = 0"
    and p: "p \<in> page_pool (pgs s)" and Q: "mem Q = (mem (pgs s))(p := (\<lambda>_. 0))"
    and P: "mem P = mem (set_entry f i (table_entry p) Q)" and m': "mm_live s m'" "n' \<le> 3"
  shows "tab P (pgd (mms s m')) n' x = (if m' = m \<and> n' = n \<and> x = 512 * y + i then Some p else tabm s m' n' x)"
    "ent P (pgd (mms s m')) n' x = (if m' = m \<and> Suc n' = n \<and> x = 512 * y + i then table_entry p else entm s m' n' x)"
proof -
  have n3: "n - 1 \<le> 3" "n - 1 < 3" "Suc (n - 1) = n" using n by (auto simp: lvl_def)
  have pt: "tabm s m1 n1 y1 \<noteq> Some p" if "mm_live s m1" "n1 \<le> 3" for m1 n1 y1
    using table_held(2) [OF ok that] p by auto
  have fp: "f \<noteq> p" using pt [OF m n3(1), of y] f(1) by auto
  have e: "entry P f' j = entry (pgs s) f' j" if "f' \<noteq> p" "f' \<noteq> f \<or> j \<noteq> i" for f' j
  proof -
    have "entry P f' j = entry Q f' j" unfolding entry_of_mem [OF P] using that by (auto simp: entry_set_entry)
    also have "\<dots> = entry (pgs s) f' j" by (rule entry_cong) (simp add: Q that)
    finally show ?thesis .
  qed
  have e2: "entry P f i = table_entry p" unfolding entry_of_mem [OF P] by (simp add: entry_set_entry)
  have e3: "entry P p j = 0" for j
    unfolding entry_of_mem [OF P] using fp entry_zero [of Q p j] by (simp add: entry_set_entry Q)
  have p36: "p < 2 ^ 36" using pt_baseD(2) [OF pt_okD(1) [OF ok]] p by auto
  show "tab P (pgd (mms s m')) n' x = (if m' = m \<and> n' = n \<and> x = 512 * y + i then Some p else tabm s m' n' x)"
    "ent P (pgd (mms s m')) n' x = (if m' = m \<and> Suc n' = n \<and> x = 512 * y + i then table_entry p else entm s m' n' x)"
  proof (atomize (full), cases "m' = m")
    case True
    have u: "n1 = n - 1 \<and> y1 = y" if "n1 \<le> 3" "tabm s m n1 y1 = Some f" for n1 y1
      using pt_injD [OF pt_okD(3) [OF ok] m m that(1) n3(1) that(2) f(1)] by simp
    have "tab P (pgd (mms s m)) n' x = (if n' = Suc (n - 1) \<and> x = 512 * y + i then Some p else tabm s m n' x)"
      by (rule tab_populate [OF e e2 e3 p36 pt [OF m] u f(2) n3(2) f(1,3) m'(2)]) simp_all
    moreover have "ent P (pgd (mms s m)) n' x = (if n' = n - 1 \<and> x = 512 * y + i then table_entry p else entm s m n' x)"
      by (rule ent_populate [OF e e2 e3 p36 pt [OF m] u f(2) n3(2) f(1,3) m'(2)]) simp_all
    moreover have "n' = n - 1 \<longleftrightarrow> Suc n' = n" using n3 by auto
    ultimately show "tab P (pgd (mms s m')) n' x = (if m' = m \<and> n' = n \<and> x = 512 * y + i then Some p else tabm s m' n' x) \<and>
        ent P (pgd (mms s m')) n' x = (if m' = m \<and> Suc n' = n \<and> x = 512 * y + i then table_entry p else entm s m' n' x)"
      using True n3(3) by simp
  next
    case False
    have "entry P f' j = entry (pgs s) f' j" if "n1 \<le> 3" "tabm s m' n1 y1 = Some f'" for n1 y1 f' j
    proof (rule e)
      show "f' \<noteq> p" using pt [OF m'(1) that(1), of y1] that(2) by auto
      show "f' \<noteq> f \<or> j \<noteq> i" using pt_injD(1) [OF pt_okD(3) [OF ok] m'(1) m that(1) n3(1) that(2)] f(1) False by auto
    qed
    then have "tab P (pgd (mms s m')) n' x = tabm s m' n' x" "ent P (pgd (mms s m')) n' x = entm s m' n' x"
      by (rule other_walks [OF _ m'(2)], simp_all)+
    with False show "tab P (pgd (mms s m')) n' x = (if m' = m \<and> n' = n \<and> x = 512 * y + i then Some p else tabm s m' n' x) \<and>
        ent P (pgd (mms s m')) n' x = (if m' = m \<and> Suc n' = n \<and> x = 512 * y + i then table_entry p else entm s m' n' x)" by simp
  qed
qed

lemma unlink_walks:
  assumes ok: "pt_ok s R M" and m: "mm_live s m" and n: "lvl n" and f: "tabm s m (n - 1) y = Some f" "i < 512"
    and empty: "\<And>z. z div 512 = 512 * y + i \<Longrightarrow> entm s m n z = 0"
    and P: "mem P = mem (set_entry f i 0 (pgs s))" and m': "mm_live s m'" "n' \<le> 3"
  shows "tab P (pgd (mms s m')) n' x = (if m' = m \<and> n' = n \<and> x = 512 * y + i then None else tabm s m' n' x)"
    "ent P (pgd (mms s m')) n' x = (if m' = m \<and> Suc n' = n \<and> x = 512 * y + i then 0 else entm s m' n' x)"
proof -
  have n3: "n - 1 \<le> 3" "n - 1 < 3" "Suc (n - 1) = n" using n by (auto simp: lvl_def)
  have e: "entry P f' j = entry (pgs s) f' j" if "f' \<noteq> f \<or> j \<noteq> i" for f' j
    unfolding entry_of_mem [OF P] using that by (auto simp: entry_set_entry)
  have e2: "entry P f i = 0" unfolding entry_of_mem [OF P] by (simp add: entry_set_entry)
  show "tab P (pgd (mms s m')) n' x = (if m' = m \<and> n' = n \<and> x = 512 * y + i then None else tabm s m' n' x)"
    "ent P (pgd (mms s m')) n' x = (if m' = m \<and> Suc n' = n \<and> x = 512 * y + i then 0 else entm s m' n' x)"
  proof (atomize (full), cases "m' = m")
    case True
    have u: "n1 = n - 1 \<and> y1 = y" if "n1 \<le> 3" "tabm s m n1 y1 = Some f" for n1 y1
      using pt_injD [OF pt_okD(3) [OF ok] m m that(1) n3(1) that(2) f(1)] by simp
    have emp: "entm s m (Suc (n - 1)) z = 0" if "z div 512 = 512 * y + i" for z using empty [OF that] n3(3) by simp
    have "tab P (pgd (mms s m)) n' x = (if n' = Suc (n - 1) \<and> x = 512 * y + i then None else tabm s m n' x)"
      by (rule tab_unlink [OF e e2 u f(2) n3(2) f(1) emp m'(2)]) (simp_all add: n3)
    moreover have "ent P (pgd (mms s m)) n' x = (if n' = n - 1 \<and> x = 512 * y + i then 0 else entm s m n' x)"
      by (rule ent_unlink [OF e e2 u f(2) n3(2) f(1) emp m'(2)]) (simp_all add: n3)
    moreover have "n' = n - 1 \<longleftrightarrow> Suc n' = n" using n3 by auto
    ultimately show "tab P (pgd (mms s m')) n' x = (if m' = m \<and> n' = n \<and> x = 512 * y + i then None else tabm s m' n' x) \<and>
        ent P (pgd (mms s m')) n' x = (if m' = m \<and> Suc n' = n \<and> x = 512 * y + i then 0 else entm s m' n' x)"
      using True n3(3) by simp
  next
    case False
    have "entry P f' j = entry (pgs s) f' j" if "n1 \<le> 3" "tabm s m' n1 y1 = Some f'" for n1 y1 f' j
      using pt_injD(1) [OF pt_okD(3) [OF ok] m'(1) m that(1) n3(1) that(2)] f(1) False by (intro e) auto
    then have "tab P (pgd (mms s m')) n' x = tabm s m' n' x" "ent P (pgd (mms s m')) n' x = entm s m' n' x"
      by (rule other_walks [OF _ m'(2)], simp_all)+
    with False show "tab P (pgd (mms s m')) n' x = (if m' = m \<and> n' = n \<and> x = 512 * y + i then None else tabm s m' n' x) \<and>
        ent P (pgd (mms s m')) n' x = (if m' = m \<and> Suc n' = n \<and> x = 512 * y + i then 0 else entm s m' n' x)" by simp
  qed
qed

end
