(* ===== verification/Pgt_Alloc.thy ===== *)
theory Pgt_Alloc
  imports Pgt_Ops
begin

text \<open>
  \<^verbatim>\<open>pud_alloc\<close>, \<^verbatim>\<open>pmd_alloc\<close>, \<^verbatim>\<open>pte_alloc\<close> and their inverses never fail a \<^verbatim>\<open>BUG_ON\<close>, keep the invariant of the page tables,
  and lose no frame.
\<close>

section \<open>What one operation on behalf of an area may change\<close>

text \<open>
  \<open>vm_step v s R M s' R' M'\<close>: the invariant holds afterwards, other areas use and map what they did, a table
  that stays in use is the same frame, and a page table entry changes only when area \<open>v\<close> maps or
  unmaps its page.
\<close>

definition vm_step :: "nat \<Rightarrow> vm \<Rightarrow> uses \<Rightarrow> maps \<Rightarrow> vm \<Rightarrow> uses \<Rightarrow> maps \<Rightarrow> bool" where
  "vm_step v s R M s' R' M' \<longleftrightarrow> pt_ok s' R' M' \<and> vm_kept s s' \<and> frames_kept s s' \<and>
     (\<forall>w. w \<noteq> v \<longrightarrow> R' w = R w \<and> M' w = M w) \<and>
     (\<forall>m n x. mm_live s m \<longrightarrow> lvl n \<longrightarrow> users s R m n x \<inter> users s' R' m n x \<noteq> {} \<longrightarrow> tabm s' m n x = tabm s m n x) \<and>
     (\<forall>m k. mm_live s m \<longrightarrow> (m = vm_mm (vmas s v) \<longrightarrow> (k \<in> M v \<longleftrightarrow> k \<in> M' v)) \<longrightarrow> entm s' m 3 k = entm s m 3 k)"

lemma vm_stepD:
  assumes "vm_step v s R M s' R' M'"
  shows "pt_ok s' R' M'" "vm_kept s s'" "frames_kept s s'" "w \<noteq> v \<Longrightarrow> R' w = R w" "w \<noteq> v \<Longrightarrow> M' w = M w"
    "mm_live s m \<Longrightarrow> lvl n \<Longrightarrow> w \<in> users s R m n x \<Longrightarrow> w \<in> users s' R' m n x \<Longrightarrow> tabm s' m n x = tabm s m n x"
    "mm_live s m \<Longrightarrow> (m = vm_mm (vmas s v) \<Longrightarrow> k \<in> M v \<longleftrightarrow> k \<in> M' v) \<Longrightarrow> entm s' m 3 k = entm s m 3 k"
proof -
  show "pt_ok s' R' M'" "vm_kept s s'" "frames_kept s s'" "w \<noteq> v \<Longrightarrow> R' w = R w" "w \<noteq> v \<Longrightarrow> M' w = M w"
    using assms by (simp_all add: vm_step_def)
  show "mm_live s m \<Longrightarrow> lvl n \<Longrightarrow> w \<in> users s R m n x \<Longrightarrow> w \<in> users s' R' m n x \<Longrightarrow> tabm s' m n x = tabm s m n x"
    using assms unfolding vm_step_def by blast
  show "mm_live s m \<Longrightarrow> (m = vm_mm (vmas s v) \<Longrightarrow> k \<in> M v \<longleftrightarrow> k \<in> M' v) \<Longrightarrow> entm s' m 3 k = entm s m 3 k"
    using assms unfolding vm_step_def by blast
qed

lemma vm_stepI:
  assumes "pt_ok s' R' M'" "vm_kept s s'" "frames_kept s s'" "\<And>w. w \<noteq> v \<Longrightarrow> R' w = R w" "\<And>w. w \<noteq> v \<Longrightarrow> M' w = M w"
    "\<And>m n x w. mm_live s m \<Longrightarrow> lvl n \<Longrightarrow> w \<in> users s R m n x \<Longrightarrow> w \<in> users s' R' m n x \<Longrightarrow> tabm s' m n x = tabm s m n x"
    "\<And>m k. mm_live s m \<Longrightarrow> (m = vm_mm (vmas s v) \<Longrightarrow> k \<in> M v \<longleftrightarrow> k \<in> M' v) \<Longrightarrow> entm s' m 3 k = entm s m 3 k"
  shows "vm_step v s R M s' R' M'"
  unfolding vm_step_def using assms by blast

lemma vm_step_refl: "pt_ok s R M \<Longrightarrow> vm_step v s R M s R M"
  by (simp add: vm_step_def)

lemma unmapped_zero:
  assumes "pt_ok s R M" "mm_live s m" "\<And>w. vma_live s w \<Longrightarrow> vm_mm (vmas s w) = m \<Longrightarrow> k \<notin> M w"
  shows "entm s m 3 k = 0"
  by (rule pt_leafD(2) [OF pt_okD(4) [OF assms(1)] assms(2,3)])

lemma vm_step_trans:
  assumes 1: "vm_step v s R M s1 R1 M1" and 2: "vm_step v s1 R1 M1 s2 R2 M2" and ok: "pt_ok s R M" and v: "vma_live s v"
    and mono: "\<And>n x. x \<in> R v n \<Longrightarrow> x \<in> R2 v n \<Longrightarrow> x \<in> R1 v n" "\<And>k. k \<in> M v \<Longrightarrow> k \<in> M2 v \<Longrightarrow> k \<in> M1 v"
  shows "vm_step v s R M s2 R2 M2"
  unfolding vm_step_def
proof (intro conjI allI impI)
  note a = vm_stepD [OF 1] and b = vm_stepD [OF 2] and k1 = vm_keptD [OF vm_stepD(2) [OF 1]] and k2 = vm_keptD [OF vm_stepD(2) [OF 2]]
  show "pt_ok s2 R2 M2" by (rule b(1))
  show "vm_kept s s2" by (rule vm_kept_trans [OF a(2) b(2)])
  show "frames_kept s s2" by (rule frames_kept_trans [OF a(3) b(3)])
  show "R2 w = R w" "M2 w = M w" if "w \<noteq> v" for w using a(4,5) b(4,5) that by simp_all
  show "tabm s2 m n x = tabm s m n x" if m: "mm_live s m" and n: "lvl n" and u: "users s R m n x \<inter> users s2 R2 m n x \<noteq> {}" for m n x
  proof -
    obtain w where w: "w \<in> users s R m n x" "w \<in> users s2 R2 m n x" using u by blast
    have "x \<in> R1 w n" using w a(4) [of w] mono(1) [of x n] by (cases "w = v") (auto simp: users_def)
    then have w1: "w \<in> users s1 R1 m n x" using w(1) by (simp add: users_def k1)
    show ?thesis using a(6) [OF m n w(1) w1] b(6) [OF _ n w1 w(2)] m by (simp add: k1)
  qed
  show "entm s2 m 3 k = entm s m 3 k" if m: "mm_live s m" and k: "m = vm_mm (vmas s v) \<longrightarrow> (k \<in> M v \<longleftrightarrow> k \<in> M2 v)" for m k
  proof (cases "m = vm_mm (vmas s v) \<and> k \<notin> M v \<and> k \<in> M1 v")
    case True
    have free: "k \<notin> M w" if "vma_live s w" "vm_mm (vmas s w) = m" "w \<noteq> v" for w
      using pt_leafD(3) [OF pt_okD(4) [OF a(1)], of v w k] that v True a(5) [OF that(3)] by (auto simp: k1)
    have "entm s m 3 k = 0" using unmapped_zero [OF ok m, of k] free True by metis
    moreover have "k \<notin> M2 w" if "vma_live s w" "vm_mm (vmas s w) = m" for w
      using free [OF that] True k a(5) [of w] b(5) [of w] by (cases "w = v") auto
    then have "entm s2 m 3 k = 0" using unmapped_zero [OF b(1), of m k] m by (simp add: k1 k2)
    ultimately show ?thesis by simp
  next
    case False
    then have "m = vm_mm (vmas s v) \<Longrightarrow> (k \<in> M v \<longleftrightarrow> k \<in> M1 v) \<and> (k \<in> M1 v \<longleftrightarrow> k \<in> M2 v)" using k mono(2) [of k] by blast
    then show ?thesis using a(7) [OF m, of k] b(7) [of m k] m by (simp add: k1)
  qed
qed

lemma frames_kept_link:
  assumes "pg_inv (pgs s)" "tables s' = insert g (tables s)" "page_pool (pgs s') = page_pool (pgs s) - {g}"
    "g \<in> page_pool (pgs s) \<union> tables s"
    and "\<And>p c. p \<noteq> g \<Longrightarrow> held (pgs s) p c \<Longrightarrow> held (pgs s') p c"
      "\<And>p. p \<noteq> g \<Longrightarrow> p \<notin> tables s \<Longrightarrow> mem (pgs s') p = mem (pgs s) p"
  shows "frames_kept s s'"
  unfolding frames_kept_def
proof (intro conjI allI impI)
  show "page_pool (pgs s') \<union> tables s' = page_pool (pgs s) \<union> tables s" unfolding assms(2,3) using assms(4) by auto
  fix p c assume p: "held (pgs s) p c" "p \<notin> tables s"
  have ne: "p \<noteq> g" using held_not_pool [OF assms(1) p(1)] p(2) assms(4) by auto
  show "held (pgs s') p c" by (rule assms(5) [OF ne p(1)])
  show "p \<notin> tables s'" unfolding assms(2) using ne p(2) by simp
  show "mem (pgs s') p = mem (pgs s) p" by (rule assms(6) [OF ne p(2)])
qed

lemma frames_kept_same:
  assumes "tables s' = tables s" "page_pool (pgs s') = page_pool (pgs s)"
    and "\<And>p c. p \<notin> tables s \<Longrightarrow> held (pgs s) p c \<Longrightarrow> held (pgs s') p c" "\<And>p. p \<notin> tables s \<Longrightarrow> mem (pgs s') p = mem (pgs s) p"
  shows "frames_kept s s'"
  unfolding frames_kept_def assms(1,2) by (simp add: assms(3,4))

section \<open>An area starts to use a table\<close>

lemma vm_step_kmalloc: "pt_ok s R M \<Longrightarrow> kmallocs s \<le> c \<Longrightarrow> vm_step v s R M (s\<lparr>kmallocs := c\<rparr>) R M"
  using pt_ok_kmallocs [of s R M c] by (auto simp: vm_step_def vm_kept_def frames_kept_def tables_def)

lemma vm_step_add:
  assumes ok: "pt_ok s R M" and v: "vma_live s v" "m = vm_mm (vmas s v)" and r: "relink s s' v n x (Some g)" and n: "lvl n"
    and x: "x \<notin> R v n" and ok': "pt_ok s' (add_use R v n x) M" and old: "tabm s m n x = Some g \<or> tabm s m n x = None"
    and fk: "tables s' = insert g (tables s) \<Longrightarrow> frames_kept s s'"
  shows "vm_step v s R M s' (add_use R v n x) M" "tabm s' m n x = Some g"
proof -
  have live: "mm_live s m" using pt_baseD(4) [OF pt_okD(1) [OF ok]] v by simp
  have n3: "n \<le> 3" using n by (simp add: lvl_def)
  show "tabm s' m n x = Some g" using relinkD(2) [OF r live n3, of x] v(2) by simp
  have fr: "frames_kept s s'" using fk tables_link [OF r _ n] live old v(2) by simp
  have en: "entm s' m' 3 k = entm s m' 3 k" if "mm_live s m'" for m' k using relinkD(3) [OF r that, of 3 k] n by (auto simp: lvl_def)
  have ta: "tabm s' m' n' x' = tabm s m' n' x'" if "mm_live s m'" "lvl n'" "w \<in> users s R m' n' x'" for m' n' x' w
  proof -
    have "tabm s m' n' x' \<noteq> None" using pt_tabs_None [OF pt_okD(2) [OF ok] that(1,2)] that(3) by blast
    then show ?thesis using relinkD(2) [OF r that(1), of n' x'] that(2) old v(2) by (auto simp: lvl_def)
  qed
  show "vm_step v s R M s' (add_use R v n x) M"
    by (rule vm_stepI [OF ok' relinkD(1) [OF r] fr _ _ ta en]) (auto simp: add_use_def)
qed

lemma root_link:
  assumes ok: "pt_ok s R M" and v: "vma_live s v" "m = vm_mm (vmas s v)" and n: "lvl n" and x: "x \<notin> R v n"
    and g: "\<And>x'. tabm s m n x' = Some g \<Longrightarrow> x' = x"
  shows "\<exists>t. rb_insert_at (page_probe g) g (table_root n (vmas s v)) = Some (t, True) \<and>
    remembers t (insert g {f. \<exists>x\<in>R v n. tabm s m n x = Some f})"
proof (rule remembers_insert)
  show "remembers (table_root n (vmas s v)) {f. \<exists>x\<in>R v n. tabm s m n x = Some f}"
    using pt_okD(5) [OF ok] v n unfolding pt_roots_def by blast
  show "g \<notin> {f. \<exists>x\<in>R v n. tabm s m n x = Some f}" using g x by auto
qed

lemma vm_upd_simps [simp]:
  "pgs (upd_vma v h s) = pgs s" "mms (upd_vma v h s) = mms s" "mm_live (upd_vma v h s) = mm_live s" "vma_live (upd_vma v h s) = vma_live s"
  "kmallocs (upd_vma v h s) = kmallocs s" "kmalloc_ok (upd_vma v h s) = kmalloc_ok s" "vmas (upd_vma v h s) = (vmas s)(v := h (vmas s v))"
  "pgs (upd_mm m k s) = pgs s" "vmas (upd_mm m k s) = vmas s" "mm_live (upd_mm m k s) = mm_live s" "vma_live (upd_mm m k s) = vma_live s"
  "kmallocs (upd_mm m k s) = kmallocs s" "kmalloc_ok (upd_mm m k s) = kmalloc_ok s" "mms (upd_mm m k s) = (mms s)(m := k (mms s m))"
  by (simp_all add: upd_vma_def upd_mm_def)

lemma link_old:
  assumes ok: "pt_ok s R M" and v: "vma_live s v" "m = vm_mm (vmas s v)" and n: "lvl n" and x: "x \<notin> R v n" "n \<noteq> 1 \<Longrightarrow> x div 512 \<in> R v (n - 1)"
    and g: "tabm s m n x = Some g" and c: "c = int (card (users s R m n x))"
    and t: "remembers t (insert g {f. \<exists>x\<in>R v n. tabm s m n x = Some f})"
    and s': "s' = upd_vma v (set_table_root n t) (set_pgs (with_count g (c + 1) (pgs s)) s)"
  shows "vm_step v s R M s' (add_use R v n x) M" "tabm s' m n x = Some g"
proof -
  note D = pt_okD [OF ok] and b = pt_baseD [OF pt_okD(1) [OF ok]]
  have live: "mm_live s m" using b(4) v by simp
  have n3: "n \<le> 3" "1 \<le> n" using n by (simp_all add: lvl_def)
  note G = pt_tabsD [OF D(2) live n g]
  note W = frame_count [OF b(1) G(2) [folded c], where m = "c + 1"]
  have P: "pgs s' = with_count g (c + 1) (pgs s)" by (simp add: s')
  have T: "tab (pgs s') d n' x' = tab (pgs s) d n' x'" for d n' x' by (rule tab_mem) (simp only: P W(4))
  have E: "ent (pgs s') d n' x' = ent (pgs s) d n' x'" for d n' x' by (rule ent_mem) (simp only: P W(4))
  have mms': "mms s' = mms s" by (simp add: s')
  have k: "vm_kept s s'" by (simp add: s' vm_kept_def)
  have rt: "table_root l (vmas s' w) = table_root l (vmas s w)" if "(w, l) \<noteq> (v, n)" "lvl l" for w l
    using that n by (auto simp: s')
  have "tabm s' m' n' x' = (if m' = m \<and> n' = n \<and> x' = x then Some g else tabm s m' n' x')" for m' n' x'
    unfolding mms' T using g by auto
  moreover have "entm s' m' n' x' = (if m' = m \<and> Suc n' = n \<and> x' = x then table_entry g else entm s m' n' x')" for m' n' x'
    unfolding mms' E using G(4) by auto
  ultimately have r: "relink s s' v n x (Some g)" using k rt v(2) unfolding relink_def by simp
  have u: "m' = m \<and> n' = n \<and> x' = x" if "mm_live s m'" "n' \<le> 3" "tabm s m' n' x' = Some g" for m' n' x'
    using pt_injD [OF D(3) that(1) live that(2) n3(1) that(3) g] by simp
  have ok': "pt_ok s' (add_use R v n x) M"
  proof (rule pt_ok_add [OF ok v r n x u])
    show "pg_inv (pgs s')" "page_pool (pgs s') \<subseteq> page_pool (pgs s)" "held (pgs s') g (int (card (users s R m n x)) + 1)"
      using W by (simp_all add: P c)
    show "held (pgs s') p e" if "p \<noteq> g" "held (pgs s) p e" for p e using W(3) [OF that] by (simp add: P)
    show "remembers (table_root n (vmas s' v)) (insert g {f. \<exists>x\<in>R v n. tabm s m n x = Some f})" using t n by (simp add: s')
  qed (use g G(3) mms' in simp_all)
  have fk: "frames_kept s s'" if "tables s' = insert g (tables s)"
  proof (rule frames_kept_same)
    have gt: "g \<in> tables s" using live n3(1) g by (auto simp: tables_def)
    then show "tables s' = tables s" using that by auto
    show "held (pgs s') p e" if "p \<notin> tables s" "held (pgs s) p e" for p e using W(3) [of p e] that gt by (auto simp: P)
  qed (use W(4,5) P in simp_all)
  show "vm_step v s R M s' (add_use R v n x) M" "tabm s' m n x = Some g"
    using vm_step_add [OF ok v r n x(1) ok' _ fk] g by simp_all
qed

lemma link_new:
  assumes ok: "pt_ok s R M" and v: "vma_live s v" "m = vm_mm (vmas s v)" and n: "lvl n" and x: "x \<notin> R v n" "n \<noteq> 1 \<Longrightarrow> x div 512 \<in> R v (n - 1)"
    and f: "tabm s m (n - 1) y = Some f" "i < 512" "entry (pgs s) f i = 0" "x = 512 * y + i"
    and p: "pg_inv Q" "\<And>q e. held (pgs s) q e \<Longrightarrow> held Q q e" "held Q p 1" "p \<in> page_pool (pgs s)" "page_pool Q = page_pool (pgs s) - {p}"
      "mem Q = (mem (pgs s))(p := (\<lambda>_. 0))"
    and t: "remembers t (insert p {f. \<exists>x\<in>R v n. tabm s m n x = Some f})"
    and s': "s' = inc_tables v (set_pgs (set_entry f i (table_entry p) Q) (upd_vma v (set_table_root n t) s0))" "s0 = set_pgs Q s"
  shows "vm_step v s R M s' (add_use R v n x) M" "tabm s' m n x = Some p"
proof -
  note D = pt_okD [OF ok] and b = pt_baseD [OF pt_okD(1) [OF ok]]
  have live: "mm_live s m" using b(4) v by simp
  have n3: "n \<le> 3" "1 \<le> n" "n - 1 \<le> 3" "n = Suc (n - 1)" using n by (auto simp: lvl_def)
  have P: "pgs s' = set_entry f i (table_entry p) Q" by (simp add: s' inc_tables_def)
  have vm: "vm_mm (set_table_root n t (vmas s v)) = m" using v(2) core_vma_fields(3) [OF core_set_root] by blast
  have mms': "mms s' = (mms s)(m := (mms s m)\<lparr>pgtables_bytes := pgtables_bytes (mms s m) + 4096\<rparr>)"
    by (simp add: s' inc_tables_def vm)
  have d: "pgd (mms s' m') = pgd (mms s m')" for m' by (simp add: mms')
  note W = populate_walks [OF ok live n f(1-3) p(4,6) refl, folded P f(4)]
  have k: "vm_kept s s'" by (simp add: vm_kept_def mms' core_mm_def) (simp add: s' inc_tables_def)
  have rt: "table_root l (vmas s' w) = table_root l (vmas s w)" if "(w, l) \<noteq> (v, n)" "lvl l" for w l
    using that n by (auto simp: s' inc_tables_def)
  have r: "relink s s' v n x (Some p)" unfolding relink_def d using k rt v(2) W by simp
  have u: "tabm s m' n' x' \<noteq> Some p" if "mm_live s m'" "n' \<le> 3" for m' n' x' using table_held(2) [OF ok that] p(4) by auto
  have none: "tabm s m n x = None"
    using tab_digit [OF f(2), of "pgs s" "pgd (mms s m)" "n - 1" y] f n3(4) by simp
  have c0: "int (card (users s R m n x)) = 0" using pt_tabs_None [OF D(2) live n none] by simp
  have ok': "pt_ok s' (add_use R v n x) M"
  proof (rule pt_ok_add [OF ok v r n x])
    show "pg_inv (pgs s')" "page_pool (pgs s') \<subseteq> page_pool (pgs s)" "held (pgs s') p (int (card (users s R m n x)) + 1)"
      unfolding c0 using p by (simp_all add: P)
    show "held (pgs s') q e" if "q \<noteq> p" "held (pgs s) q e" for q e using p(2) [OF that(2)] by (simp add: P)
    show "remembers (table_root n (vmas s' v)) (insert p {f. \<exists>x\<in>R v n. tabm s m n x = Some f})" using t n by (simp add: s' inc_tables_def)
    show "p < 2 ^ 36" using b(2) p(4) by auto
    show "pgtables_bytes (mms s' m') = pgtables_bytes (mms s m') + (if m' = m \<and> tabm s m n x = None then 4096 else 0)" for m'
      using none by (simp add: mms')
  qed (use u none in auto)
  have fk: "frames_kept s s'" if "tables s' = insert p (tables s)"
  proof (rule frames_kept_link [OF b(1) that])
    show "page_pool (pgs s') = page_pool (pgs s) - {p}" using p(5) by (simp add: P)
    have ft: "f \<in> tables s" using live n3(3) f(1) by (auto simp: tables_def)
    show "mem (pgs s') q = mem (pgs s) q" if "q \<noteq> p" "q \<notin> tables s" for q
      using that ft mem_set_entry [of q f i "table_entry p" Q] by (auto simp: P p(6))
  qed (use p in \<open>simp_all add: P\<close>)
  show "vm_step v s R M s' (add_use R v n x) M" "tabm s' m n x = Some p"
    using vm_step_add [OF ok v r n x(1) ok' _ fk] none by simp_all
qed

lemma table_alloc_ok:
  assumes ok: "pt_ok s R M" and v: "vma_live s v" "m = vm_mm (vmas s v)" and n: "lvl n" and x: "x \<notin> R v n" "n \<noteq> 1 \<Longrightarrow> x div 512 \<in> R v (n - 1)"
    and f: "tabm s m (n - 1) y = Some f" "i < 512" "x = 512 * y + i"
  shows "\<exists>s' r. table_alloc n cpu v (f, i) addr s = Some (s', r) \<and>
    (case r of
       None \<Rightarrow> vm_step v s R M s' R M
     | Some (g, j) \<Rightarrow> j = table_index n addr \<and> tabm s' m n x = Some g \<and> vm_step v s R M s' (add_use R v n x) M)"
proof -
  define s1 where "s1 = s\<lparr>kmallocs := Suc (kmallocs s)\<rparr>"
  have st1: "vm_step v s R M s1 R M" unfolding s1_def by (rule vm_step_kmalloc [OF ok]) simp
  note ok1 = vm_stepD(1) [OF st1]
  have same: "pgs s1 = pgs s" "vmas s1 = vmas s" "mms s1 = mms s" "vma_live s1 = vma_live s" by (simp_all add: s1_def)
  have v1: "vma_live s1 v" "m = vm_mm (vmas s1 v)" and f1: "tabm s1 m (n - 1) y = Some f" using v f(1) by (simp_all add: same)
  have n3: "n - 1 \<le> 3" "n = Suc (n - 1)" "n \<le> 3" using n by (auto simp: lvl_def)
  note D = pt_okD [OF ok1] and b = pt_baseD [OF pt_okD(1) [OF ok1]]
  have live: "mm_live s1 m" using b(4) v1 by simp
  let ?e = "entry (pgs s1) f i"
  have tx: "tabm s1 m n x = (if ?e = 0 then None else Some (entry_page ?e))"
    using tab_digit [OF f(2), of "pgs s1" "pgd (mms s1 m)" "n - 1" y] f1 n3(2) f(3) by simp
  consider "\<not> kmalloc_ok s (kmallocs s)" | "kmalloc_ok s (kmallocs s)" "?e \<noteq> 0" | "kmalloc_ok s (kmallocs s)" "?e = 0" by blast
  then show ?thesis
  proof cases
    case 1
    then show ?thesis using st1 by (auto simp: table_alloc_def kmalloc_def s1_def)
  next
    case 2
    let ?g = "entry_page ?e" and ?c = "int (card (users s1 R m n x))"
    have g: "tabm s1 m n x = Some ?g" using 2 tx by simp
    note G = pt_tabsD [OF D(2) live n g]
    have pos: "0 < ?c" using G(1) finite_users [OF D(1), of R m n x] by (simp add: card_gt_0_iff)
    obtain t where t: "rb_insert_at (page_probe ?g) ?g (table_root n (vmas s1 v)) = Some (t, True)"
      "remembers t (insert ?g {f. \<exists>x\<in>R v n. tabm s1 m n x = Some f})"
      using root_link [OF ok1 v1 n x(1), of ?g] pt_injD(3) [OF D(3) live live n3(3,3) _ g] by blast
    define s2 where "s2 = upd_vma v (set_table_root n t) (set_pgs (with_count ?g (?c + 1) (pgs s1)) s1)"
    note L = link_old [OF ok1 v1 n x g refl t(2) s2_def]
    have "entry (pgs s2) f i = ?e" by (rule entry_of_mem) (simp add: s2_def with_count_def)
    then have "table_alloc n cpu v (f, i) addr s = Some (s2, Some (?g, table_index n addr))"
      using 2 t(1) frame_get [OF G(2) pos]
      by (simp add: table_alloc_def kmalloc_def vma_insert_table_def table_offset_def s2_def Let_def flip: s1_def)
    moreover have "vm_step v s R M s2 (add_use R v n x) M" by (rule vm_step_trans [OF st1 L(1) ok v(1)])
    ultimately show ?thesis using L(2) by auto
  next
    case 3
    have z: "((GFP_KERNEL OR GFP_ZERO) AND GFP_ZERO \<noteq> 0) = True" by simp
    obtain Q r where Q: "alloc_pages cpu (GFP_KERNEL OR GFP_ZERO) 0 (pgs s1) = Some (Q, r)" "pg_inv Q" "\<And>p c. held (pgs s1) p c \<Longrightarrow> held Q p c"
      "case r of
         None \<Rightarrow> mem Q = mem (pgs s1) \<and> page_pool Q = page_pool (pgs s1)
       | Some p \<Rightarrow> held Q p 1 \<and> p \<in> page_pool (pgs s1) \<and> page_pool Q = page_pool (pgs s1) - {p} \<and> mem Q = (mem (pgs s1))(p := (\<lambda>_. 0))"
      using frame_alloc [OF b(1), of cpu "GFP_KERNEL OR GFP_ZERO"] unfolding z if_True by blast
    show ?thesis
    proof (cases r)
      case None
      have ok2: "pt_ok (set_pgs Q s1) R M" using pt_ok_pgs [OF ok1 Q(2) _ _ Q(3)] Q(4) None by simp
      have T: "tab Q d n' x' = tab (pgs s1) d n' x'" for d n' x' using tab_mem [of Q "pgs s1"] Q(4) None by simp
      have "tables (set_pgs Q s1) = tables s1" by (rule tables_cong) (simp_all add: T)
      moreover have "ent Q d n' x' = ent (pgs s1) d n' x'" for d n' x' using ent_mem [of Q "pgs s1"] Q(4) None by simp
      ultimately have "vm_step v s1 R M (set_pgs Q s1) R M"
        using ok2 Q(3,4) None T by (simp add: vm_step_def vm_kept_def frames_kept_def)
      then have "vm_step v s R M (set_pgs Q s1) R M" by (rule vm_step_trans [OF st1 _ ok v(1)])
      then show ?thesis using 3 Q(1) None by (simp add: table_alloc_def kmalloc_def flip: s1_def)
    next
      case (Some p)
      then have p: "held Q p 1" "p \<in> page_pool (pgs s1)" "page_pool Q = page_pool (pgs s1) - {p}" "mem Q = (mem (pgs s1))(p := (\<lambda>_. 0))"
        using Q(4) by auto
      have np: "tabm s1 m n x' \<noteq> Some p" for x' using table_held(2) [OF ok1 live n3(3)] p(2) by auto
      obtain t where t: "rb_insert_at (page_probe p) p (table_root n (vmas s1 v)) = Some (t, True)"
        "remembers t (insert p {f. \<exists>x\<in>R v n. tabm s1 m n x = Some f})"
        using root_link [OF ok1 v1 n x(1), of p] np by blast
      define s2 where "s2 = inc_tables v (set_pgs (set_entry f i (table_entry p) Q) (upd_vma v (set_table_root n t) (set_pgs Q s1)))"
      note L = link_new [OF ok1 v1 n x f1 f(2) 3(2) f(3) Q(2,3) p t(2) s2_def refl]
      have "p < 2 ^ 36" using b(2) p(2) by auto
      then have "entry_page (entry (pgs s2) f i) = p" by (simp add: s2_def inc_tables_def entry_set_entry table_entry_page)
      then have "table_alloc n cpu v (f, i) addr s = Some (s2, Some (p, table_index n addr))"
        using 3 t(1) Q(1) Some by (simp add: table_alloc_def kmalloc_def vma_insert_table_def table_offset_def s2_def Let_def flip: s1_def)
      moreover have "vm_step v s R M s2 (add_use R v n x) M" by (rule vm_step_trans [OF st1 L(1) ok v(1)])
      ultimately show ?thesis using L(2) by auto
    qed
  qed
qed

section \<open>An area stops to use a table\<close>

text \<open>A table whose only user has nothing below it is empty.\<close>

lemma no_children:
  assumes ok: "pt_ok s R M" and m: "mm_live s m" and n: "lvl n" and u: "users s R m n x = {v}"
    and child: "\<And>y. lvl (Suc n) \<Longrightarrow> y \<in> R v (Suc n) \<Longrightarrow> y div 512 \<noteq> x" "\<And>k. n = 3 \<Longrightarrow> k \<in> M v \<Longrightarrow> k div 512 \<noteq> x"
    and z: "z div 512 = x"
  shows "entm s m n z = 0"
proof (rule ccontr)
  assume e: "entm s m n z \<noteq> 0"
  note D = pt_okD [OF ok]
  have only: "w = v" if "vma_live s w" "vm_mm (vmas s w) = m" "x \<in> R w n" for w using that u by (auto simp: users_def)
  show False
  proof (cases "n = 3")
    case True
    obtain w where w: "vma_live s w" "vm_mm (vmas s w) = m" "z \<in> M w" using pt_leafD(2) [OF D(4) m, of z] e True by blast
    then have "x \<in> R w 3" using D(6) z unfolding pt_up_def by blast
    then show False using only [of w] w child(2) [of z] True z by simp
  next
    case False
    then have n': "lvl (Suc n)" using n by (simp add: lvl_def)
    have "tabm s m (Suc n) z \<noteq> None" using e tab_ent [of "pgs s" "pgd (mms s m)" n z] by simp
    then obtain w where w: "vma_live s w" "vm_mm (vmas s w) = m" "z \<in> R w (Suc n)"
      using pt_tabsD(1) [OF D(2) m n'] by (fastforce simp: users_def)
    then have "x \<in> R w n" using D(6) z n n' unfolding pt_up_def by blast
    then show False using only [of w] w child(1) [OF n'] z by simp
  qed
qed

definition freed :: "nat \<Rightarrow> nat \<Rightarrow> nat \<Rightarrow> int \<Rightarrow> pg_data \<Rightarrow> pg_data \<Rightarrow> bool" where
  "freed f i g c P P' \<longleftrightarrow> pg_inv P' \<and> (\<forall>q e. q \<noteq> g \<longrightarrow> held P q e \<longrightarrow> held P' q e) \<and>
     (if c = 1 then mem P' = mem (set_entry f i 0 P) \<and> page_pool P' = insert g (page_pool P)
      else mem P' = mem P \<and> page_pool P' = page_pool P \<and> held P' g (c - 1))"

lemma put_table_ok:
  assumes "pg_inv Q" "held Q g c" "0 < c"
  shows "\<exists>P. (\<forall>s. pgs s = Q \<longrightarrow> put_table cpu v (f, i) g s = Some (if c = 1 then dec_tables v (set_pgs P s) else set_pgs P s)) \<and>
    freed f i g c Q P"
proof -
  note z = frame_testzero [OF assms(2,3)] and w = frame_count [OF assms(1,2), where m = "c - 1"]
  show ?thesis
  proof (cases "c = 1")
    case False
    then show ?thesis using z w by (intro exI [of _ "with_count g (c - 1) Q"]) (simp add: put_table_def freed_def)
  next
    case True
    let ?P = "set_entry f i 0 (with_count g 0 Q)"
    have i: "pg_inv ?P" "held ?P g 0" using w True by simp_all
    obtain P where P: "put_page_now cpu g ?P = Some P" "pg_inv P" "\<forall>q n. q \<noteq> g \<longrightarrow> held ?P q n \<longrightarrow> held P q n" "mem P = mem ?P"
      "page_pool P = insert g (page_pool ?P)" using frame_free [OF i, of cpu] by blast
    have "mem ?P = mem (set_entry f i 0 Q)" by (simp add: set_entry_def with_count_def upd_page_def cong: if_cong)
    then have "freed f i g c Q P" using P w True by (simp add: freed_def)
    then show ?thesis using z P(1) True by (auto simp: put_table_def)
  qed
qed

lemma unlink_relink:
  assumes ok: "pt_ok s R M" and v: "vma_live s v" "m = vm_mm (vmas s v)" and n: "lvl n" and x: "x \<in> R v n" "tabm s m n x = Some g"
    and child: "\<And>y. lvl (Suc n) \<Longrightarrow> y \<in> R v (Suc n) \<Longrightarrow> y div 512 \<noteq> x" "\<And>k. n = 3 \<Longrightarrow> k \<in> M v \<Longrightarrow> k div 512 \<noteq> x"
    and f: "tabm s m (n - 1) y = Some f" "i < 512" "x = 512 * y + i"
    and c: "c = int (card (users s R m n x))" and P: "freed f i g c (pgs s) P"
    and s': "vm_kept s s'" "pgs s' = P" "\<And>w k. (w, k) \<noteq> (v, n) \<Longrightarrow> lvl k \<Longrightarrow> table_root k (vmas s' w) = table_root k (vmas s w)"
  shows "relink s s' v n x (if users s R m n x = {v} then None else Some g)" "c = 1 \<longleftrightarrow> users s R m n x = {v}"
proof -
  note D = pt_okD [OF ok] and b = pt_baseD [OF pt_okD(1) [OF ok]] and k = vm_keptD [OF s'(1)]
  have live: "mm_live s m" using b(4) v by simp
  have vu: "v \<in> users s R m n x" using v x(1) by (simp add: users_def)
  show c1: "c = 1 \<longleftrightarrow> users s R m n x = {v}" using vu c by (auto simp: card_1_singleton_iff)
  show "relink s s' v n x (if users s R m n x = {v} then None else Some g)"
  proof (cases "users s R m n x = {v}")
    case True
    have m': "mem P = mem (set_entry f i 0 (pgs s))" using P True c1 by (simp add: freed_def)
    have em: "entm s m n z = 0" if "z div 512 = 512 * y + i" for z
      using no_children [OF ok live n True child] that f(3) by simp
    note W = unlink_walks [OF ok live n f(1,2) em m', folded f(3)]
    show ?thesis unfolding relink_def k s'(2) using W s'(1,3) v(2) True by simp
  next
    case False
    have m': "mem P = mem (pgs s)" using P False c1 by (simp add: freed_def)
    note G = pt_tabsD [OF D(2) live n x(2)]
    have T: "tab P d n' x' = tab (pgs s) d n' x'" "ent P d n' x' = ent (pgs s) d n' x'" for d n' x' by (rule tab_mem ent_mem, rule m')+
    show ?thesis unfolding relink_def k s'(2) T using s'(1,3) x(2) G(4) v(2) False by auto
  qed
qed

lemma unlink_step:
  assumes ok: "pt_ok s R M" and v: "vma_live s v" "m = vm_mm (vmas s v)" and n: "lvl n" and x: "x \<in> R v n" "tabm s m n x = Some g"
    and child: "\<And>y. lvl (Suc n) \<Longrightarrow> y \<in> R v (Suc n) \<Longrightarrow> y div 512 \<noteq> x" "\<And>k. n = 3 \<Longrightarrow> k \<in> M v \<Longrightarrow> k div 512 \<noteq> x"
    and f: "tabm s m (n - 1) y = Some f" "i < 512" "x = 512 * y + i"
    and c: "c = int (card (users s R m n x))" and P: "freed f i g c (pgs s) P"
    and t: "remembers t ({f. \<exists>x\<in>R v n. tabm s m n x = Some f} - {g})"
    and s': "s' = (if c = 1 then dec_tables v s0 else s0)" "s0 = set_pgs P (upd_vma v (set_table_root n t) s)"
  shows "vm_step v s R M s' (del_use R v n x) M"
proof -
  note D = pt_okD [OF ok] and b = pt_baseD [OF pt_okD(1) [OF ok]]
  have live: "mm_live s m" using b(4) v by simp
  have n3: "n \<le> 3" "1 \<le> n" "n - 1 \<le> 3" "n - 1 \<noteq> n" using n by (auto simp: lvl_def)
  have vm: "vm_mm (set_table_root n t (vmas s v)) = m" using v(2) core_vma_fields(3) [OF core_set_root] by blast
  have mms': "mms s' = (if c = 1 then (mms s)(m := (mms s m)\<lparr>pgtables_bytes := pgtables_bytes (mms s m) - 4096\<rparr>) else mms s)"
    by (simp add: s' dec_tables_def vm)
  have k: "vm_kept s s'" by (simp add: vm_kept_def mms' core_mm_def) (simp add: s' dec_tables_def)
  have Ps: "pgs s' = P" by (simp add: s' dec_tables_def)
  have vs: "vmas s' = (vmas s)(v := set_table_root n t (vmas s v))" by (simp add: s' dec_tables_def)
  have rt: "table_root l (vmas s' w) = table_root l (vmas s w)" if "(w, l) \<noteq> (v, n)" "lvl l" for w l
    using that n by (auto simp: vs)
  note r = unlink_relink [OF ok v n x child f c P k Ps rt]
  note G = pt_tabsD [OF D(2) live n x(2)]
  have pool: "page_pool P \<subseteq> insert g (page_pool (pgs s))" using P by (auto simp: freed_def split: if_splits)
  have ok': "pt_ok s' (del_use R v n x) M"
  proof (rule pt_ok_del [OF ok v n x child refl r(1)])
    show "pg_inv (pgs s')" using P by (simp add: Ps freed_def)
    show "page_pool (pgs s') \<subseteq> {..<2 ^ 36}" using pool b(2) G(3) by (auto simp: Ps)
    show "held (pgs s') q e" if "q \<noteq> g" "held (pgs s) q e" for q e using P that by (simp add: Ps freed_def)
    show "held (pgs s') g (int (card (users s R m n x)) - 1)" if "(if users s R m n x = {v} then None else Some g) \<noteq> None"
      using that P r(2) c by (simp add: Ps freed_def split: if_splits)
    show "remembers (table_root n (vmas s' v)) ({f. \<exists>x\<in>R v n. tabm s m n x = Some f} - {g})" using t n by (simp add: vs)
    show "pgtables_bytes (mms s' m') = pgtables_bytes (mms s m') -
        (if m' = m \<and> (if users s R m n x = {v} then None else Some g) = None then 4096 else 0)" for m' using r(2) by (simp add: mms')
  qed
  have gt: "g \<in> tables s" and ft: "f \<in> tables s" using live n3 x(2) f(1) by (auto simp: tables_def)
  have me: "mem P q = mem (pgs s) q" if "q \<notin> tables s" for q
    using P that ft mem_set_entry [of q f i 0 "pgs s"] by (auto simp: freed_def split: if_splits)
  have he: "held P q e" if "q \<notin> tables s" "held (pgs s) q e" for q e using P that gt by (auto simp: freed_def)
  have "tables s' \<subseteq> tables s \<and> page_pool P \<union> tables s' = page_pool (pgs s) \<union> tables s"
  proof (cases "users s R m n x = {v}")
    case True
    then have "tables s' = tables s - {g}" using tables_unlink [of s s' v n x g] r(1) live n D(3) x(2) v(2) by simp
    then show ?thesis using P True r(2) gt by (auto simp: freed_def)
  next
    case False
    then have "tables s' = insert g (tables s)" using tables_link [of s s' v n x g] r(1) live n x(2) v(2) by simp
    then show ?thesis using P False r(2) gt by (auto simp: freed_def)
  qed
  then have fr: "frames_kept s s'" using me he unfolding frames_kept_def Ps by blast
  have en: "entm s' m' 3 k = entm s m' 3 k" if "mm_live s m'" for m' k using relinkD(3) [OF r(1) that, of 3 k] n by (auto simp: lvl_def)
  have ta: "tabm s' m' n' x' = tabm s m' n' x'"
    if "mm_live s m'" "lvl n'" "w \<in> users s R m' n' x'" "w \<in> users s' (del_use R v n x) m' n' x'" for m' n' x' w
  proof (cases "m' = m \<and> n' = n \<and> x' = x")
    case True
    have "w \<noteq> v" using that(4) True by (auto simp: users_def del_use_def)
    then have "users s R m n x \<noteq> {v}" using that(3) True by blast
    then show ?thesis using relinkD(2) [OF r(1) live n3(1), of x] x(2) v(2) True by simp
  next
    case False
    then show ?thesis using relinkD(2) [OF r(1) that(1), of n' x'] that(2) v(2) by (auto simp: lvl_def)
  qed
  show ?thesis by (rule vm_stepI [OF ok' k fr _ _ ta en]) (auto simp: del_use_def)
qed

lemma used_table:
  assumes ok: "pt_ok s R M" and v: "vma_live s v" "m = vm_mm (vmas s v)" and n: "lvl n" and x: "x \<in> R v n"
  shows "\<exists>g. tabm s m n x = Some g"
proof -
  have "v \<in> users s R m n x" using v x by (simp add: users_def)
  moreover have "mm_live s m" using pt_baseD(4) [OF pt_okD(1) [OF ok]] v by simp
  ultimately show ?thesis using pt_tabs_None [OF pt_okD(2) [OF ok] _ n, of m x] by (cases "tabm s m n x") auto
qed

lemma table_free_ok:
  assumes ok: "pt_ok s R M" and v: "vma_live s v" "m = vm_mm (vmas s v)" and n: "lvl n" and x: "x \<in> R v n"
    and child: "\<And>y. lvl (Suc n) \<Longrightarrow> y \<in> R v (Suc n) \<Longrightarrow> y div 512 \<noteq> x" "\<And>k. n = 3 \<Longrightarrow> k \<in> M v \<Longrightarrow> k div 512 \<noteq> x"
    and f: "tabm s m (n - 1) y = Some f" "i < 512" "x = 512 * y + i"
  shows "\<exists>s'. table_free n cpu v (f, i) s = Some s' \<and> bad_table_free n cpu v (f, i) s = Some s' \<and> vm_step v s R M s' (del_use R v n x) M"
proof -
  note D = pt_okD [OF ok] and b = pt_baseD [OF pt_okD(1) [OF ok]]
  have live: "mm_live s m" using b(4) v by simp
  have n3: "n - 1 \<le> 3" "n = Suc (n - 1)" "n \<le> 3" using n by (auto simp: lvl_def)
  obtain g where g: "tabm s m n x = Some g" using used_table [OF ok v n x] by blast
  have e: "entry_page (entry (pgs s) f i) = g"
    using tab_digit [OF f(2), of "pgs s" "pgd (mms s m)" "n - 1" y] f n3(2) g by (simp split: if_splits)
  have rem: "remembers (table_root n (vmas s v)) {f. \<exists>x\<in>R v n. tabm s m n x = Some f}"
    using D(5) v n unfolding pt_roots_def by blast
  have gin: "g \<in> {f. \<exists>x\<in>R v n. tabm s m n x = Some f}" using g x by blast
  obtain u q t where t: "rb_find (page_probe g) (table_root n (vmas s v)) = Some (u, q)" "rb_erase u q = Some t"
    "remembers t ({f. \<exists>x\<in>R v n. tabm s m n x = Some f} - {g})" using remembers_erase [OF rem gin] by blast
  define c where "c = int (card (users s R m n x))"
  note G = pt_tabsD [OF D(2) live n g, folded c_def]
  have pos: "0 < c" using G(1) finite_users [OF D(1), of R m n x] by (simp add: c_def card_gt_0_iff)
  obtain P where P: "\<And>s'. pgs s' = pgs s \<Longrightarrow>
      put_table cpu v (f, i) g s' = Some (if c = 1 then dec_tables v (set_pgs P s') else set_pgs P s')" "freed f i g c (pgs s) P"
    using put_table_ok [OF b(1) G(2) pos, of cpu v f i] by blast
  let ?h = "upd_vma v (set_table_root n t)"
  define s0 where "s0 = set_pgs P (?h s)"
  have vm: "vm_mm (set_table_root n t (vmas s v)) = vm_mm (vmas s v)" by (rule core_vma_fields(3) [OF core_set_root])
  have comm: "?h (set_pgs P s) = s0" "?h (dec_tables v (set_pgs P s)) = dec_tables v s0"
    using vm by (simp_all add: s0_def set_pgs_def upd_vma_def dec_tables_def upd_mm_def)
  have put': "put_table cpu v (f, i) g (?h s) = Some (if c = 1 then dec_tables v s0 else s0)"
    using P(1) [of "?h s"] by (simp add: s0_def)
  have "vm_step v s R M (if c = 1 then dec_tables v s0 else s0) (del_use R v n x) M"
    by (rule unlink_step [OF ok v n x g child f c_def P(2) t(3) refl s0_def])
  moreover have "table_free n cpu v (f, i) s = Some (if c = 1 then dec_tables v s0 else s0)"
    using t put' e by (simp add: table_free_def vma_find_table_def vma_erase_table_def)
  moreover have "bad_table_free n cpu v (f, i) s = Some (if c = 1 then dec_tables v s0 else s0)"
    using t P(1) [OF refl] comm e by (simp add: bad_table_free_def vma_find_table_def vma_erase_table_def Let_def)
  ultimately show ?thesis by blast
qed

lemma bad_table_free_unused:
  assumes ok: "pt_ok s R M" and v: "vma_live s v" "m = vm_mm (vmas s v)" and n: "lvl n" and x: "x \<notin> R v n"
    and f: "tabm s m (n - 1) y = Some f" "i < 512" "x = 512 * y + i" "entry (pgs s) f i \<noteq> 0"
  shows "bad_table_free n cpu v (f, i) s = Some s"
proof -
  note D = pt_okD [OF ok] and b = pt_baseD [OF pt_okD(1) [OF ok]]
  have live: "mm_live s m" using b(4) v by simp
  have n3: "n - 1 \<le> 3" "n = Suc (n - 1)" "n \<le> 3" using n by (auto simp: lvl_def)
  let ?g = "entry_page (entry (pgs s) f i)"
  have g: "tabm s m n x = Some ?g" using tab_digit [OF f(2), of "pgs s" "pgd (mms s m)" "n - 1" y] f n3(2) by simp
  have rem: "remembers (table_root n (vmas s v)) {f. \<exists>x\<in>R v n. tabm s m n x = Some f}"
    using D(5) v n unfolding pt_roots_def by blast
  have "?g \<notin> {f. \<exists>x\<in>R v n. tabm s m n x = Some f}" using x pt_injD(3) [OF D(3) live live n3(3,3) _ g] by blast
  then have "rb_find (page_probe ?g) (table_root n (vmas s v)) = None" using remembers_find [OF rem] by blast
  then show ?thesis by (simp add: bad_table_free_def vma_find_table_def Let_def)
qed

end
