(* ===== verification/Pgt_Unmap.thy ===== *)
theory Pgt_Unmap
  imports Pgt_Alloc
begin

text \<open>
  Unmapping an area, whole (\<^verbatim>\<open>vumap_page_range\<close>) or after a mapping that stopped half way
  (\<^verbatim>\<open>vmap_free_bad_area\<close>): the loops end, no \<^verbatim>\<open>BUG_ON\<close> is hit, and exactly what the area used is given back.
\<close>

section \<open>The pages below a table\<close>

definition key :: "nat \<Rightarrow> nat \<Rightarrow> nat" where
  "key l k = k div 512 ^ (4 - l)"

lemma key_extent: "n \<le> 3 \<Longrightarrow> key (Suc n) k = k div extent n"
  by (simp add: key_def extent_def)

lemma key_up: "n \<le> 3 \<Longrightarrow> key n k = key (Suc n) k div 512"
proof -
  assume "n \<le> 3"
  then have "4 - n = Suc (4 - Suc n)" by simp
  then show ?thesis unfolding key_def by (simp only: power_Suc2 div_mult2_eq)
qed

lemma key_below: "n \<le> l \<Longrightarrow> l \<le> 4 \<Longrightarrow> key l k = key l k' \<Longrightarrow> key n k = key n k'"
proof (induction "l - n" arbitrary: n)
  case (Suc d)
  then show ?case using key_up [of n k] key_up [of n k'] Suc.hyps(1) [of "Suc n"] by simp
qed simp

lemma key_0: "k < 2 ^ 36 \<Longrightarrow> key 0 k = 0"
  by (simp add: key_def)

lemma key_4: "key 4 k = k"
  by (simp add: key_def)

lemma key_3: "key 3 k = k div 512"
  by (simp add: key_def)

text \<open>
  \<open>chunk va vb n x a b\<close>: of the pages from \<open>va\<close> to \<open>vb\<close>, those below table \<open>x\<close> of level \<open>n\<close> are the ones from \<open>a\<close> to \<open>b\<close>.
\<close>

definition chunk :: "nat \<Rightarrow> nat \<Rightarrow> nat \<Rightarrow> nat \<Rightarrow> nat \<Rightarrow> nat \<Rightarrow> bool" where
  "chunk va vb n x a b \<longleftrightarrow> a < b \<and> (\<forall>k. a \<le> k \<and> k < b \<longleftrightarrow> va \<le> k \<and> k < vb \<and> key n k = x)"

lemma chunkD:
  assumes "chunk va vb n x a b"
  shows "a \<le> k \<and> k < b \<longleftrightarrow> va \<le> k \<and> k < vb \<and> key n k = x" "a < b" "va \<le> a" "b \<le> vb" "key n a = x"
proof -
  show A: "a \<le> k \<and> k < b \<longleftrightarrow> va \<le> k \<and> k < vb \<and> key n k = x" for k using assms by (simp add: chunk_def)
  show "a < b" using assms by (simp add: chunk_def)
  then show "va \<le> a" "b \<le> vb" "key n a = x" using A [of a] A [of "b - 1"] by auto
qed

lemma chunk_whole: "va < vb \<Longrightarrow> vb \<le> 2 ^ 36 \<Longrightarrow> chunk va vb 0 0 va vb"
  by (auto simp: chunk_def key_0)

lemma next_mod: "Suc i div 512 = i div 512 \<Longrightarrow> Suc i mod 512 = Suc (i mod 512)" for i :: nat
proof -
  assume d: "Suc i div 512 = i div 512"
  have "Suc i = Suc i div 512 * 512 + Suc i mod 512" "i = i div 512 * 512 + i mod 512" by simp_all
  with d show ?thesis by linarith
qed

text \<open>The part of a chunk that one entry covers, and what comes after it.\<close>

lemma chunk_entry:
  assumes ch: "chunk va vb n y a0 b" and n: "n \<le> 3" and a: "a0 \<le> a" "a < b" "a = a0 \<or> extent n dvd a"
    and c: "c = min (Suc (a div extent n) * extent n) b"
  shows "chunk va vb (Suc n) (a div extent n) a c" "c \<le> b" "a div extent n div 512 = y"
    "c \<noteq> b \<Longrightarrow> extent n dvd c \<and> c div extent n mod 512 = Suc (a div extent n mod 512) \<and> c < b"
proof -
  let ?e = "extent n"
  note C = chunkD(1) [OF ch]
  have e: "0 < ?e" by simp
  have key: "key (Suc n) k = k div ?e" "key n k = k div ?e div 512" for k using key_extent [OF n] key_up [OF n] by simp_all
  have lo: "a \<le> k" if "k div ?e = a div ?e" "a0 \<le> k" for k
    using a(3) that by (metis dvd_div_mult_self div_times_less_eq_dividend)
  have hi: "k < Suc (a div ?e) * ?e \<longleftrightarrow> k div ?e \<le> a div ?e" for k
    using div_less_iff_less_mult [OF e, of k "Suc (a div ?e)"] by (simp only: less_Suc_eq_le)
  show y: "a div ?e div 512 = y" using C [of a] a by (simp add: key)
  show "c \<le> b" by (simp add: c)
  have "a < c" using a(2) hi [of a] by (simp add: c)
  moreover have "a \<le> k \<and> k < c \<longleftrightarrow> va \<le> k \<and> k < vb \<and> k div ?e = a div ?e" for k
  proof
    assume k: "a \<le> k \<and> k < c"
    then have "k div ?e \<le> a div ?e" "a div ?e \<le> k div ?e" using hi [of k] div_le_mono [of a k] by (simp_all add: c)
    then show "va \<le> k \<and> k < vb \<and> k div ?e = a div ?e" using C [of k] k a(1) by (simp add: c)
  next
    assume k: "va \<le> k \<and> k < vb \<and> k div ?e = a div ?e"
    then have "a0 \<le> k \<and> k < b" using C [of k] y by (simp add: key)
    then show "a \<le> k \<and> k < c" using lo [of k] hi [of k] k by (simp add: c)
  qed
  ultimately show "chunk va vb (Suc n) (a div ?e) a c" by (simp add: chunk_def key)
  show "?e dvd c \<and> c div ?e mod 512 = Suc (a div ?e mod 512) \<and> c < b" if "c \<noteq> b"
  proof -
    have cc: "c = Suc (a div ?e) * ?e" "c < b" using that by (auto simp: c min_def split: if_splits)
    then have q: "c div ?e = Suc (a div ?e)" by simp
    have "Suc (a div ?e) div 512 = a div ?e div 512" using C [of c] cc(2) \<open>a < c\<close> a(1) y q by (simp add: key)
    then have "Suc (a div ?e) mod 512 = Suc (a div ?e mod 512)" by (rule next_mod)
    then show ?thesis using cc q by simp
  qed
qed

section \<open>What an area uses\<close>

definition cut_uses :: "uses \<Rightarrow> nat \<Rightarrow> nat \<Rightarrow> nat set \<Rightarrow> uses" where
  "cut_uses R v n S = (\<lambda>w l. if w = v \<and> n \<le> l \<and> lvl l then R w l - key l ` S else R w l)"

text \<open>\<open>area_in s R M v va vb\<close>: what area \<open>v\<close> uses is for its pages, from \<open>va\<close> to \<open>vb\<close>, and no other area maps those.\<close>

definition area_in :: "vm \<Rightarrow> uses \<Rightarrow> maps \<Rightarrow> nat \<Rightarrow> nat \<Rightarrow> nat \<Rightarrow> bool" where
  "area_in s R M v va vb \<longleftrightarrow> pt_ok s R M \<and> vma_live s v \<and> vb \<le> 2 ^ 36 \<and>
     (\<forall>l. lvl l \<longrightarrow> R v l \<subseteq> key l ` {va..<vb}) \<and> M v \<subseteq> {va..<vb} \<and>
     (\<forall>w. vma_live s w \<longrightarrow> w \<noteq> v \<longrightarrow> vm_mm (vmas s w) = vm_mm (vmas s v) \<longrightarrow> (\<forall>k. va \<le> k \<longrightarrow> k < vb \<longrightarrow> k \<notin> M w))"

lemma area_inD:
  assumes "area_in s R M v va vb"
  shows "pt_ok s R M" "vma_live s v" "vb \<le> 2 ^ 36" "lvl l \<Longrightarrow> R v l \<subseteq> key l ` {va..<vb}" "M v \<subseteq> {va..<vb}"
    "vma_live s w \<Longrightarrow> w \<noteq> v \<Longrightarrow> vm_mm (vmas s w) = vm_mm (vmas s v) \<Longrightarrow> va \<le> k \<Longrightarrow> k < vb \<Longrightarrow> k \<notin> M w"
    "mm_live s (vm_mm (vmas s v))"
proof -
  show a: "pt_ok s R M" "vma_live s v" "vb \<le> 2 ^ 36" "lvl l \<Longrightarrow> R v l \<subseteq> key l ` {va..<vb}" "M v \<subseteq> {va..<vb}"
    using assms by (simp_all add: area_in_def)
  show "vma_live s w \<Longrightarrow> w \<noteq> v \<Longrightarrow> vm_mm (vmas s w) = vm_mm (vmas s v) \<Longrightarrow> va \<le> k \<Longrightarrow> k < vb \<Longrightarrow> k \<notin> M w"
    using assms unfolding area_in_def by blast
  show "mm_live s (vm_mm (vmas s v))" by (rule pt_baseD(4) [OF pt_okD(1) [OF a(1)] a(2)])
qed

lemma area_in_step:
  assumes "area_in s R M v va vb" "vm_step v s R M s' R' M'" "\<And>l. lvl l \<Longrightarrow> R' v l \<subseteq> key l ` {va..<vb}" "M' v \<subseteq> {va..<vb}"
  shows "area_in s' R' M' v va vb"
proof -
  note k = vm_keptD [OF vm_stepD(2) [OF assms(2)]]
  have "M' w = M w" if "w \<noteq> v" for w using vm_stepD(5) [OF assms(2) that] .
  then show ?thesis using assms(1,3,4) vm_stepD(1) [OF assms(2)] unfolding area_in_def k by simp
qed

lemma up_chain:
  assumes "pt_up s R M" "vma_live s v"
  shows "lvl l \<Longrightarrow> lvl n \<Longrightarrow> n \<le> l \<Longrightarrow> key l k \<in> R v l \<Longrightarrow> key n k \<in> R v n" "lvl n \<Longrightarrow> k \<in> M v \<Longrightarrow> key n k \<in> R v n"
proof -
  show up: "lvl l \<Longrightarrow> lvl n \<Longrightarrow> n \<le> l \<Longrightarrow> key l k \<in> R v l \<Longrightarrow> key n k \<in> R v n" for l
  proof (induction "l - n" arbitrary: n)
    case (Suc d)
    have l: "lvl (Suc n)" "n \<le> 3" using Suc by (auto simp: lvl_def)
    then have "key (Suc n) k \<in> R v (Suc n)" using Suc.hyps(1) [of "Suc n"] Suc.hyps(2) Suc.prems by simp
    then show ?case using assms Suc.prems(2) l key_up [OF l(2), of k] unfolding pt_up_def by auto
  qed simp
  assume "lvl n" "k \<in> M v"
  moreover have "key 3 k \<in> R v 3" using assms \<open>k \<in> M v\<close> unfolding pt_up_def key_3 by blast
  ultimately show "key n k \<in> R v n" using up [of 3] by (simp add: lvl_def)
qed

text \<open>A table that is not linked has nothing of the area below it.\<close>

lemma cut_none:
  assumes ok: "pt_ok s R M" and v: "vma_live s v" and n: "lvl n" and x: "x \<notin> R v n" and ch: "chunk va vb n x a b"
  shows "cut_uses R v n {a..<b} = R" "M v - {a..<b} = M v"
proof -
  have no: "key l k \<notin> R v l" if "n \<le> l" "lvl l" "a \<le> k" "k < b" for l k
    using up_chain(1) [OF pt_okD(6) [OF ok] v that(2) n that(1)] x chunkD(1) [OF ch, of k] that by auto
  then show "cut_uses R v n {a..<b} = R" by (auto simp: cut_uses_def fun_eq_iff)
  have "k \<notin> M v" if "a \<le> k" "k < b" for k
    using up_chain(2) [OF pt_okD(6) [OF ok] v n, of k] x chunkD(1) [OF ch, of k] that by auto
  then show "M v - {a..<b} = M v" by auto
qed

lemma cut_cut: "cut_uses (cut_uses R v n S) v n T = cut_uses R v n (S \<union> T)"
  by (auto simp: cut_uses_def fun_eq_iff)

lemma cut_sub: "cut_uses R v n S w l \<subseteq> R w l"
  by (auto simp: cut_uses_def)

lemma cut_other: "w \<noteq> v \<or> l < n \<Longrightarrow> cut_uses R v n S w l = R w l"
  by (auto simp: cut_uses_def)

text \<open>A table in use before and after a step is where it was.\<close>

lemma step_tab:
  assumes st: "vm_step v s R M s' R' M'" and ok: "pt_ok s R M" and m: "mm_live s m" and n: "n \<le> 3" and f: "tabm s m n y = Some f"
    and R: "\<And>w. lvl n \<Longrightarrow> y \<in> R w n \<Longrightarrow> y \<in> R' w n"
  shows "tabm s' m n y = Some f"
proof (cases "n = 0")
  case True
  then show ?thesis using f vm_keptD(9) [OF vm_stepD(2) [OF st], of m] by simp
next
  case False
  then have l: "lvl n" using n by (simp add: lvl_def)
  obtain w where w: "w \<in> users s R m n y" using pt_tabsD(1) [OF pt_okD(2) [OF ok] m l f] by blast
  then have "w \<in> users s' R' m n y" using R [OF l] vm_keptD [OF vm_stepD(2) [OF st]] by (auto simp: users_def)
  then show ?thesis using vm_stepD(6) [OF st m l w] f by simp
qed

section \<open>Clearing entries\<close>

lemma tab_lvl:
  "lvl n \<Longrightarrow> tab s g n x = (case tab s g (n - 1) (x div 512) of
     None \<Rightarrow> None | Some f \<Rightarrow> if entry s f (x mod 512) = 0 then None else Some (entry_page (entry s f (x mod 512))))"
  by (cases n) simp_all

lemma ent_at: "tab s g n y = Some f \<Longrightarrow> i < 512 \<Longrightarrow> ent s g n (512 * y + i) = entry s f i"
proof -
  assume "tab s g n y = Some f" "i < 512"
  moreover from this have "(512 * y + i) mod 512 = i" "(512 * y + i) div 512 = y" using mod_mult_self4 [of 512 y i] by simp_all
  ultimately show ?thesis by (simp only: ent_def option.case)
qed

lemma leaf_step:
  assumes ok: "pt_ok s R M" and v: "vma_live s v" "m = vm_mm (vmas s v)" and f: "tabm s m 3 y = Some f" "i < 512"
    and ok': "pt_ok (put_entry f i e s) R M'" and M': "\<And>w. w \<noteq> v \<Longrightarrow> M' w = M w" "512 * y + i \<in> M v \<longleftrightarrow> 512 * y + i \<notin> M' v"
  shows "vm_step v s R M (put_entry f i e s) R M'"
proof -
  have live: "mm_live s m" using pt_baseD(4) [OF pt_okD(1) [OF ok]] v by simp
  note W = leaf_write [OF pt_okD(3) [OF ok] live f]
  show ?thesis
  proof (rule vm_stepI [OF ok' put_entry_kept leaf_frames [OF pt_okD(3) [OF ok] live f] refl M'(1)])
    show "tabm (put_entry f i e s) m' n' x' = tabm s m' n' x'" if "mm_live s m'" "lvl n'" for m' n' x'
      using W(1) [OF that(1)] that(2) by (simp add: lvl_def)
    show "entm (put_entry f i e s) m' 3 k = entm s m' 3 k"
      if "mm_live s m'" "m' = vm_mm (vmas s v) \<Longrightarrow> k \<in> M v \<longleftrightarrow> k \<in> M' v" for m' k
    proof -
      have "\<not> (m' = m \<and> k = 512 * y + i)" using that(2) M'(2) v(2) by metis
      then show ?thesis using W(2) [OF that(1) order_refl, of e k] by auto
    qed
  qed
qed

lemma unmap_one:
  assumes a: "area_in s R M v va vb" and m: "m = vm_mm (vmas s v)" and f: "tabm s m 3 (k div 512) = Some f" and k: "va \<le> k" "k < vb"
  shows "vm_step v s R M (if entry (pgs s) f (k mod 512) = 0 then s else set_pgs (set_entry f (k mod 512) 0 (pgs s)) s) R (M(v := M v - {k}))"
proof -
  note A = area_inD [OF a] and D = pt_okD [OF area_inD(1) [OF a]]
  have live: "mm_live s m" using A(7) m by simp
  have kk: "512 * (k div 512) + k mod 512 = k" "k mod 512 < 512" by simp_all
  have e: "entm s m 3 k = entry (pgs s) f (k mod 512)" using ent_at [OF f kk(2)] kk(1) by simp
  show ?thesis
  proof (cases "entry (pgs s) f (k mod 512) = 0")
    case True
    have "k \<notin> M v"
    proof
      assume "k \<in> M v"
      from pt_leafD(1) [OF D(4) A(2) this] True e m mk_pte_nonzero show False by auto
    qed
    then have "M(v := M v - {k}) = M" by auto
    then show ?thesis using True vm_step_refl [OF A(1)] by simp
  next
    case False
    have km: "k \<in> M v"
    proof (rule ccontr)
      assume n: "k \<notin> M v"
      have "k \<notin> M w" if "vma_live s w" "vm_mm (vmas s w) = m" for w
        using A(6) [OF that(1) _ _ k] n that(2) m by (cases "w = v") auto
      from unmapped_zero [OF A(1) live this] e False show False by simp
    qed
    have "pt_ok (put_entry f (k mod 512) 0 s) R (M(v := M v - {k}))"
      using pt_ok_unmap [OF A(1,2) m f kk(2)] km kk(1) by simp
    from leaf_step [OF A(1,2) m f kk(2) this] km kk(1) False show ?thesis by (simp add: put_entry_def)
  qed
qed

lemma vunmap_pte_loop_ok:
  assumes "area_in s R M v va vb" "m = vm_mm (vmas s v)" "tabm s m 3 y = Some f" "va \<le> a" "a < b" "b \<le> vb"
    "\<And>k. a \<le> k \<Longrightarrow> k < b \<Longrightarrow> k div 512 = y"
  shows "\<exists>s'. vunmap_pte_loop f (a mod 512) (adr a) (adr b) s = Some s' \<and> vm_step v s R M s' R (M(v := M v - {a..<b}))"
  using assms
proof (induction "b - a" arbitrary: a s M)
  case (Suc d)
  note A = area_inD [OF Suc.prems(1)]
  let ?s = "if entry (pgs s) f (a mod 512) = 0 then s else set_pgs (set_entry f (a mod 512) 0 (pgs s)) s" and ?M = "M(v := M v - {a})"
  have ay: "a div 512 = y" using Suc.prems(7) [of a] Suc.prems(5) by simp
  have st: "vm_step v s R M ?s R ?M"
    by (rule unmap_one [OF Suc.prems(1,2)]) (use Suc.prems ay in auto)
  have b36: "a \<le> 2 ^ 36" "Suc a \<le> 2 ^ 36" "b \<le> 2 ^ 36" using A(3) Suc.prems(5,6) by auto
  have more: "adr a + PAGE_SIZE \<noteq> adr b \<longleftrightarrow> Suc a \<noteq> b" using adr_inj [OF b36(2,3)] by (simp add: adr_Suc)
  show ?case
  proof (cases "Suc a = b")
    case True
    then have "{a..<b} = {a}" by auto
    then show ?thesis using st more True by (subst vunmap_pte_loop.simps) (simp add: Let_def)
  next
    case False
    have a': "area_in ?s R ?M v va vb" by (rule area_in_step [OF Suc.prems(1) st]) (use A(4,5) in auto)
    have m': "m = vm_mm (vmas ?s v)" using vm_keptD(3) [OF vm_stepD(2) [OF st], of v] Suc.prems(2) by simp
    have f': "tabm ?s m 3 y = Some f"
      by (rule step_tab [OF st A(1) _ order_refl Suc.prems(3)]) (use A(7) Suc.prems(2) in simp_all)
    have nx: "Suc a mod 512 = a mod 512 + 1" using next_mod [of a] Suc.prems(5) Suc.prems(7) [of "Suc a"] ay False by simp
    obtain s' where s': "vunmap_pte_loop f (Suc a mod 512) (adr (Suc a)) (adr b) ?s = Some s'"
      "vm_step v ?s R ?M s' R (?M(v := ?M v - {Suc a..<b}))"
    proof -
      have "d = b - Suc a" "va \<le> Suc a" "Suc a < b" "b \<le> vb" "\<And>k. Suc a \<le> k \<Longrightarrow> k < b \<Longrightarrow> k div 512 = y"
        using Suc.hyps(2) Suc.prems False by auto
      from Suc.hyps(1) [OF this(1) a' m' f' this(2-)] that show ?thesis by blast
    qed
    have eq: "?M(v := ?M v - {Suc a..<b}) = M(v := M v - {a..<b})" using Suc.prems(5) by (auto simp: fun_eq_iff)
    have "vm_step v s R M s' R (M(v := M v - {a..<b}))"
      by (rule vm_step_trans [OF st s'(2) [unfolded eq] A(1,2)]) (use Suc.prems(5) in auto)
    moreover have "vunmap_pte_loop f (a mod 512) (adr a) (adr b) s = Some s'"
      using s'(1) more False nx by (subst vunmap_pte_loop.simps) (simp add: Let_def adr_Suc)
    ultimately show ?thesis by blast
  qed
qed simp

section \<open>Walking the tables\<close>

text \<open>
  \<open>unmaps full v va vb n g\<close>: the function \<open>g\<close>, given the entry of a table of level \<open>n\<close> and the pages of area \<open>v\<close> below it,
  gives back what the area uses there; with \<open>full\<close> the area must use all tables for those pages.
\<close>

definition uses_all :: "uses \<Rightarrow> nat \<Rightarrow> nat \<Rightarrow> nat \<Rightarrow> nat \<Rightarrow> bool" where
  "uses_all R v n a b \<longleftrightarrow> (\<forall>l k. n \<le> l \<longrightarrow> lvl l \<longrightarrow> a \<le> k \<longrightarrow> k < b \<longrightarrow> key l k \<in> R v l)"

definition unmaps :: "bool \<Rightarrow> nat \<Rightarrow> nat \<Rightarrow> nat \<Rightarrow> nat \<Rightarrow> (nat \<times> nat \<Rightarrow> u64 \<Rightarrow> u64 \<Rightarrow> vm \<Rightarrow> vm option) \<Rightarrow> bool" where
  "unmaps full v va vb n g \<longleftrightarrow> (\<forall>s R M x a b f. area_in s R M v va vb \<longrightarrow> chunk va vb n x a b \<longrightarrow>
     tabm s (vm_mm (vmas s v)) (n - 1) (x div 512) = Some f \<longrightarrow> entry (pgs s) f (x mod 512) \<noteq> 0 \<longrightarrow> (full \<longrightarrow> uses_all R v n a b) \<longrightarrow>
     (\<exists>s'. g (f, x mod 512) (adr a) (adr b) s = Some s' \<and> vm_step v s R M s' (cut_uses R v n {a..<b}) (M(v := M v - {a..<b}))))"

lemma unmapsD:
  assumes "unmaps full v va vb n g" "area_in s R M v va vb" "chunk va vb n x a b" "m = vm_mm (vmas s v)"
    "tabm s m (n - 1) (x div 512) = Some f" "entry (pgs s) f (x mod 512) \<noteq> 0" "full \<Longrightarrow> uses_all R v n a b"
  shows "\<exists>s'. g (f, x mod 512) (adr a) (adr b) s = Some s' \<and> vm_step v s R M s' (cut_uses R v n {a..<b}) (M(v := M v - {a..<b}))"
  using assms unfolding unmaps_def by blast

lemma area_in_cut:
  assumes "area_in s R M v va vb" "vm_step v s R M s' (cut_uses R v n S) (M(v := M v - T))"
  shows "area_in s' (cut_uses R v n S) (M(v := M v - T)) v va vb"
  by (rule area_in_step [OF assms]) (use area_inD(4,5) [OF assms(1)] cut_sub in fastforce)+

lemma uses_all_cut:
  assumes "uses_all R v (Suc n) a b" "chunk va vb (Suc n) x a c" "va \<le> a" "c \<le> b" "b \<le> vb"
  shows "uses_all (cut_uses R v (Suc n) {a..<c}) v (Suc n) c b"
  unfolding uses_all_def
proof (intro allI impI)
  fix l k assume l: "Suc n \<le> l" "lvl l" and k: "c \<le> k" "k < b"
  have "key l k \<noteq> key l k'" if "a \<le> k'" "k' < c" for k'
  proof
    assume e: "key l k = key l k'"
    have "key (Suc n) k = key (Suc n) k'" by (rule key_below [OF l(1) _ e]) (use l(2) in \<open>simp add: lvl_def\<close>)
    then have "k < c" using chunkD(1) [OF assms(2), of k] chunkD(1) [OF assms(2), of k'] that k assms(3-5) by simp
    with k show False by simp
  qed
  then have "key l k \<notin> key l ` {a..<c}" by (metis atLeastLessThan_iff imageE)
  moreover have "key l k \<in> R v l" using assms(1) l k chunkD(2) [OF assms(2)] unfolding uses_all_def by simp
  ultimately show "key l k \<in> cut_uses R v (Suc n) {a..<c} v l" by (simp add: cut_uses_def)
qed

lemma vunmap_loop_ok:
  assumes "unmaps full v va vb (Suc n) below" "n \<le> 2" "chunk va vb n y a0 b"
    and "area_in s R M v va vb" "m = vm_mm (vmas s v)" "tabm s m n y = Some f" "a0 \<le> a" "a < b" "a = a0 \<or> extent n dvd a"
      "full \<Longrightarrow> uses_all R v (Suc n) a b"
  shows "\<exists>s'. vunmap_loop below n f (a div extent n mod 512) (adr a) (adr b) s = Some s' \<and>
    vm_step v s R M s' (cut_uses R v (Suc n) {a..<b}) (M(v := M v - {a..<b}))"
  using assms(4-)
proof (induction "b - a" arbitrary: a s R M rule: less_induct)
  case less
  note A = area_inD [OF less.prems(1)]
  let ?x = "a div extent n"
  define c where "c = min (Suc ?x * extent n) b"
  have n3: "n \<le> 3" "Suc n \<le> 3" "lvl (Suc n)" using assms(2) by (auto simp: lvl_def)
  note ch = chunk_entry [OF assms(3) n3(1) less.prems(4-6) c_def]
  have ac: "a < c" by (rule chunkD(2) [OF ch(1)])
  have bnd: "va \<le> a" "b \<le> vb" "b \<le> 2 ^ 36" "c \<le> 2 ^ 36"
    using chunkD(3) [OF ch(1)] chunkD(4) [OF assms(3)] A(3) ch(2) by auto
  have nx: "addr_end n (adr a) (adr b) = adr c" unfolding c_def by (rule addr_end_adr [OF less.prems(5) bnd(3) n3(1)])
  have more: "adr c \<noteq> adr b \<longleftrightarrow> c \<noteq> b" using adr_inj [OF bnd(4,3)] by simp
  have live: "mm_live s m" using A(7) less.prems(2) by simp
  have f: "tabm s m n (?x div 512) = Some f" using less.prems(3) ch(3) by simp
  let ?e = "entry (pgs s) f (?x mod 512)" and ?R = "cut_uses R v (Suc n) {a..<c}" and ?M = "M(v := M v - {a..<c})"
  have tx: "tabm s m (Suc n) ?x = (if ?e = 0 then None else Some (entry_page ?e))" using f by simp
  obtain s1 where body: "(if n \<noteq> 0 \<and> ?e AND 3 = 1 then Some (set_pgs (set_entry f (?x mod 512) 0 (pgs s)) s) else if ?e = 0 then Some s
      else if ?e AND 2 = 0 then Some (set_pgs (set_entry f (?x mod 512) 0 (pgs s)) s) else below (f, ?x mod 512) (adr a) (adr c) s) = Some s1"
      and st: "vm_step v s R M s1 ?R ?M"
  proof (cases "?e = 0")
    case True
    then have "users s R m (Suc n) ?x = {}" using pt_tabs_None [OF pt_okD(2) [OF A(1)] live n3(3)] tx by simp
    then have "?x \<notin> R v (Suc n)" using A(2) less.prems(2) by (auto simp: users_def)
    from cut_none [OF A(1,2) n3(3) this ch(1)] have "?R = R" "?M = M" by simp_all
    then show ?thesis using True vm_step_refl [OF A(1)] that [of s] by simp
  next
    case False
    then have t: "tabm s m (Suc n) ?x = Some (entry_page ?e)" using tx by simp
    have "?e = entm s m n ?x" using f by (simp add: ent_def)
    then have "?e = table_entry (entry_page ?e)" using pt_tabsD(4) [OF pt_okD(2) [OF A(1)] live n3(3) t] by simp
    then have "?e AND 3 = 3" "?e AND 2 \<noteq> 0" using table_entry_bits by metis+
    moreover obtain s1 where "below (f, ?x mod 512) (adr a) (adr c) s = Some s1" "vm_step v s R M s1 ?R ?M"
    proof -
      have "uses_all R v (Suc n) a c" if full using less.prems(7) [OF that] ch(2) by (simp add: uses_all_def)
      from unmapsD [OF assms(1) less.prems(1) ch(1) less.prems(2) _ False this] f that show ?thesis by auto
    qed
    ultimately show ?thesis using False that by simp
  qed
  have loop: "vunmap_loop below n f (?x mod 512) (adr a) (adr b) s =
      (if c \<noteq> b then vunmap_loop below n f (?x mod 512 + 1) (adr c) (adr b) s1 else Some s1)"
  proof -
    have "\<not> 512 \<le> ?x mod 512" by (simp add: not_le)
    then show ?thesis by (subst vunmap_loop.simps) (simp only: Let_def nx more body if_False Option.bind.simps)
  qed
  show ?case
  proof (cases "c = b")
    case True
    then show ?thesis using loop st by auto
  next
    case False
    note ch' = ch(4) [OF False]
    have a1: "area_in s1 ?R ?M v va vb" by (rule area_in_cut [OF less.prems(1) st])
    have m1: "m = vm_mm (vmas s1 v)" using vm_keptD(3) [OF vm_stepD(2) [OF st], of v] less.prems(2) by simp
    have f1: "tabm s1 m n y = Some f"
      by (rule step_tab [OF st A(1) live n3(1) less.prems(3)]) (simp add: cut_other)
    have u1: "uses_all ?R v (Suc n) c b" if full
      by (rule uses_all_cut [OF less.prems(7) [OF that] ch(1) bnd(1) ch(2) bnd(2)])
    have "b - c < b - a" "a0 \<le> c" "c < b" "c = a0 \<or> extent n dvd c" using ac ch' less.prems(4) by auto
    from less.hyps [OF this(1) a1 m1 f1 this(2-4) u1] obtain s' where
      s': "vunmap_loop below n f (c div extent n mod 512) (adr c) (adr b) s1 = Some s'"
        "vm_step v s1 ?R ?M s' (cut_uses ?R v (Suc n) {c..<b}) (?M(v := ?M v - {c..<b}))" by blast
    have un: "{a..<c} \<union> {c..<b} = {a..<b}" using ac ch(2) by (rule ivl_disj_un_two(3) [OF less_imp_le])
    have eq: "cut_uses ?R v (Suc n) {c..<b} = cut_uses R v (Suc n) {a..<b}" "?M(v := ?M v - {c..<b}) = M(v := M v - {a..<b})"
      unfolding cut_cut un by (simp_all add: Diff_eq Int_assoc flip: un)
    have "vm_step v s R M s' (cut_uses R v (Suc n) {a..<b}) (M(v := M v - {a..<b}))"
      by (rule vm_step_trans [OF st s'(2) [unfolded eq] A(1,2)]) (use ac ch(2) in \<open>auto simp: cut_uses_def\<close>)
    moreover have "c div extent n mod 512 = ?x mod 512 + 1" using ch' by simp
    ultimately show ?thesis using loop s'(1) False by auto
  qed
qed

text \<open>\<open>clears full v va vb n L\<close>: the loop \<open>L\<close> over the entries of a table of level \<open>n\<close> gives back what the area uses below it.\<close>

definition clears :: "bool \<Rightarrow> nat \<Rightarrow> nat \<Rightarrow> nat \<Rightarrow> nat \<Rightarrow> (nat \<Rightarrow> nat \<Rightarrow> u64 \<Rightarrow> u64 \<Rightarrow> vm \<Rightarrow> vm option) \<Rightarrow> bool" where
  "clears full v va vb n L \<longleftrightarrow> (\<forall>s R M x a b g. area_in s R M v va vb \<longrightarrow> chunk va vb n x a b \<longrightarrow>
     tabm s (vm_mm (vmas s v)) n x = Some g \<longrightarrow> (full \<longrightarrow> uses_all R v (Suc n) a b) \<longrightarrow>
     (\<exists>s'. L g (table_index n (adr a)) (adr a) (adr b) s = Some s' \<and>
        vm_step v s R M s' (cut_uses R v (Suc n) {a..<b}) (M(v := M v - {a..<b}))))"

lemma clearsD:
  assumes "clears full v va vb n L" "area_in s R M v va vb" "chunk va vb n x a b" "m = vm_mm (vmas s v)" "tabm s m n x = Some g"
    "full \<Longrightarrow> uses_all R v (Suc n) a b"
  shows "\<exists>s'. L g (table_index n (adr a)) (adr a) (adr b) s = Some s' \<and> vm_step v s R M s' (cut_uses R v (Suc n) {a..<b}) (M(v := M v - {a..<b}))"
  using assms unfolding clears_def by blast

lemma clears_pte: "clears full v va vb 3 vunmap_pte_loop"
  unfolding clears_def
proof (intro allI impI)
  fix s R M x a b g
  assume a: "area_in s R M v va vb" and ch: "chunk va vb 3 x a b" and g: "tabm s (vm_mm (vmas s v)) 3 x = Some g"
  note C = chunkD [OF ch]
  have "a \<le> 2 ^ 36" using C(2,4) area_inD(3) [OF a] by simp
  then have i: "table_index 3 (adr a) = a mod 512" using table_index_adr [of a 3] by (simp add: extent_def)
  have "cut_uses R v (Suc 3) {a..<b} = R" by (auto simp: cut_uses_def lvl_def fun_eq_iff)
  moreover have "k div 512 = x" if "a \<le> k" "k < b" for k using C(1) [of k] that by (simp add: key_3)
  ultimately show "\<exists>s'. vunmap_pte_loop g (table_index 3 (adr a)) (adr a) (adr b) s = Some s' \<and>
      vm_step v s R M s' (cut_uses R v (Suc 3) {a..<b}) (M(v := M v - {a..<b}))"
    using vunmap_pte_loop_ok [OF a refl g C(3,2,4)] i by simp
qed

lemma clears_loop:
  assumes "unmaps full v va vb (Suc n) below" "n \<le> 2"
  shows "clears full v va vb n (vunmap_loop below n)"
  unfolding clears_def
proof (intro allI impI)
  fix s R M x a b g
  assume a: "area_in s R M v va vb" and ch: "chunk va vb n x a b" and g: "tabm s (vm_mm (vmas s v)) n x = Some g"
    and u: "full \<longrightarrow> uses_all R v (Suc n) a b"
  note C = chunkD [OF ch]
  have "a \<le> 2 ^ 36" using C(2,4) area_inD(3) [OF a] by simp
  then have "table_index n (adr a) = a div extent n mod 512" using table_index_adr [of a n] assms(2) by simp
  then show "\<exists>s'. vunmap_loop below n g (table_index n (adr a)) (adr a) (adr b) s = Some s' \<and>
      vm_step v s R M s' (cut_uses R v (Suc n) {a..<b}) (M(v := M v - {a..<b}))"
    using vunmap_loop_ok [OF assms ch a refl g order_refl C(2)] u by simp
qed

text \<open>The end of a walk: the table itself.\<close>

lemma cut_del:
  assumes "chunk va vb n x a b" "lvl n"
  shows "del_use (cut_uses R v (Suc n) {a..<b}) v n x = cut_uses R v n {a..<b}"
proof -
  have "key n ` {a..<b} = {x}" using chunkD(1) [OF assms(1)] chunkD(2) [OF assms(1)] by force
  then show ?thesis using assms(2) by (auto simp: cut_uses_def del_use_def fun_eq_iff Suc_le_eq le_less)
qed

lemma last_child:
  assumes a: "area_in s R M v va vb" and ch: "chunk va vb n x a b" and n: "n \<le> 3"
  shows "lvl (Suc n) \<Longrightarrow> y \<in> cut_uses R v (Suc n) {a..<b} v (Suc n) \<Longrightarrow> y div 512 \<noteq> x" "n = 3 \<Longrightarrow> k \<in> M v - {a..<b} \<Longrightarrow> k div 512 \<noteq> x"
proof -
  show "y div 512 \<noteq> x" if l: "lvl (Suc n)" and y: "y \<in> cut_uses R v (Suc n) {a..<b} v (Suc n)"
  proof
    assume x: "y div 512 = x"
    have "y \<in> R v (Suc n)" using y cut_sub by blast
    then obtain k where k: "y = key (Suc n) k" "va \<le> k" "k < vb" using area_inD(4) [OF a l] by auto
    then have "key n k = x" using key_up [OF n, of k] x by simp
    then have "a \<le> k \<and> k < b" using chunkD(1) [OF ch, of k] k by simp
    then show False using y k(1) l by (auto simp: cut_uses_def)
  qed
  show "k div 512 \<noteq> x" if "n = 3" "k \<in> M v - {a..<b}"
    using that chunkD(1) [OF ch, of k] area_inD(5) [OF a] by (auto simp: key_3)
qed

lemma end_walk:
  assumes a: "area_in s R M v va vb" and ch: "chunk va vb n x a b" and n: "lvl n" and m: "m = vm_mm (vmas s v)"
    and f: "tabm s m (n - 1) (x div 512) = Some f" "entry (pgs s) f (x mod 512) \<noteq> 0"
    and st: "vm_step v s R M s1 (cut_uses R v (Suc n) {a..<b}) (M(v := M v - {a..<b}))" (is "vm_step v s R M s1 ?R ?M")
  shows "x \<in> R v n \<Longrightarrow> \<exists>s'. table_free n cpu v (f, x mod 512) s1 = Some s' \<and> vm_step v s R M s' (cut_uses R v n {a..<b}) ?M"
    "\<exists>s'. bad_table_free n cpu v (f, x mod 512) s1 = Some s' \<and> vm_step v s R M s' (cut_uses R v n {a..<b}) ?M"
proof -
  note A = area_inD [OF a] and k = vm_keptD [OF vm_stepD(2) [OF st]]
  have n3: "n - 1 \<le> 3" "n \<le> 3" "n = Suc (n - 1)" using n by (auto simp: lvl_def)
  have m1: "m = vm_mm (vmas s1 v)" and live: "mm_live s m" and v1: "vma_live s1 v" using m A(2,7) by (simp_all add: k)
  have same: "?R w l = R w l" if "l \<le> n" for w l using that by (simp add: cut_other)
  have f1: "tabm s1 m (n - 1) (x div 512) = Some f" by (rule step_tab [OF st A(1) live n3(1) f(1)]) (simp add: same)
  have tx: "tabm s m n x = Some (entry_page (entry (pgs s) f (x mod 512)))" using f tab_lvl [OF n] by simp
  have tx1: "tabm s1 m n x \<noteq> None" using step_tab [OF st A(1) live n3(2) tx] same by simp
  note ok1 = vm_stepD(1) [OF st] and LC = last_child [OF a ch n3(2)]
  have xx: "x mod 512 < 512" "x = 512 * (x div 512) + x mod 512" by simp_all
  have sub: "vm_step v s R M s' (cut_uses R v n {a..<b}) ?M" if "vm_step v s1 ?R ?M s' (cut_uses R v n {a..<b}) ?M" for s'
    by (rule vm_step_trans [OF st that A(1,2)]) (auto simp: cut_uses_def)
  have free: "\<exists>s'. table_free n cpu v (f, x mod 512) s1 = Some s' \<and> bad_table_free n cpu v (f, x mod 512) s1 = Some s' \<and>
      vm_step v s R M s' (cut_uses R v n {a..<b}) ?M" if "x \<in> R v n"
  proof -
    have "x \<in> ?R v n" using that same by simp
    from table_free_ok [OF ok1 v1 m1 n this _ _ f1 xx] LC sub show ?thesis unfolding cut_del [OF ch n] by fastforce
  qed
  then show "x \<in> R v n \<Longrightarrow> \<exists>s'. table_free n cpu v (f, x mod 512) s1 = Some s' \<and> vm_step v s R M s' (cut_uses R v n {a..<b}) ?M" by blast
  show "\<exists>s'. bad_table_free n cpu v (f, x mod 512) s1 = Some s' \<and> vm_step v s R M s' (cut_uses R v n {a..<b}) ?M"
  proof (cases "x \<in> R v n")
    case False
    have e1: "entry (pgs s1) f (x mod 512) \<noteq> 0" using tx1 f1 tab_lvl [OF n, of "pgs s1"] by auto
    have x1: "x \<notin> ?R v n" using False same by simp
    have "bad_table_free n cpu v (f, x mod 512) s1 = Some s1" by (rule bad_table_free_unused [OF ok1 v1 m1 n x1 f1 xx e1])
    moreover have "del_use ?R v n x = ?R" using x1 by (auto simp: del_use_def fun_eq_iff)
    then have "cut_uses R v n {a..<b} = ?R" unfolding cut_del [OF ch n] .
    ultimately show ?thesis using st by auto
  qed (use free in blast)
qed

lemma unmaps_walk:
  assumes L: "clears full v va vb n L" and n: "lvl n"
  shows "full \<Longrightarrow> unmaps full v va vb n (\<lambda>dir addr end s. do {
      let p = table_offset n dir addr (pgs s); s1 \<leftarrow> L (fst p) (snd p) addr end s; table_free n cpu v dir s1 })"
    "unmaps full v va vb n (\<lambda>dir addr end s. do {
      s1 \<leftarrow> (let p = table_offset n dir addr (pgs s) in L (fst p) (snd p) addr end s); bad_table_free n cpu v dir s1 })"
proof -
  have walk: "\<exists>s1. L (fst (table_offset n (f, x mod 512) (adr a) (pgs s))) (snd (table_offset n (f, x mod 512) (adr a) (pgs s))) (adr a) (adr b) s = Some s1 \<and>
      vm_step v s R M s1 (cut_uses R v (Suc n) {a..<b}) (M(v := M v - {a..<b}))"
    if "area_in s R M v va vb" "chunk va vb n x a b" "tabm s (vm_mm (vmas s v)) (n - 1) (x div 512) = Some f"
      "entry (pgs s) f (x mod 512) \<noteq> 0" "full \<longrightarrow> uses_all R v n a b" for s R M x a b f
  proof -
    have "tabm s (vm_mm (vmas s v)) n x = Some (entry_page (entry (pgs s) f (x mod 512)))" using that(3,4) tab_lvl [OF n] by simp
    moreover have "full \<Longrightarrow> uses_all R v (Suc n) a b" using that(5) by (simp add: uses_all_def)
    ultimately show ?thesis using clearsD [OF L that(1,2) refl] by (simp add: table_offset_def)
  qed
  show "unmaps full v va vb n (\<lambda>dir addr end s. do {
      let p = table_offset n dir addr (pgs s); s1 \<leftarrow> L (fst p) (snd p) addr end s; table_free n cpu v dir s1 })" if full
    unfolding unmaps_def
  proof (intro allI impI)
    fix s R M x a b f
    assume p: "area_in s R M v va vb" "chunk va vb n x a b" "tabm s (vm_mm (vmas s v)) (n - 1) (x div 512) = Some f"
      "entry (pgs s) f (x mod 512) \<noteq> 0" "full \<longrightarrow> uses_all R v n a b"
    have "x \<in> R v n" using p(5) that n chunkD(2,5) [OF p(2)] unfolding uses_all_def by auto
    then show "\<exists>s'. (do { let p = table_offset n (f, x mod 512) (adr a) (pgs s); s1 \<leftarrow> L (fst p) (snd p) (adr a) (adr b) s;
        table_free n cpu v (f, x mod 512) s1 }) = Some s' \<and> vm_step v s R M s' (cut_uses R v n {a..<b}) (M(v := M v - {a..<b}))"
      using walk [OF p] end_walk(1) [OF p(1,2) n refl p(3,4)] by (fastforce simp: Let_def)
  qed
  show "unmaps full v va vb n (\<lambda>dir addr end s. do {
      s1 \<leftarrow> (let p = table_offset n dir addr (pgs s) in L (fst p) (snd p) addr end s); bad_table_free n cpu v dir s1 })"
    unfolding unmaps_def
  proof (intro allI impI)
    fix s R M x a b f
    assume p: "area_in s R M v va vb" "chunk va vb n x a b" "tabm s (vm_mm (vmas s v)) (n - 1) (x div 512) = Some f"
      "entry (pgs s) f (x mod 512) \<noteq> 0" "full \<longrightarrow> uses_all R v n a b"
    then show "\<exists>s'. (do { s1 \<leftarrow> (let p = table_offset n (f, x mod 512) (adr a) (pgs s) in L (fst p) (snd p) (adr a) (adr b) s);
        bad_table_free n cpu v (f, x mod 512) s1 }) = Some s' \<and> vm_step v s R M s' (cut_uses R v n {a..<b}) (M(v := M v - {a..<b}))"
      using walk [OF p] end_walk(2) [OF p(1,2) n refl p(3,4)] by (fastforce simp: Let_def)
  qed
qed

section \<open>Unmapping a whole area\<close>

lemma clears_area:
  assumes L: "clears full v va vb 0 L" and a: "area_in s R M v va vb" and r: "va < vb" and u: "full \<Longrightarrow> uses_all R v 1 va vb"
  shows "\<exists>s'. L (pgd (mms s (vm_mm (vmas s v)))) (table_index 0 (adr va)) (adr va) (adr vb) s = Some s' \<and>
    vm_step v s R M s' (cut_uses R v 1 {va..<vb}) (M(v := {}))"
proof -
  have M: "M v - {va..<vb} = {}" using area_inD(5) [OF a] by auto
  show ?thesis using clearsD [OF L a chunk_whole [OF r area_inD(3) [OF a]] refl] u M by simp
qed

lemma unmaps_levels:
  shows "unmaps True v va vb 1 (vumap_pud_range cpu v)"
    "unmaps False v va vb 1 (\<lambda>dir addr next s. do { s1 \<leftarrow> vumap_bad_pud_range cpu v dir addr next s; bad_table_free 1 cpu v dir s1 })"
proof -
  note W = unmaps_walk(1) [OF _ _ TrueI, where cpu = cpu] and B = unmaps_walk(2) [where cpu = cpu]
  have 3: "unmaps True v va vb 3 (vunmap_pte_range cpu v)"
    using W [OF clears_pte lvl_simps(1)] by (simp add: vunmap_pte_range_def [abs_def])
  have 2: "unmaps True v va vb 2 (vunmap_pmd_range cpu v)"
    using W [OF clears_loop lvl_simps(2)] 3 by (simp add: vunmap_pmd_range_def [abs_def])
  show "unmaps True v va vb 1 (vumap_pud_range cpu v)"
    using W [OF clears_loop lvl_simps(3)] 2 by (simp add: vumap_pud_range_def [abs_def] numeral_2_eq_2)
  have 3: "unmaps False v va vb 3 (\<lambda>dir addr next s. do { s1 \<leftarrow> vunmap_bad_pte_range cpu v dir addr next s; bad_table_free 3 cpu v dir s1 })"
    using B [OF clears_pte lvl_simps(1)] by (simp add: vunmap_bad_pte_range_def [abs_def])
  have 2: "unmaps False v va vb 2 (\<lambda>dir addr next s. do { s1 \<leftarrow> vunmap_bad_pmd_range cpu v dir addr next s; bad_table_free 2 cpu v dir s1 })"
    using B [OF clears_loop lvl_simps(2)] 3 by (simp add: vunmap_bad_pmd_range_def [abs_def])
  show "unmaps False v va vb 1 (\<lambda>dir addr next s. do { s1 \<leftarrow> vumap_bad_pud_range cpu v dir addr next s; bad_table_free 1 cpu v dir s1 })"
    using B [OF clears_loop lvl_simps(3)] 2 by (simp add: vumap_bad_pud_range_def [abs_def] numeral_2_eq_2)
qed

lemma vumap_page_range_ok:
  assumes "area_in s R M v va vb" "vm_start (vmas s v) = adr va" "vm_end (vmas s v) = adr vb" "va < vb" "uses_all R v 1 va vb"
  shows "\<exists>s'. vumap_page_range cpu (Some v) s = Some s' \<and> vm_step v s R M s' (cut_uses R v 1 {va..<vb}) (M(v := {}))"
proof -
  have "\<not> adr vb \<le> adr va" using area_inD(3) [OF assms(1)] assms(4) by (simp add: adr_less not_le)
  moreover have "clears True v va vb 0 (vunmap_loop (vumap_pud_range cpu v) 0)"
    by (rule clears_loop) (use unmaps_levels(1) in simp_all)
  ultimately show ?thesis using clears_area [OF _ assms(1,4,5)] assms(2,3) by (simp add: vumap_page_range_def Let_def)
qed

lemma vmap_free_bad_area_ok:
  assumes "area_in s R M v va vb" "vm_start (vmas s v) = adr va" "vm_end (vmas s v) = adr vb" "va < vb"
  shows "\<exists>s'. vmap_free_bad_area cpu (Some v) s = Some s' \<and> vm_step v s R M s' (cut_uses R v 1 {va..<vb}) (M(v := {}))"
proof -
  have "\<not> adr vb \<le> adr va" using area_inD(3) [OF assms(1)] assms(4) by (simp add: adr_less not_le)
  moreover have "clears False v va vb 0 (vunmap_loop
      (\<lambda>dir addr next s. do { s1 \<leftarrow> vumap_bad_pud_range cpu v dir addr next s; bad_table_free 1 cpu v dir s1 }) 0)"
    by (rule clears_loop) (use unmaps_levels(2) in simp_all)
  ultimately show ?thesis using clears_area [OF _ assms(1,4)] assms(2,3) by (simp add: vmap_free_bad_area_def Let_def)
qed

end
