(* ===== verification/Pgt_Map.thy ===== *)
theory Pgt_Map
  imports Pgt_Unmap
begin

text \<open>
  Mapping an area (\<^verbatim>\<open>vmap_page_range\<close>): the loops end, and either every page of the area is mapped to its frame
  with the protection of the area, or everything is undone.
\<close>

section \<open>Growing what an area uses\<close>

definition grow :: "uses \<Rightarrow> nat \<Rightarrow> nat \<Rightarrow> nat set \<Rightarrow> uses" where
  "grow R v n S = (\<lambda>w l. if w = v \<and> n \<le> l \<and> lvl l then R w l \<union> key l ` S else R w l)"

text \<open>The area uses no table for its pages from \<open>a\<close> to \<open>b\<close>.\<close>

definition unused :: "uses \<Rightarrow> maps \<Rightarrow> nat \<Rightarrow> nat \<Rightarrow> nat \<Rightarrow> nat \<Rightarrow> bool" where
  "unused R M v n a b \<longleftrightarrow> (\<forall>k. a \<le> k \<longrightarrow> k < b \<longrightarrow> k \<notin> M v \<and> (\<forall>l. n \<le> l \<longrightarrow> lvl l \<longrightarrow> key l k \<notin> R v l))"

lemma grow_grow: "grow (grow R v n S) v n T = grow R v n (S \<union> T)"
  by (auto simp: grow_def fun_eq_iff)

lemma grow_sub: "R w l \<subseteq> grow R v n S w l"
  by (auto simp: grow_def)

lemma grow_add:
  assumes "chunk va vb n x a b" "lvl n"
  shows "grow (add_use R v n x) v (Suc n) {a..<b} = grow R v n {a..<b}"
proof -
  have "key n ` {a..<b} = {x}" using chunkD(1) [OF assms(1)] chunkD(2) [OF assms(1)] by force
  then show ?thesis using assms(2) by (auto simp: grow_def add_use_def fun_eq_iff Suc_le_eq le_less)
qed

lemma grow_in:
  assumes "\<And>l. lvl l \<Longrightarrow> R v l \<subseteq> key l ` {va..<vb}" "va \<le> a" "b \<le> vb" "lvl l"
  shows "grow R v n {a..<b} v l \<subseteq> key l ` {va..<vb}"
  using assms(1) [OF assms(4)] assms(2,3) by (auto simp: grow_def)

lemma unused_grow:
  assumes u: "unused R M v (Suc n) a b" and ch: "chunk va vb (Suc n) x a c" and bnd: "va \<le> a" "c \<le> b" "b \<le> vb"
  shows "unused (grow R v (Suc n) {a..<c}) (M(v := M v \<union> {a..<c})) v (Suc n) c b"
  unfolding unused_def
proof (intro allI impI)
  fix k assume k: "c \<le> k" "k < b"
  have a: "a < c" by (rule chunkD(2) [OF ch])
  have "key l k \<notin> key l ` {a..<c}" if l: "Suc n \<le> l" "lvl l" for l
  proof
    assume "key l k \<in> key l ` {a..<c}"
    then obtain k' where k': "key l k = key l k'" "a \<le> k'" "k' < c" by auto
    have "key (Suc n) k = key (Suc n) k'" by (rule key_below [OF l(1) _ k'(1)]) (use l(2) in \<open>simp add: lvl_def\<close>)
    then have "k < c" using chunkD(1) [OF ch, of k] chunkD(1) [OF ch, of k'] k' k bnd a by simp
    with k show False by simp
  qed
  then show "k \<notin> (M(v := M v \<union> {a..<c})) v \<and> (\<forall>l. Suc n \<le> l \<longrightarrow> lvl l \<longrightarrow> key l k \<notin> grow R v (Suc n) {a..<c} v l)"
    using u k a by (simp add: unused_def grow_def)
qed

section \<open>A part of the area\<close>

text \<open>
  \<open>fills v va vb s R M n a b (s', nr, err)\<close>: mapping the pages from \<open>a\<close> to \<open>b\<close> has gone on from \<open>s\<close> to \<open>s'\<close>; without an
  error all of them are mapped, and the tables of level \<open>n\<close> and below that they need are in use.
\<close>

definition fills :: "nat \<Rightarrow> nat \<Rightarrow> nat \<Rightarrow> vm \<Rightarrow> uses \<Rightarrow> maps \<Rightarrow> nat \<Rightarrow> nat \<Rightarrow> nat \<Rightarrow> vm \<times> nat \<times> int \<Rightarrow> bool" where
  "fills v va vb s R M n a b = (\<lambda>(s', nr, err). \<exists>R' M'. err \<le> 0 \<and> vm_step v s R M s' R' M' \<and> area_in s' R' M' v va vb \<and>
     (\<forall>l. R v l \<subseteq> R' v l) \<and> (\<forall>l. \<not> lvl l \<longrightarrow> R' v l = R v l) \<and> M v \<subseteq> M' v \<and>
     (err = 0 \<longrightarrow> nr = b - va \<and> R' = grow R v n {a..<b} \<and> M' = M(v := M v \<union> {a..<b}) \<and>
        (\<forall>k. a \<le> k \<longrightarrow> k < b \<longrightarrow> (\<exists>p. vma_page (vmas s v) k = Some p \<and>
           entm s' (vm_mm (vmas s v)) 3 k = mk_pte p (vm_page_prot (vmas s v))))))"

definition backed :: "vm \<Rightarrow> nat \<Rightarrow> nat \<Rightarrow> nat \<Rightarrow> bool" where
  "backed s v va vb \<longleftrightarrow> vm_start (vmas s v) = adr va \<and> vb - va \<le> length (vma_pages (vmas s v))"

lemma backed_kept: "vm_kept s s' \<Longrightarrow> backed s' v va vb = backed s v va vb"
  by (simp add: backed_def vm_keptD)

lemma backed_page:
  assumes "backed s v va vb" "vb \<le> 2 ^ 36" "va \<le> k" "k < vb"
  shows "k - va < length (vma_pages (vmas s v))" "vma_page (vmas s v) k = vma_pages (vmas s v) ! (k - va)"
proof -
  show l: "k - va < length (vma_pages (vmas s v))" using assms unfolding backed_def by linarith
  have "unat (vm_start (vmas s v)) div 4096 = va" using assms unat_adr [of va] by (simp add: backed_def)
  then show "vma_page (vmas s v) k = vma_pages (vmas s v) ! (k - va)" using l by (simp add: vma_page_def)
qed

lemma fills_fail:
  assumes "vm_step v s R M s' R' M'" "area_in s' R' M' v va vb" "\<And>l. R v l \<subseteq> R' v l" "\<And>l. \<not> lvl l \<Longrightarrow> R' v l = R v l" "M v \<subseteq> M' v" "err < 0"
  shows "fills v va vb s R M n a b (s', nr, err)"
  using assms by (auto simp: fills_def)

text \<open>One part after the other.\<close>

lemma fills_then:
  assumes 1: "fills v va vb s R M n a c (s1, nr1, 0)" and A: "area_in s R M v va vb" and c: "a \<le> c" "c \<le> b"
    and 2: "fills v va vb s1 (grow R v n {a..<c}) (M(v := M v \<union> {a..<c})) n c b (s2, nr2, err)"
  shows "fills v va vb s R M n a b (s2, nr2, err)"
proof -
  let ?R = "grow R v n {a..<c}" and ?M = "M(v := M v \<union> {a..<c})"
  note ok = area_inD(1,2,7) [OF A]
  have st1: "vm_step v s R M s1 ?R ?M" and e1: "\<And>k. a \<le> k \<Longrightarrow> k < c \<Longrightarrow> \<exists>p. vma_page (vmas s v) k = Some p \<and>
      entm s1 (vm_mm (vmas s v)) 3 k = mk_pte p (vm_page_prot (vmas s v))" using 1 by (auto simp: fills_def)
  note k1 = vm_keptD [OF vm_stepD(2) [OF st1]]
  obtain R' M' where r: "vm_step v s1 ?R ?M s2 R' M'" "area_in s2 R' M' v va vb" "\<And>l. ?R v l \<subseteq> R' v l" "?M v \<subseteq> M' v"
    "\<And>l. \<not> lvl l \<Longrightarrow> R' v l = ?R v l" "err \<le> 0"
    and e2: "err = 0 \<Longrightarrow> nr2 = b - va \<and> R' = grow ?R v n {c..<b} \<and> M' = ?M(v := ?M v \<union> {c..<b}) \<and>
        (\<forall>k. c \<le> k \<longrightarrow> k < b \<longrightarrow> (\<exists>p. vma_page (vmas s v) k = Some p \<and>
           entm s2 (vm_mm (vmas s v)) 3 k = mk_pte p (vm_page_prot (vmas s v))))"
    using 2 unfolding fills_def k1 by blast
  have sub: "R v l \<subseteq> R' v l" for l using grow_sub r(3) by blast
  have st: "vm_step v s R M s2 R' M'"
    by (rule vm_step_trans [OF st1 r(1) ok(1,2)]) (auto simp: grow_def)
  have un: "{a..<c} \<union> {c..<b} = {a..<b}" using c by (rule ivl_disj_un_two(3))
  have "\<exists>p. vma_page (vmas s v) k = Some p \<and> entm s2 (vm_mm (vmas s v)) 3 k = mk_pte p (vm_page_prot (vmas s v))"
    if "err = 0" "a \<le> k" "k < b" for k
  proof (cases "k < c")
    case True
    then have "k \<in> ?M v" "k \<in> M' v" using that r(4) by auto
    then have "entm s2 (vm_mm (vmas s v)) 3 k = entm s1 (vm_mm (vmas s v)) 3 k"
      using vm_stepD(7) [OF r(1), of "vm_mm (vmas s v)" k] ok(3) by (simp add: k1)
    then show ?thesis using e1 [OF that(2) True] by simp
  qed (use e2 [OF that(1)] that in auto)
  moreover have "R' = grow R v n {a..<b}" "M' = M(v := M v \<union> {a..<b})" "nr2 = b - va" if "err = 0"
    using e2 [OF that] unfolding grow_grow un by (simp_all add: Un_assoc un)
  moreover have "M v \<subseteq> M' v" using r(4) by auto
  moreover have "R' v l = R v l" if "\<not> lvl l" for l using r(5) [OF that] that by (simp add: grow_def)
  ultimately show ?thesis using st r(2,6) sub unfolding fills_def split_conv by blast
qed

section \<open>The entries of one table\<close>

lemma map_one:
  assumes a: "area_in s R M v va vb" and m: "m = vm_mm (vmas s v)" and f: "tabm s m 3 (k div 512) = Some f" "k div 512 \<in> R v 3"
    and k: "va \<le> k" "k < vb" "k \<notin> M v" and p: "vma_page (vmas s v) k = Some p"
  shows "entry (pgs s) f (k mod 512) = 0"
    "vm_step v s R M (set_pgs (set_entry f (k mod 512) (mk_pte p (vm_page_prot (vmas s v))) (pgs s)) s) R (M(v := insert k (M v)))"
    "entm (set_pgs (set_entry f (k mod 512) (mk_pte p (vm_page_prot (vmas s v))) (pgs s)) s) m 3 k = mk_pte p (vm_page_prot (vmas s v))"
proof -
  note A = area_inD [OF a] and D = pt_okD [OF area_inD(1) [OF a]]
  let ?e = "mk_pte p (vm_page_prot (vmas s v))"
  have live: "mm_live s m" using A(7) m by simp
  have kk: "512 * (k div 512) + k mod 512 = k" "k mod 512 < 512" by simp_all
  have "k \<notin> M w" if "vma_live s w" "vm_mm (vmas s w) = m" for w
    using A(6) [OF that(1) _ _ k(1,2)] k(3) that(2) m by (cases "w = v") auto
  then have z: "entm s m 3 k = 0" by (rule unmapped_zero [OF A(1) live])
  then show "entry (pgs s) f (k mod 512) = 0" using ent_at [OF f(1) kk(2)] kk(1) by simp
  have prot: "prot_ok (vm_page_prot (vmas s v))" by (rule pt_baseD(5) [OF D(1) A(2)])
  have "pt_ok (put_entry f (k mod 512) ?e s) R (M(v := insert k (M v)))"
    using pt_ok_map [OF A(1,2) m f kk(2) _ prot] p z kk(1) by simp
  from leaf_step [OF A(1,2) m f(1) kk(2) this] k(3) kk(1)
  show "vm_step v s R M (set_pgs (set_entry f (k mod 512) ?e (pgs s)) s) R (M(v := insert k (M v)))" by (simp add: put_entry_def)
  show "entm (set_pgs (set_entry f (k mod 512) ?e (pgs s)) s) m 3 k = ?e"
    using leaf_write(2) [OF D(3) live f(1) kk(2) live order_refl, of ?e k] kk(1) by (simp add: put_entry_def)
qed

lemma vmap_pte_loop_ok:
  assumes "area_in s R M v va vb" "backed s v va vb" "m = vm_mm (vmas s v)" "tabm s m 3 y = Some f" "y \<in> R v 3" "va \<le> a" "a < b" "b \<le> vb"
    "\<And>k. a \<le> k \<Longrightarrow> k < b \<Longrightarrow> k div 512 = y" "\<And>k. a \<le> k \<Longrightarrow> k < b \<Longrightarrow> k \<notin> M v"
  shows "\<exists>r. vmap_pte_loop v f (a mod 512) (adr a) (adr b) (a - va) s = Some r \<and> fills v va vb s R M 4 a b r"
  using assms
proof (induction "b - a" arbitrary: a s M)
  case (Suc d)
  note A = area_inD [OF Suc.prems(1)] and b = backed_page [OF Suc.prems(2) area_inD(3) [OF Suc.prems(1)], of a]
  have ay: "a div 512 = y" and aM: "a \<notin> M v" and av: "a < vb" using Suc.prems(9,10) [of a] Suc.prems(7,8) by simp_all
  have i: "\<not> 512 \<le> a mod 512" by (simp add: not_le)
  have len: "\<not> length (vma_pages (vmas s v)) \<le> a - va" using b(1) Suc.prems(6) av by simp
  have b36: "a \<le> 2 ^ 36" "Suc a \<le> 2 ^ 36" "b \<le> 2 ^ 36" using A(3) Suc.prems(7,8) by auto
  have more: "adr a + PAGE_SIZE \<noteq> adr b \<longleftrightarrow> Suc a \<noteq> b" using adr_inj [OF b36(2,3)] by (simp add: adr_Suc)
  show ?case
  proof (cases "vma_page (vmas s v) a")
    case None
    have n: "vma_pages (vmas s v) ! (a - va) = None" using None b(2) Suc.prems(6) av by simp
    have "fills v va vb s R M 4 a b (s, a - va, - EBUSY)" "fills v va vb s R M 4 a b (s, a - va, - ENOMEM)"
      by (rule fills_fail [OF vm_step_refl [OF A(1)] Suc.prems(1)]; simp)+
    then show ?thesis by (subst vmap_pte_loop.simps) (auto simp: i len n)
  next
    case (Some p)
    have f: "tabm s m 3 (a div 512) = Some f" "a div 512 \<in> R v 3" using Suc.prems(4,5) ay by simp_all
    note M1 = map_one [OF Suc.prems(1,3) f Suc.prems(6) av aM Some]
    let ?s = "set_pgs (set_entry f (a mod 512) (mk_pte p (vm_page_prot (vmas s v))) (pgs s)) s" and ?M = "M(v := insert a (M v))"
    have n: "vma_pages (vmas s v) ! (a - va) = Some p" using Some b(2) Suc.prems(6) av by simp
    have a1: "area_in ?s R ?M v va vb" by (rule area_in_step [OF Suc.prems(1) M1(2)]) (use A(4,5) Suc.prems(6) av in auto)
    have g: "grow R v 4 S = R" for S by (auto simp: grow_def lvl_def fun_eq_iff)
    have one: "fills v va vb s R M 4 a (Suc a) (?s, a - va + 1, 0)"
      using M1(2,3) a1 Some Suc.prems(3,6) unfolding fills_def g
      by (auto intro!: exI [of _ R] exI [of _ ?M] simp: atLeastLessThanSuc le_less_Suc_eq Suc_diff_le)
    have loop: "vmap_pte_loop v f (a mod 512) (adr a) (adr b) (a - va) s =
        (if Suc a \<noteq> b then vmap_pte_loop v f (a mod 512 + 1) (adr (Suc a)) (adr b) (a - va + 1) ?s else Some (?s, a - va + 1, 0))"
      by (subst vmap_pte_loop.simps) (use more in \<open>simp add: i len n M1(1) Let_def adr_Suc\<close>)
    show ?thesis
    proof (cases "Suc a = b")
      case True
      then show ?thesis using loop one by auto
    next
      case False
      have k: "vm_kept s ?s" by (rule vm_stepD(2) [OF M1(2)])
      have m': "m = vm_mm (vmas ?s v)" using Suc.prems(3) by simp
      have f': "tabm ?s m 3 y = Some f"
        by (rule step_tab [OF M1(2) A(1) _ order_refl Suc.prems(4)]) (use A(7) Suc.prems(3) in simp_all)
      have nx: "Suc a mod 512 = a mod 512 + 1" using next_mod [of a] Suc.prems(7) Suc.prems(9) [of "Suc a"] ay False by simp
      have "d = b - Suc a" "backed ?s v va vb" "va \<le> Suc a" "Suc a < b" "\<And>k. Suc a \<le> k \<Longrightarrow> k < b \<Longrightarrow> k div 512 = y"
        "\<And>k. Suc a \<le> k \<Longrightarrow> k < b \<Longrightarrow> k \<notin> ?M v"
        using Suc.hyps(2) Suc.prems False backed_kept [OF k] by auto
      from Suc.hyps(1) [OF this(1) a1 this(2) m' f' Suc.prems(5) this(3,4) Suc.prems(8) this(5,6)] obtain r where
        r: "vmap_pte_loop v f (Suc a mod 512) (adr (Suc a)) (adr b) (Suc a - va) ?s = Some r" "fills v va vb ?s R ?M 4 (Suc a) b r" by blast
      have eq: "?M = M(v := M v \<union> {a..<Suc a})" by auto
      obtain s2 nr2 err where rr: "r = (s2, nr2, err)" by (cases r)
      have "fills v va vb s R M 4 a b r"
        unfolding rr by (rule fills_then [OF one Suc.prems(1)]) (use r(2) Suc.prems(7) in \<open>simp_all add: g rr flip: eq\<close>)
      then show ?thesis using loop False r(1) nx Suc.prems(6) by (auto simp: Suc_diff_le)
    qed
  qed
qed simp

section \<open>Walking the tables\<close>

definition maps_below :: "nat \<Rightarrow> nat \<Rightarrow> nat \<Rightarrow> nat \<Rightarrow> (nat \<times> nat \<Rightarrow> u64 \<Rightarrow> u64 \<Rightarrow> nat \<Rightarrow> vm \<Rightarrow> (vm \<times> nat \<times> int) option) \<Rightarrow> bool" where
  "maps_below v va vb n g \<longleftrightarrow> (\<forall>s R M x a b f. area_in s R M v va vb \<longrightarrow> backed s v va vb \<longrightarrow> chunk va vb n x a b \<longrightarrow>
     tabm s (vm_mm (vmas s v)) (n - 1) (x div 512) = Some f \<longrightarrow> (n \<noteq> 1 \<longrightarrow> x div 512 \<in> R v (n - 1)) \<longrightarrow> unused R M v n a b \<longrightarrow>
     (\<exists>r. g (f, x mod 512) (adr a) (adr b) (a - va) s = Some r \<and> fills v va vb s R M n a b r))"

definition maps_table :: "nat \<Rightarrow> nat \<Rightarrow> nat \<Rightarrow> nat \<Rightarrow> (nat \<Rightarrow> nat \<Rightarrow> u64 \<Rightarrow> u64 \<Rightarrow> nat \<Rightarrow> vm \<Rightarrow> (vm \<times> nat \<times> int) option) \<Rightarrow> bool" where
  "maps_table v va vb n L \<longleftrightarrow> (\<forall>s R M x a b g. area_in s R M v va vb \<longrightarrow> backed s v va vb \<longrightarrow> chunk va vb n x a b \<longrightarrow>
     tabm s (vm_mm (vmas s v)) n x = Some g \<longrightarrow> (lvl n \<longrightarrow> x \<in> R v n) \<longrightarrow> unused R M v (Suc n) a b \<longrightarrow>
     (\<exists>r. L g (table_index n (adr a)) (adr a) (adr b) (a - va) s = Some r \<and> fills v va vb s R M (Suc n) a b r))"

lemma maps_belowD:
  assumes "maps_below v va vb n g" "area_in s R M v va vb" "backed s v va vb" "chunk va vb n x a b" "m = vm_mm (vmas s v)"
    "tabm s m (n - 1) (x div 512) = Some f" "n \<noteq> 1 \<Longrightarrow> x div 512 \<in> R v (n - 1)" "unused R M v n a b"
  shows "\<exists>r. g (f, x mod 512) (adr a) (adr b) (a - va) s = Some r \<and> fills v va vb s R M n a b r"
  using assms unfolding maps_below_def by blast

lemma maps_tableD:
  assumes "maps_table v va vb n L" "area_in s R M v va vb" "backed s v va vb" "chunk va vb n x a b" "m = vm_mm (vmas s v)"
    "tabm s m n x = Some g" "lvl n \<Longrightarrow> x \<in> R v n" "unused R M v (Suc n) a b"
  shows "\<exists>r. L g (table_index n (adr a)) (adr a) (adr b) (a - va) s = Some r \<and> fills v va vb s R M (Suc n) a b r"
  using assms unfolding maps_table_def by blast

lemma maps_pte: "maps_table v va vb 3 (vmap_pte_loop v)"
  unfolding maps_table_def
proof (intro allI impI)
  fix s R M x a b g
  assume a: "area_in s R M v va vb" and bk: "backed s v va vb" and ch: "chunk va vb 3 x a b" and g: "tabm s (vm_mm (vmas s v)) 3 x = Some g"
    and x: "lvl 3 \<longrightarrow> x \<in> R v 3" and u: "unused R M v (Suc 3) a b"
  note C = chunkD [OF ch]
  have "a \<le> 2 ^ 36" using C(2,4) area_inD(3) [OF a] by simp
  then have i: "table_index 3 (adr a) = a mod 512" using table_index_adr [of a 3] by (simp add: extent_def)
  have "k div 512 = x" if "a \<le> k" "k < b" for k using C(1) [of k] that by (simp add: key_3)
  moreover have "k \<notin> M v" if "a \<le> k" "k < b" for k using u that by (simp add: unused_def)
  ultimately show "\<exists>r. vmap_pte_loop v g (table_index 3 (adr a)) (adr a) (adr b) (a - va) s = Some r \<and> fills v va vb s R M (Suc 3) a b r"
    using vmap_pte_loop_ok [OF a bk refl g _ C(3,2,4)] x i by simp
qed

lemma fills_error:
  assumes "fills v va vb s R M n a b (s', nr, err)" "err' < 0"
  shows "fills v va vb s R M n' a' b' (s', nr', err')"
  using assms unfolding fills_def split_conv by (metis less_imp_le less_irrefl)

lemma vmap_loop_ok:
  assumes "maps_below v va vb (Suc n) below" "n \<le> 2" "chunk va vb n y a0 b"
    and "area_in s R M v va vb" "backed s v va vb" "m = vm_mm (vmas s v)" "tabm s m n y = Some f" "lvl n \<Longrightarrow> y \<in> R v n"
      "a0 \<le> a" "a < b" "a = a0 \<or> extent n dvd a" "unused R M v (Suc n) a b"
  shows "\<exists>r. vmap_loop below n f (a div extent n mod 512) (adr a) (adr b) (a - va) s = Some r \<and> fills v va vb s R M (Suc n) a b r"
  using assms(4-)
proof (induction "b - a" arbitrary: a s R M rule: less_induct)
  case less
  note A = area_inD [OF less.prems(1)]
  let ?x = "a div extent n"
  define c where "c = min (Suc ?x * extent n) b"
  have n3: "n \<le> 3" "lvl (Suc n)" using assms(2) by (auto simp: lvl_def)
  note ch = chunk_entry [OF assms(3) n3(1) less.prems(6-8) c_def]
  have ac: "a < c" by (rule chunkD(2) [OF ch(1)])
  have bnd: "va \<le> a" "b \<le> vb" "b \<le> 2 ^ 36" "c \<le> 2 ^ 36"
    using chunkD(3) [OF ch(1)] chunkD(4) [OF assms(3)] A(3) ch(2) by auto
  have nx: "addr_end n (adr a) (adr b) = adr c" unfolding c_def by (rule addr_end_adr [OF less.prems(7) bnd(3) n3(1)])
  have more: "adr c \<noteq> adr b \<longleftrightarrow> c \<noteq> b" using adr_inj [OF bnd(4,3)] by simp
  have live: "mm_live s m" using A(7) less.prems(3) by simp
  have f: "tabm s m (Suc n - 1) (?x div 512) = Some f" using less.prems(4) ch(3) by simp
  have x: "?x div 512 \<in> R v (Suc n - 1)" if "Suc n \<noteq> 1" using less.prems(5) ch(3) that assms(2) by (simp add: lvl_def)
  have u: "unused R M v (Suc n) a c" using less.prems(9) ch(2) by (simp add: unused_def)
  obtain s1 nr1 err where s1: "below (f, ?x mod 512) (adr a) (adr c) (a - va) s = Some (s1, nr1, err)" "fills v va vb s R M (Suc n) a c (s1, nr1, err)"
    using maps_belowD [OF assms(1) less.prems(1,2) ch(1) less.prems(3) f x u] by auto
  have loop: "vmap_loop below n f (?x mod 512) (adr a) (adr b) (a - va) s =
      (if err \<noteq> 0 then Some (s1, nr1, - ENOMEM)
       else if c \<noteq> b then vmap_loop below n f (?x mod 512 + 1) (adr c) (adr b) nr1 s1 else Some (s1, nr1, 0))"
  proof -
    have "\<not> 512 \<le> ?x mod 512" by (simp add: not_le)
    then show ?thesis by (subst vmap_loop.simps) (simp only: Let_def nx more s1(1) if_False Option.bind.simps split_conv)
  qed
  consider "err \<noteq> 0" | "err = 0" "c = b" | "err = 0" "c \<noteq> b" by blast
  then show ?case
  proof cases
    case 1
    then show ?thesis using loop fills_error [OF s1(2), of "- ENOMEM"] by simp
  next
    case 2
    then show ?thesis using loop s1(2) by simp
  next
    case 3
    note ch' = ch(4) [OF 3(2)]
    let ?R = "grow R v (Suc n) {a..<c}" and ?M = "M(v := M v \<union> {a..<c})"
    have st: "vm_step v s R M s1 ?R ?M" and a1: "area_in s1 ?R ?M v va vb" and nr: "nr1 = c - va"
      using s1(2) 3(1) by (auto simp: fills_def)
    note k = vm_stepD(2) [OF st]
    have m1: "m = vm_mm (vmas s1 v)" and b1: "backed s1 v va vb"
      using vm_keptD(3) [OF k, of v] less.prems(2,3) backed_kept [OF k] by simp_all
    have f1: "tabm s1 m n y = Some f"
      by (rule step_tab [OF st A(1) live n3(1) less.prems(4)]) (auto simp: grow_def)
    have y1: "y \<in> ?R v n" if "lvl n" using less.prems(5) [OF that] by (simp add: grow_def)
    have u1: "unused ?R ?M v (Suc n) c b" by (rule unused_grow [OF less.prems(9) ch(1) bnd(1) ch(2) bnd(2)])
    have "b - c < b - a" "a0 \<le> c" "c < b" "c = a0 \<or> extent n dvd c" using ac ch' less.prems(6) by auto
    from less.hyps [OF this(1) a1 b1 m1 f1 y1 this(2-4) u1] obtain r where
      r: "vmap_loop below n f (c div extent n mod 512) (adr c) (adr b) (c - va) s1 = Some r" "fills v va vb s1 ?R ?M (Suc n) c b r" by blast
    obtain s2 nr2 err2 where rr: "r = (s2, nr2, err2)" by (cases r)
    have "fills v va vb s R M (Suc n) a b r"
      unfolding rr by (rule fills_then [OF _ less.prems(1) less_imp_le [OF ac] ch(2)]) (use s1(2) 3(1) r(2) rr in simp_all)
    then show ?thesis using loop 3 r(1) nr ch' by simp
  qed
qed

lemma maps_loop:
  assumes "maps_below v va vb (Suc n) below" "n \<le> 2"
  shows "maps_table v va vb n (vmap_loop below n)"
  unfolding maps_table_def
proof (intro allI impI)
  fix s R M x a b g
  assume a: "area_in s R M v va vb" and bk: "backed s v va vb" and ch: "chunk va vb n x a b" and g: "tabm s (vm_mm (vmas s v)) n x = Some g"
    and x: "lvl n \<longrightarrow> x \<in> R v n" and u: "unused R M v (Suc n) a b"
  note C = chunkD [OF ch]
  have "a \<le> 2 ^ 36" using C(2,4) area_inD(3) [OF a] by simp
  then have "table_index n (adr a) = a div extent n mod 512" using table_index_adr [of a n] assms(2) by simp
  then show "\<exists>r. vmap_loop below n g (table_index n (adr a)) (adr a) (adr b) (a - va) s = Some r \<and> fills v va vb s R M (Suc n) a b r"
    using vmap_loop_ok [OF assms ch a bk refl g _ order_refl C(2) _ u] x by simp
qed

lemma fills_after_alloc:
  assumes A: "area_in s R M v va vb" and st: "vm_step v s R M s1 (add_use R v n x) M" and ch: "chunk va vb n x a b" and n: "lvl n"
    and r: "fills v va vb s1 (add_use R v n x) M (Suc n) a b r"
  shows "fills v va vb s R M n a b r"
proof -
  obtain s2 nr err where rr: "r = (s2, nr, err)" by (cases r)
  let ?R = "add_use R v n x"
  note k = vm_keptD [OF vm_stepD(2) [OF st]]
  obtain R' M' where R': "vm_step v s1 ?R M s2 R' M'" "area_in s2 R' M' v va vb" "\<And>l. ?R v l \<subseteq> R' v l" "M v \<subseteq> M' v"
    "\<And>l. \<not> lvl l \<Longrightarrow> R' v l = ?R v l" "err \<le> 0"
    "err = 0 \<Longrightarrow> nr = b - va \<and> R' = grow ?R v (Suc n) {a..<b} \<and> M' = M(v := M v \<union> {a..<b}) \<and>
        (\<forall>k. a \<le> k \<longrightarrow> k < b \<longrightarrow> (\<exists>p. vma_page (vmas s v) k = Some p \<and>
           entm s2 (vm_mm (vmas s v)) 3 k = mk_pte p (vm_page_prot (vmas s v))))"
    using r unfolding rr fills_def split_conv k by blast
  have "vm_step v s R M s2 R' M'" by (rule vm_step_trans [OF st R'(1) area_inD(1,2) [OF A]]) (auto simp: add_use_def)
  moreover have "R v l \<subseteq> R' v l" for l using R'(3) [of l] by (auto simp: add_use_def split: if_splits)
  moreover have "R' v l = R v l" if "\<not> lvl l" for l using R'(5) [OF that] that n by (auto simp: add_use_def)
  ultimately show ?thesis using R' unfolding rr fills_def split_conv grow_add [OF ch n] by blast
qed

lemma maps_walk:
  assumes L: "maps_table v va vb n L" and n: "lvl n"
  shows "maps_below v va vb n (\<lambda>dir addr end nr s. do {
     (s1, p) \<leftarrow> table_alloc n cpu v dir addr s;
     (case p of None \<Rightarrow> Some (s1, nr, - ENOMEM) | Some (f, i) \<Rightarrow> L f i addr end nr s1) })"
  unfolding maps_below_def
proof (intro allI impI)
  fix s R M x a b f
  assume a: "area_in s R M v va vb" and bk: "backed s v va vb" and ch: "chunk va vb n x a b"
    and f: "tabm s (vm_mm (vmas s v)) (n - 1) (x div 512) = Some f" and up: "n \<noteq> 1 \<longrightarrow> x div 512 \<in> R v (n - 1)" and u: "unused R M v n a b"
  note A = area_inD [OF a] and C = chunkD [OF ch]
  have x: "x \<notin> R v n" using u C(2,5) n unfolding unused_def by auto
  have xx: "x mod 512 < 512" "x = 512 * (x div 512) + x mod 512" by simp_all
  obtain s1 p where s1: "table_alloc n cpu v (f, x mod 512) (adr a) s = Some (s1, p)"
    "case p of None \<Rightarrow> vm_step v s R M s1 R M
     | Some (g, j) \<Rightarrow> j = table_index n (adr a) \<and> tabm s1 (vm_mm (vmas s v)) n x = Some g \<and> vm_step v s R M s1 (add_use R v n x) M"
    using table_alloc_ok [OF A(1,2) refl n x _ f xx, of cpu "adr a"] up by blast
  show "\<exists>r. (do { (s1, p) \<leftarrow> table_alloc n cpu v (f, x mod 512) (adr a) s;
        (case p of None \<Rightarrow> Some (s1, a - va, - ENOMEM) | Some (f, i) \<Rightarrow> L f i (adr a) (adr b) (a - va) s1) }) = Some r \<and>
      fills v va vb s R M n a b r"
  proof (cases p)
    case None
    have st: "vm_step v s R M s1 R M" using s1(2) None by simp
    have "area_in s1 R M v va vb" by (rule area_in_step [OF a st]) (use A(4,5) in auto)
    then show ?thesis using s1(1) None fills_fail [OF st] by simp
  next
    case (Some gj)
    obtain g j where gj: "gj = (g, j)" by (cases gj)
    let ?R = "add_use R v n x"
    have st: "vm_step v s R M s1 ?R M" and g: "tabm s1 (vm_mm (vmas s v)) n x = Some g" and j: "j = table_index n (adr a)"
      using s1(2) Some gj by simp_all
    note k = vm_stepD(2) [OF st]
    have "x \<in> key n ` {va..<vb}" using C(2-5) by (auto intro!: image_eqI [of _ _ a])
    then have a1: "area_in s1 ?R M v va vb" by (intro area_in_step [OF a st]) (use A(4,5) in \<open>auto simp: add_use_def\<close>)
    have u1: "unused ?R M v (Suc n) a b" using u by (simp add: unused_def add_use_def)
    have m1: "vm_mm (vmas s v) = vm_mm (vmas s1 v)" using vm_keptD(3) [OF k, of v] by simp
    have b1: "backed s1 v va vb" using bk backed_kept [OF k] by simp
    have "\<exists>r. L g (table_index n (adr a)) (adr a) (adr b) (a - va) s1 = Some r \<and> fills v va vb s1 ?R M (Suc n) a b r"
      by (rule maps_tableD [OF L a1 b1 ch m1 g _ u1]) (simp add: add_use_def)
    then show ?thesis using s1(1) Some gj j fills_after_alloc [OF a st ch n] by auto
  qed
qed

section \<open>Mapping a whole area\<close>

lemma maps_levels: "maps_below v va vb 1 (vmap_pud_range cpu v)"
proof -
  note W = maps_walk [where cpu = cpu]
  have 3: "maps_below v va vb 3 (vmap_pte_range cpu v)"
    using W [OF maps_pte lvl_simps(1)] by (simp add: vmap_pte_range_def [abs_def] pte_alloc_def)
  have 2: "maps_below v va vb 2 (vmap_pmd_range cpu v)"
    using W [OF maps_loop lvl_simps(2)] 3 by (simp add: vmap_pmd_range_def [abs_def] pmd_alloc_def)
  show ?thesis
    using W [OF maps_loop lvl_simps(3)] 2 by (simp add: vmap_pud_range_def [abs_def] pud_alloc_def numeral_2_eq_2)
qed

lemma vmap_page_range_ok:
  assumes a: "area_in s R M v va vb" and bk: "backed s v va vb" and e: "vm_end (vmas s v) = adr vb" "va < vb"
    "unat (nr_pages (vmas s v)) = vb - va" and u: "\<And>l. lvl l \<Longrightarrow> R v l = {}" "M v = {}"
  shows "\<exists>s' r. vmap_page_range cpu (Some v) s = Some (s', r) \<and>
    (if r = int (vb - va)
     then vm_step v s R M s' (grow R v 1 {va..<vb}) (M(v := {va..<vb})) \<and>
       (\<forall>k. va \<le> k \<longrightarrow> k < vb \<longrightarrow> (\<exists>p. vma_page (vmas s v) k = Some p \<and>
          entm s' (vm_mm (vmas s v)) 3 k = mk_pte p (vm_page_prot (vmas s v))))
     else r < 0 \<and> vm_step v s R M s' R M)"
proof -
  note A = area_inD [OF a]
  have start: "vm_start (vmas s v) = adr va" using bk by (simp add: backed_def)
  have lt: "\<not> adr vb \<le> adr va" using A(3) e(2) by (simp add: adr_less not_le)
  have un: "unused R M v (Suc 0) va vb" using u by (simp add: unused_def)
  have "maps_table v va vb 0 (vmap_loop (vmap_pud_range cpu v) 0)" by (rule maps_loop) (use maps_levels in simp_all)
  from maps_tableD [OF this a bk chunk_whole [OF e(2) A(3)] refl _ _ un] obtain s1 nr err where
    s1: "vmap_loop (vmap_pud_range cpu v) 0 (pgd (mms s (vm_mm (vmas s v)))) (table_index 0 (adr va)) (adr va) (adr vb) 0 s = Some (s1, nr, err)"
      "fills v va vb s R M (Suc 0) va vb (s1, nr, err)" by auto
  obtain R' M' where r: "err \<le> 0" "vm_step v s R M s1 R' M'" "area_in s1 R' M' v va vb" "\<And>l. \<not> lvl l \<Longrightarrow> R' v l = R v l"
    "err = 0 \<Longrightarrow> nr = vb - va \<and> R' = grow R v (Suc 0) {va..<vb} \<and> M' = M(v := M v \<union> {va..<vb}) \<and>
        (\<forall>k. va \<le> k \<longrightarrow> k < vb \<longrightarrow> (\<exists>p. vma_page (vmas s v) k = Some p \<and>
           entm s1 (vm_mm (vmas s v)) 3 k = mk_pte p (vm_page_prot (vmas s v))))" "\<And>l. R v l \<subseteq> R' v l"
    using s1(2) unfolding fills_def split_conv by blast
  note k = vm_keptD [OF vm_stepD(2) [OF r(2)]]
  show ?thesis
  proof (cases "err = 0")
    case True
    then have "vmap_page_range cpu (Some v) s = Some (s1, int (vb - va))"
      using s1(1) r(5) lt start e by (simp add: vmap_page_range_def Let_def k)
    then show ?thesis using r(2) r(5) [OF True] u(2) by simp
  next
    case False
    obtain s2 where s2: "vmap_free_bad_area cpu (Some v) s1 = Some s2" "vm_step v s1 R' M' s2 (cut_uses R' v 1 {va..<vb}) (M'(v := {}))"
      using vmap_free_bad_area_ok [OF r(3) _ _ e(2), of cpu] start e(1) by (auto simp: k)
    have "cut_uses R' v 1 {va..<vb} w l = R w l" for w l
    proof (cases "w = v \<and> lvl l")
      case True
      then have "R' v l - key l ` {va..<vb} = {}" using area_inD(4) [OF r(3)] by blast
      then show ?thesis using True u(1) by (simp add: cut_uses_def lvl_def)
    next
      case False
      then have "R' w l = R w l" using r(4) vm_stepD(4) [OF r(2), of w] by (cases "w = v") simp_all
      then show ?thesis using False by (auto simp: cut_uses_def)
    qed
    then have cR: "cut_uses R' v 1 {va..<vb} = R" by (simp add: fun_eq_iff)
    have cM: "M'(v := {}) = M" using vm_stepD(5) [OF r(2)] u(2) by (auto simp: fun_eq_iff)
    have "vm_step v s R M s2 R M" by (rule vm_step_trans [OF r(2) s2(2) [unfolded cR cM] A(1,2)]) (use r(6) u(2) in auto)
    moreover have "vmap_page_range cpu (Some v) s = Some (s2, err)"
      using s1(1) s2(1) False lt start e by (simp add: vmap_page_range_def Let_def)
    ultimately show ?thesis using r(1) False by (auto intro!: exI [of _ s2] exI [of _ err])
  qed
qed

end
