(* ===== verification/Pgt_Prot.thy ===== *)
theory Pgt_Prot
  imports Pgt_Map
begin

text \<open>
  Changing the protection of a part of a mapped area (\<^verbatim>\<open>mmap_mprotect_fixup\<close>): no table is missing, every page
  of the part keeps its frame and gets the new protection, nothing else changes.
\<close>

definition prot_step :: "nat \<Rightarrow> u64 \<Rightarrow> uses \<Rightarrow> maps \<Rightarrow> vm \<Rightarrow> vm \<Rightarrow> nat set \<Rightarrow> bool" where
  "prot_step v prot R M s s' S \<longleftrightarrow> pt_ok s' R M \<and> vm_kept s s' \<and> frames_kept s s' \<and>
     (\<forall>m n x. mm_live s m \<longrightarrow> n \<le> 3 \<longrightarrow> tabm s' m n x = tabm s m n x) \<and>
     (\<forall>k\<in>S. \<exists>p. vma_page (vmas s v) k = Some p \<and> entm s' (vm_mm (vmas s v)) 3 k = mk_pte p prot) \<and>
     (\<forall>m k. mm_live s m \<longrightarrow> \<not> (m = vm_mm (vmas s v) \<and> k \<in> S) \<longrightarrow> entm s' m 3 k = entm s m 3 k)"

lemma prot_stepD:
  assumes "prot_step v prot R M s s' S"
  shows "pt_ok s' R M" "vm_kept s s'" "frames_kept s s'" "mm_live s m \<Longrightarrow> n \<le> 3 \<Longrightarrow> tabm s' m n x = tabm s m n x"
    "k \<in> S \<Longrightarrow> \<exists>p. vma_page (vmas s v) k = Some p \<and> entm s' (vm_mm (vmas s v)) 3 k = mk_pte p prot"
    "mm_live s m \<Longrightarrow> \<not> (m = vm_mm (vmas s v) \<and> k \<in> S) \<Longrightarrow> entm s' m 3 k = entm s m 3 k"
  using assms by (simp_all add: prot_step_def)

lemma prot_step_trans:
  assumes 1: "prot_step v prot R M s s1 S" and 2: "prot_step v prot R M s1 s2 T" and live: "mm_live s (vm_mm (vmas s v))"
  shows "prot_step v prot R M s s2 (S \<union> T)"
  unfolding prot_step_def
proof (intro conjI allI impI ballI)
  note a = prot_stepD [OF 1] and b = prot_stepD [OF 2] and k = vm_keptD [OF prot_stepD(2) [OF 1]]
  show "pt_ok s2 R M" by (rule b(1))
  show "vm_kept s s2" by (rule vm_kept_trans [OF a(2) b(2)])
  show "frames_kept s s2" by (rule frames_kept_trans [OF a(3) b(3)])
  show "tabm s2 m n x = tabm s m n x" if "mm_live s m" "n \<le> 3" for m n x using a(4) [OF that] b(4) [of m n x] that by (simp add: k)
  show "entm s2 m 3 j = entm s m 3 j" if "mm_live s m" "\<not> (m = vm_mm (vmas s v) \<and> j \<in> S \<union> T)" for m j
    using a(6) [of m j] b(6) [of m j] that by (auto simp: k)
  show "\<exists>p. vma_page (vmas s v) j = Some p \<and> entm s2 (vm_mm (vmas s v)) 3 j = mk_pte p prot" if "j \<in> S \<union> T" for j
  proof (cases "j \<in> T")
    case True
    then show ?thesis using b(5) [of j] by (simp add: k)
  next
    case False
    then show ?thesis using a(5) [of j] b(6) [of "vm_mm (vmas s v)" j] that live by (simp add: k)
  qed
qed

section \<open>One entry\<close>

text \<open>The frames of the area are frames a page table entry can name.\<close>

definition small_pages :: "vm \<Rightarrow> nat \<Rightarrow> bool" where
  "small_pages s v \<longleftrightarrow> (\<forall>p. Some p \<in> set (vma_pages (vmas s v)) \<longrightarrow> p < 2 ^ 36)"

lemma small_page: "small_pages s v \<Longrightarrow> vma_page (vmas s v) k = Some p \<Longrightarrow> p < 2 ^ 36"
  unfolding small_pages_def vma_page_def Let_def by (metis nth_mem option.distinct(1))

lemma small_pages_kept: "vm_kept s s' \<Longrightarrow> small_pages s' v = small_pages s v"
  by (simp add: small_pages_def vm_keptD)

lemma prot_one:
  assumes ok: "pt_ok s R M" and v: "vma_live s v" "m = vm_mm (vmas s v)" and f: "tabm s m 3 (k div 512) = Some f" and k: "k \<in> M v"
    and p: "prot_ok prot" "small_pages s v"
  shows "prot_step v prot R M s (set_pgs (set_entry f (k mod 512) (mk_pte (entry_page (entry (pgs s) f (k mod 512))) prot) (pgs s)) s) {k}"
proof -
  note D = pt_okD [OF ok]
  have live: "mm_live s m" using pt_baseD(4) [OF D(1)] v by simp
  have kk: "512 * (k div 512) + k mod 512 = k" "k mod 512 < 512" by simp_all
  obtain q old where q: "vma_page (vmas s v) k = Some q" "prot_ok old" "entm s m 3 k = mk_pte q old"
    using pt_leafD(1) [OF D(4) v(1) k] v(2) by blast
  have e: "entry_page (entry (pgs s) f (k mod 512)) = q"
    using ent_at [OF f kk(2)] kk(1) q(3) mk_pte_page [OF small_page [OF p(2) q(1)] q(2)] by simp
  have R: "k div 512 \<in> R v 3" using D(6) v(1) k unfolding pt_up_def by blast
  have "M(v := insert k (M v)) = M" using k by (simp add: insert_absorb)
  then have ok': "pt_ok (put_entry f (k mod 512) (mk_pte q prot) s) R M"
    using pt_ok_map [OF ok v f R kk(2) _ p(1)] q(1) k kk(1) by simp
  note W = leaf_write [OF D(3) live f kk(2)]
  show ?thesis
    unfolding e prot_step_def
  proof (intro conjI allI impI ballI, goal_cases)
    case 1 then show ?case using ok' by (simp add: put_entry_def)
  next
    case 2 then show ?case using put_entry_kept by (simp add: put_entry_def)
  next
    case 3 then show ?case using leaf_frames [OF D(3) live f kk(2)] by (simp add: put_entry_def)
  next
    case (4 m' n' x') then show ?case using W(1) [of m' n' _ x'] by (simp add: put_entry_def)
  next
    case (5 j) then show ?case using W(2) [OF live order_refl, of "mk_pte q prot" k] kk(1) q(1) v(2) by (simp add: put_entry_def)
  next
    case (6 m' j) then show ?case using W(2) [OF _ order_refl, of m' "mk_pte q prot" j] kk(1) v(2) by (auto simp: put_entry_def)
  qed
qed

lemma mprotect_pte_loop_ok:
  assumes "pt_ok s R M" "vma_live s v" "m = vm_mm (vmas s v)" "tabm s m 3 y = Some f" "prot_ok prot" "small_pages s v" "a < b" "b \<le> 2 ^ 36"
    "\<And>k. a \<le> k \<Longrightarrow> k < b \<Longrightarrow> k div 512 = y \<and> k \<in> M v"
  shows "\<exists>s'. mprotect_pte_loop f (a mod 512) (adr a) (adr b) prot s = Some s' \<and> prot_step v prot R M s s' {a..<b}"
  using assms
proof (induction "b - a" arbitrary: a s)
  case (Suc d)
  have ay: "a div 512 = y" and aM: "a \<in> M v" using Suc.prems(9) [of a] Suc.prems(7) by simp_all
  have live: "mm_live s m" using pt_baseD(4) [OF pt_okD(1) [OF Suc.prems(1)]] Suc.prems(2,3) by simp
  let ?s = "set_pgs (set_entry f (a mod 512) (mk_pte (entry_page (entry (pgs s) f (a mod 512))) prot) (pgs s)) s"
  have st: "prot_step v prot R M s ?s {a}" by (rule prot_one [OF Suc.prems(1-3) _ aM Suc.prems(5,6)]) (use Suc.prems(4) ay in simp)
  have b36: "Suc a \<le> 2 ^ 36" "b \<le> 2 ^ 36" using Suc.prems(7,8) by auto
  have more: "adr a + PAGE_SIZE \<noteq> adr b \<longleftrightarrow> Suc a \<noteq> b" using adr_inj [OF b36] by (simp add: adr_Suc)
  have loop: "mprotect_pte_loop f (a mod 512) (adr a) (adr b) prot s =
      (if Suc a \<noteq> b then mprotect_pte_loop f (a mod 512 + 1) (adr (Suc a)) (adr b) prot ?s else Some ?s)"
  proof -
    have "\<not> 512 \<le> a mod 512" by (simp add: not_le)
    then show ?thesis by (subst mprotect_pte_loop.simps) (use more in \<open>simp add: Let_def adr_Suc\<close>)
  qed
  show ?case
  proof (cases "Suc a = b")
    case True
    then have "{a..<b} = {a}" by auto
    then show ?thesis using st loop True by auto
  next
    case False
    note k = prot_stepD(2) [OF st]
    have nx: "Suc a mod 512 = a mod 512 + 1" using next_mod [of a] Suc.prems(7) Suc.prems(9) [of "Suc a"] ay False by simp
    have "d = b - Suc a" "vma_live ?s v" "m = vm_mm (vmas ?s v)" "tabm ?s m 3 y = Some f" "small_pages ?s v" "Suc a < b"
      "\<And>k. Suc a \<le> k \<Longrightarrow> k < b \<Longrightarrow> k div 512 = y \<and> k \<in> M v"
      using Suc.hyps(2) Suc.prems False prot_stepD(4) [OF st live, of 3 y] small_pages_kept [OF k] by auto
    from Suc.hyps(1) [OF this(1) prot_stepD(1) [OF st] this(2-4) Suc.prems(5) this(5,6) Suc.prems(8) this(7)] obtain s' where
      s': "mprotect_pte_loop f (Suc a mod 512) (adr (Suc a)) (adr b) prot ?s = Some s'" "prot_step v prot R M ?s s' {Suc a..<b}" by blast
    have "{a} \<union> {Suc a..<b} = {a..<b}" using Suc.prems(7) by auto
    then have "prot_step v prot R M s s' {a..<b}" using prot_step_trans [OF st s'(2)] live Suc.prems(3) by simp
    then show ?thesis using loop False s'(1) nx by auto
  qed
qed simp

section \<open>Walking the tables\<close>

text \<open>
  \<open>protects v prot a b n L\<close>: the loop \<open>L\<close> over the entries of a table of level \<open>n\<close> changes the pages of its chunk of the part
  from \<open>a\<close> to \<open>b\<close>.
\<close>

definition protects :: "nat \<Rightarrow> u64 \<Rightarrow> nat \<Rightarrow> nat \<Rightarrow> nat \<Rightarrow> (nat \<Rightarrow> nat \<Rightarrow> u64 \<Rightarrow> u64 \<Rightarrow> vm \<Rightarrow> vm option) \<Rightarrow> bool" where
  "protects v prot a b n L \<longleftrightarrow> (\<forall>s R M x c d g. pt_ok s R M \<longrightarrow> vma_live s v \<longrightarrow> small_pages s v \<longrightarrow> {a..<b} \<subseteq> M v \<longrightarrow> chunk a b n x c d \<longrightarrow>
     tabm s (vm_mm (vmas s v)) n x = Some g \<longrightarrow>
     (\<exists>s'. L g (table_index n (adr c)) (adr c) (adr d) s = Some s' \<and> prot_step v prot R M s s' {c..<d}))"

lemma protectsD:
  assumes "protects v prot a b n L" "pt_ok s R M" "vma_live s v" "small_pages s v" "{a..<b} \<subseteq> M v" "chunk a b n x c d" "m = vm_mm (vmas s v)"
    "tabm s m n x = Some g"
  shows "\<exists>s'. L g (table_index n (adr c)) (adr c) (adr d) s = Some s' \<and> prot_step v prot R M s s' {c..<d}"
  using assms unfolding protects_def by blast

lemma protects_pte:
  assumes "prot_ok prot" "b \<le> 2 ^ 36"
  shows "protects v prot a b 3 (\<lambda>f i addr end. mprotect_pte_loop f i addr end prot)"
  unfolding protects_def
proof (intro allI impI)
  fix s R M x c d g
  assume ok: "pt_ok s R M" "vma_live s v" and sm: "small_pages s v" and M: "{a..<b} \<subseteq> M v" and ch: "chunk a b 3 x c d"
    and g: "tabm s (vm_mm (vmas s v)) 3 x = Some g"
  note C = chunkD [OF ch]
  have b36: "c \<le> 2 ^ 36" "d \<le> 2 ^ 36" using C(2,4) assms(2) by simp_all
  have i: "table_index 3 (adr c) = c mod 512" using table_index_adr [OF b36(1), of 3] by (simp add: extent_def)
  have "k div 512 = x \<and> k \<in> M v" if "c \<le> k" "k < d" for k using C(1) [of k] that M by (auto simp: key_3)
  then show "\<exists>s'. mprotect_pte_loop g (table_index 3 (adr c)) (adr c) (adr d) prot s = Some s' \<and> prot_step v prot R M s s' {c..<d}"
    using mprotect_pte_loop_ok [OF ok refl g assms(1) sm C(2) b36(2)] i by simp
qed

text \<open>From the entry into the table below it.\<close>

definition enter :: "nat \<Rightarrow> (nat \<Rightarrow> nat \<Rightarrow> u64 \<Rightarrow> u64 \<Rightarrow> vm \<Rightarrow> vm option) \<Rightarrow> nat \<times> nat \<Rightarrow> u64 \<Rightarrow> u64 \<Rightarrow> vm \<Rightarrow> vm option" where
  "enter n L dir addr end s = do {
     bug_on (entry (pgs s) (fst dir) (snd dir) = 0);
     let p = table_offset n dir addr (pgs s);
     L (fst p) (snd p) addr end s }"

lemma enter_ok:
  assumes L: "protects v prot a b n L" and n: "lvl n" and ok: "pt_ok s R M" "vma_live s v" "small_pages s v" "{a..<b} \<subseteq> M v"
    and ch: "chunk a b n x c d" and m: "m = vm_mm (vmas s v)" and f: "tabm s m (n - 1) (x div 512) = Some f"
  shows "\<exists>s'. enter n L (f, x mod 512) (adr c) (adr d) s = Some s' \<and> prot_step v prot R M s s' {c..<d}"
proof -
  note C = chunkD [OF ch]
  have "c \<in> M v" using C ok(4) by auto
  then have "x \<in> R v n" using up_chain(2) [OF pt_okD(6) [OF ok(1)] ok(2) n] C(5) by auto
  then obtain g where g: "tabm s m n x = Some g" using used_table [OF ok(1,2) m n] by blast
  then have e: "entry (pgs s) f (x mod 512) \<noteq> 0" "entry_page (entry (pgs s) f (x mod 512)) = g"
    using tab_lvl [OF n, of "pgs s" "pgd (mms s m)" x] f by (auto split: if_splits)
  show ?thesis using protectsD [OF L ok ch m g] e by (simp add: enter_def table_offset_def)
qed

lemma mprotect_loop_ok:
  assumes L: "protects v prot a b (Suc n) L" and n: "n \<le> 2" and ch0: "chunk a b n y c0 d" and b: "b \<le> 2 ^ 36"
    and "pt_ok s R M" "vma_live s v" "small_pages s v" "{a..<b} \<subseteq> M v" "m = vm_mm (vmas s v)" "tabm s m n y = Some f"
      "c0 \<le> c" "c < d" "c = c0 \<or> extent n dvd c"
  shows "\<exists>s'. mprotect_loop (enter (Suc n) L) n f (c div extent n mod 512) (adr c) (adr d) s = Some s' \<and> prot_step v prot R M s s' {c..<d}"
  using assms(5-)
proof (induction "d - c" arbitrary: c s rule: less_induct)
  case less
  let ?x = "c div extent n"
  define e where "e = min (Suc ?x * extent n) d"
  have n3: "n \<le> 3" "lvl (Suc n)" using n by (auto simp: lvl_def)
  note ch = chunk_entry [OF ch0 n3(1) less.prems(7-9) e_def]
  have ce: "c < e" by (rule chunkD(2) [OF ch(1)])
  have b36: "d \<le> 2 ^ 36" "e \<le> 2 ^ 36" using chunkD(4) [OF ch0] b ch(2) by auto
  have nx: "addr_end n (adr c) (adr d) = adr e" unfolding e_def by (rule addr_end_adr [OF less.prems(8) b36(1) n3(1)])
  have more: "adr e \<noteq> adr d \<longleftrightarrow> e \<noteq> d" using adr_inj [OF b36(2,1)] by simp
  have live: "mm_live s m" using pt_baseD(4) [OF pt_okD(1) [OF less.prems(1)]] less.prems(2,5) by simp
  have f: "tabm s m (Suc n - 1) (?x div 512) = Some f" using less.prems(6) ch(3) by simp
  obtain s1 where s1: "enter (Suc n) L (f, ?x mod 512) (adr c) (adr e) s = Some s1" "prot_step v prot R M s s1 {c..<e}"
    using enter_ok [OF L n3(2) less.prems(1-4) ch(1) less.prems(5) f] by blast
  have loop: "mprotect_loop (enter (Suc n) L) n f (?x mod 512) (adr c) (adr d) s =
      (if e \<noteq> d then mprotect_loop (enter (Suc n) L) n f (?x mod 512 + 1) (adr e) (adr d) s1 else Some s1)"
  proof -
    have "\<not> 512 \<le> ?x mod 512" by (simp add: not_le)
    then show ?thesis by (subst mprotect_loop.simps) (simp only: Let_def nx more s1(1) if_False Option.bind.simps)
  qed
  show ?case
  proof (cases "e = d")
    case True
    then show ?thesis using loop s1(2) by simp
  next
    case False
    note ch' = ch(4) [OF False] and k = prot_stepD(2) [OF s1(2)]
    have "d - e < d - c" "vma_live s1 v" "small_pages s1 v" "m = vm_mm (vmas s1 v)" "tabm s1 m n y = Some f" "c0 \<le> e" "e < d" "e = c0 \<or> extent n dvd e"
      using ce ch' less.prems vm_keptD(3,11) [OF k] small_pages_kept [OF k] prot_stepD(4) [OF s1(2) live n3(1), of y] by auto
    from less.hyps [OF this(1) prot_stepD(1) [OF s1(2)] this(2,3) less.prems(4) this(4-8)] obtain s' where
      s': "mprotect_loop (enter (Suc n) L) n f (e div extent n mod 512) (adr e) (adr d) s1 = Some s'" "prot_step v prot R M s1 s' {e..<d}" by blast
    have "{c..<e} \<union> {e..<d} = {c..<d}" by (rule ivl_disj_un_two(3) [OF less_imp_le [OF ce] ch(2)])
    then have "prot_step v prot R M s s' {c..<d}" using prot_step_trans [OF s1(2) s'(2)] live less.prems(5) by simp
    then show ?thesis using loop False s'(1) ch' by auto
  qed
qed

lemma protects_loop:
  assumes "protects v prot a b (Suc n) L" "n \<le> 2" "b \<le> 2 ^ 36"
  shows "protects v prot a b n (mprotect_loop (enter (Suc n) L) n)"
  unfolding protects_def
proof (intro allI impI)
  fix s R M x c d g
  assume ok: "pt_ok s R M" "vma_live s v" "small_pages s v" "{a..<b} \<subseteq> M v" and ch: "chunk a b n x c d"
    and g: "tabm s (vm_mm (vmas s v)) n x = Some g"
  have "c \<le> 2 ^ 36" using chunkD(2,4) [OF ch] assms(3) by simp
  then have "table_index n (adr c) = c div extent n mod 512" using table_index_adr [of c n] assms(2) by simp
  then show "\<exists>s'. mprotect_loop (enter (Suc n) L) n g (table_index n (adr c)) (adr c) (adr d) s = Some s' \<and> prot_step v prot R M s s' {c..<d}"
    using mprotect_loop_ok [OF assms(1,2) ch assms(3) ok refl g order_refl chunkD(2) [OF ch]] by simp
qed

lemma protects_up:
  assumes "protects v prot a b n' L" "b \<le> 2 ^ 36" "enter n' L = below" "n' = Suc n" "n \<le> 2"
  shows "protects v prot a b n (mprotect_loop below n)"
  using protects_loop [of v prot a b n L] assms by auto

section \<open>A part of an area\<close>

lemma aligned_adr: "PAGE_ALIGNED (adr k)"
proof -
  have "adr k = push_bit 12 (of_nat k)" by (simp add: adr_def push_bit_eq_mult)
  moreover have "push_bit 12 w AND mask 12 = (0 :: u64)" for w by (rule bit_word_eqI) (auto simp: bit_simps)
  moreover have "4096 - 1 = (mask 12 :: u64)" by (simp add: mask_eq_exp_minus_1)
  ultimately show ?thesis unfolding PAGE_ALIGNED_def by metis
qed

lemma mprotect_ok:
  assumes ok: "pt_ok s R M" "vma_live s v" "small_pages s v" and M: "M v = {va..<vb}" and r: "va \<le> a" "a < b" "b \<le> vb" "vb \<le> 2 ^ 36"
    and e: "vm_start (vmas s v) = adr va" "vm_end (vmas s v) = adr vb"
  shows "\<exists>s'. mmap_mprotect_fixup (Some v) (adr a) (adr b) flags s = Some (s', 0) \<and>
    prot_step v (vm_get_page_prot (flags OR VM_SHARED)) R M s s' {a..<b}"
proof -
  let ?prot = "vm_get_page_prot (flags OR VM_SHARED)"
  have b36: "b \<le> 2 ^ 36" "va \<le> 2 ^ 36" "a \<le> 2 ^ 36" "vb \<le> 2 ^ 36" using r by auto
  note P = vm_get_page_prot_ok [of "flags OR VM_SHARED"]
  have l3: "protects v ?prot a b 3 (\<lambda>f i addr end. mprotect_pte_loop f i addr end ?prot)" by (rule protects_pte [OF P b36(1)])
  have e3: "enter 3 (\<lambda>f i addr end. mprotect_pte_loop f i addr end ?prot) = mprotect_fixup_pte_range ?prot"
    by (simp add: fun_eq_iff enter_def mprotect_fixup_pte_range_def Let_def)
  have l2: "protects v ?prot a b 2 (mprotect_loop (mprotect_fixup_pte_range ?prot) 2)"
    by (rule protects_up [OF l3 b36(1) e3]) simp_all
  have e2: "enter 2 (mprotect_loop (mprotect_fixup_pte_range ?prot) 2) = mprotect_fixup_pmd_range ?prot"
    by (simp add: fun_eq_iff enter_def mprotect_fixup_pmd_range_def Let_def)
  have l1: "protects v ?prot a b 1 (mprotect_loop (mprotect_fixup_pmd_range ?prot) 1)"
    by (rule protects_up [OF l2 b36(1) e2]) simp_all
  have e1: "enter 1 (mprotect_loop (mprotect_fixup_pmd_range ?prot) 1) = mprotect_fixup_pud_range ?prot"
    by (simp add: fun_eq_iff enter_def mprotect_fixup_pud_range_def Let_def)
  have l0: "protects v ?prot a b 0 (mprotect_loop (mprotect_fixup_pud_range ?prot) 0)"
    by (rule protects_up [OF l1 b36(1) e1]) simp_all
  have sub: "{a..<b} \<subseteq> M v" using M r by auto
  have g: "\<not> (adr a < adr va \<or> adr b > adr vb \<or> adr a \<ge> adr b)" using r b36 by (simp add: adr_less not_le not_less)
  show ?thesis
    using protectsD [OF l0 ok sub chunk_whole [OF r(2) b36(1)] refl] g e
    by (auto simp: mmap_mprotect_fixup_def aligned_adr)
qed

end
