(* ===== verification/Vm_Tree.thy ===== *)
theory Vm_Tree
  imports Pgt_Prot
begin

text \<open>
  The tree of the areas of an address space: its order, insertion without overlap, search by address, removal,
  and the iteration over the areas.
\<close>

definition vma_span :: "(nat \<Rightarrow> vm_area_struct) \<Rightarrow> nat \<Rightarrow> bool" where
  "vma_span va v \<longleftrightarrow> vm_start (va v) < vm_end (va v)"

definition vma_before :: "(nat \<Rightarrow> vm_area_struct) \<Rightarrow> nat \<Rightarrow> nat \<Rightarrow> bool" where
  "vma_before va v w \<longleftrightarrow> vm_end (va v) \<le> vm_start (va w)"

interpretation vti: rb_index_insert "vma_span va" "vma_before va" "vma_probe va" "\<lambda>v. (vm_start (va v), vm_end (va v))"
  for va :: "nat \<Rightarrow> vm_area_struct"
  by unfold_locales (auto simp: vma_span_def vma_before_def vma_probe_def split: if_splits)

interpretation vfi: rb_index "vma_span va" "vma_before va" "addr_probe va"
  for va :: "nat \<Rightarrow> vm_area_struct"
  by unfold_locales (auto simp: vma_span_def vma_before_def addr_probe_def split: if_splits)

definition area_tree :: "(nat \<Rightarrow> vm_area_struct) \<Rightarrow> nat rb_tree \<Rightarrow> nat set \<Rightarrow> bool" where
  "area_tree va t S \<longleftrightarrow> rb_index_ok (vma_span va) (vma_before va) t \<and> set (rb_inorder t) = S"

definition overlap :: "vm_area_struct \<Rightarrow> vm_area_struct \<Rightarrow> bool" where
  "overlap a b \<longleftrightarrow> vm_start a < vm_end b \<and> vm_start b < vm_end a"

lemma vma_probe_Stop: "vma_probe va (vm_start a, vm_end a) v = Stop \<longleftrightarrow> overlap a (va v)"
  by (auto simp: vma_probe_def overlap_def)

lemma addr_probe_Stop: "addr_probe va x v = Stop \<longleftrightarrow> vm_start (va v) \<le> x \<and> x < vm_end (va v)"
  by (auto simp: addr_probe_def)

lemma area_tree_cong:
  assumes "\<And>v. v \<in> S \<Longrightarrow> vm_start (va' v) = vm_start (va v) \<and> vm_end (va' v) = vm_end (va v)"
  shows "area_tree va' t S = area_tree va t S"
proof (cases "set (rb_inorder t) = S")
  case True
  have "sorted_wrt (vma_before va') (rb_inorder t) = sorted_wrt (vma_before va) (rb_inorder t)"
    using assms True by (intro iffI) (erule sorted_wrt_mono_rel [rotated], simp add: vma_before_def)+
  then show ?thesis using assms True by (auto simp: area_tree_def rb_index_ok_def vma_span_def)
qed (simp add: area_tree_def)

lemma area_tree_apart:
  assumes "area_tree va t S" "v \<in> S" "w \<in> S" "v \<noteq> w"
  shows "vma_before va v w \<or> vma_before va w v"
proof -
  let ?xs = "rb_inorder t"
  have s: "sorted_wrt (vma_before va) ?xs" and S: "set ?xs = S" using assms(1) by (simp_all add: area_tree_def rb_index_ok_def)
  obtain i j where i: "i < length ?xs" "?xs ! i = v" "j < length ?xs" "?xs ! j = w" using assms(2,3) S by (metis in_set_conv_nth)
  then have "i \<noteq> j" using assms(4) by auto
  then have "i < j \<or> j < i" by (rule nat_neq_iff [THEN iffD1])
  then show ?thesis using sorted_wrt_nth_less [OF s] i by blast
qed

lemma area_tree_span: "area_tree va t S \<Longrightarrow> v \<in> S \<Longrightarrow> vm_start (va v) < vm_end (va v)"
  by (auto simp: area_tree_def rb_index_ok_def vma_span_def)

lemma area_tree_insert:
  assumes "area_tree va t S" "vm_start (va v) < vm_end (va v)"
  shows "if \<exists>w\<in>S. overlap (va v) (va w)
    then rb_insert_at (vma_probe va (vm_start (va v), vm_end (va v))) v t = Some (t, False)
    else \<exists>t'. rb_insert_at (vma_probe va (vm_start (va v), vm_end (va v))) v t = Some (t', True) \<and> area_tree va t' (insert v S)"
proof (cases "\<exists>w\<in>S. overlap (va v) (va w)")
  case True
  then show ?thesis using vti.insert_clash [of va t _ v] assms(1) by (auto simp: area_tree_def vma_probe_Stop)
next
  case False
  have "\<forall>a\<in>set (rb_inorder t). vma_probe va (vm_start (va v), vm_end (va v)) a \<noteq> Stop"
    using False assms(1) by (auto simp: area_tree_def vma_probe_Stop)
  moreover have "vma_span va v" using assms(2) by (simp add: vma_span_def)
  ultimately obtain t' ls rs where "rb_insert_at (vma_probe va (vm_start (va v), vm_end (va v))) v t = Some (t', True)"
    "rb_index_ok (vma_span va) (vma_before va) t'" "rb_inorder t = ls @ rs" "rb_inorder t' = ls @ v # rs"
    using vti.insert_new [of va t v] assms(1) by (auto simp: area_tree_def)
  then show ?thesis using False assms(1) by (auto simp: area_tree_def)
qed

lemma area_tree_find:
  assumes "area_tree va t S"
  shows "case rb_find (addr_probe va x) t of
      None \<Rightarrow> \<forall>v\<in>S. \<not> (vm_start (va v) \<le> x \<and> x < vm_end (va v))
    | Some (u, p) \<Rightarrow> \<exists>v\<in>S. rb_plug u p = t \<and> rb_entry (u, p) = Some v \<and> vm_start (va v) \<le> x \<and> x < vm_end (va v)"
proof (cases "rb_find (addr_probe va x) t")
  case None
  then show ?thesis using vfi.find_None [of va t x] assms by (auto simp: area_tree_def addr_probe_Stop)
next
  case (Some up)
  then show ?thesis using vfi.find_Some [of va x t] assms by (cases up) (fastforce simp: area_tree_def addr_probe_Stop)
qed

lemma area_tree_erase:
  assumes "area_tree va (rb_plug u p) S" "rb_entry (u, p) = Some v"
  shows "\<exists>t'. rb_erase u p = Some t' \<and> area_tree va t' (S - {v})"
  using vti.erase_spec [of va u p v] assms by (auto simp: area_tree_def)

lemma area_tree_empty: "area_tree va t {} \<longleftrightarrow> t = RB_NULL"
  using rb_index_ok_empty by (cases t) (auto simp: area_tree_def)

end
