(* ===== verification/Vm_Inv.thy ===== *)
theory Vm_Inv
  imports Vm_Tree
begin

text \<open>
  The invariant of all address spaces: page tables, trees of areas, and the frames behind the areas.
\<close>

section \<open>Creating and freeing areas and address spaces\<close>

text \<open>
  \<open>vm_change s R M s' R' M'\<close>: from \<open>s\<close> to \<open>s'\<close> no page table changes; areas that use no table may come and go, address
  spaces without areas may go, and an empty one may come.
\<close>

definition fresh_area :: "vm \<Rightarrow> uses \<Rightarrow> maps \<Rightarrow> nat \<Rightarrow> bool" where
  "fresh_area s R M v \<longleftrightarrow> (\<forall>l. lvl l \<longrightarrow> R v l = {} \<and> table_root l (vmas s v) = RB_NULL) \<and> M v = {} \<and>
     prot_ok (vm_page_prot (vmas s v)) \<and> mm_live s (vm_mm (vmas s v))"

definition same_area :: "vm \<Rightarrow> uses \<Rightarrow> maps \<Rightarrow> vm \<Rightarrow> uses \<Rightarrow> maps \<Rightarrow> nat \<Rightarrow> bool" where
  "same_area s R M s' R' M' v \<longleftrightarrow> vma_live s v \<and> vmas s' v = vmas s v \<and> R' v = R v \<and> M' v = M v \<and> mm_live s' (vm_mm (vmas s v))"

definition fresh_mm :: "vm \<Rightarrow> vm \<Rightarrow> nat \<Rightarrow> bool" where
  "fresh_mm s s' m \<longleftrightarrow> held (pgs s') (pgd (mms s' m)) 1 \<and> pgd (mms s' m) \<notin> tables s \<and> pgd (mms s' m) < 2 ^ 36 \<and>
     mem (pgs s') (pgd (mms s' m)) = (\<lambda>_. 0) \<and> pgtables_bytes (mms s' m) = 0 \<and> (\<forall>v. vma_live s' v \<longrightarrow> vm_mm (vmas s' v) \<noteq> m)"

definition vm_change :: "vm \<Rightarrow> uses \<Rightarrow> maps \<Rightarrow> vm \<Rightarrow> uses \<Rightarrow> maps \<Rightarrow> nat \<Rightarrow> bool" where
  "vm_change s R M s' R' M' m0 \<longleftrightarrow> pg_inv (pgs s') \<and> page_pool (pgs s') \<subseteq> {..<2 ^ 36} \<and>
     (\<forall>m. mm_live s' m \<longrightarrow> (if m = m0 then fresh_mm s s' m
        else mm_live s m \<and> pgd (mms s' m) = pgd (mms s m) \<and> pgtables_bytes (mms s' m) = pgtables_bytes (mms s m))) \<and>
     (\<forall>m q n x. mm_live s' m \<longrightarrow> m \<noteq> m0 \<longrightarrow> n \<le> 3 \<longrightarrow> tabm s m n x = Some q \<longrightarrow>
        mem (pgs s') q = mem (pgs s) q \<and> (\<forall>c. held (pgs s) q c \<longrightarrow> held (pgs s') q c)) \<and>
     (\<forall>v. vma_live s' v \<longrightarrow> v < kmallocs s' \<and> (same_area s R M s' R' M' v \<or> \<not> vma_live s v \<and> fresh_area s' R' M' v)) \<and>
     (\<forall>v. vma_live s v \<longrightarrow> mm_live s' (vm_mm (vmas s v)) \<longrightarrow> vm_mm (vmas s v) \<noteq> m0 \<longrightarrow>
        same_area s R M s' R' M' v \<and> vma_live s' v \<or> \<not> vma_live s' v \<and> (\<forall>l. lvl l \<longrightarrow> R v l = {}) \<and> M v = {})"

lemma change_old:
  assumes ch: "vm_change s R M s' R' M' m0" and "mm_live s' m" "m \<noteq> m0"
  shows "mm_live s m" "pgd (mms s' m) = pgd (mms s m)" "pgtables_bytes (mms s' m) = pgtables_bytes (mms s m)"
  using assms unfolding vm_change_def by metis+

lemma change_walks:
  assumes ch: "vm_change s R M s' R' M' m0" and "mm_live s' m" "m \<noteq> m0" "n \<le> 3"
  shows "tabm s' m n x = tabm s m n x" "entm s' m n x = entm s m n x"
proof -
  have "entry (pgs s') f j = entry (pgs s) f j" if "k \<le> 3" "tabm s m k y = Some f" for k y f j
    using ch assms(2,3) that unfolding vm_change_def by (metis entry_cong)
  then show "tabm s' m n x = tabm s m n x" "entm s' m n x = entm s m n x"
    unfolding change_old(2) [OF ch assms(2,3)] by (rule other_walks [OF _ assms(4)], simp_all)+
qed

lemma change_new:
  assumes ch: "vm_change s R M s' R' M' m0" and "mm_live s' m0"
  shows "tabm s' m0 n x = (if n = 0 \<and> x = 0 then Some (pgd (mms s' m0)) else None)" "entm s' m0 n x = 0"
    "\<And>v. vma_live s' v \<Longrightarrow> vm_mm (vmas s' v) \<noteq> m0"
proof -
  have f: "fresh_mm s s' m0" using assms by (simp add: vm_change_def)
  then have z: "entry (pgs s') (pgd (mms s' m0)) j = 0" for j using entry_zero by (simp add: fresh_mm_def)
  show t: "tabm s' m0 n x = (if n = 0 \<and> x = 0 then Some (pgd (mms s' m0)) else None)" for n x
  proof (induction n arbitrary: x)
    case (Suc n)
    then show ?case using z by (cases n) (auto split: option.splits)
  qed simp
  show "entm s' m0 n x = 0" using z t [of n "x div 512"] by (simp add: ent_def split: option.splits)
  show "\<And>v. vma_live s' v \<Longrightarrow> vm_mm (vmas s' v) \<noteq> m0" using f by (simp add: fresh_mm_def)
qed

lemma change_users:
  assumes ch: "vm_change s R M s' R' M' m0" and "mm_live s' m" "m \<noteq> m0" "lvl n"
  shows "users s' R' m n x = users s R m n x"
proof (intro set_eqI iffI)
  fix v assume "v \<in> users s' R' m n x"
  then have v: "vma_live s' v" "vm_mm (vmas s' v) = m" "x \<in> R' v n" by (simp_all add: users_def)
  have "\<not> fresh_area s' R' M' v" using v(3) assms(4) by (auto simp: fresh_area_def)
  then have "same_area s R M s' R' M' v" using ch v(1) unfolding vm_change_def by blast
  then show "v \<in> users s R m n x" using v by (simp add: users_def same_area_def)
next
  fix v assume "v \<in> users s R m n x"
  then have v: "vma_live s v" "vm_mm (vmas s v) = m" "x \<in> R v n" by (simp_all add: users_def)
  then have "same_area s R M s' R' M' v \<and> vma_live s' v" using ch assms unfolding vm_change_def by blast
  then show "v \<in> users s' R' m n x" using v by (simp add: users_def same_area_def)
qed

lemma change_tabs:
  assumes ok: "pt_ok s R M" and ch: "vm_change s R M s' R' M' m0"
  shows "pt_tabs s' R'"
  unfolding pt_tabs_def
proof (intro allI impI)
  fix m n x assume m: "mm_live s' m" and n: "lvl n"
  show "case tabm s' m n x of None \<Rightarrow> users s' R' m n x = {}
      | Some f \<Rightarrow> users s' R' m n x \<noteq> {} \<and> held (pgs s') f (int (card (users s' R' m n x))) \<and> f < 2 ^ 36 \<and> entm s' m (n - 1) x = table_entry f"
  proof (cases "m = m0")
    case True
    have "n \<noteq> 0" using n by (auto simp: lvl_def)
    moreover have "users s' R' m n x = {}" using change_new(3) [OF ch] m True by (auto simp: users_def)
    ultimately show ?thesis using change_new(1) [OF ch, of n x] m True by simp
  next
    case False
    have n3: "n \<le> 3" "n - 1 \<le> 3" using n by (auto simp: lvl_def)
    note T = change_walks [OF ch m False n3(1), of x] change_walks(2) [OF ch m False n3(2), of x] change_users [OF ch m False n, of x]
    note o = change_old(1) [OF ch m False]
    show ?thesis
    proof (cases "tabm s m n x")
      case None
      then show ?thesis using T pt_tabs_None [OF pt_okD(2) [OF ok] o n None] by simp
    next
      case (Some f)
      have "\<forall>c. held (pgs s) f c \<longrightarrow> held (pgs s') f c" using ch m False n3(1) Some unfolding vm_change_def by blast
      then show ?thesis using T Some pt_tabsD [OF pt_okD(2) [OF ok] o n Some] by simp
    qed
  qed
qed

lemma change_inj:
  assumes ok: "pt_ok s R M" and ch: "vm_change s R M s' R' M' m0"
  shows "pt_inj s'"
  unfolding pt_inj_def
proof (intro allI impI)
  fix m n x m' n' x' f
  assume a: "mm_live s' m" "mm_live s' m'" "n \<le> 3" "n' \<le> 3" "tabm s' m n x = Some f" "tabm s' m' n' x' = Some f"
  have new: "f \<notin> tables s \<and> n = 0 \<and> x = 0" if "mm_live s' m0" "tabm s' m0 n x = Some f" for n x
    using change_new(1) [OF ch that(1), of n x] that ch by (auto simp: vm_change_def fresh_mm_def split: if_splits)
  have old: "mm_live s m \<and> tabm s m n x = Some f \<and> f \<in> tables s" if "mm_live s' m" "m \<noteq> m0" "n \<le> 3" "tabm s' m n x = Some f" for m n x
    using change_walks(1) [OF ch that(1-3), of x] change_old(1) [OF ch that(1,2)] that(3,4) unfolding tables_def by auto
  show "m = m' \<and> n = n' \<and> x = x'"
  proof (cases "m = m0"; cases "m' = m0")
    assume "m \<noteq> m0" "m' \<noteq> m0"
    then show ?thesis using old a pt_injD [OF pt_okD(3) [OF ok] _ _ a(3,4), of m m' x f x'] by blast
  qed (use a new old in blast)+
qed

lemma change_leaf:
  assumes ok: "pt_ok s R M" and ch: "vm_change s R M s' R' M' m0"
  shows "pt_leaf s' M'"
proof -
  note L = pt_leafD [OF pt_okD(4) [OF ok]]
  have mapped: "same_area s R M s' R' M' v" if "vma_live s' v" "k \<in> M' v" for v k
    using ch that unfolding vm_change_def fresh_area_def by blast
  have new: "vm_mm (vmas s' v) \<noteq> m0" if "same_area s R M s' R' M' v" "vma_live s' v" for v
    using change_new(3) [OF ch _ that(2)] that by (auto simp: same_area_def)
  have e: "entm s' m 3 k = entm s m 3 k" if "mm_live s' m" "m \<noteq> m0" for m k by (rule change_walks(2) [OF ch that order_refl])
  show ?thesis
    unfolding pt_leaf_def
  proof (intro conjI allI impI)
    fix v k assume v: "vma_live s' v" "k \<in> M' v"
    note S = mapped [OF v]
    then have "vma_live s v" "k \<in> M v" "vmas s' v = vmas s v" "mm_live s' (vm_mm (vmas s v))" using v by (auto simp: same_area_def)
    then show "\<exists>p prot. vma_page (vmas s' v) k = Some p \<and> prot_ok prot \<and> entm s' (vm_mm (vmas s' v)) 3 k = mk_pte p prot"
      using L(1) [of v k] new [OF S v(1)] e by simp
  next
    fix m k assume m: "mm_live s' m" and none: "\<forall>v. vma_live s' v \<longrightarrow> vm_mm (vmas s' v) = m \<longrightarrow> k \<notin> M' v"
    show "entm s' m 3 k = 0"
    proof (cases "m = m0")
      case False
      have "k \<notin> M v" if "vma_live s v" "vm_mm (vmas s v) = m" for v
        using ch that m False none unfolding vm_change_def same_area_def by (metis empty_iff)
      then show ?thesis using e [OF m False] L(2) [OF change_old(1) [OF ch m False]] by simp
    qed (use m change_new(2) [OF ch] in simp)
  next
    fix v w assume a: "vma_live s' v" "vma_live s' w" "v \<noteq> w" "vm_mm (vmas s' v) = vm_mm (vmas s' w)"
    have False if k: "k \<in> M' v" "k \<in> M' w" for k
      using mapped [OF a(1) k(1)] mapped [OF a(2) k(2)] L(3) [of v w k] a k by (auto simp: same_area_def)
    then show "M' v \<inter> M' w = {}" by blast
  qed
qed

lemma change_roots:
  assumes ok: "pt_ok s R M" and ch: "vm_change s R M s' R' M' m0"
  shows "pt_roots s' R'"
  unfolding pt_roots_def
proof (intro allI impI)
  fix v n assume v: "vma_live s' v" and n: "lvl n"
  then have n3: "n \<le> 3" by (simp add: lvl_def)
  show "remembers (table_root n (vmas s' v)) {f. \<exists>x\<in>R' v n. tabm s' (vm_mm (vmas s' v)) n x = Some f}"
  proof (cases "same_area s R M s' R' M' v")
    case True
    then have S: "vma_live s v" "vmas s' v = vmas s v" "R' v = R v" "mm_live s' (vm_mm (vmas s v))" by (auto simp: same_area_def)
    have "vm_mm (vmas s v) \<noteq> m0" using change_new(3) [OF ch _ v] S by auto
    then have "tabm s' (vm_mm (vmas s v)) n x = tabm s (vm_mm (vmas s v)) n x" for x by (rule change_walks(1) [OF ch S(4) _ n3])
    then show ?thesis using pt_okD(5) [OF ok] S n unfolding pt_roots_def by simp
  next
    case False
    then have "fresh_area s' R' M' v" using ch v unfolding vm_change_def by blast
    then have "R' v n = {}" "table_root n (vmas s' v) = RB_NULL" using n by (auto simp: fresh_area_def)
    then show ?thesis using remembers_empty [of RB_NULL] by simp
  qed
qed

lemma change_ok:
  assumes ok: "pt_ok s R M" and ch: "vm_change s R M s' R' M' m0"
  shows "pt_ok s' R' M'"
proof -
  note b = pt_baseD [OF pt_okD(1) [OF ok]]
  have S: "vma_live s v \<and> vmas s' v = vmas s v \<and> R' v = R v \<and> M' v = M v \<and> mm_live s' (vm_mm (vmas s v)) \<or> \<not> vma_live s v \<and> fresh_area s' R' M' v"
    if "vma_live s' v" for v using ch that unfolding vm_change_def same_area_def by blast
  have "held (pgs s') (pgd (mms s' m)) 1 \<and> pgd (mms s' m) < 2 ^ 36" if m: "mm_live s' m" for m
  proof (cases "m = m0")
    case True
    then have "fresh_mm s s' m" using ch m by (simp add: vm_change_def)
    then show ?thesis by (simp add: fresh_mm_def)
  next
    case False
    have "tabm s m 0 0 = Some (pgd (mms s m))" by simp
    then have "\<forall>c. held (pgs s) (pgd (mms s m)) c \<longrightarrow> held (pgs s') (pgd (mms s m)) c"
      using ch m False unfolding vm_change_def by (metis le0)
    then show ?thesis using b(6,7) change_old [OF ch m False] by simp
  qed
  moreover have "v < kmallocs s' \<and> mm_live s' (vm_mm (vmas s' v)) \<and> prot_ok (vm_page_prot (vmas s' v))" if "vma_live s' v" for v
    using S [OF that] ch that b(5) [of v] unfolding vm_change_def fresh_area_def by auto
  ultimately have "pt_base s'" using ch by (auto simp: pt_base_def vm_change_def)
  moreover have "pt_up s' R' M'"
    unfolding pt_up_def
  proof (intro allI impI)
    fix v assume v: "vma_live s' v"
    from S [OF v] show "(\<forall>n x. lvl n \<longrightarrow> lvl (Suc n) \<longrightarrow> x \<in> R' v (Suc n) \<longrightarrow> x div 512 \<in> R' v n) \<and> (\<forall>k\<in>M' v. k div 512 \<in> R' v 3)"
      using pt_okD(6) [OF ok] unfolding pt_up_def fresh_area_def by (elim disjE) simp_all
  qed
  moreover have "pt_bytes s'"
    unfolding pt_bytes_def
  proof (intro allI impI)
    fix m assume m: "mm_live s' m"
    show "pgtables_bytes (mms s' m) = of_nat (4096 * card (tab_keys s' m))"
    proof (cases "m = m0")
      case True
      then have "tab_keys s' m = {}" using change_new(1) [OF ch] m by (auto simp: tab_keys_def lvl_def)
      moreover have "fresh_mm s s' m" using ch m True by (simp add: vm_change_def)
      ultimately show ?thesis by (simp add: fresh_mm_def)
    next
      case False
      have "tab_keys s' m = tab_keys s m" using change_walks(1) [OF ch m False] by (auto simp: tab_keys_def lvl_def)
      then show ?thesis using pt_okD(7) [OF ok] change_old [OF ch m False] by (simp add: pt_bytes_def)
    qed
  qed
  ultimately show ?thesis using change_tabs [OF ok ch] change_inj [OF ok ch] change_leaf [OF ok ch] change_roots [OF ok ch] by (simp add: pt_ok_def)
qed

section \<open>The invariant\<close>

definition first_page :: "vm_area_struct \<Rightarrow> nat" where
  "first_page a = unat (vm_start a) div 4096"

definition past_page :: "vm_area_struct \<Rightarrow> nat" where
  "past_page a = unat (vm_end a) div 4096"

definition area_pages :: "vm_area_struct \<Rightarrow> nat set" where
  "area_pages a = {first_page a..<past_page a}"

definition area_wf :: "vm_area_struct \<Rightarrow> bool" where
  "area_wf a \<longleftrightarrow> vm_start a = adr (first_page a) \<and> vm_end a = adr (past_page a) \<and> first_page a < past_page a \<and> past_page a \<le> 2 ^ 36 \<and>
     length (vma_pages a) = past_page a - first_page a \<and> unat (nr_pages a) = past_page a - first_page a"

definition is_private :: "vm_area_struct \<Rightarrow> bool" where
  "is_private a \<longleftrightarrow> vm_flags a AND VM_PRIVATE_SHARE = 0"

text \<open>\<open>backs s v i p\<close>: frame \<open>p\<close> was allocated as the \<open>i\<close>th page of area \<open>v\<close>.\<close>

definition backs :: "vm \<Rightarrow> nat \<Rightarrow> nat \<Rightarrow> nat \<Rightarrow> bool" where
  "backs s v i p \<longleftrightarrow> vma_live s v \<and> is_private (vmas s v) \<and> i < length (vma_pages (vmas s v)) \<and> vma_pages (vmas s v) ! i = Some p"

definition frames_ok :: "vm \<Rightarrow> bool" where
  "frames_ok s \<longleftrightarrow>
     (\<forall>v. vma_live s v \<longrightarrow> is_private (vmas s v) \<longrightarrow> None \<notin> set (vma_pages (vmas s v))) \<and>
     (\<forall>v i p. backs s v i p \<longrightarrow> held (pgs s) p 1 \<and> p \<notin> tables s) \<and>
     (\<forall>v i w j p. backs s v i p \<longrightarrow> backs s w j p \<longrightarrow> v = w \<and> i = j)"

definition mm_ok :: "vm \<Rightarrow> bool" where
  "mm_ok s \<longleftrightarrow> (\<forall>m. mm_live s m \<longrightarrow> m < kmallocs s \<and> mm_count (mms s m) = 1 \<and>
     area_tree (vmas s) (vma_rb_root (mms s m)) {v. vma_live s v \<and> vm_mm (vmas s v) = m})"

text \<open>The tables and pages the mapped areas use: all those their pages need.\<close>

definition uses_of :: "vm \<Rightarrow> nat set \<Rightarrow> uses" where
  "uses_of s A = (\<lambda>v l. if v \<in> A \<and> lvl l then key l ` area_pages (vmas s v) else {})"

definition maps_of :: "vm \<Rightarrow> nat set \<Rightarrow> maps" where
  "maps_of s A = (\<lambda>v. if v \<in> A then area_pages (vmas s v) else {})"

definition vm_ok :: "vm \<Rightarrow> nat set \<Rightarrow> bool" where
  "vm_ok s A \<longleftrightarrow> (\<forall>v\<in>A. vma_live s v) \<and> pt_ok s (uses_of s A) (maps_of s A) \<and>
     (\<forall>v. vma_live s v \<longrightarrow> area_wf (vmas s v) \<and> small_pages s v) \<and> mm_ok s \<and> frames_ok s"

definition mapped_areas :: "vm \<Rightarrow> nat set" where
  "mapped_areas s = {v. vma_live s v \<and> pud_root (vmas s v) \<noteq> RB_NULL}"

definition vm_inv :: "vm \<Rightarrow> bool" where
  "vm_inv s \<longleftrightarrow> vm_ok s (mapped_areas s)"

lemma vm_okD:
  assumes "vm_ok s A"
  shows "v \<in> A \<Longrightarrow> vma_live s v" "pt_ok s (uses_of s A) (maps_of s A)" "vma_live s v \<Longrightarrow> area_wf (vmas s v)" "vma_live s v \<Longrightarrow> small_pages s v"
    "mm_ok s" "frames_ok s"
  using assms by (auto simp: vm_ok_def)

lemma mapped_of_ok:
  assumes "vm_ok s A"
  shows "mapped_areas s = A"
proof -
  note D = vm_okD [OF assms]
  have "pud_root (vmas s v) \<noteq> RB_NULL \<longleftrightarrow> v \<in> A" if v: "vma_live s v" for v
  proof -
    let ?S = "{f. \<exists>x\<in>uses_of s A v 1. tabm s (vm_mm (vmas s v)) 1 x = Some f}"
    have "remembers (table_root 1 (vmas s v)) ?S" using pt_okD(5) [OF D(2)] v lvl_simps(3) unfolding pt_roots_def by blast
    then have r: "remembers (pud_root (vmas s v)) ?S" by (simp add: table_root_def)
    show ?thesis
    proof (cases "v \<in> A")
      case False
      then have "?S = {}" by (simp add: uses_of_def)
      then show ?thesis using r False by (simp add: remembers_empty)
    next
      case True
      then have "key 1 (first_page (vmas s v)) \<in> uses_of s A v 1" using D(3) [OF v] by (simp add: uses_of_def area_pages_def area_wf_def)
      then have "?S \<noteq> {}" using used_table [OF D(2) v refl lvl_simps(3)] by blast
      then show ?thesis using r True by (auto simp: remembers_def)
    qed
  qed
  then show ?thesis using D(1) by (auto simp: mapped_areas_def)
qed

lemma vm_ok_inv: "vm_ok s A \<Longrightarrow> vm_inv s"
  using mapped_of_ok by (simp add: vm_inv_def)

lemma area_wfD:
  assumes "area_wf a"
  shows "vm_start a = adr (first_page a)" "vm_end a = adr (past_page a)" "first_page a < past_page a" "past_page a \<le> 2 ^ 36"
    "length (vma_pages a) = past_page a - first_page a" "unat (nr_pages a) = past_page a - first_page a" "vm_start a < vm_end a"
  using assms adr_less [of "first_page a" "past_page a"] by (auto simp: area_wf_def)

lemma before_pages:
  assumes "vma_before va v w" "area_wf (va v)" "area_wf (va w)"
  shows "area_pages (va v) \<inter> area_pages (va w) = {}"
proof -
  note a = area_wfD [OF assms(2)] and b = area_wfD [OF assms(3)]
  have "\<not> first_page (va w) < past_page (va v)"
    using assms(1) a(2) b(1) adr_less [of "first_page (va w)" "past_page (va v)"] a(4) b(3,4) by (auto simp: vma_before_def not_less [symmetric])
  then show ?thesis by (auto simp: area_pages_def)
qed

lemma areas_apart:
  assumes "vm_ok s A" "vma_live s v" "vma_live s w" "v \<noteq> w" "vm_mm (vmas s w) = vm_mm (vmas s v)"
  shows "area_pages (vmas s v) \<inter> area_pages (vmas s w) = {}"
proof -
  note D = vm_okD [OF assms(1)]
  have "mm_live s (vm_mm (vmas s v))" using pt_baseD(4) [OF pt_okD(1) [OF D(2)] assms(2)] .
  then have t: "area_tree (vmas s) (vma_rb_root (mms s (vm_mm (vmas s v)))) {u. vma_live s u \<and> vm_mm (vmas s u) = vm_mm (vmas s v)}"
    using D(5) by (simp add: mm_ok_def)
  show ?thesis using area_tree_apart [OF t, of v w] before_pages [of "vmas s"] D(3) assms(2-5) by blast
qed

lemma vm_ok_area_in:
  assumes ok: "vm_ok s A" and v: "vma_live s v"
  shows "area_in s (uses_of s A) (maps_of s A) v (first_page (vmas s v)) (past_page (vmas s v))"
proof -
  note D = vm_okD [OF ok]
  have "k \<notin> maps_of s A w" if "vma_live s w" "w \<noteq> v" "vm_mm (vmas s w) = vm_mm (vmas s v)" "k \<in> area_pages (vmas s v)" for w k
    using areas_apart [OF ok v that(1) that(2) [symmetric] that(3)] that(4) by (auto simp: maps_of_def)
  then show ?thesis using D(2) v area_wfD(4) [OF D(3) [OF v]]
    unfolding area_in_def by (auto simp: uses_of_def maps_of_def area_pages_def)
qed

lemma uses_kept:
  assumes "vm_kept s s'"
  shows "uses_of s' A = uses_of s A" "maps_of s' A = maps_of s A" "area_wf (vmas s' v) = area_wf (vmas s v)" "backs s' v i p = backs s v i p"
proof -
  note k = vm_keptD [OF assms]
  have f: "first_page (vmas s' v) = first_page (vmas s v)" "past_page (vmas s' v) = past_page (vmas s v)" for v
    by (simp_all add: first_page_def past_page_def k)
  then show "uses_of s' A = uses_of s A" "maps_of s' A = maps_of s A"
    by (simp_all add: uses_of_def maps_of_def area_pages_def fun_eq_iff)
  show "area_wf (vmas s' v) = area_wf (vmas s v)" by (simp add: area_wf_def f k)
  show "backs s' v i p = backs s v i p" by (simp add: backs_def is_private_def k)
qed

lemma frames_ok_kept:
  assumes "vm_kept s s'" "frames_kept s s'" "frames_ok s"
  shows "frames_ok s'"
  using assms(3) assms(2) unfolding frames_ok_def uses_kept(4) [OF assms(1)] frames_kept_def
  by (simp add: is_private_def vm_keptD [OF assms(1)]) blast

lemma mm_ok_kept:
  assumes "vm_kept s s'" "mm_ok s"
  shows "mm_ok s'"
proof -
  note k = vm_keptD [OF assms(1)]
  have m: "vma_rb_root (mms s' m) = vma_rb_root (mms s m)" "mm_count (mms s' m) = mm_count (mms s m)" for m
  proof -
    have c: "core_mm (mms s' m) = core_mm (mms s m)" using assms(1) by (simp add: vm_kept_def)
    show "vma_rb_root (mms s' m) = vma_rb_root (mms s m)" "mm_count (mms s' m) = mm_count (mms s m)"
      using arg_cong [OF c, of vma_rb_root] arg_cong [OF c, of mm_count] by (simp_all add: core_mm_def)
  qed
  have "area_tree (vmas s') t S = area_tree (vmas s) t S" for t S by (rule area_tree_cong) (simp add: k)
  then show ?thesis using assms(2) k(12) unfolding mm_ok_def m k by (meson less_le_trans)
qed

lemma vm_ok_kept:
  assumes ok: "vm_ok s A" and k: "vm_kept s s'" "frames_kept s s'" and pt: "pt_ok s' (uses_of s A') (maps_of s A')" and A': "\<And>v. v \<in> A' \<Longrightarrow> vma_live s v"
  shows "vm_ok s' A'"
  using vm_okD [OF ok] pt A' frames_ok_kept [OF k] mm_ok_kept [OF k(1)]
  unfolding vm_ok_def uses_kept [OF k(1)] small_pages_kept [OF k(1)] by (simp add: vm_keptD(11) [OF k(1)])

end
