(* ===== verification/Vm_Ops.thy ===== *)
theory Vm_Ops
  imports Vm_Inv
begin

text \<open>
  Mapping, unmapping and protecting an area in terms of the invariant of all address spaces, and of the page
  table entry that a walk finds for a page.
\<close>

definition page_entry :: "vm \<Rightarrow> nat \<Rightarrow> nat \<Rightarrow> u64" where
  "page_entry s m k = ent (pgs s) (pgd (mms s m)) 3 k"

lemma grow_uses:
  assumes "v \<notin> A"
  shows "grow (uses_of s A) v 1 (area_pages (vmas s v)) = uses_of s (insert v A)"
    "(maps_of s A)(v := area_pages (vmas s v)) = maps_of s (insert v A)"
  using assms by (auto simp: grow_def uses_of_def maps_of_def fun_eq_iff lvl_def)

lemma cut_uses_of:
  shows "cut_uses (uses_of s A) v 1 (area_pages (vmas s v)) = uses_of s (A - {v})" "(maps_of s A)(v := {}) = maps_of s (A - {v})"
  by (auto simp: cut_uses_def uses_of_def maps_of_def fun_eq_iff lvl_def)

text \<open>A step after which the areas use the same tables as before leaves the tables and the free frames as they were.\<close>

lemma same_tables:
  assumes ok: "pt_ok s R M" and st: "vm_step v s R M s' R M"
  shows "tables s' = tables s" "page_pool (pgs s') = page_pool (pgs s)" "mm_live s m \<Longrightarrow> n \<le> 3 \<Longrightarrow> tabm s' m n x = tabm s m n x"
proof -
  note S = vm_stepD [OF st] and k = vm_keptD [OF vm_stepD(2) [OF st]]
  have u: "users s' R m n x = users s R m n x" for m n x by (simp add: users_def k)
  have t: "tabm s' m n x = tabm s m n x" if m: "mm_live s m" "n \<le> 3" for m n x
  proof (cases "n = 0")
    case False
    then have n: "lvl n" using m(2) by (auto simp: lvl_def)
    have N: "tabm z m n x = None" if "pt_ok z R M" "mm_live z m" "users z R m n x = {}" for z
      using pt_okD(2) [OF that(1)] that(2,3) n unfolding pt_tabs_def by (fastforce split: option.splits)
    show ?thesis
    proof (cases "users s R m n x = {}")
      case True
      then show ?thesis using N [OF ok m(1)] N [OF S(1)] m(1) u by (simp add: k)
    qed (use S(6) [OF m(1) n] u in blast)
  qed (simp add: k)
  show "mm_live s m \<Longrightarrow> n \<le> 3 \<Longrightarrow> tabm s' m n x = tabm s m n x" by (rule t)
  show T: "tables s' = tables s" by (rule tables_cong) (simp add: k, rule t)
  have d: "q \<notin> page_pool (pgs z)" if "pt_ok z R M" "q \<in> tables z" for z q
    using table_held(2) [OF that(1)] that(2) by (auto simp: tables_def)
  have "page_pool (pgs s') \<union> tables s' = page_pool (pgs s) \<union> tables s" using S(3) by (simp add: frames_kept_def)
  then show "page_pool (pgs s') = page_pool (pgs s)" using T d [OF ok] d [OF S(1)] by blast
qed

lemma map_step:
  assumes ok: "vm_ok s A" and v: "vma_live s v" "v \<notin> A" "m = vm_mm (vmas s v)"
  shows "\<exists>s' r. vmap_page_range cpu (Some v) s = Some (s', r) \<and>
    (if r = int (unat (nr_pages (vmas s v)))
     then vm_step v s (uses_of s A) (maps_of s A) s' (uses_of s (insert v A)) (maps_of s (insert v A)) \<and>
       (\<forall>k\<in>area_pages (vmas s v). \<exists>p. vma_page (vmas s v) k = Some p \<and> page_entry s' m k = mk_pte p (vm_page_prot (vmas s v)))
     else r < 0 \<and> vm_step v s (uses_of s A) (maps_of s A) s' (uses_of s A) (maps_of s A))"
proof -
  let ?va = "first_page (vmas s v)" and ?vb = "past_page (vmas s v)"
  note W = area_wfD [OF vm_okD(3) [OF ok v(1)]] and a = vm_ok_area_in [OF ok v(1)]
  have P: "area_pages (vmas s v) = {?va..<?vb}" by (simp add: area_pages_def)
  have bk: "backed s v ?va ?vb" using W by (simp add: backed_def)
  have e: "uses_of s A v l = {}" "maps_of s A v = {}" for l using v(2) by (simp_all add: uses_of_def maps_of_def)
  have all: "(\<forall>k\<in>area_pages (vmas s v). Q k) \<longleftrightarrow> (\<forall>k. ?va \<le> k \<longrightarrow> k < ?vb \<longrightarrow> Q k)" for Q by (auto simp: P)
  show ?thesis using vmap_page_range_ok [OF a bk W(2,3,6) e, of cpu]
    unfolding P [symmetric] grow_uses [OF v(2), of s] page_entry_def all W(6) v(3) .
qed

lemma map_area:
  assumes ok: "vm_ok s A" and v: "vma_live s v" "v \<notin> A" "m = vm_mm (vmas s v)"
  shows "\<exists>s' r. vmap_page_range cpu (Some v) s = Some (s', r) \<and> vm_kept s s' \<and> frames_kept s s' \<and>
    (if r = int (unat (nr_pages (vmas s v)))
     then vm_ok s' (insert v A) \<and>
       (\<forall>k\<in>area_pages (vmas s v). \<exists>p. vma_page (vmas s v) k = Some p \<and> page_entry s' m k = mk_pte p (vm_page_prot (vmas s v))) \<and>
       (\<forall>m' k. mm_live s m' \<longrightarrow> \<not> (m' = m \<and> k \<in> area_pages (vmas s v)) \<longrightarrow> page_entry s' m' k = page_entry s m' k)
     else r < 0 \<and> vm_ok s' A \<and> tables s' = tables s \<and> page_pool (pgs s') = page_pool (pgs s) \<and>
       (\<forall>m' k. mm_live s m' \<longrightarrow> page_entry s' m' k = page_entry s m' k))"
proof -
  note D = vm_okD [OF ok]
  obtain s' r where r: "vmap_page_range cpu (Some v) s = Some (s', r)"
    "if r = int (unat (nr_pages (vmas s v)))
     then vm_step v s (uses_of s A) (maps_of s A) s' (uses_of s (insert v A)) (maps_of s (insert v A)) \<and>
       (\<forall>k\<in>area_pages (vmas s v). \<exists>p. vma_page (vmas s v) k = Some p \<and> page_entry s' m k = mk_pte p (vm_page_prot (vmas s v)))
     else r < 0 \<and> vm_step v s (uses_of s A) (maps_of s A) s' (uses_of s A) (maps_of s A)"
    using map_step [OF assms, of cpu] by blast
  show ?thesis
  proof (cases "r = int (unat (nr_pages (vmas s v)))")
    case True
    then have st: "vm_step v s (uses_of s A) (maps_of s A) s' (uses_of s (insert v A)) (maps_of s (insert v A))" using r(2) by simp
    note S = vm_stepD [OF st]
    have "vm_ok s' (insert v A)" by (rule vm_ok_kept [OF ok S(2,3,1)]) (use D(1) v(1) in auto)
    moreover have "page_entry s' m' k = page_entry s m' k" if "mm_live s m'" "\<not> (m' = m \<and> k \<in> area_pages (vmas s v))" for m' k
      unfolding page_entry_def by (rule S(7) [OF that(1)]) (use that(2) v(3) in \<open>auto simp: maps_of_def\<close>)
    ultimately show ?thesis using r True S(2,3) by auto
  next
    case False
    then have st: "vm_step v s (uses_of s A) (maps_of s A) s' (uses_of s A) (maps_of s A)" and neg: "r < 0" using r(2) by auto
    note S = vm_stepD [OF st]
    have "vm_ok s' A" by (rule vm_ok_kept [OF ok S(2,3,1)]) (rule D(1))
    moreover have "page_entry s' m' k = page_entry s m' k" if "mm_live s m'" for m' k
      unfolding page_entry_def by (rule S(7) [OF that]) simp
    ultimately show ?thesis using r(1) neg False S(2,3) same_tables [OF D(2) st] by auto
  qed
qed

lemma unmap_step:
  assumes ok: "vm_ok s A" and v: "v \<in> A"
  shows "\<exists>s'. vumap_page_range cpu (Some v) s = Some s' \<and>
    vm_step v s (uses_of s A) (maps_of s A) s' (uses_of s (A - {v})) (maps_of s (A - {v}))"
proof -
  have live: "vma_live s v" using vm_okD(1) [OF ok v] .
  note W = area_wfD [OF vm_okD(3) [OF ok live]] and a = vm_ok_area_in [OF ok live]
  have u: "uses_all (uses_of s A) v 1 (first_page (vmas s v)) (past_page (vmas s v))"
    using v by (auto simp: uses_all_def uses_of_def area_pages_def)
  show ?thesis using vumap_page_range_ok [OF a W(1-3) u, of cpu] cut_uses_of [of s A v] by (auto simp: area_pages_def)
qed

lemma unmap_area:
  assumes ok: "vm_ok s A" and v: "v \<in> A" "m = vm_mm (vmas s v)"
  shows "\<exists>s'. vumap_page_range cpu (Some v) s = Some s' \<and> vm_kept s s' \<and> frames_kept s s' \<and> vm_ok s' (A - {v}) \<and>
    (\<forall>k\<in>area_pages (vmas s v). page_entry s' m k = 0) \<and>
    (\<forall>m' k. mm_live s m' \<longrightarrow> \<not> (m' = m \<and> k \<in> area_pages (vmas s v)) \<longrightarrow> page_entry s' m' k = page_entry s m' k)"
proof -
  note D = vm_okD [OF ok]
  have live: "vma_live s v" using D(1) v(1) .
  note a = vm_ok_area_in [OF ok live]
  obtain s' where s': "vumap_page_range cpu (Some v) s = Some s'"
    "vm_step v s (uses_of s A) (maps_of s A) s' (uses_of s (A - {v})) (maps_of s (A - {v}))" using unmap_step [OF ok v(1), of cpu] by blast
  note S = vm_stepD [OF s'(2)] and k = vm_keptD [OF vm_stepD(2) [OF s'(2)]]
  have "vm_ok s' (A - {v})" by (rule vm_ok_kept [OF ok S(2,3,1)]) (use D(1) in auto)
  moreover have "page_entry s' m j = 0" if j: "j \<in> area_pages (vmas s v)" for j
    unfolding page_entry_def
  proof (rule unmapped_zero [OF S(1)])
    show "mm_live s' m" using area_inD(7) [OF a] v(2) by (simp add: k)
    show "j \<notin> maps_of s (A - {v}) w" if "vma_live s' w" "vm_mm (vmas s' w) = m" for w
      using areas_apart [OF ok live, of w] that j v(2) by (cases "w = v") (auto simp: maps_of_def k)
  qed
  moreover have "page_entry s' m' j = page_entry s m' j" if "mm_live s m'" "\<not> (m' = m \<and> j \<in> area_pages (vmas s v))" for m' j
    unfolding page_entry_def by (rule S(7) [OF that(1)]) (use that(2) v in \<open>auto simp: maps_of_def\<close>)
  ultimately show ?thesis using s'(1) S(2,3) by auto
qed

lemma protect_area:
  assumes ok: "vm_ok s A" and v: "v \<in> A" "m = vm_mm (vmas s v)" and r: "first_page (vmas s v) \<le> a" "a < b" "b \<le> past_page (vmas s v)"
  shows "\<exists>s'. mmap_mprotect_fixup (Some v) (adr a) (adr b) flags s = Some (s', 0) \<and> vm_kept s s' \<and> frames_kept s s' \<and> vm_ok s' A \<and>
    tables s' = tables s \<and>
    (\<forall>k. a \<le> k \<longrightarrow> k < b \<longrightarrow> (\<exists>p. vma_page (vmas s v) k = Some p \<and> page_entry s' m k = mk_pte p (vm_get_page_prot (flags OR VM_SHARED)))) \<and>
    (\<forall>m' k. mm_live s m' \<longrightarrow> \<not> (m' = m \<and> a \<le> k \<and> k < b) \<longrightarrow> page_entry s' m' k = page_entry s m' k)"
proof -
  note D = vm_okD [OF ok]
  have live: "vma_live s v" using D(1) v(1) .
  note W = area_wfD [OF D(3) [OF live]]
  have M: "maps_of s A v = {first_page (vmas s v)..<past_page (vmas s v)}" using v(1) by (simp add: maps_of_def area_pages_def)
  obtain s' where s': "mmap_mprotect_fixup (Some v) (adr a) (adr b) flags s = Some (s', 0)"
    "prot_step v (vm_get_page_prot (flags OR VM_SHARED)) (uses_of s A) (maps_of s A) s s' {a..<b}"
    using mprotect_ok [OF D(2) live D(4) [OF live] M r W(4,1,2), of flags] by blast
  note S = prot_stepD [OF s'(2)]
  have "vm_ok s' A" by (rule vm_ok_kept [OF ok S(2,3,1)]) (rule D(1))
  moreover have "tables s' = tables s" by (rule tables_cong) (use S(4) vm_keptD(10) [OF S(2)] in simp_all)
  ultimately show ?thesis using s'(1) S(2,3,5,6) v(2) by (auto simp: page_entry_def)
qed

end
