(* ===== verification/Vm_Areas.thy ===== *)
theory Vm_Areas
  imports Vm_Ops
begin

text \<open>
  Creating and freeing areas and address spaces: the invariant is kept, no \<^verbatim>\<open>BUG_ON\<close> is hit, and the frames of an
  area come from the page allocator and go back to it.
\<close>

section \<open>The frames of an area\<close>

lemma alloc_vma_pages_ok:
  assumes "pg_inv s"
  shows "\<exists>s' ps. alloc_vma_pages cpu n s = Some (s', ps) \<and> length ps \<le> n \<and> pg_inv s' \<and> distinct ps \<and> set ps \<subseteq> page_pool s \<and>
    page_pool s' = page_pool s - set ps \<and> (\<forall>p c. held s p c \<longrightarrow> held s' p c) \<and> (\<forall>p\<in>set ps. held s' p 1) \<and>
    (\<forall>q. mem s' q = (if q \<in> set ps then (\<lambda>_. 0) else mem s q))"
  using assms
proof (induction n arbitrary: s)
  case (Suc n)
  have z: "((GFP_USER OR GFP_ZERO) AND GFP_ZERO \<noteq> 0) = True" by simp
  obtain s1 r where a: "alloc_pages cpu (GFP_USER OR GFP_ZERO) 0 s = Some (s1, r)" "pg_inv s1" "\<And>p c. held s p c \<Longrightarrow> held s1 p c"
    "case r of
       None \<Rightarrow> mem s1 = mem s \<and> page_pool s1 = page_pool s
     | Some p \<Rightarrow> held s1 p 1 \<and> p \<in> page_pool s \<and> page_pool s1 = page_pool s - {p} \<and> mem s1 = (mem s)(p := (\<lambda>_. 0))"
    using frame_alloc [OF Suc.prems, of cpu "GFP_USER OR GFP_ZERO"] unfolding z if_True by blast
  show ?case
  proof (cases r)
    case None
    then show ?thesis using a by auto
  next
    case (Some p)
    obtain s' ps where s': "alloc_vma_pages cpu n s1 = Some (s', ps)" "length ps \<le> n" "pg_inv s'" "distinct ps" "set ps \<subseteq> page_pool s1"
      "page_pool s' = page_pool s1 - set ps" "\<forall>p c. held s1 p c \<longrightarrow> held s' p c" "\<forall>p\<in>set ps. held s' p 1"
      "\<forall>q. mem s' q = (if q \<in> set ps then (\<lambda>_. 0) else mem s1 q)"
      using Suc.IH [OF a(2)] by blast
    have p: "held s1 p 1" "p \<in> page_pool s" "page_pool s1 = page_pool s - {p}" "mem s1 = (mem s)(p := (\<lambda>_. 0))"
      using a(4) Some by auto
    have "alloc_vma_pages cpu (Suc n) s = Some (s', p # ps)" using a(1) Some s'(1) by simp
    moreover have "mem s' q = (if q \<in> set (p # ps) then (\<lambda>_. 0) else mem s q)" for q using s'(9) p(4) by auto
    ultimately show ?thesis using s'(2-8) p(1-3) a(3) by auto
  qed
qed simp

lemma free_vma_pages_ok:
  assumes "pg_inv s" "distinct ps" "\<forall>p\<in>set ps. held s p 1"
  shows "\<exists>s'. foreach (\<lambda>p. free_pages_pfn cpu p 0) ps s = Some s' \<and> foreach (put_vma_page cpu) (map Some ps) s = Some s' \<and> pg_inv s' \<and>
    page_pool s' = page_pool s \<union> set ps \<and> mem s' = mem s \<and> (\<forall>q c. q \<notin> set ps \<longrightarrow> held s q c \<longrightarrow> held s' q c)"
  using assms
proof (induction ps arbitrary: s)
  case (Cons p ps)
  have hp: "held s p 1" using Cons.prems(3) by simp
  obtain s1 where s1: "put_page cpu p s = Some s1" "free_pages_pfn cpu p 0 s = Some s1" "pg_inv s1" "\<And>q n. q \<noteq> p \<Longrightarrow> held s q n \<Longrightarrow> held s1 q n"
    "mem s1 = mem s" "page_pool s1 = insert p (page_pool s)" using frame_put [OF Cons.prems(1) hp, of cpu] by blast
  have h1: "\<forall>q\<in>set ps. held s1 q 1"
  proof
    fix q assume "q \<in> set ps"
    then show "held s1 q 1" using s1(4) [of q 1] Cons.prems(2,3) by auto
  qed
  obtain s' where s': "foreach (\<lambda>p. free_pages_pfn cpu p 0) ps s1 = Some s'" "foreach (put_vma_page cpu) (map Some ps) s1 = Some s'" "pg_inv s'"
    "page_pool s' = page_pool s1 \<union> set ps" "mem s' = mem s1" "\<forall>q c. q \<notin> set ps \<longrightarrow> held s1 q c \<longrightarrow> held s' q c"
    using Cons.IH [OF s1(3) _ h1] Cons.prems(2) by auto
  have put: "put_vma_page cpu (Some p) s = Some s1" using s1(1) by (simp add: put_vma_page_def)
  have "held s' q c" if "q \<notin> set (p # ps)" "held s q c" for q c using that s'(6) s1(4) [of q c] by simp
  then show ?case using s1 s' put by (intro exI [of _ s']) simp
qed simp

section \<open>Changes that keep the invariant\<close>

lemma change_tables:
  assumes "vm_change s R M s' R' M' m0"
  shows "tables s' \<subseteq> tables s \<union> (if mm_live s' m0 then {pgd (mms s' m0)} else {})"
proof
  fix q assume "q \<in> tables s'"
  then obtain m n x where q: "mm_live s' m" "n \<le> 3" "tabm s' m n x = Some q" by (auto simp: tables_def)
  show "q \<in> tables s \<union> (if mm_live s' m0 then {pgd (mms s' m0)} else {})"
  proof (cases "m = m0")
    case True
    then show ?thesis using q change_new(1) [OF assms, of n x] by (auto split: if_splits)
  next
    case False
    then show ?thesis using q change_walks(1) [OF assms q(1) False q(2), of x] change_old(1) [OF assms q(1) False] unfolding tables_def by auto
  qed
qed

lemma change_tables_same:
  assumes "vm_change s R M s' R' M' m0" "\<And>m. mm_live s' m \<longleftrightarrow> mm_live s m" "\<not> mm_live s m0"
  shows "tables s' = tables s"
proof -
  have "tabm s' m n x = tabm s m n x" if "mm_live s m" "n \<le> 3" for m n x
    by (rule change_walks(1) [OF assms(1) _ _ that(2)]) (use that assms in auto)
  moreover have "mm_live s' = mm_live s" using assms(2) by (rule ext)
  ultimately show ?thesis using tables_cong [of s' s] by simp
qed

lemma not_pool_table: "pt_ok s R M \<Longrightarrow> q \<in> tables s \<Longrightarrow> q \<notin> page_pool (pgs s)"
  using table_held(2) by (auto simp: tables_def)

text \<open>
  \<open>area_change s A s' F m0\<close>: from \<open>s\<close> to \<open>s'\<close> the frames \<open>F\<close> may be freed and free frames be taken, areas outside \<open>A\<close>
  may go, a new area may come, address spaces may go, and \<open>m0\<close> may come.
\<close>

definition new_area :: "vm \<Rightarrow> nat set \<Rightarrow> vm \<Rightarrow> nat \<Rightarrow> bool" where
  "new_area s A s' v \<longleftrightarrow> v \<notin> A \<and> \<not> vma_live s v \<and> (\<forall>l. lvl l \<longrightarrow> table_root l (vmas s' v) = RB_NULL) \<and>
     prot_ok (vm_page_prot (vmas s' v)) \<and> mm_live s' (vm_mm (vmas s' v)) \<and> area_wf (vmas s' v) \<and> small_pages s' v \<and>
     (is_private (vmas s' v) \<longrightarrow>
        (\<exists>ps. vma_pages (vmas s' v) = map Some ps \<and> distinct ps \<and> set ps \<subseteq> page_pool (pgs s) \<and> (\<forall>p\<in>set ps. held (pgs s') p 1)))"

definition area_change :: "vm \<Rightarrow> nat set \<Rightarrow> vm \<Rightarrow> nat set \<Rightarrow> nat \<Rightarrow> bool" where
  "area_change s A s' F m0 \<longleftrightarrow> pg_inv (pgs s') \<and> page_pool (pgs s') \<subseteq> {..<2 ^ 36} \<and>
     (\<forall>m. mm_live s' m \<longrightarrow> (if m = m0 then fresh_mm s s' m
        else mm_live s m \<and> pgd (mms s' m) = pgd (mms s m) \<and> pgtables_bytes (mms s' m) = pgtables_bytes (mms s m))) \<and>
     (\<forall>q c. q \<notin> F \<longrightarrow> held (pgs s) q c \<longrightarrow> held (pgs s') q c) \<and>
     (\<forall>q. q \<notin> page_pool (pgs s) \<longrightarrow> mem (pgs s') q = mem (pgs s) q) \<and>
     (\<forall>m n x q. mm_live s' m \<longrightarrow> m \<noteq> m0 \<longrightarrow> n \<le> 3 \<longrightarrow> tabm s m n x = Some q \<longrightarrow> q \<notin> F) \<and>
     (\<forall>v. vma_live s' v \<longrightarrow> v < kmallocs s' \<and>
        (vma_live s v \<and> vmas s' v = vmas s v \<and> mm_live s' (vm_mm (vmas s v)) \<or> new_area s A s' v)) \<and>
     (\<forall>v\<in>A. vma_live s' v) \<and>
     (\<forall>v i p. vma_live s' v \<longrightarrow> backs s v i p \<longrightarrow> p \<notin> F) \<and>
     (\<forall>v w. vma_live s' v \<longrightarrow> vma_live s' w \<longrightarrow> \<not> vma_live s v \<longrightarrow> \<not> vma_live s w \<longrightarrow> v = w) \<and>
     (\<forall>v i. mm_live s' m0 \<longrightarrow> \<not> backs s' v i (pgd (mms s' m0))) \<and> mm_ok s'"

lemma area_changeD:
  assumes "area_change s A s' F m0"
  shows "pg_inv (pgs s')" "page_pool (pgs s') \<subseteq> {..<2 ^ 36}"
    "mm_live s' m \<Longrightarrow> if m = m0 then fresh_mm s s' m
        else mm_live s m \<and> pgd (mms s' m) = pgd (mms s m) \<and> pgtables_bytes (mms s' m) = pgtables_bytes (mms s m)"
    "q \<notin> F \<Longrightarrow> held (pgs s) q c \<Longrightarrow> held (pgs s') q c" "q \<notin> page_pool (pgs s) \<Longrightarrow> mem (pgs s') q = mem (pgs s) q"
    "mm_live s' m \<Longrightarrow> m \<noteq> m0 \<Longrightarrow> n \<le> 3 \<Longrightarrow> tabm s m n x = Some q \<Longrightarrow> q \<notin> F"
    "vma_live s' v \<Longrightarrow> v < kmallocs s'"
    "vma_live s' v \<Longrightarrow> vma_live s v \<and> vmas s' v = vmas s v \<and> mm_live s' (vm_mm (vmas s v)) \<or> new_area s A s' v"
    "v \<in> A \<Longrightarrow> vma_live s' v" "vma_live s' v \<Longrightarrow> backs s v i p \<Longrightarrow> p \<notin> F"
    "vma_live s' v \<Longrightarrow> vma_live s' w \<Longrightarrow> \<not> vma_live s v \<Longrightarrow> \<not> vma_live s w \<Longrightarrow> v = w"
    "mm_live s' m0 \<Longrightarrow> \<not> backs s' v i (pgd (mms s' m0))" "mm_ok s'"
  using assms unfolding area_change_def by blast+

lemma area_change_vm:
  assumes ok: "vm_ok s A" and ch: "area_change s A s' F m0"
  shows "vm_change s (uses_of s A) (maps_of s A) s' (uses_of s' A) (maps_of s' A) m0"
proof -
  let ?R = "uses_of s A" and ?M = "maps_of s A" and ?R' = "uses_of s' A" and ?M' = "maps_of s' A"
  note D = vm_okD [OF ok] and C = area_changeD [OF ch]
  have same: "same_area s ?R ?M s' ?R' ?M' v" if "vma_live s v" "vmas s' v = vmas s v" "mm_live s' (vm_mm (vmas s v))" for v
    using that by (simp add: same_area_def uses_of_def maps_of_def fun_eq_iff)
  have fresh: "fresh_area s' ?R' ?M' v" if "new_area s A s' v" for v
    using that by (simp add: new_area_def fresh_area_def uses_of_def maps_of_def)
  have live: "v < kmallocs s' \<and> (same_area s ?R ?M s' ?R' ?M' v \<or> \<not> vma_live s v \<and> fresh_area s' ?R' ?M' v)" if v: "vma_live s' v" for v
    using C(7,8) [OF v] same [of v] fresh [of v] unfolding new_area_def by blast
  have tab: "mem (pgs s') q = mem (pgs s) q \<and> (\<forall>c. held (pgs s) q c \<longrightarrow> held (pgs s') q c)"
    if q: "mm_live s' m" "m \<noteq> m0" "n \<le> 3" "tabm s m n x = Some q" for m n x q
  proof -
    have l: "mm_live s m" using C(3) [OF q(1)] q(2) by simp
    have "q \<notin> page_pool (pgs s)" using table_held(2) [OF D(2) l q(3,4)] .
    then show ?thesis using C(5) C(4) [OF C(6) [OF q]] by blast
  qed
  have old: "same_area s ?R ?M s' ?R' ?M' v \<and> vma_live s' v \<or> \<not> vma_live s' v \<and> (\<forall>l. lvl l \<longrightarrow> ?R v l = {}) \<and> ?M v = {}"
    if v: "vma_live s v" for v
  proof (cases "vma_live s' v")
    case True
    then show ?thesis using live [OF True] v by blast
  next
    case False
    then have "v \<notin> A" using C(9) by blast
    then show ?thesis using False by (simp add: uses_of_def maps_of_def)
  qed
  show ?thesis unfolding vm_change_def by (intro conjI allI impI) (use C(1-3) live tab old in \<open>auto simp del: if_split\<close>)
qed

lemma change_backs:
  assumes ok: "vm_ok s A" and ch: "area_change s A s' F m0" and b: "backs s' v i p"
  shows "held (pgs s') p 1" "p \<notin> tables s'" "vma_live s v \<and> backs s v i p \<or> \<not> vma_live s v \<and> new_area s A s' v \<and> p \<in> page_pool (pgs s)"
proof -
  note D = vm_okD [OF ok] and C = area_changeD [OF ch] and tb = change_tables [OF area_change_vm [OF ok ch]]
  have v: "vma_live s' v" "is_private (vmas s' v)" "i < length (vma_pages (vmas s' v))" "vma_pages (vmas s' v) ! i = Some p"
    using b by (auto simp: backs_def)
  have n0: "p \<noteq> pgd (mms s' m0)" if "mm_live s' m0" using C(12) [OF that, of v i] b by auto
  consider (old) "vma_live s v" "backs s v i p" | (new) "\<not> vma_live s v" "new_area s A s' v"
    using C(8) [OF v(1)] v by (auto simp: backs_def new_area_def)
  then have "held (pgs s') p 1 \<and> p \<notin> tables s \<and> (vma_live s v \<and> backs s v i p \<or> \<not> vma_live s v \<and> new_area s A s' v \<and> p \<in> page_pool (pgs s))"
  proof cases
    case old
    have "held (pgs s) p 1" "p \<notin> tables s" using D(6) old(2) unfolding frames_ok_def by blast+
    then show ?thesis using C(4) [OF C(10) [OF v(1) old(2)]] old by blast
  next
    case new
    obtain ps where ps: "vma_pages (vmas s' v) = map Some ps" "set ps \<subseteq> page_pool (pgs s)" "\<forall>p\<in>set ps. held (pgs s') p 1"
      using new(2) v(2) unfolding new_area_def by blast
    have "p \<in> set ps" using v(3,4) ps(1) by auto
    then show ?thesis using ps new not_pool_table [OF D(2), of p] by blast
  qed
  then show "held (pgs s') p 1" "p \<notin> tables s'" "vma_live s v \<and> backs s v i p \<or> \<not> vma_live s v \<and> new_area s A s' v \<and> p \<in> page_pool (pgs s)"
    using tb n0 by (auto split: if_splits)
qed

lemma change_frames:
  assumes ok: "vm_ok s A" and ch: "area_change s A s' F m0"
  shows "frames_ok s'"
proof -
  note D = vm_okD [OF ok] and C = area_changeD [OF ch] and B = change_backs [OF ok ch]
  have none: "None \<notin> set (vma_pages (vmas s' v))" if "vma_live s' v" "is_private (vmas s' v)" for v
    using C(8) [OF that(1)] that D(6) unfolding frames_ok_def new_area_def by auto
  have pool: "p \<notin> page_pool (pgs s)" if "backs s v i p" for v i p
    using D(6) that held_not_pool [OF pt_baseD(1) [OF pt_okD(1) [OF D(2)]]] unfolding frames_ok_def by blast
  have inj: "v = w \<and> i = j" if b: "backs s' v i p" "backs s' w j p" for v i w j p
  proof (cases "vma_live s v")
    case True
    then have "backs s v i p" "backs s w j p" using B(3) [OF b(1)] B(3) [OF b(2)] pool by blast+
    then show ?thesis using D(6) unfolding frames_ok_def by blast
  next
    case False
    then have n: "new_area s A s' v" "\<not> vma_live s w" using B(3) [OF b(1)] B(3) [OF b(2)] pool by blast+
    have vw: "v = w" using C(11) False n(2) b by (auto simp: backs_def)
    obtain ps where "vma_pages (vmas s' v) = map Some ps" "distinct ps" using n(1) b(1) unfolding new_area_def backs_def by blast
    then show ?thesis using b vw by (auto simp: backs_def nth_eq_iff_index_eq)
  qed
  show ?thesis unfolding frames_ok_def using none B(1,2) inj by blast
qed

lemma area_change_ok:
  assumes ok: "vm_ok s A" and ch: "area_change s A s' F m0"
  shows "vm_ok s' A" "mm_live s' m \<Longrightarrow> m \<noteq> m0 \<Longrightarrow> page_entry s' m k = page_entry s m k" "mm_live s' m0 \<Longrightarrow> page_entry s' m0 k = 0"
proof -
  note D = vm_okD [OF ok] and C = area_changeD [OF ch] and V = area_change_vm [OF ok ch]
  have a: "area_wf (vmas s' v) \<and> small_pages s' v" if "vma_live s' v" for v
    using C(8) [OF that] D(3,4) [of v] by (auto simp: new_area_def small_pages_def)
  show "vm_ok s' A" unfolding vm_ok_def using C(9,13) a change_ok [OF D(2) V] change_frames [OF ok ch] by blast
  show "mm_live s' m \<Longrightarrow> m \<noteq> m0 \<Longrightarrow> page_entry s' m k = page_entry s m k"
    unfolding page_entry_def by (rule change_walks(2) [OF V]) simp_all
  show "mm_live s' m0 \<Longrightarrow> page_entry s' m0 k = 0" unfolding page_entry_def by (rule change_new(2) [OF V])
qed

section \<open>Creating an area\<close>

text \<open>From \<open>s\<close> to \<open>s'\<close> frames are taken from the pool and objects are allocated, but no area or address space changes.\<close>

definition takes :: "vm \<Rightarrow> vm \<Rightarrow> bool" where
  "takes s s' \<longleftrightarrow> mms s' = mms s \<and> mm_live s' = mm_live s \<and> vma_live s' = vma_live s \<and>
     (\<forall>v. vma_live s v \<longrightarrow> vmas s' v = vmas s v) \<and> kmallocs s \<le> kmallocs s' \<and> pg_inv (pgs s') \<and>
     page_pool (pgs s') \<subseteq> page_pool (pgs s) \<and> (\<forall>q c. held (pgs s) q c \<longrightarrow> held (pgs s') q c) \<and>
     (\<forall>q. q \<notin> page_pool (pgs s) \<longrightarrow> mem (pgs s') q = mem (pgs s) q)"

lemma vm_ok_base:
  assumes "vm_ok s A"
  shows "pg_inv (pgs s)" "page_pool (pgs s) \<subseteq> {..<2 ^ 36}" "vma_live s v \<Longrightarrow> v < kmallocs s" "mm_live s m \<Longrightarrow> m < kmallocs s"
    "vma_live s v \<Longrightarrow> mm_live s (vm_mm (vmas s v))" "\<not> mm_live s (kmallocs s)"
    "mm_live s m \<Longrightarrow> area_tree (vmas s) (vma_rb_root (mms s m)) {v. vma_live s v \<and> vm_mm (vmas s v) = m}"
  using vm_okD [OF assms] pt_baseD [OF pt_okD(1) [OF vm_okD(2) [OF assms]]] unfolding mm_ok_def by blast+

lemma takes_change:
  assumes ok: "vm_ok s A" and t: "takes s s'"
  shows "area_change s A s' {} (kmallocs s)"
proof -
  note B = vm_ok_base [OF ok] and D = vm_okD [OF ok]
  have tr: "area_tree (vmas s') (vma_rb_root (mms s m)) {v. vma_live s v \<and> vm_mm (vmas s' v) = m}" if "mm_live s m" for m
  proof -
    have e: "{v. vma_live s v \<and> vm_mm (vmas s' v) = m} = {v. vma_live s v \<and> vm_mm (vmas s v) = m}" using t by (auto simp: takes_def)
    show ?thesis unfolding e
      by (subst area_tree_cong [where va = "vmas s"]) (use t B(7) [OF that] in \<open>auto simp: takes_def\<close>)
  qed
  then have "mm_ok s'" using D(5) t by (auto simp: mm_ok_def takes_def)
  moreover have "page_pool (pgs s') \<subseteq> {..<2 ^ 36}" using B(2) t unfolding takes_def by (meson subset_trans)
  moreover have "v < kmallocs s'" if "vma_live s v" for v using B(3) [OF that] t unfolding takes_def by linarith
  ultimately show ?thesis using t B(5,6) D(1) unfolding takes_def area_change_def by auto
qed

lemma linked_change:
  assumes ok: "vm_ok s A" and t: "takes s s2" and m: "mm_live s m" and v: "kmallocs s \<le> v" "v < kmallocs s2"
    and a: "vm_mm a = m" "area_wf a" "\<forall>l. lvl l \<longrightarrow> table_root l a = RB_NULL" "prot_ok (vm_page_prot a)" "\<forall>p. Some p \<in> set (vma_pages a) \<longrightarrow> p < 2 ^ 36"
      "is_private a \<longrightarrow> (\<exists>ps. vma_pages a = map Some ps \<and> distinct ps \<and> set ps \<subseteq> page_pool (pgs s) \<and> (\<forall>p\<in>set ps. held (pgs s2) p 1))"
    and f: "mms s' = (mms s)(m := (mms s m)\<lparr>vma_rb_root := t'\<rparr>)" "mm_live s' = mm_live s" "vma_live s' = (vma_live s)(v := True)"
      "vmas s' = (vmas s2)(v := a)" "kmallocs s' = kmallocs s2" "pgs s' = pgs s2"
    and tr: "area_tree (vmas s') t' (insert v {w. vma_live s w \<and> vm_mm (vmas s w) = m})"
  shows "area_change s A s' {} (kmallocs s)"
proof -
  note B = vm_ok_base [OF ok] and D = vm_okD [OF ok] and C = area_changeD [OF takes_change [OF ok t]]
  have T: "mms s2 = mms s" "mm_live s2 = mm_live s" "vma_live s2 = vma_live s" "\<And>v. vma_live s v \<Longrightarrow> vmas s2 v = vmas s v" "kmallocs s \<le> kmallocs s2"
    using t by (simp_all add: takes_def)
  have nl: "\<not> vma_live s v" using B(3) [of v] v(1) by auto
  have va: "vmas s' w = vmas s w" if "vma_live s w" for w using T(4) [OF that] that nl f(4) by auto
  have mmok: "mm_ok s'" unfolding mm_ok_def
  proof (intro allI impI)
    fix m' assume l: "mm_live s' m'"
    let ?S = "\<lambda>x. {w. vma_live x w \<and> vm_mm (vmas x w) = m'}"
    have l0: "mm_live s m'" using l f(2) by simp
    have S: "?S s' = (if m' = m then insert v (?S s) else ?S s)" using T(4) nl a(1) by (auto simp: f(3,4))
    have old: "area_tree (vmas s') (vma_rb_root (mms s m')) (?S s)"
      by (subst area_tree_cong [where va = "vmas s"]) (use va B(7) [OF l0] in auto)
    show "m' < kmallocs s' \<and> mm_count (mms s' m') = 1 \<and> area_tree (vmas s') (vma_rb_root (mms s' m')) (?S s')"
      unfolding S using B(4) [OF l0] T(5) D(5) l0 old tr by (auto simp: f(1,5) mm_ok_def)
  qed
  have nv: "new_area s A s' v" using nl D(1) [of v] a m f by (auto simp: new_area_def small_pages_def)
  have lv: "v' < kmallocs s' \<and> (vma_live s v' \<and> vmas s' v' = vmas s v' \<and> mm_live s' (vm_mm (vmas s v')) \<or> new_area s A s' v')"
    if "vma_live s' v'" for v'
  proof (cases "v' = v")
    case True
    then show ?thesis using nv v(2) f(5) by simp
  next
    case False
    then have "vma_live s v'" using that f(3) by simp
    then show ?thesis using va B(3,5) T(5) f(2,5) by fastforce
  qed
  show ?thesis unfolding area_change_def
    by (intro conjI allI impI ballI) (use C(1,2,4,5) lv mmok B(6) D(1) f(1,2,3,6) T in \<open>auto split: if_splits\<close>)
qed

lemma link_vma_ok:
  assumes ok: "vm_ok s A" and t: "takes s s2" and m: "mm_live s m" and v: "kmallocs s \<le> v" "v < kmallocs s2"
    and a: "vm_mm a = m" "area_wf a" "\<forall>l. lvl l \<longrightarrow> table_root l a = RB_NULL" "prot_ok (vm_page_prot a)" "\<forall>p. Some p \<in> set (vma_pages a) \<longrightarrow> p < 2 ^ 36"
      "is_private a \<longrightarrow> (\<exists>ps. vma_pages a = map Some ps \<and> distinct ps \<and> set ps \<subseteq> page_pool (pgs s) \<and> (\<forall>p\<in>set ps. held (pgs s2) p 1))"
    and c: "clash \<longleftrightarrow> (\<exists>w. vma_live s w \<and> vm_mm (vmas s w) = m \<and> overlap a (vmas s w))"
  shows "\<exists>s'. link_vma v a s2 = Some (s', if clash then None else Some v) \<and> pgs s' = pgs s2 \<and> mm_live s' = mm_live s \<and>
    vma_live s' = (if clash then vma_live s else (vma_live s)(v := True)) \<and> vmas s' = (vmas s2)(v := a) \<and>
    (if clash then takes s s' else area_change s A s' {} (kmallocs s))"
proof -
  let ?s1 = "s2\<lparr>vmas := (vmas s2)(v := a), vma_live := (vma_live s2)(v := True)\<rparr>" and ?S = "{w. vma_live s w \<and> vm_mm (vmas s w) = m}"
  let ?root = "vma_rb_root (mms s m)"
  note B = vm_ok_base [OF ok] and D = vm_okD [OF ok]
  have T: "mms s2 = mms s" "mm_live s2 = mm_live s" "vma_live s2 = vma_live s" "\<And>v. vma_live s v \<Longrightarrow> vmas s2 v = vmas s v" "kmallocs s \<le> kmallocs s2"
    using t by (simp_all add: takes_def)
  have nl: "\<not> vma_live s v" using B(3) [of v] v(1) by auto
  have va: "vmas ?s1 w = vmas s w" if "vma_live s w" for w using T(4) [OF that] that nl by auto
  have tr: "area_tree (vmas ?s1) ?root ?S" by (subst area_tree_cong [where va = "vmas s"]) (use va B(7) [OF m] in auto)
  have cl: "clash \<longleftrightarrow> (\<exists>w\<in>?S. overlap (vmas ?s1 v) (vmas ?s1 w))" using c va by auto
  have sp: "vm_start (vmas ?s1 v) < vm_end (vmas ?s1 v)" using area_wfD(7) [OF a(2)] by simp
  note ins = area_tree_insert [OF tr sp, folded cl]
  show ?thesis
  proof (cases clash)
    case True
    let ?s' = "(upd_mm m (\<lambda>x. x\<lparr>vma_rb_root := ?root\<rparr>) ?s1)\<lparr>vma_live := vma_live s\<rparr>"
    have "mms ?s' = mms s" using T(1) by (simp add: upd_mm_def fun_upd_idem)
    then have "takes s ?s'" using t nl by (auto simp: takes_def upd_mm_def)
    moreover have "link_vma v a s2 = Some (?s', None)"
      using ins True a(1) T nl by (simp add: link_vma_def insert_vma_area_def upd_mm_def fun_upd_idem)
    ultimately show ?thesis using True T by (intro exI [of _ ?s']) (simp add: upd_mm_def)
  next
    case False
    then obtain t' where t': "rb_insert_at (vma_probe (vmas ?s1) (vm_start (vmas ?s1 v), vm_end (vmas ?s1 v))) v ?root = Some (t', True)"
      "area_tree (vmas ?s1) t' (insert v ?S)" using ins by auto
    let ?s' = "upd_mm m (\<lambda>x. x\<lparr>vma_rb_root := t'\<rparr>) ?s1"
    have lk: "link_vma v a s2 = Some (?s', Some v)" using t'(1) a(1) T by (simp add: link_vma_def insert_vma_area_def)
    have f: "mms ?s' = (mms s)(m := (mms s m)\<lparr>vma_rb_root := t'\<rparr>)" "mm_live ?s' = mm_live s" "vma_live ?s' = (vma_live s)(v := True)"
      "vmas ?s' = vmas ?s1" "kmallocs ?s' = kmallocs s2" "pgs ?s' = pgs s2" using T by (simp_all add: upd_mm_def)
    have "area_change s A ?s' {} (kmallocs s)"
      by (rule linked_change [OF ok t m v a f(1-3) _ f(5,6)]) (use f(4) t'(2) in simp_all)
    then show ?thesis using lk f False by (intro exI [of _ ?s']) simp
  qed
qed

lemma of_nat_unat_u64: "of_nat (unat a) = (a :: u64)"
  by simp

lemma aligned_is_adr:
  assumes "PAGE_ALIGNED a"
  shows "a = adr (unat a div 4096)" "unat a = unat a div 4096 * 4096"
proof -
  have "4096 - 1 = (mask 12 :: u64)" by (simp add: mask_eq_exp_minus_1)
  then have "take_bit 12 a = 0" using assms unfolding PAGE_ALIGNED_def take_bit_eq_mask by metis
  then have "unat a mod 4096 = 0" using unsigned_take_bit_eq [of 12 a] by (simp add: take_bit_eq_mod)
  then show u: "unat a = unat a div 4096 * 4096" by (metis div_mult_mod_eq add.right_neutral)
  show "a = adr (unat a div 4096)" unfolding adr_def using u by (metis of_nat_unat_u64)
qed

lemma phys_vma_pages_small:
  "phys_vma_pages mb addr n = Some ps \<Longrightarrow> unat addr + n * 4096 \<le> 2 ^ 48 \<Longrightarrow> length ps = n \<and> (\<forall>p\<in>set ps. p < 2 ^ 36)"
proof (induction n arbitrary: addr ps)
  case (Suc n)
  obtain qs where q: "phys_vma_pages mb (addr + 4096) n = Some qs" "ps = unat (drop_bit 12 addr) # qs"
    using Suc.prems(1) by (auto split: if_splits)
  have "unat (addr + 4096) = unat addr + 4096" using Suc.prems(2) by (simp add: unat_word_ariths)
  moreover have "unat (drop_bit 12 addr) < 2 ^ 36" using Suc.prems(2) by (simp add: unat_drop)
  ultimately show ?case using Suc.IH [OF q(1)] Suc.prems(2) q(2) by simp
qed simp

text \<open>
  What a caller has to respect: the range ends within user space, has fewer than \<open>2 ^ 32\<close> pages, and a shared
  physical range ends below \<open>2 ^ 48\<close>. The code checks none of these.
\<close>

definition range_ok :: "u64 \<Rightarrow> u64 \<Rightarrow> u64 \<Rightarrow> u64 \<Rightarrow> bool" where
  "range_ok vstart sz flags phys \<longleftrightarrow> unat vstart + unat sz \<le> 2 ^ 48 \<and> unat sz < 2 ^ 44 \<and>
     (flags AND VM_PRIVATE_SHARE \<noteq> 0 \<longrightarrow> unat phys + unat sz \<le> 2 ^ 48)"

lemma new_vma_wf:
  assumes "PAGE_ALIGNED vstart" "PAGE_ALIGNED sz" "sz \<noteq> 0" "range_ok vstart sz flags phys" "a = new_vma vstart sz flags m"
  shows "unat (nr_pages a) = unat sz div 4096" "length ps = unat (nr_pages a) \<Longrightarrow> area_wf (a\<lparr>vma_pages := ps, phys_addr := ph\<rparr>)"
proof -
  let ?k = "unat vstart div 4096" and ?n = "unat sz div 4096"
  note v = aligned_is_adr [OF assms(1)] and z = aligned_is_adr [OF assms(2)]
  have le: "unat vstart + unat sz \<le> 2 ^ 48" "unat sz < 2 ^ 44" using assms(4) by (simp_all add: range_ok_def)
  have e: "unat (vstart + sz) = (?k + ?n) * 4096"
    using le v(2) z(2) by (simp add: unat_word_ariths)
  have n0: "0 < ?n" using assms(3) z(2) by (metis mult_zero_left neq0_conv unat_eq_zero)
  have n: "?n < 2 ^ 32" using le(2) by simp
  show nr: "unat (nr_pages a) = ?n" using n by (simp add: assms(5) new_vma_def unsigned_ucast_eq unat_drop take_bit_eq_mod)
  have d: "unat (vstart + sz) div 4096 = ?k + ?n" using e by simp
  have f: "vstart + sz = adr (?k + ?n)" using e unfolding adr_def by (metis of_nat_unat_u64)
  have b: "?k + ?n \<le> 2 ^ 36" using le(1) by simp
  show "area_wf (a\<lparr>vma_pages := ps, phys_addr := ph\<rparr>)" if "length ps = unat (nr_pages a)"
    using that nr n0 b d f v(1) by (simp add: area_wf_def first_page_def past_page_def assms(5) new_vma_def)
qed

lemma new_vma_roots: "lvl l \<Longrightarrow> table_root l (new_vma x z fl m\<lparr>vma_pages := ps, phys_addr := ph\<rparr>) = RB_NULL"
  by (auto simp: lvl_def table_root_def new_vma_def)

lemma kmalloc_takes:
  assumes "vm_ok s A" "takes s s1" "kmalloc s1 = (r, s2)"
  shows "takes s s2" "kmallocs s2 = Suc (kmallocs s1)" "pgs s2 = pgs s1" "r = Some v \<Longrightarrow> v = kmallocs s1"
  using assms by (auto simp: kmalloc_def takes_def split: if_splits)

lemma takes_refl: "vm_ok s A \<Longrightarrow> takes s s"
  using vm_ok_base(1) by (simp add: takes_def)

text \<open>What a successful call promises of the area it returns.\<close>

definition got_area :: "nat \<Rightarrow> u64 \<Rightarrow> u64 \<Rightarrow> u64 \<Rightarrow> vm \<Rightarrow> vm \<Rightarrow> nat \<Rightarrow> bool" where
  "got_area m vstart sz flags s s' v \<longleftrightarrow> (let a = vmas s' v in
     \<not> vma_live s v \<and> vma_live s' = (vma_live s)(v := True) \<and> (\<forall>w. vma_live s w \<longrightarrow> vmas s' w = vmas s w) \<and> mm_live s' = mm_live s \<and>
     vm_start a = vstart \<and> vm_end a = vstart + sz \<and> vm_mm a = m \<and> vm_flags a = flags \<and> vm_page_prot a = vm_get_page_prot (flags OR VM_SHARED) \<and>
     (\<forall>w. vma_live s w \<longrightarrow> vm_mm (vmas s w) = m \<longrightarrow> \<not> overlap a (vmas s w)) \<and>
     (\<forall>i p. backs s' v i p \<longrightarrow> p \<in> page_pool (pgs s) \<and> p \<notin> page_pool (pgs s') \<and> mem (pgs s') p = (\<lambda>_. 0)))"

lemma link_new_vma:
  assumes ok: "vm_ok s A" and t: "takes s s2" and m: "mm_live s m" and v: "kmallocs s \<le> v" "v < kmallocs s2"
    and r: "PAGE_ALIGNED vstart" "PAGE_ALIGNED sz" "sz \<noteq> 0" "range_ok vstart sz flags phys"
    and a: "a = (new_vma vstart sz flags m)\<lparr>vma_pages := pp, phys_addr := ph\<rparr>" "length pp = unat (nr_pages (new_vma vstart sz flags m))"
      "\<forall>p. Some p \<in> set pp \<longrightarrow> p < 2 ^ 36"
      "flags AND VM_PRIVATE_SHARE = 0 \<longrightarrow> (\<exists>ps. pp = map Some ps \<and> distinct ps \<and> set ps \<subseteq> page_pool (pgs s) \<and>
         (\<forall>p\<in>set ps. held (pgs s2) p 1 \<and> mem (pgs s2) p = (\<lambda>_. 0)))"
  shows "\<exists>s' r. link_vma v a s2 = Some (s', r) \<and>
    (case r of
       None \<Rightarrow> takes s s' \<and> pgs s' = pgs s2 \<and> (\<exists>w. vma_live s w \<and> vm_mm (vmas s w) = m \<and> overlap a (vmas s w))
     | Some v \<Rightarrow> area_change s A s' {} (kmallocs s) \<and> got_area m vstart sz flags s s' v)"
proof -
  define clash where "clash \<longleftrightarrow> (\<exists>w. vma_live s w \<and> vm_mm (vmas s w) = m \<and> overlap a (vmas s w))"
  have f: "vm_mm a = m" "vm_start a = vstart" "vm_end a = vstart + sz" "vm_flags a = flags" "vma_pages a = pp"
    "vm_page_prot a = vm_get_page_prot (flags OR VM_SHARED)" "is_private a \<longleftrightarrow> flags AND VM_PRIVATE_SHARE = 0"
    by (simp_all add: a(1) new_vma_def is_private_def)
  have pr: "is_private a \<longrightarrow> (\<exists>ps. vma_pages a = map Some ps \<and> distinct ps \<and> set ps \<subseteq> page_pool (pgs s) \<and> (\<forall>p\<in>set ps. held (pgs s2) p 1))"
    using a(4) f(5,7) by blast
  have wf: "area_wf a" unfolding a(1) by (rule new_vma_wf(2) [OF r refl a(2)])
  have rt: "\<forall>l. lvl l \<longrightarrow> table_root l a = RB_NULL" using new_vma_roots a(1) by blast
  have po: "prot_ok (vm_page_prot a)" unfolding f(6) by (rule vm_get_page_prot_ok)
  have sm: "\<forall>p. Some p \<in> set (vma_pages a) \<longrightarrow> p < 2 ^ 36" using a(3) f(5) by simp
  obtain s' where s': "link_vma v a s2 = Some (s', if clash then None else Some v)" "pgs s' = pgs s2" "mm_live s' = mm_live s"
    "vma_live s' = (if clash then vma_live s else (vma_live s)(v := True))" "vmas s' = (vmas s2)(v := a)"
    "if clash then takes s s' else area_change s A s' {} (kmallocs s)"
    using link_vma_ok [OF ok t m v f(1) wf rt po sm pr clash_def] by blast
  have nl: "\<not> vma_live s v" using vm_ok_base(3) [OF ok, of v] v(1) by auto
  have va: "vmas s' w = vmas s w" if "vma_live s w" for w using t nl that s'(5) by (auto simp: takes_def)
  have z: "p \<in> page_pool (pgs s) \<and> p \<notin> page_pool (pgs s') \<and> mem (pgs s') p = (\<lambda>_. 0)" if b: "backs s' v i p" for i p
  proof -
    have "is_private a" "Some p \<in> set pp" using b s'(5) f(5) nth_mem [of i pp] by (auto simp: backs_def)
    then have "p \<in> page_pool (pgs s) \<and> held (pgs s2) p 1 \<and> mem (pgs s2) p = (\<lambda>_. 0)" using a(4) f(7) by auto
    moreover have "pg_inv (pgs s2)" using t by (simp add: takes_def)
    ultimately show ?thesis using held_not_pool s'(2) by metis
  qed
  show ?thesis
  proof (cases clash)
    case True
    then show ?thesis using s' clash_def by auto
  next
    case False
    then have "got_area m vstart sz flags s s' v" using s' nl va f z clash_def unfolding got_area_def Let_def by auto
    then show ?thesis using s' False by auto
  qed
qed

lemma vma_pages_taken:
  assumes ok: "vm_ok s A" and t: "takes s s2" and "alloc_vma_pages cpu n (pgs s2) = Some (p1, ps)" "pgs s2 = pgs s"
  shows "takes s (set_pgs p1 s2)" "distinct ps" "set ps \<subseteq> page_pool (pgs s)" "\<forall>p\<in>set ps. held p1 p 1 \<and> mem p1 p = (\<lambda>_. 0)" "length ps \<le> n"
    "page_pool p1 = page_pool (pgs s) - set ps"
    "\<exists>p2. foreach (\<lambda>p. free_pages_pfn cpu p 0) ps p1 = Some p2 \<and> takes s (set_pgs p2 s2) \<and> page_pool p2 = page_pool (pgs s)"
proof -
  have i: "pg_inv (pgs s)" by (rule vm_ok_base(1) [OF ok])
  have A: "length ps \<le> n" "pg_inv p1" "distinct ps" "set ps \<subseteq> page_pool (pgs s)" "page_pool p1 = page_pool (pgs s) - set ps"
    "\<forall>p c. held (pgs s) p c \<longrightarrow> held p1 p c" "\<forall>p\<in>set ps. held p1 p 1" "\<forall>q. mem p1 q = (if q \<in> set ps then (\<lambda>_. 0) else mem (pgs s) q)"
    using alloc_vma_pages_ok [OF i, of cpu n] assms(3,4) by auto
  have off: "mem p1 q = mem (pgs s) q" if "q \<notin> page_pool (pgs s)" for q using A(4,8) that by auto
  show "takes s (set_pgs p1 s2)" using t A(2,5,6) off by (auto simp: takes_def set_pgs_def)
  show "distinct ps" "set ps \<subseteq> page_pool (pgs s)" "length ps \<le> n" "page_pool p1 = page_pool (pgs s) - set ps" by (fact A)+
  show "\<forall>p\<in>set ps. held p1 p 1 \<and> mem p1 p = (\<lambda>_. 0)" using A(7,8) by simp
  obtain p2 where p2: "foreach (\<lambda>p. free_pages_pfn cpu p 0) ps p1 = Some p2" "pg_inv p2" "page_pool p2 = page_pool p1 \<union> set ps"
    "mem p2 = mem p1" "\<forall>q c. q \<notin> set ps \<longrightarrow> held p1 q c \<longrightarrow> held p2 q c" using free_vma_pages_ok [OF A(2,3,7), of cpu] by blast
  have pl: "page_pool p2 = page_pool (pgs s)" using p2(3) A(4,5) by auto
  have h: "held p2 q c" if "held (pgs s) q c" for q c
    using that held_not_pool [OF i that] A(4,6) p2(5) by blast
  have "takes s (set_pgs p2 s2)" using t p2(2,4) pl h off by (auto simp: takes_def set_pgs_def)
  then show "\<exists>p2. foreach (\<lambda>p. free_pages_pfn cpu p 0) ps p1 = Some p2 \<and> takes s (set_pgs p2 s2) \<and> page_pool p2 = page_pool (pgs s)"
    using p2(1) pl by blast
qed

text \<open>The two ways a call ends: without an area, or with the one it was asked for.\<close>

definition get_post :: "nat \<Rightarrow> u64 \<Rightarrow> u64 \<Rightarrow> u64 \<Rightarrow> vm \<Rightarrow> nat set \<Rightarrow> (vm \<times> nat option) option \<Rightarrow> bool" where
  "get_post m vstart sz flags s A call \<longleftrightarrow> (\<exists>s' r. call = Some (s', r) \<and>
     (case r of None \<Rightarrow> takes s s' | Some v \<Rightarrow> area_change s A s' {} (kmallocs s) \<and> got_area m vstart sz flags s s' v))"

lemma get_post_None: "takes s s' \<Longrightarrow> get_post m vstart sz flags s A (Some (s', None))"
  by (simp add: get_post_def)

lemma new_vma_phys0: "(new_vma x z fl m)\<lparr>vma_pages := pp\<rparr> = (new_vma x z fl m)\<lparr>vma_pages := pp, phys_addr := 0\<rparr>"
  by (simp add: new_vma_def)

lemma get_linked:
  assumes "\<exists>s' r. call = Some (s', r) \<and>
    (case r of None \<Rightarrow> takes s s' \<and> X s' | Some v \<Rightarrow> area_change s A s' {} (kmallocs s) \<and> got_area m vstart sz flags s s' v)"
  shows "get_post m vstart sz flags s A call"
  using assms by (auto simp: get_post_def split: option.splits)

lemma get_private:
  assumes ok: "vm_ok s A" and t: "takes s s2" "pgs s2 = pgs s" and m: "mm_live s m" and v: "kmallocs s \<le> v" "v < kmallocs s2"
    and r: "PAGE_ALIGNED vstart" "PAGE_ALIGNED sz" "sz \<noteq> 0" "range_ok vstart sz flags phys" and n: "n = unat (nr_pages (new_vma vstart sz flags m))"
  shows "get_post m vstart sz flags s A (do {
    (p1, got) \<leftarrow> alloc_vma_pages cpu n (pgs s2);
    if length got < n then map_option (\<lambda>p2. (set_pgs p2 s2, None)) (foreach (\<lambda>p. free_pages_pfn cpu p 0) got p1)
    else link_vma v ((new_vma vstart sz flags m)\<lparr>vma_pages := map Some got\<rparr>) (set_pgs p1 s2) })"
proof -
  obtain p1 got where al: "alloc_vma_pages cpu n (pgs s2) = Some (p1, got)"
    using alloc_vma_pages_ok [OF vm_ok_base(1) [OF ok], of cpu n] t(2) by auto
  note V = vma_pages_taken [OF ok t(1) al t(2)]
  show ?thesis
  proof (cases "length got < n")
    case True
    then show ?thesis using V(7) al by (auto intro: get_post_None)
  next
    case False
    then have len: "length (map Some got) = unat (nr_pages (new_vma vstart sz flags m))" using V(5) n by simp
    have small: "\<forall>p. Some p \<in> set (map Some got) \<longrightarrow> p < 2 ^ 36" using V(3) vm_ok_base(2) [OF ok] by auto
    have v': "v < kmallocs (set_pgs p1 s2)" using v(2) by (simp add: set_pgs_def)
    have pr: "flags AND VM_PRIVATE_SHARE = 0 \<longrightarrow> (\<exists>ps. map Some got = map Some ps \<and> distinct ps \<and> set ps \<subseteq> page_pool (pgs s) \<and>
       (\<forall>p\<in>set ps. held (pgs (set_pgs p1 s2)) p 1 \<and> mem (pgs (set_pgs p1 s2)) p = (\<lambda>_. 0)))"
      using V(2-4) by (intro impI exI [of _ got]) (simp add: set_pgs_def)
    show ?thesis using get_linked [OF link_new_vma [OF ok V(1) m v(1) v' r new_vma_phys0 len small pr]] al False by simp
  qed
qed

lemma get_phys:
  assumes ok: "vm_ok s A" and t: "takes s s2" and m: "mm_live s m" and v: "kmallocs s \<le> v" "v < kmallocs s2"
    and r: "PAGE_ALIGNED vstart" "PAGE_ALIGNED sz" "sz \<noteq> 0" "range_ok vstart sz flags phys" and n: "n = unat (nr_pages (new_vma vstart sz flags m))"
    and fl: "flags AND VM_PRIVATE_SHARE \<noteq> 0"
  shows "get_post m vstart sz flags s A (case phys_vma_pages mb phys n of
      None \<Rightarrow> Some (s2, None)
    | Some ps \<Rightarrow> link_vma v ((new_vma vstart sz flags m)\<lparr>vma_pages := map Some ps, phys_addr := phys\<rparr>) s2)"
    "get_post m vstart sz flags s A (link_vma v ((new_vma vstart sz flags m)\<lparr>vma_pages := replicate n None\<rparr>) s2)"
proof -
  have pr: "flags AND VM_PRIVATE_SHARE = 0 \<longrightarrow> Q" for Q using fl by simp
  note link = get_linked [OF link_new_vma [OF ok t m v r _ _ _ pr]]
  show "get_post m vstart sz flags s A (link_vma v ((new_vma vstart sz flags m)\<lparr>vma_pages := replicate n None\<rparr>) s2)"
    by (rule link [OF new_vma_phys0]) (use n in auto)
  have "unat phys + n * 4096 \<le> 2 ^ 48"
    using r(4) fl new_vma_wf(1) [OF r refl, of m] aligned_is_adr(2) [OF r(2)] n by (simp add: range_ok_def)
  then have "length ps = n \<and> (\<forall>p\<in>set ps. p < 2 ^ 36)" if "phys_vma_pages mb phys n = Some ps" for ps
    using phys_vma_pages_small [OF that] by simp
  then show "get_post m vstart sz flags s A (case phys_vma_pages mb phys n of
      None \<Rightarrow> Some (s2, None)
    | Some ps \<Rightarrow> link_vma v ((new_vma vstart sz flags m)\<lparr>vma_pages := map Some ps, phys_addr := phys\<rparr>) s2)"
    using n by (auto intro!: link get_post_None t split: option.splits)
qed

lemma get_area:
  assumes ok: "vm_ok s A" and m: "mm_live s m" and ro: "range_ok vstart sz flags phys"
  shows "get_post m vstart sz flags s A (mmap_get_vmap_area cpu vstart sz flags (Some m) phys s)"
proof -
  obtain r1 s1 where k1: "kmalloc s = (r1, s1)" by (metis surj_pair)
  obtain r2 s2 where k2: "kmalloc s1 = (r2, s2)" by (metis surj_pair)
  note K1 = kmalloc_takes [OF ok takes_refl [OF ok] k1]
  note K2 = kmalloc_takes [OF ok K1(1) k2]
  show ?thesis
  proof (cases "\<not> PAGE_ALIGNED vstart \<or> \<not> PAGE_ALIGNED sz \<or> sz = 0 \<or> vstart = 0 \<or> r1 = None \<or> r2 = None")
    case True
    then show ?thesis using get_post_None [OF takes_refl [OF ok]] get_post_None [OF K1(1)] get_post_None [OF K2(1)]
      by (cases r1; cases r2) (auto simp: mmap_get_vmap_area_def Let_def k1 k2)
  next
    case False
    then obtain v w where go: "PAGE_ALIGNED vstart" "PAGE_ALIGNED sz" "sz \<noteq> 0" "vstart \<noteq> 0" "r1 = Some v" "r2 = Some w" by auto
    have v: "kmallocs s \<le> v" "v < kmallocs s2" using K1(4) [OF go(5)] K1(2) K2(2) by simp_all
    have pg: "pgs s2 = pgs s" using K1(3) K2(3) by simp
    note P = get_private [OF ok K2(1) pg m v go(1-3) ro refl, of cpu] and S = get_phys [OF ok K2(1) m v go(1-3) ro refl]
    show ?thesis using P S get_post_None [OF K2(1)] go(1-4)
      unfolding mmap_get_vmap_area_def by (simp add: k1 k2 go(5,6) Let_def del: phys_vma_pages.simps)
  qed
qed

section \<open>Finding and freeing an area\<close>

lemma find_node:
  assumes ok: "vm_ok s A" and m: "mm_live s m"
  shows "case find_vma_node x m s of
      None \<Rightarrow> \<forall>v. vma_live s v \<longrightarrow> vm_mm (vmas s v) = m \<longrightarrow> \<not> (vm_start (vmas s v) \<le> x \<and> x < vm_end (vmas s v))
    | Some (u, p) \<Rightarrow> \<exists>v. rb_entry (u, p) = Some v \<and> rb_plug u p = vma_rb_root (mms s m) \<and> vma_live s v \<and> vm_mm (vmas s v) = m \<and>
        vm_start (vmas s v) \<le> x \<and> x < vm_end (vmas s v)"
  using area_tree_find [OF vm_ok_base(7) [OF ok m], of x] unfolding find_vma_node_def by (auto split: option.splits)

lemma find_area:
  assumes ok: "vm_ok s A" and m: "mm_live s m"
  shows "mmap_find_vma_area x (Some m) s = Some v \<longleftrightarrow>
    vma_live s v \<and> vm_mm (vmas s v) = m \<and> vm_start (vmas s v) \<le> x \<and> x < vm_end (vmas s v)" (is "?find = _ \<longleftrightarrow> ?in v")
proof -
  have f: "case ?find of None \<Rightarrow> \<forall>v. \<not> ?in v | Some v \<Rightarrow> ?in v"
    using find_node [OF ok m, of x] unfolding mmap_find_vma_area_def by (auto split: option.splits prod.splits)
  have "v = w" if "?in v" "?in w" for v w
    using area_tree_apart [OF vm_ok_base(7) [OF ok m], of v w] that by (fastforce simp: vma_before_def)
  then show ?thesis using f by (auto split: option.splits)
qed

lemma area_roots:
  assumes ok: "vm_ok s A" and v: "vma_live s v" "v \<notin> A" "lvl l"
  shows "table_root l (vmas s v) = RB_NULL"
proof -
  have "remembers (table_root l (vmas s v)) {f. \<exists>x\<in>uses_of s A v l. tabm s (vm_mm (vmas s v)) l x = Some f}"
    using pt_okD(5) [OF vm_okD(2) [OF ok]] v unfolding pt_roots_def by blast
  then show ?thesis using v(2) by (simp add: uses_of_def remembers_empty)
qed

lemma private_frames:
  assumes ok: "vm_ok s A" and v: "vma_live s v" "is_private (vmas s v)"
  shows "\<exists>ps. vma_pages (vmas s v) = map Some ps \<and> distinct ps \<and> (\<forall>p\<in>set ps. held (pgs s) p 1 \<and> p \<notin> tables s) \<and> set ps = {p. \<exists>i. backs s v i p}"
proof -
  let ?pp = "vma_pages (vmas s v)"
  have F: "None \<notin> set ?pp" "\<And>i p. backs s v i p \<Longrightarrow> held (pgs s) p 1 \<and> p \<notin> tables s" "\<And>i j p. backs s v i p \<Longrightarrow> backs s v j p \<Longrightarrow> i = j"
    using vm_okD(6) [OF ok] v unfolding frames_ok_def by blast+
  define ps where "ps = map the ?pp"
  have pp: "?pp = map Some ps" unfolding ps_def map_map
  proof (rule map_idI [symmetric])
    show "(Some \<circ> the) y = y" if "y \<in> set ?pp" for y using F(1) that by (cases y) auto
  qed
  have b: "backs s v i p \<longleftrightarrow> i < length ps \<and> ps ! i = p" for i p using v pp by (auto simp: backs_def)
  have "distinct ps" unfolding distinct_conv_nth using F(3) b by metis
  moreover have st: "set ps = {p. \<exists>i. backs s v i p}" unfolding b by (auto simp: in_set_conv_nth)
  moreover have "\<forall>p\<in>set ps. held (pgs s) p 1 \<and> p \<notin> tables s" using st F(2) by blast
  ultimately show ?thesis using pp by blast
qed

lemma freed_change:
  assumes ok: "vm_ok s A" and v: "vma_live s v" "v \<notin> A" "vm_mm (vmas s v) = m"
    and f: "mms s' = (mms s)(m := (mms s m)\<lparr>vma_rb_root := t'\<rparr>)" "mm_live s' = mm_live s" "vma_live s' = (vma_live s)(v := False)"
      "vmas s' = vmas s" "kmallocs s' = kmallocs s"
    and P: "pg_inv (pgs s')" "page_pool (pgs s') = page_pool (pgs s) \<union> F" "mem (pgs s') = mem (pgs s)" "\<forall>q c. q \<notin> F \<longrightarrow> held (pgs s) q c \<longrightarrow> held (pgs s') q c"
    and F: "F = {p. \<exists>i. backs s v i p}"
    and tr: "area_tree (vmas s) t' ({w. vma_live s w \<and> vm_mm (vmas s w) = m} - {v})"
  shows "area_change s A s' F (kmallocs s)"
proof -
  note B = vm_ok_base [OF ok] and D = vm_okD [OF ok]
  have mmok: "mm_ok s'" unfolding mm_ok_def
  proof (intro allI impI)
    fix m' assume l: "mm_live s' m'"
    let ?S = "\<lambda>x. {w. vma_live x w \<and> vm_mm (vmas x w) = m'}"
    have l0: "mm_live s m'" using l f(2) by simp
    have S: "?S s' = (if m' = m then ?S s - {v} else ?S s)" using v(3) by (auto simp: f(3,4))
    show "m' < kmallocs s' \<and> mm_count (mms s' m') = 1 \<and> area_tree (vmas s') (vma_rb_root (mms s' m')) (?S s')"
      unfolding S using B(4,7) [OF l0] D(5) l0 tr by (auto simp: f(1,4,5) mm_ok_def)
  qed
  have FF: "q \<notin> tables s \<and> q < 2 ^ 36" if q: "q \<in> F" for q
  proof -
    obtain i where b: "backs s v i q" using q F by blast
    have "Some q \<in> set (vma_pages (vmas s v))" using b unfolding backs_def by (metis nth_mem)
    then show ?thesis using D(4) [OF v(1)] D(6) b unfolding small_pages_def frames_ok_def by blast
  qed
  have own: "p \<notin> F" if "backs s w i p" "w \<noteq> v" for w i p using that D(6) F unfolding frames_ok_def by blast
  have pool: "page_pool (pgs s') \<subseteq> {..<2 ^ 36}" using P(2) B(2) FF by auto
  have tb: "q \<notin> F" if "mm_live s m'" "n \<le> 3" "tabm s m' n x = Some q" for m' n x q
    using that FF unfolding tables_def by blast
  show ?thesis unfolding area_change_def
    by (intro conjI allI impI ballI) (use P(1,3,4) pool mmok B(3,5,6) D(1) v(2) own tb in \<open>auto simp: f split: if_splits\<close>)
qed

lemma put_vma_pages:
  assumes ok: "vm_ok s A" and v: "vma_live s v" and F: "F = {p. \<exists>i. backs s v i p}" and a: "a = vmas s v"
  shows "\<exists>p. (if vm_flags a AND VM_PRIVATE_SHARE = 0
       then foreach (put_vma_page cpu) (take (unat (nr_pages a)) (vma_pages a)) (pgs s) else Some (pgs s)) = Some p \<and>
     pg_inv p \<and> page_pool p = page_pool (pgs s) \<union> F \<and> mem p = mem (pgs s) \<and> (\<forall>q c. q \<notin> F \<longrightarrow> held (pgs s) q c \<longrightarrow> held p q c)"
proof (cases "is_private a")
  case True
  obtain ps where ps: "vma_pages a = map Some ps" "distinct ps" "\<forall>p\<in>set ps. held (pgs s) p 1 \<and> p \<notin> tables s" "set ps = F"
    using private_frames [OF ok v] True a F by blast
  have "take (unat (nr_pages a)) (vma_pages a) = map Some ps" using ps(1) area_wfD(5,6) [OF vm_okD(3) [OF ok v]] a by simp
  then show ?thesis using free_vma_pages_ok [OF vm_ok_base(1) [OF ok] ps(2), of cpu] ps(3,4) True by (auto simp: is_private_def)
next
  case False
  then have "F = {}" using F a by (auto simp: backs_def)
  then show ?thesis using False vm_ok_base(1) [OF ok] by (simp add: is_private_def)
qed

lemma free_area:
  assumes ok: "vm_ok s A" and m: "mm_live s m" and v: "mmap_find_vma_area x (Some m) s = Some v"
  shows "if v \<in> A then mmap_free_vmap_area cpu x (Some m) s = None
    else \<exists>s'. mmap_free_vmap_area cpu x (Some m) s = Some s' \<and> area_change s A s' {p. \<exists>i. backs s v i p} (kmallocs s) \<and>
      vma_live s' = (vma_live s)(v := False) \<and> mm_live s' = mm_live s \<and> vmas s' = vmas s \<and>
      page_pool (pgs s') = page_pool (pgs s) \<union> {p. \<exists>i. backs s v i p}"
proof -
  let ?F = "{p. \<exists>i. backs s v i p}" and ?a = "vmas s v"
  have V: "vma_live s v" "vm_mm ?a = m" using find_area [OF ok m] v by blast+
  obtain u path where n: "find_vma_node x m s = Some (u, path)" "rb_entry (u, path) = Some v" "rb_plug u path = vma_rb_root (mms s m)"
    using find_node [OF ok m, of x] v by (auto simp: mmap_find_vma_area_def split: option.splits)
  show ?thesis
  proof (cases "v \<in> A")
    case True
    have "pud_root ?a \<noteq> RB_NULL" using mapped_of_ok [OF ok] True by (auto simp: mapped_areas_def)
    then have "rb_first (pud_root ?a) \<noteq> None" by (simp add: rb_first_def rb_leftmost_None)
    then show ?thesis using n True by (simp add: mmap_free_vmap_area_def Let_def bug_on_def)
  next
    case False
    have r: "pud_root ?a = RB_NULL" "pmd_root ?a = RB_NULL" "pte_root ?a = RB_NULL"
      using area_roots [OF ok V(1) False, of 1] area_roots [OF ok V(1) False, of 2] area_roots [OF ok V(1) False, of 3]
      by (simp_all add: table_root_def lvl_def)
    obtain t' where t': "rb_erase u path = Some t'" "area_tree (vmas s) t' ({w. vma_live s w \<and> vm_mm (vmas s w) = m} - {v})"
      using area_tree_erase [OF vm_ok_base(7) [OF ok m, folded n(3)] n(2)] by blast
    let ?s1 = "upd_mm m (\<lambda>x. x\<lparr>vma_rb_root := t'\<rparr>) s"
    obtain p where p: "(if vm_flags ?a AND VM_PRIVATE_SHARE = 0
        then foreach (put_vma_page cpu) (take (unat (nr_pages ?a)) (vma_pages ?a)) (pgs s) else Some (pgs s)) = Some p"
       "pg_inv p" "page_pool p = page_pool (pgs s) \<union> ?F" "mem p = mem (pgs s)" "\<forall>q c. q \<notin> ?F \<longrightarrow> held (pgs s) q c \<longrightarrow> held p q c"
      using put_vma_pages [OF ok V(1) refl refl, of cpu] by blast
    let ?s' = "(set_pgs p ?s1)\<lparr>vma_live := (vma_live s)(v := False)\<rparr>"
    have run: "mmap_free_vmap_area cpu x (Some m) s = Some ?s'"
      using p(1) unfolding mmap_free_vmap_area_def
      by (simp add: n(1,2) r t'(1) Let_def bug_on_def upd_mm_def set_pgs_def rb_first_def cong: if_cong split del: if_split)
    have "area_change s A ?s' ?F (kmallocs s)"
      by (rule freed_change [OF ok V(1) False V(2) _ _ _ _ _ _ _ _ _ refl t'(2)]) (use p in \<open>simp_all add: upd_mm_def set_pgs_def\<close>)
    then show ?thesis using run p(3) False by (auto simp: upd_mm_def set_pgs_def)
  qed
qed

section \<open>Creating and freeing an address space\<close>

lemma alloc_mm:
  assumes ok: "vm_ok s A"
  shows "\<exists>s' r. mmap_alloc_mm_struct cpu s = Some (s', r) \<and>
    (case r of
       None \<Rightarrow> takes s s'
     | Some m \<Rightarrow> area_change s A s' {} m \<and> \<not> mm_live s m \<and> mm_live s' = (mm_live s)(m := True) \<and> vma_live s' = vma_live s \<and> vmas s' = vmas s \<and>
         vma_rb_root (mms s' m) = RB_NULL \<and> pgd (mms s' m) \<in> page_pool (pgs s) \<and> page_pool (pgs s') = page_pool (pgs s) - {pgd (mms s' m)})"
proof -
  note B = vm_ok_base [OF ok] and D = vm_okD [OF ok]
  obtain r1 s1 where k: "kmalloc s = (r1, s1)" by (metis surj_pair)
  note K = kmalloc_takes [OF ok takes_refl [OF ok] k]
  have z: "((GFP_KERNEL OR GFP_ZERO) AND GFP_ZERO \<noteq> 0) = True" by simp
  obtain p1 r where a: "alloc_pages cpu (GFP_KERNEL OR GFP_ZERO) 0 (pgs s1) = Some (p1, r)" "pg_inv p1" "\<And>p c. held (pgs s) p c \<Longrightarrow> held p1 p c"
    "case r of None \<Rightarrow> mem p1 = mem (pgs s) \<and> page_pool p1 = page_pool (pgs s)
     | Some p \<Rightarrow> held p1 p 1 \<and> p \<in> page_pool (pgs s) \<and> page_pool p1 = page_pool (pgs s) - {p} \<and> mem p1 = (mem (pgs s))(p := (\<lambda>_. 0))"
    using frame_alloc [OF B(1), of cpu "GFP_KERNEL OR GFP_ZERO"] K(3) unfolding z if_True by auto
  show ?thesis
  proof (cases "r1 = None \<or> r = None")
    case True
    have "takes s (set_pgs p1 s1)" if "r = None" using K(1) a that by (simp add: takes_def set_pgs_def)
    then show ?thesis using True K(1) a(1) k by (cases r1) (auto simp: mmap_alloc_mm_struct_def)
  next
    case False
    then obtain m p where m: "r1 = Some m" "r = Some p" by auto
    have mk: "m = kmallocs s" using K(4) m(1) .
    have P: "held p1 p 1" "p \<in> page_pool (pgs s)" "page_pool p1 = page_pool (pgs s) - {p}" "mem p1 = (mem (pgs s))(p := (\<lambda>_. 0))" using a(4) m(2) by auto
    let ?x = "\<lparr>vma_rb_root = RB_NULL, task_size = 2 ^ 48, pgd = p, mm_count = 1, pgtables_bytes = 0, mmap_base = 2 ^ 48 - 1, mmap_end = 0, start_brk = 0, brk = 0\<rparr>"
    let ?s' = "(set_pgs p1 s1)\<lparr>mms := (mms s1)(m := ?x), mm_live := (mm_live s1)(m := True)\<rparr>"
    have run: "mmap_alloc_mm_struct cpu s = Some (?s', Some m)" using k m a(1) by (simp add: mmap_alloc_mm_struct_def)
    have s1: "s1 = s\<lparr>kmallocs := Suc (kmallocs s)\<rparr>" using k by (simp add: kmalloc_def)
    have nm: "vm_mm (vmas s v) \<noteq> m" "\<not> backs s v i p" if "vma_live s v" for v i
    proof -
      show "vm_mm (vmas s v) \<noteq> m" using B(4) [OF B(5) [OF that]] mk by simp
      show "\<not> backs s v i p" using D(6) held_not_pool [OF B(1)] P(2) unfolding frames_ok_def by blast
    qed
    have fr: "fresh_mm s ?s' m"
      using P nm(1) not_pool_table [OF D(2), of p] B(2) by (auto simp: fresh_mm_def s1 set_pgs_def)
    have "{v. vma_live s v \<and> vm_mm (vmas s v) = m} = {}" using nm(1) by auto
    then have none: "area_tree (vmas s) RB_NULL {v. vma_live s v \<and> vm_mm (vmas s v) = m}" using area_tree_empty by metis
    have mmok: "mm_ok ?s'" using D(5) none mk by (auto simp: mm_ok_def s1 set_pgs_def less_Suc_eq)
    have bk: "backs ?s' v i q = backs s v i q" for v i q by (simp add: backs_def s1 set_pgs_def)
    have "area_change s A ?s' {} m" unfolding area_change_def bk
      by (intro conjI allI impI ballI) (use a(2,3) P fr mmok B(2,3,5) D(1) nm in \<open>auto simp: s1 set_pgs_def backs_def less_Suc_eq split: if_splits\<close>)
    moreover have "\<not> mm_live s m" using B(6) mk by simp
    ultimately show ?thesis using run P(2,3) by (auto simp: s1 set_pgs_def)
  qed
qed

lemma empty_mm:
  assumes ok: "vm_ok s A" and m: "mm_live s m" "\<And>v. vma_live s v \<Longrightarrow> vm_mm (vmas s v) \<noteq> m"
  shows "pgtables_bytes (mms s m) = 0" "vma_rb_root (mms s m) = RB_NULL" "mm_count (mms s m) = 1" "held (pgs s) (pgd (mms s m)) 1" "pgd (mms s m) < 2 ^ 36"
proof -
  note B = vm_ok_base [OF ok] and D = vm_okD [OF ok]
  have "tabm s m n x = None" if "lvl n" for n x
  proof (rule ccontr)
    assume "tabm s m n x \<noteq> None"
    then have "users s (uses_of s A) m n x \<noteq> {}" using pt_okD(2) [OF D(2)] m(1) that unfolding pt_tabs_def by (fastforce split: option.splits)
    then show False using m(2) by (auto simp: users_def)
  qed
  then have "tab_keys s m = {}" by (auto simp: tab_keys_def)
  then show "pgtables_bytes (mms s m) = 0" using pt_okD(7) [OF D(2)] m(1) by (simp add: pt_bytes_def)
  have "{v. vma_live s v \<and> vm_mm (vmas s v) = m} = {}" using m(2) by auto
  then show "vma_rb_root (mms s m) = RB_NULL" using B(7) [OF m(1)] area_tree_empty by metis
  show "mm_count (mms s m) = 1" using D(5) m(1) by (simp add: mm_ok_def)
  show "held (pgs s) (pgd (mms s m)) 1" "pgd (mms s m) < 2 ^ 36" using pt_okD(1) [OF D(2)] m(1) by (simp_all add: pt_base_def)
qed

lemma free_mm:
  assumes ok: "vm_ok s A" and m: "mm_live s m"
  shows "if \<exists>v. vma_live s v \<and> vm_mm (vmas s v) = m then mmap_free_mm_struct cpu (Some m) s = None
    else \<exists>s'. mmap_free_mm_struct cpu (Some m) s = Some s' \<and> area_change s A s' {pgd (mms s m)} (kmallocs s) \<and>
      mm_live s' = (mm_live s)(m := False) \<and> vma_live s' = vma_live s \<and> vmas s' = vmas s \<and>
      page_pool (pgs s') = insert (pgd (mms s m)) (page_pool (pgs s))"
proof (cases "\<exists>v. vma_live s v \<and> vm_mm (vmas s v) = m")
  case True
  then have "vma_rb_root (mms s m) \<noteq> RB_NULL" using vm_ok_base(7) [OF ok m] by (auto simp: area_tree_def)
  then have "rb_first (vma_rb_root (mms s m)) \<noteq> None" by (simp add: rb_first_def rb_leftmost_None)
  then show ?thesis using True by (simp add: mmap_free_mm_struct_def Let_def bug_on_def)
next
  case False
  let ?f = "pgd (mms s m)"
  note B = vm_ok_base [OF ok] and D = vm_okD [OF ok]
  have none: "\<And>v. vma_live s v \<Longrightarrow> vm_mm (vmas s v) \<noteq> m" using False by blast
  note E = empty_mm [OF ok m none]
  obtain p where p: "free_pages_pfn cpu ?f 0 (pgs s) = Some p" "pg_inv p" "\<And>q n. q \<noteq> ?f \<Longrightarrow> held (pgs s) q n \<Longrightarrow> held p q n"
    "mem p = mem (pgs s)" "page_pool p = insert ?f (page_pool (pgs s))" using frame_put [OF B(1) E(4), of cpu] by blast
  let ?s' = "(set_pgs p s)\<lparr>mms := (mms s)(m := (mms s m)\<lparr>mm_count := mm_count (mms s m) - 1\<rparr>), mm_live := (mm_live s)(m := False)\<rparr>"
  have run: "mmap_free_mm_struct cpu (Some m) s = Some ?s'"
    using p(1) E(1-3) by (simp add: mmap_free_mm_struct_def Let_def bug_on_def rb_first_def)
  have root: "tabm s m 0 0 = Some ?f" by simp
  then have ft: "?f \<in> tables s" using m unfolding tables_def by blast
  have tb: "q \<noteq> ?f" if "mm_live s m'" "m' \<noteq> m" "n \<le> 3" "tabm s m' n x = Some q" for m' n x q
    using pt_okD(3) [OF D(2)] that m root unfolding pt_inj_def by blast
  have bk: "q \<noteq> ?f" if "backs s v i q" for v i q using D(6) that ft unfolding frames_ok_def by blast
  have mmok: "mm_ok ?s'" using D(5) by (auto simp: mm_ok_def set_pgs_def)
  have "area_change s A ?s' {?f} (kmallocs s)" unfolding area_change_def
    by (intro conjI allI impI ballI) (use p(2-5) E(5) mmok B(2,3,5,6) D(1) none tb bk in \<open>auto simp: set_pgs_def split: if_splits\<close>)
  then show ?thesis using run p(5) False by (auto simp: set_pgs_def)
qed

end
