(* ===== verification/Vm_Sample.thy ===== *)
theory Vm_Sample
  imports Vm_Areas Page_Props
begin

text \<open>
  When memory is at hand, a mapping succeeds: a frame in the list of the cpu is what the page allocator
  returns, and a table that is missing is built from it. On this rest small concrete states of an address space:
  without an area, with an area, and with that area mapped.
\<close>

section \<open>Allocation from the list of a cpu\<close>

lemma pcp_alloc:
  assumes inv: "pg_inv s" and p: "pcp_list (pcp s (gfp_zone gm) c) = p # ps"
  shows "\<exists>s'. alloc_pages c gm 0 s = Some (s', Some p) \<and> pcp_list (pcp s' (gfp_zone gm) c) = ps"
proof -
  let ?z = "gfp_zone gm" and ?f = "\<lambda>c. c\<lparr>pcp_list := ps, pcp_count := pcp_count c - 1\<rparr>"
  let ?s = "upd_pcp ?z c ?f s"
  have z: "zone_inv s ?z" using inv gfp_zone_less by (simp add: pg_inv_def)
  have "p \<in> cached s ?z" using p by (auto simp: cached_def intro: exI [of _ c])
  then have cl: "clean ?z (pages s p)" using zone_invD(5) [OF z] by blast
  have id: "upd_page p (\<lambda>pg. pg\<lparr>pg_head := None\<rparr>) ?s = ?s" by (rule upd_page_id) (use cl in simp)
  have "check_new_page p ?s = (?s, False)" by (rule check_new_page_ok) (use cl in simp)
  then have "rmqueue_pcplist ?z c s = Some (?s, Some p)"
    using p id by (subst rmqueue_pcplist.simps) (simp add: Let_def pcp_refill_def)
  then have run: "alloc_pages c gm 0 s = Option.bind (prep_new_page p 0 gm ?s) (\<lambda>s2. Some (s2, Some p))"
    by (simp add: alloc_pages_def) (subst get_page_from_freelist.simps, simp add: rmqueue_def)
  obtain s' where s': "prep_new_page p 0 gm ?s = Some s'"
    using run alloc_pages_ok [OF inv, of c gm 0] by (cases "prep_new_page p 0 gm ?s") auto
  then have "zones s' = zones ?s"
    by (auto simp: prep_new_page_def post_alloc_hook_def try_page_def clear_frames_def Let_def split: bind_splits if_splits)
  then show ?thesis using run s' by (simp add: upd_pcp_def upd_zone_def)
qed

section \<open>Building a table\<close>

text \<open>What the building of one table leaves: the state for the next level down.\<close>

definition builds :: "nat \<Rightarrow> nat \<Rightarrow> nat \<Rightarrow> nat list \<Rightarrow> vm \<Rightarrow> vm \<Rightarrow> nat \<Rightarrow> bool" where
  "builds cpu v n ps s s' p \<longleftrightarrow> pg_inv (pgs s') \<and> page_pool (pgs s') \<subseteq> page_pool (pgs s) \<and> pcp_list (pcp (pgs s') ZONE_NORMAL cpu) = ps \<and>
     (\<forall>j. entry (pgs s') p j = 0) \<and> core_vma (vmas s' v) = core_vma (vmas s v) \<and> kmalloc_ok s' = kmalloc_ok s \<and> kmallocs s' = Suc (kmallocs s) \<and>
     (\<forall>k. lvl k \<longrightarrow> k \<noteq> n \<longrightarrow> table_root k (vmas s' v) = table_root k (vmas s v))"

lemma table_alloc_new:
  assumes "pg_inv (pgs s)" "page_pool (pgs s) \<subseteq> {..<2 ^ 36}" "pcp_list (pcp (pgs s) ZONE_NORMAL cpu) = p # ps" "kmalloc_ok s (kmallocs s)"
    "entry (pgs s) f i = 0" "f \<notin> page_pool (pgs s)" "table_root n (vmas s v) = RB_NULL" "lvl n"
  shows "\<exists>s'. table_alloc n cpu v (f, i) addr s = Some (s', Some (p, table_index n addr)) \<and> builds cpu v n ps s s' p \<and> p \<notin> page_pool (pgs s') \<and> p < 2 ^ 36"
proof -
  let ?gm = "GFP_KERNEL OR GFP_ZERO :: u32"
  let ?s1 = "s\<lparr>kmallocs := Suc (kmallocs s)\<rparr>"
  have g: "gfp_zone ?gm = ZONE_NORMAL" "(?gm AND GFP_ZERO \<noteq> 0) = True" by (simp_all add: gfp_zone_def)
  obtain q where q: "alloc_pages cpu ?gm 0 (pgs s) = Some (q, Some p)" "pcp_list (pcp q ZONE_NORMAL cpu) = ps"
    using pcp_alloc [OF assms(1), of ?gm cpu p ps] assms(3) g(1) by auto
  have Q: "pg_inv q" "held q p 1" "p \<in> page_pool (pgs s)" "page_pool q = page_pool (pgs s) - {p}" "mem q = (mem (pgs s))(p := (\<lambda>_. 0))"
    using frame_alloc [OF assms(1), of cpu ?gm] q(1) unfolding g(2) if_True by auto
  have pf: "p \<noteq> f" "p < 2 ^ 36" using Q(3) assms(2,6) by auto
  obtain t where t: "rb_insert_at (page_probe p) p RB_NULL = Some (t, True)"
    by (simp add: rb_insert_at_def rb_insert_color_def)
  let ?s2 = "upd_vma v (set_table_root n t) (set_pgs q ?s1)"
  let ?s3 = "inc_tables v (set_pgs (set_entry f i (table_entry p) (pgs ?s2)) ?s2)"
  have e: "entry (pgs ?s3) f i = table_entry p" by (simp add: inc_tables_def upd_mm_def upd_vma_def set_pgs_def entry_set_entry)
  have run: "table_alloc n cpu v (f, i) addr s = Some (?s3, Some (p, table_index n addr))"
    using q(1) t assms(4,5,7) e pf(2)
    by (simp add: table_alloc_def kmalloc_def Let_def vma_insert_table_def table_offset_def table_entry_page)
  have "entry (pgs ?s3) p j = 0" for j
    using pf(1) entry_zero [of q p j] Q(5) by (simp add: inc_tables_def upd_mm_def upd_vma_def set_pgs_def entry_set_entry)
  moreover have "zones (set_entry f i x q) = zones q" for x by (simp add: set_entry_def)
  ultimately have "builds cpu v n ps s ?s3 p"
    using Q(1,4) q(2) assms(8)
    by (auto simp: builds_def inc_tables_def upd_mm_def upd_vma_def set_pgs_def core_vma_def set_table_root_def table_root_def lvl_def)
  then show ?thesis using run Q(4) pf(2) by (auto simp: inc_tables_def upd_mm_def upd_vma_def set_pgs_def)
qed

lemma table_index_less: "table_index n addr < 512"
proof -
  have "512 - 1 = (mask 9 :: u64)" by (simp add: mask_eq_exp_minus_1)
  then have "table_index n addr = unat (take_bit 9 (drop_bit (level_shift n) addr))" unfolding table_index_def take_bit_eq_mask by metis
  also have "\<dots> < 2 ^ 9" unfolding unsigned_take_bit_eq by (rule take_bit_nat_less_exp)
  finally show ?thesis by simp
qed

text \<open>The pages of an area without tables, of one page, below three frames in the list of the cpu.\<close>

lemma map_one_page:
  assumes s: "pg_inv (pgs s)" "page_pool (pgs s) \<subseteq> {..<2 ^ 36}" "pcp_list (pcp (pgs s) ZONE_NORMAL cpu) = p1 # p2 # p3 # ps" "\<forall>k. kmalloc_ok s k"
    and f: "entry (pgs s) f (table_index 0 addr) = 0" "f \<notin> page_pool (pgs s)" "f = pgd (mms s (vm_mm (vmas s v)))"
    and a: "vm_start (vmas s v) = addr" "vm_end (vmas s v) = addr + 0x1000" "vma_pages (vmas s v) = [Some q]" "nr_pages (vmas s v) = 1"
      "\<forall>k. lvl k \<longrightarrow> table_root k (vmas s v) = RB_NULL"
    and i: "addr < addr + 0x1000" "\<forall>n<3. addr_end n addr (addr + 0x1000) = addr + 0x1000"
  shows "\<exists>s'. vmap_page_range cpu (Some v) s = Some (s', 1)"
proof -
  let ?e = "addr + 0x1000"
  have ti: "\<not> 512 \<le> table_index n addr" for n using table_index_less [of n addr] by simp
  obtain s1 where 1: "table_alloc 1 cpu v (f, table_index 0 addr) addr s = Some (s1, Some (p1, table_index 1 addr))"
    "builds cpu v 1 (p2 # p3 # ps) s s1 p1" "p1 \<notin> page_pool (pgs s1)"
    using table_alloc_new [OF s(1-3) _ f(1,2), of 1 v addr] s(4) a(5) by (auto simp: lvl_def)
  note b1 = 1(2) [unfolded builds_def]
  have pool1: "page_pool (pgs s1) \<subseteq> {..<2 ^ 36}" using b1 s(2) by (meson subset_trans)
  obtain s2 where 2: "table_alloc 2 cpu v (p1, table_index 1 addr) addr s1 = Some (s2, Some (p2, table_index 2 addr))"
    "builds cpu v 2 (p3 # ps) s1 s2 p2" "p2 \<notin> page_pool (pgs s2)"
    using table_alloc_new [of s1 cpu p2 "p3 # ps" p1 "table_index 1 addr" 2 v addr] b1 1(3) pool1 s(4) a(5) by (auto simp: lvl_def)
  note b2 = 2(2) [unfolded builds_def]
  have pool2: "page_pool (pgs s2) \<subseteq> {..<2 ^ 36}" using b2 pool1 by (meson subset_trans)
  obtain s3 where 3: "table_alloc 3 cpu v (p2, table_index 2 addr) addr s2 = Some (s3, Some (p3, table_index 3 addr))"
    "builds cpu v 3 ps s2 s3 p3"
    using table_alloc_new [of s2 cpu p3 ps p2 "table_index 2 addr" 3 v addr] b1 b2 2(3) pool2 s(4) a(5) by (auto simp: lvl_def)
  note b3 = 3(2) [unfolded builds_def]
  have c: "core_vma (vmas s3 v) = core_vma (vmas s v)" using b1 b2 b3 by simp
  have a3: "vma_pages (vmas s3 v) = [Some q]" "nr_pages (vmas s3 v) = 1"
    using arg_cong [OF c, of vma_pages] arg_cong [OF c, of nr_pages] a(3,4) by (simp_all add: core_vma_def)
  let ?s4 = "set_pgs (set_entry p3 (table_index 3 addr) (mk_pte q (vm_page_prot (vmas s3 v))) (pgs s3)) s3"
  have "vmap_pte_loop v p3 (table_index 3 addr) addr ?e 0 s3 = Some (?s4, 1, 0)"
    using ti [of 3] a3 b3 by (subst vmap_pte_loop.simps) (simp add: Let_def)
  then have "vmap_pte_range cpu v (p2, table_index 2 addr) addr ?e 0 s2 = Some (?s4, 1, 0)"
    using 3(1) by (simp add: vmap_pte_range_def pte_alloc_def)
  then have "vmap_loop (vmap_pte_range cpu v) 2 p2 (table_index 2 addr) addr ?e 0 s2 = Some (?s4, 1, 0)"
    using ti [of 2] i(2) by (subst vmap_loop.simps) (simp add: Let_def)
  then have "vmap_pmd_range cpu v (p1, table_index 1 addr) addr ?e 0 s1 = Some (?s4, 1, 0)"
    using 2(1) by (simp add: vmap_pmd_range_def pmd_alloc_def)
  then have "vmap_loop (vmap_pmd_range cpu v) 1 p1 (table_index 1 addr) addr ?e 0 s1 = Some (?s4, 1, 0)"
    using ti [of 1] i(2) by (subst vmap_loop.simps) (simp add: Let_def)
  then have "vmap_pud_range cpu v (f, table_index 0 addr) addr ?e 0 s = Some (?s4, 1, 0)"
    using 1(1) by (simp add: vmap_pud_range_def pud_alloc_def)
  then have "vmap_loop (vmap_pud_range cpu v) 0 f (table_index 0 addr) addr ?e 0 s = Some (?s4, 1, 0)"
    using ti [of 0] i(2) by (subst vmap_loop.simps) (simp add: Let_def)
  then show ?thesis using a(1,2) i(1) f(3) a3(2) by (simp add: vmap_page_range_def Let_def set_pgs_def)
qed

section \<open>Concrete states\<close>

text \<open>Seven frames, all in the list of cpu 0; no address space; every \<^verbatim>\<open>kmalloc\<close> succeeds.\<close>

definition vm_pool :: pg_data where
  "vm_pool = (boot_node drain_map [0] [0] (\<lambda>_ _. 0))
     \<lparr>pages := (\<lambda>q. if q \<in> set [1..<8] then (init_single_page 1)\<lparr>pg_refcount := 0\<rparr> else init_single_page 1),
      zones := (\<lambda>z. zone_zero\<lparr>zone_initialized := True,
        pageset := (\<lambda>c. if z = ZONE_NORMAL \<and> c = 0 then \<lparr>pcp_count = 7, pcp_high = 100, pcp_batch = 1, pcp_list = [1..<8]\<rparr>
          else \<lparr>pcp_count = 0, pcp_high = 100, pcp_batch = 1, pcp_list = []\<rparr>)\<rparr>)\<rparr>"

definition vm_boot :: "pg_data \<Rightarrow> (nat \<Rightarrow> bool) \<Rightarrow> vm" where
  "vm_boot p ok = \<lparr>pgs = p, mms = (\<lambda>_. \<lparr>vma_rb_root = RB_NULL, task_size = 0, pgd = 0, mm_count = 0, pgtables_bytes = 0,
       mmap_base = 0, mmap_end = 0, start_brk = 0, brk = 0\<rparr>), mm_live = (\<lambda>_. False), vmas = (\<lambda>_. new_vma 0 0 0 0), vma_live = (\<lambda>_. False),
     kmalloc_ok = ok, kmallocs = 0\<rparr>"

definition vm_empty :: vm where
  "vm_empty = fst (the (mmap_alloc_mm_struct 0 (vm_boot vm_pool (\<lambda>_. True))))"

definition vm_area :: vm where
  "vm_area = fst (the (mmap_get_vmap_area 0 0x400000 0x1000 3 (Some 0) 0 vm_empty))"

definition vm_mapped :: vm where
  "vm_mapped = fst (the (vmap_page_range 0 (Some 1) vm_area))"

lemma vm_pool_ok: "pg_inv vm_pool" "page_pool vm_pool \<subseteq> {..<2 ^ 36}"
proof -
  have v: "pfn_valid drain_map q" if "q \<in> set [1..<8]" for q
  proof -
    have "list_all (pfn_valid drain_map) [1..<8]" by code_simp
    then show ?thesis using that by (simp add: list_all_iff)
  qed
  have p: "clean 1 ((init_single_page 1)\<lparr>pg_refcount := 0\<rparr>)" by code_simp
  have t: "tame (pages vm_pool q)" for q
    using init_single_page_ok(2) [of 0 1] by (auto simp: vm_pool_def tame_def head_bit_def PageBuddy_def PageType_def)
  have b: "blocks vm_pool z = {}" for z by (simp add: blocks_def vm_pool_def zone_zero_def)
  have c: "cached vm_pool z = (if z = 1 then set [1..<8] else {})" for z by (auto simp: cached_def vm_pool_def split: if_splits)
  have "pcps_ok vm_pool z" for z
    unfolding pcps_ok_def b c using p v by (auto simp: vm_pool_def boot_node_def pcp_wf_def block_frames_def)
  moreover have "rep vm_pool z {}" for z
    using t by (auto simp: rep_def lists_ok_def tame_def quiet_def) (auto simp: vm_pool_def zone_zero_def)
  ultimately show "pg_inv vm_pool" by (simp add: pg_inv_def zone_inv_def b buddy_ok_def)
  show "page_pool vm_pool \<subseteq> {..<2 ^ 36}" by (auto simp: page_pool_def avail_def b c block_frames_def split: if_splits)
qed

lemma vm_boot_ok:
  assumes "pg_inv p" "page_pool p \<subseteq> {..<2 ^ 36}"
  shows "vm_ok (vm_boot p ok) {}"
  using assms unfolding vm_ok_def pt_ok_def
  by (simp add: vm_boot_def pt_base_def pt_tabs_def pt_inj_def pt_leaf_def pt_roots_def pt_up_def pt_bytes_def mm_ok_def frames_ok_def backs_def)

lemma vm_empty_run: "mmap_alloc_mm_struct 0 (vm_boot vm_pool (\<lambda>_. True)) = Some (vm_empty, Some 0)"
proof -
  have "map_option snd (mmap_alloc_mm_struct 0 (vm_boot vm_pool (\<lambda>_. True))) = Some (Some 0)" by code_simp
  then show ?thesis by (auto simp: vm_empty_def)
qed

lemma vm_empty_ok: "vm_ok vm_empty {}" "mm_live vm_empty 0" "\<not> vma_live vm_empty v" "vma_rb_root (mms vm_empty 0) = RB_NULL"
proof -
  let ?b = "vm_boot vm_pool (\<lambda>_. True)"
  note run = vm_empty_run and b = vm_boot_ok [OF vm_pool_ok, of "\<lambda>_. True"]
  have A: "area_change ?b {} vm_empty {} 0" "mm_live vm_empty = (mm_live ?b)(0 := True)" "vma_live vm_empty = vma_live ?b"
    "vma_rb_root (mms vm_empty 0) = RB_NULL" using alloc_mm [OF b, of 0] run by auto
  show "vm_ok vm_empty {}" by (rule area_change_ok(1) [OF b A(1)])
  show "mm_live vm_empty 0" "\<not> vma_live vm_empty v" using A(2,3) by (simp_all add: vm_boot_def)
  show "vma_rb_root (mms vm_empty 0) = RB_NULL" by (fact A(4))
qed

lemma vm_empty_range: "range_ok 0x400000 0x1000 3 0"
  by (simp add: range_ok_def)

lemma vm_area_run: "mmap_get_vmap_area 0 0x400000 0x1000 3 (Some 0) 0 vm_empty = Some (vm_area, Some 1)"
proof -
  have "map_option snd (mmap_get_vmap_area 0 0x400000 0x1000 3 (Some 0) 0 vm_empty) = Some (Some 1)" by code_simp
  then show ?thesis by (auto simp: vm_area_def)
qed

lemma vm_area_ok: "vm_ok vm_area {}" "got_area 0 0x400000 0x1000 3 vm_empty vm_area 1"
proof -
  have "area_change vm_empty {} vm_area {} (kmallocs vm_empty)" "got_area 0 0x400000 0x1000 3 vm_empty vm_area 1"
    using get_area [OF vm_empty_ok(1,2) vm_empty_range, of 0] vm_area_run by (auto simp: get_post_def)
  then show "vm_ok vm_area {}" "got_area 0 0x400000 0x1000 3 vm_empty vm_area 1" using area_change_ok(1) [OF vm_empty_ok(1)] by blast+
qed

lemma vm_area_live: "vma_live vm_area v \<longleftrightarrow> v = 1" "mm_live vm_area 0" "vm_mm (vmas vm_area 1) = 0"
  "vm_start (vmas vm_area 1) = 0x400000" "vm_end (vmas vm_area 1) = 0x401000"
  using vm_area_ok(2) vm_empty_ok(2,3) by (auto simp: got_area_def Let_def)

lemma vm_area_values:
  "vma_pages (vmas vm_area 1) = [Some 2]" "nr_pages (vmas vm_area 1) = 1" "pcp_list (pcp (pgs vm_area) ZONE_NORMAL 0) = [3, 4, 5, 6, 7]"
  "pgd (mms vm_area 0) = 1" "table_index 0 0x400000 = 0"
  by code_simp+

lemma kmalloc_ok_kept:
  "mmap_alloc_mm_struct cpu s = Some (s', r) \<Longrightarrow> kmalloc_ok s' = kmalloc_ok s"
  "link_vma v a s = Some (s', r) \<Longrightarrow> kmalloc_ok s' = kmalloc_ok s"
  "mmap_get_vmap_area cpu x z fl (Some m) ph s = Some (s', r) \<Longrightarrow> kmalloc_ok s' = kmalloc_ok s"
proof -
  show "mmap_alloc_mm_struct cpu s = Some (s', r) \<Longrightarrow> kmalloc_ok s' = kmalloc_ok s"
    by (auto simp: mmap_alloc_mm_struct_def kmalloc_def set_pgs_def split: if_splits bind_splits option.splits)
  show link: "link_vma v a s = Some (s', r) \<Longrightarrow> kmalloc_ok s' = kmalloc_ok s" for v a s s' r
    by (auto simp: link_vma_def insert_vma_area_def upd_mm_def Let_def split: bind_splits if_splits)
  show "mmap_get_vmap_area cpu x z fl (Some m) ph s = Some (s', r) \<Longrightarrow> kmalloc_ok s' = kmalloc_ok s"
    by (auto simp: mmap_get_vmap_area_def kmalloc_def set_pgs_def Let_def split: if_splits bind_splits option.splits dest!: link)
qed

lemma vm_area_kmalloc: "\<forall>k. kmalloc_ok vm_area k"
  using kmalloc_ok_kept(1) [OF vm_empty_run] kmalloc_ok_kept(3) [OF vm_area_run] by (simp add: vm_boot_def)

lemma vm_mapped_run: "vmap_page_range 0 (Some 1) vm_area = Some (vm_mapped, 1)"
proof -
  note B = vm_ok_base [OF vm_area_ok(1)] and D = vm_okD [OF vm_area_ok(1)] and V = vm_area_values and L = vm_area_live
  note k = vm_area_kmalloc
  have live: "vma_live vm_area 1" using L(1) by simp
  have root: "tabm vm_area 0 0 0 = Some 1" using V(4) by simp
  have e: "entry (pgs vm_area) 1 (table_index 0 0x400000) = 0" unfolding V(5) by code_simp
  have np: "1 \<notin> page_pool (pgs vm_area)" using table_held(2) [OF D(2) L(2) _ root] by simp
  have r: "\<forall>k. lvl k \<longrightarrow> table_root k (vmas vm_area 1) = RB_NULL" using area_roots [OF vm_area_ok(1) live] by simp
  have a: "\<forall>n<3. addr_end n 0x400000 (0x400000 + 0x1000) = 0x400000 + 0x1000"
    by (auto simp: addr_end_def level_shift_def Let_def numeral_3_eq_3 less_Suc_eq)
  have en: "vm_end (vmas vm_area 1) = 0x400000 + 0x1000" using L(5) by simp
  have "\<exists>s'. vmap_page_range 0 (Some 1) vm_area = Some (s', 1)"
    by (rule map_one_page [OF B(1,2) V(3) k e np _ L(4) en V(1,2) r _ a]) (use L(3) V(4) in simp_all)
  then show ?thesis by (auto simp: vm_mapped_def)
qed

lemma vm_mapped_ok: "vm_ok vm_mapped {1}" "vm_kept vm_area vm_mapped"
  using map_area [OF vm_area_ok(1) _ _ vm_area_live(3) [symmetric], of 0] vm_mapped_run vm_area_live(1) vm_area_values(2) by auto

end
