(* ===== verification/Vm_Props.thy ===== *)
theory Vm_Props
  imports Vm_Sample
begin

text \<open>
  The contract of address spaces: what mapping, unmapping, protecting, creating and freeing do in every state
  that satisfies the invariant, and that no sequence of calls leaves it.
\<close>

lemma inv_ok: "vm_inv s \<longleftrightarrow> vm_ok s (mapped_areas s)"
  by (simp add: vm_inv_def)

lemma mapped_iff: "vma_live s v \<Longrightarrow> v \<in> mapped_areas s \<longleftrightarrow> pud_root (vmas s v) \<noteq> RB_NULL"
  by (simp add: mapped_areas_def)

section \<open>Mapping and unmapping\<close>

text \<open>
  C9: mapping an area. In a state that satisfies the invariant, \<^verbatim>\<open>vmap_page_range\<close> of an area that is not
  mapped returns (its loops end, no \<^verbatim>\<open>BUG_ON\<close> is hit) in such a state. Either it returns the number of pages, the
  walk for the \<open>k\<close>th page of the area finds an entry with the \<open>k\<close>th frame and the protection of the area, and the
  walks for all other pages of all address spaces find what they found before. Or it returns an error, and then the
  partial mapping has been undone: all entries, the page tables in use and the free frames are as before.
\<close>

theorem vmap_page_range_correct:
  assumes "vm_inv s" "vma_live s v" "pud_root (vmas s v) = RB_NULL"
  shows "\<exists>s' r. vmap_page_range cpu (Some v) s = Some (s', r) \<and> vm_inv s' \<and>
    (if r = int (unat (nr_pages (vmas s v)))
     then mapped_areas s' = insert v (mapped_areas s) \<and>
       (\<forall>k\<in>area_pages (vmas s v). \<exists>p. vma_page (vmas s v) k = Some p \<and>
          page_entry s' (vm_mm (vmas s v)) k = mk_pte p (vm_page_prot (vmas s v))) \<and>
       (\<forall>m k. mm_live s m \<longrightarrow> \<not> (m = vm_mm (vmas s v) \<and> k \<in> area_pages (vmas s v)) \<longrightarrow> page_entry s' m k = page_entry s m k)
     else r < 0 \<and> mapped_areas s' = mapped_areas s \<and> tables s' = tables s \<and> page_pool (pgs s') = page_pool (pgs s) \<and>
       (\<forall>m k. mm_live s m \<longrightarrow> page_entry s' m k = page_entry s m k))"
proof -
  have n: "v \<notin> mapped_areas s" using mapped_iff [OF assms(2)] assms(3) by simp
  obtain s' r where r: "vmap_page_range cpu (Some v) s = Some (s', r)"
    "if r = int (unat (nr_pages (vmas s v)))
     then vm_ok s' (insert v (mapped_areas s)) \<and>
       (\<forall>k\<in>area_pages (vmas s v). \<exists>p. vma_page (vmas s v) k = Some p \<and> page_entry s' (vm_mm (vmas s v)) k = mk_pte p (vm_page_prot (vmas s v))) \<and>
       (\<forall>m' k. mm_live s m' \<longrightarrow> \<not> (m' = vm_mm (vmas s v) \<and> k \<in> area_pages (vmas s v)) \<longrightarrow> page_entry s' m' k = page_entry s m' k)
     else r < 0 \<and> vm_ok s' (mapped_areas s) \<and> tables s' = tables s \<and> page_pool (pgs s') = page_pool (pgs s) \<and>
       (\<forall>m' k. mm_live s m' \<longrightarrow> page_entry s' m' k = page_entry s m' k)"
    using map_area [OF assms(1) [unfolded inv_ok] assms(2) n refl, of cpu] by blast
  show ?thesis
  proof (cases "r = int (unat (nr_pages (vmas s v)))")
    case True
    then show ?thesis using r vm_ok_inv mapped_of_ok by (intro exI [of _ s'] exI [of _ r]) auto
  next
    case False
    then show ?thesis using r vm_ok_inv mapped_of_ok by (intro exI [of _ s'] exI [of _ r]) auto
  qed
qed

theorem vmap_page_range_correct_witness:
  "\<exists>s'. vmap_page_range 0 (Some 1) vm_area = Some (s', 1) \<and> vm_inv s' \<and> page_entry s' 0 0x400 = mk_pte 2 (vm_page_prot (vmas vm_area 1))"
proof -
  have h: "vm_inv vm_area" "vma_live vm_area 1" "pud_root (vmas vm_area 1) = RB_NULL"
    using vm_ok_inv [OF vm_area_ok(1)] vm_area_live(1) mapped_of_ok [OF vm_area_ok(1)] by (auto simp: mapped_areas_def)
  have p: "0x400 \<in> area_pages (vmas vm_area 1)" using vm_area_live(4,5) by (simp add: area_pages_def first_page_def past_page_def)
  have q: "vma_page (vmas vm_area 1) 0x400 = Some 2" using vm_area_live(4) vm_area_values(1) by (simp add: vma_page_def)
  show ?thesis using vmap_page_range_correct [OF h, of 0] vm_mapped_run vm_area_values(2) vm_area_live(3) p q by force
qed

text \<open>
  C10: unmapping an area. In a state that satisfies the invariant, \<^verbatim>\<open>vumap_page_range\<close> of a mapped area returns in
  such a state: the area is no longer mapped, the walk for each of its pages finds an empty entry, the walks for all
  other pages of all address spaces find what they found before, and every frame that was a page table or free is
  one or the other afterwards.
\<close>

theorem vumap_page_range_correct:
  assumes "vm_inv s" "v \<in> mapped_areas s"
  shows "\<exists>s'. vumap_page_range cpu (Some v) s = Some s' \<and> vm_inv s' \<and> mapped_areas s' = mapped_areas s - {v} \<and>
    (\<forall>k\<in>area_pages (vmas s v). page_entry s' (vm_mm (vmas s v)) k = 0) \<and>
    (\<forall>m k. mm_live s m \<longrightarrow> \<not> (m = vm_mm (vmas s v) \<and> k \<in> area_pages (vmas s v)) \<longrightarrow> page_entry s' m k = page_entry s m k) \<and>
    page_pool (pgs s') \<union> tables s' = page_pool (pgs s) \<union> tables s"
  using unmap_area [OF assms(1) [unfolded inv_ok] assms(2) refl, of cpu] vm_ok_inv mapped_of_ok unfolding frames_kept_def by blast

lemma vm_mapped_values: "vm_inv vm_mapped" "mapped_areas vm_mapped = {1}" "mm_live vm_mapped 0" "vm_mm (vmas vm_mapped 1) = 0"
  "first_page (vmas vm_mapped 1) = 0x400" "past_page (vmas vm_mapped 1) = 0x401"
  using vm_ok_inv [OF vm_mapped_ok(1)] mapped_of_ok [OF vm_mapped_ok(1)] vm_area_live vm_keptD [OF vm_mapped_ok(2)]
  by (simp_all add: first_page_def past_page_def)

theorem vumap_page_range_correct_witness:
  "\<exists>s'. vumap_page_range 0 (Some 1) vm_mapped = Some s' \<and> vm_inv s' \<and> mapped_areas s' = {} \<and> page_entry s' 0 0x400 = 0"
  using vumap_page_range_correct [of vm_mapped 1 0] vm_mapped_values by (auto simp: area_pages_def)

text \<open>
  C11: mapping and unmapping. When a mapping of an area that was not mapped succeeds, unmapping it on any cpu
  restores what was there before: the same areas are mapped, every walk of every address space finds the entry it found
  before, the same frames are page tables and the same are free, and each address space accounts for as many
  bytes of page tables.
\<close>

theorem vmap_vumap_roundtrip:
  assumes "vm_inv s" "vma_live s v" "pud_root (vmas s v) = RB_NULL" "vmap_page_range cpu (Some v) s = Some (s1, r)" "0 \<le> r"
  shows "\<exists>s2. vumap_page_range cpu' (Some v) s1 = Some s2 \<and> vm_inv s2 \<and> mapped_areas s2 = mapped_areas s \<and>
    tables s2 = tables s \<and> page_pool (pgs s2) = page_pool (pgs s) \<and>
    (\<forall>m. mm_live s m \<longrightarrow> pgtables_bytes (mms s2 m) = pgtables_bytes (mms s m) \<and> (\<forall>k. page_entry s2 m k = page_entry s m k))"
proof -
  let ?A = "mapped_areas s"
  note ok = assms(1) [unfolded inv_ok] and D = vm_okD [OF assms(1) [unfolded inv_ok]]
  have n: "v \<notin> ?A" using mapped_iff [OF assms(2)] assms(3) by simp
  have st: "vm_step v s (uses_of s ?A) (maps_of s ?A) s1 (uses_of s (insert v ?A)) (maps_of s (insert v ?A))"
    using map_step [OF ok assms(2) n refl, of cpu] assms(4,5) by (auto split: if_splits)
  note S = vm_stepD [OF st]
  have ok1: "vm_ok s1 (insert v ?A)" by (rule vm_ok_kept [OF ok S(2,3,1)]) (use D(1) assms(2) in auto)
  have A: "insert v ?A - {v} = ?A" using n by blast
  obtain s2 where s2: "vumap_page_range cpu' (Some v) s1 = Some s2"
    "vm_step v s1 (uses_of s (insert v ?A)) (maps_of s (insert v ?A)) s2 (uses_of s ?A) (maps_of s ?A)"
    using unmap_step [OF ok1, of v cpu'] unfolding uses_kept(1,2) [OF S(2)] A by blast
  have all: "vm_step v s (uses_of s ?A) (maps_of s ?A) s2 (uses_of s ?A) (maps_of s ?A)"
    by (rule vm_step_trans [OF st s2(2) D(2) assms(2)]) (simp_all add: uses_of_def maps_of_def n)
  note T = vm_stepD [OF all] and U = same_tables [OF D(2) all]
  have ok2: "vm_ok s2 ?A" by (rule vm_ok_kept [OF ok T(2,3,1)]) (rule D(1))
  have b: "pgtables_bytes (mms s2 m) = pgtables_bytes (mms s m)" if m: "mm_live s m" for m
  proof -
    have "tab_keys s2 m = tab_keys s m" using U(3) [OF m] by (auto simp: tab_keys_def lvl_def)
    then show ?thesis using pt_okD(7) [OF D(2)] pt_okD(7) [OF T(1)] m vm_keptD(10) [OF T(2)] by (simp add: pt_bytes_def)
  qed
  have e: "page_entry s2 m k = page_entry s m k" if "mm_live s m" for m k
    unfolding page_entry_def by (rule T(7) [OF that]) simp
  show ?thesis using s2(1) vm_ok_inv [OF ok2] mapped_of_ok [OF ok2] U(1,2) b e by auto
qed

theorem vmap_vumap_roundtrip_witness:
  "\<exists>s2. vumap_page_range 3 (Some 1) vm_mapped = Some s2 \<and> vm_inv s2 \<and> mapped_areas s2 = {} \<and> page_pool (pgs s2) = page_pool (pgs vm_area)"
proof -
  have h: "vm_inv vm_area" "vma_live vm_area 1" "pud_root (vmas vm_area 1) = RB_NULL" "mapped_areas vm_area = {}"
    using vm_ok_inv [OF vm_area_ok(1)] vm_area_live(1) mapped_of_ok [OF vm_area_ok(1)] by (auto simp: mapped_areas_def)
  show ?thesis using vmap_vumap_roundtrip [OF h(1-3) vm_mapped_run, of 3] h(4) by auto
qed

text \<open>
  C15: changing the protection. For a page-aligned range within a mapped area \<^verbatim>\<open>mmap_mprotect_fixup\<close> returns 0 in a
  state that satisfies the invariant; each page of the range keeps its frame and gets the protection the flags ask for,
  and nothing else changes: no other entry of any address space, no page table.
\<close>

theorem mmap_mprotect_fixup_correct:
  assumes "vm_inv s" "v \<in> mapped_areas s" "first_page (vmas s v) \<le> a" "a < b" "b \<le> past_page (vmas s v)"
  shows "\<exists>s'. mmap_mprotect_fixup (Some v) (adr a) (adr b) flags s = Some (s', 0) \<and> vm_inv s' \<and> mapped_areas s' = mapped_areas s \<and>
    tables s' = tables s \<and>
    (\<forall>k. a \<le> k \<and> k < b \<longrightarrow> (\<exists>p. vma_page (vmas s v) k = Some p \<and>
       page_entry s' (vm_mm (vmas s v)) k = mk_pte p (vm_get_page_prot (flags OR VM_SHARED)))) \<and>
    (\<forall>m k. mm_live s m \<longrightarrow> \<not> (m = vm_mm (vmas s v) \<and> a \<le> k \<and> k < b) \<longrightarrow> page_entry s' m k = page_entry s m k)"
  using protect_area [OF assms(1) [unfolded inv_ok] assms(2) refl assms(3-5), of flags] vm_ok_inv mapped_of_ok by blast

theorem mmap_mprotect_fixup_correct_witness:
  "\<exists>s'. mmap_mprotect_fixup (Some 1) (adr 0x400) (adr 0x401) 1 vm_mapped = Some (s', 0) \<and> vm_inv s' \<and>
     page_entry s' 0 0x400 = mk_pte 2 (vm_get_page_prot 9)"
proof -
  have q: "vma_page (vmas vm_mapped 1) 0x400 = Some 2"
    using vm_area_live(4) vm_area_values(1) vm_keptD [OF vm_mapped_ok(2)] by (simp add: vma_page_def)
  have f: "1 OR VM_SHARED = (9 :: u64)" by simp
  have h: "1 \<in> mapped_areas vm_mapped" "first_page (vmas vm_mapped 1) \<le> 0x400" "0x400 < (0x401 :: nat)" "0x401 \<le> past_page (vmas vm_mapped 1)"
    using vm_mapped_values by simp_all
  obtain s' where s': "mmap_mprotect_fixup (Some 1) (adr 0x400) (adr 0x401) 1 vm_mapped = Some (s', 0)" "vm_inv s'"
    "\<forall>k. 0x400 \<le> k \<and> k < 0x401 \<longrightarrow> (\<exists>p. vma_page (vmas vm_mapped 1) k = Some p \<and>
       page_entry s' (vm_mm (vmas vm_mapped 1)) k = mk_pte p (vm_get_page_prot (1 OR VM_SHARED)))"
    using mmap_mprotect_fixup_correct [OF vm_mapped_values(1) h, of 1] by blast
  have "page_entry s' 0 0x400 = mk_pte 2 (vm_get_page_prot 9)"
    using s'(3) [rule_format, of "0x400"] q vm_mapped_values(4) unfolding f by simp
  then show ?thesis using s'(1,2) by blast
qed

section \<open>Creating and freeing areas\<close>

text \<open>
  C13: creating an area. For a live address space and a range that ends within user space and has fewer than \<open>2 ^ 32\<close>
  pages (for a shared area: with the physical range below \<open>2 ^ 48\<close>), \<^verbatim>\<open>mmap_get_vmap_area\<close> returns in a state that satisfies the invariant, with the same areas mapped and every page table entry as before. Either it
  returns NULL and the areas are those from before, or a new area with the bounds, flags and protection asked for that
  overlaps no other area of the address space and, unless its flags have \<^verbatim>\<open>VM_PRIVATE_SHARE\<close>, is backed by cleared
  frames that were free before.
\<close>

theorem mmap_get_vmap_area_correct:
  assumes "vm_inv s" "mm_live s m" "range_ok vstart sz flags phys"
  shows "\<exists>s' r. mmap_get_vmap_area cpu vstart sz flags (Some m) phys s = Some (s', r) \<and> vm_inv s' \<and> mapped_areas s' = mapped_areas s \<and>
    (\<forall>m' k. mm_live s m' \<longrightarrow> page_entry s' m' k = page_entry s m' k) \<and>
    (case r of
       None \<Rightarrow> vma_live s' = vma_live s \<and> (\<forall>w. vma_live s w \<longrightarrow> vmas s' w = vmas s w)
     | Some v \<Rightarrow> got_area m vstart sz flags s s' v)"
proof -
  note ok = assms(1) [unfolded inv_ok]
  obtain s' r where r: "mmap_get_vmap_area cpu vstart sz flags (Some m) phys s = Some (s', r)"
    "case r of None \<Rightarrow> takes s s' | Some v \<Rightarrow> area_change s (mapped_areas s) s' {} (kmallocs s) \<and> got_area m vstart sz flags s s' v"
    using get_area [OF ok assms(2,3), of cpu] unfolding get_post_def by blast
  have ch: "area_change s (mapped_areas s) s' {} (kmallocs s)" using r(2) takes_change [OF ok] by (auto split: option.splits)
  have live: "mm_live s' = mm_live s" using r(2) by (auto simp: takes_def got_area_def Let_def split: option.splits)
  note C = area_change_ok [OF ok ch]
  have "page_entry s' m' k = page_entry s m' k" if "mm_live s m'" for m' k
    using C(2) [of m' k] that live vm_ok_base(6) [OF ok] by metis
  moreover have "case r of None \<Rightarrow> vma_live s' = vma_live s \<and> (\<forall>w. vma_live s w \<longrightarrow> vmas s' w = vmas s w) | Some v \<Rightarrow> got_area m vstart sz flags s s' v"
    using r(2) by (auto simp: takes_def split: option.splits)
  ultimately show ?thesis using r(1) vm_ok_inv [OF C(1)] mapped_of_ok [OF C(1)] by blast
qed

theorem mmap_get_vmap_area_correct_witness:
  "vm_inv vm_area \<and> mmap_get_vmap_area 0 0x400000 0x1000 3 (Some 0) 0 vm_empty = Some (vm_area, Some 1) \<and> got_area 0 0x400000 0x1000 3 vm_empty vm_area 1"
  using mmap_get_vmap_area_correct [OF vm_ok_inv [OF vm_empty_ok(1)] vm_empty_ok(2) vm_empty_range, of 0] vm_area_run by auto

text \<open>
  C14: freeing an area. When the address lies in an area of the address space, \<^verbatim>\<open>mmap_free_vmap_area\<close> hits a
  \<^verbatim>\<open>BUG_ON\<close> if the area is still mapped; otherwise it returns in a state that satisfies the invariant, exactly this
  area is gone, its own frames and no others have become free, and every page table entry is as before.
\<close>

theorem mmap_free_vmap_area_correct:
  assumes "vm_inv s" "mm_live s m" "vma_live s v" "vm_mm (vmas s v) = m" "vm_start (vmas s v) \<le> x" "x < vm_end (vmas s v)"
  shows "if pud_root (vmas s v) \<noteq> RB_NULL then mmap_free_vmap_area cpu x (Some m) s = None
    else \<exists>s'. mmap_free_vmap_area cpu x (Some m) s = Some s' \<and> vm_inv s' \<and> mapped_areas s' = mapped_areas s \<and>
      vma_live s' = (vma_live s)(v := False) \<and> vmas s' = vmas s \<and> page_pool (pgs s') = page_pool (pgs s) \<union> {p. \<exists>i. backs s v i p} \<and>
      (\<forall>m' k. mm_live s m' \<longrightarrow> page_entry s' m' k = page_entry s m' k)"
proof -
  note ok = assms(1) [unfolded inv_ok]
  have "mmap_find_vma_area x (Some m) s = Some v" using find_area [OF ok assms(2)] assms(3-6) by blast
  note F = free_area [OF ok assms(2) this, of cpu]
  show ?thesis
  proof (cases "pud_root (vmas s v) \<noteq> RB_NULL")
    case True
    then show ?thesis using F mapped_iff [OF assms(3)] by simp
  next
    case False
    then obtain s' where s': "mmap_free_vmap_area cpu x (Some m) s = Some s'"
      "area_change s (mapped_areas s) s' {p. \<exists>i. backs s v i p} (kmallocs s)" "vma_live s' = (vma_live s)(v := False)" "mm_live s' = mm_live s"
      "vmas s' = vmas s" "page_pool (pgs s') = page_pool (pgs s) \<union> {p. \<exists>i. backs s v i p}" using F mapped_iff [OF assms(3)] by auto
    note C = area_change_ok [OF ok s'(2)]
    have "page_entry s' m' k = page_entry s m' k" if "mm_live s m'" for m' k
      using C(2) [of m' k] that s'(4) vm_ok_base(6) [OF ok] by metis
    then show ?thesis using False s' vm_ok_inv [OF C(1)] mapped_of_ok [OF C(1)] by auto
  qed
qed

theorem mmap_free_vmap_area_correct_witness:
  "mmap_free_vmap_area 0 0x400010 (Some 0) vm_mapped = None \<and>
   (\<exists>s'. mmap_free_vmap_area 0 0x400010 (Some 0) vm_area = Some s' \<and> vm_inv s' \<and> 2 \<in> page_pool (pgs s'))"
proof
  note k = vm_keptD [OF vm_mapped_ok(2)]
  have "pud_root (vmas vm_mapped 1) \<noteq> RB_NULL" "vma_live vm_mapped 1" using vm_mapped_values(2) by (auto simp: mapped_areas_def)
  then show "mmap_free_vmap_area 0 0x400010 (Some 0) vm_mapped = None"
    using mmap_free_vmap_area_correct [OF vm_mapped_values(1,3) _ vm_mapped_values(4), of "0x400010" 0] vm_area_live(4,5) by (simp add: k)
  have h: "vm_inv vm_area" "vma_live vm_area 1" "pud_root (vmas vm_area 1) = RB_NULL"
    using vm_ok_inv [OF vm_area_ok(1)] vm_area_live(1) mapped_of_ok [OF vm_area_ok(1)] by (auto simp: mapped_areas_def)
  have fl: "vm_flags (vmas vm_area 1) = 3" using vm_area_ok(2) by (simp add: got_area_def Let_def)
  have "backs vm_area 1 0 2" using h(2) fl vm_area_values(1) by (simp add: backs_def is_private_def)
  then show "\<exists>s'. mmap_free_vmap_area 0 0x400010 (Some 0) vm_area = Some s' \<and> vm_inv s' \<and> 2 \<in> page_pool (pgs s')"
    using mmap_free_vmap_area_correct [OF h(1) vm_area_live(2) h(2) vm_area_live(3), of "0x400010" 0] h(3) vm_area_live(4,5) by auto
qed

lemma clash_post:
  assumes "vm_ok s A" "takes s s2" "pgs s2 = pgs s" "mm_live s m" "kmallocs s \<le> v" "v < kmallocs s2"
    and r: "PAGE_ALIGNED vstart" "PAGE_ALIGNED sz" "sz \<noteq> 0" "range_ok vstart sz flags phys"
    and n: "n = unat (nr_pages (new_vma vstart sz flags m))" "alloc_vma_pages cpu n (pgs s) = Some (p1, ps)" "length ps = n"
    and w: "vma_live s w" "vm_mm (vmas s w) = m" "vm_start (vmas s w) < vstart + sz" "vstart < vm_end (vmas s w)"
  shows "\<exists>s'. link_vma v ((new_vma vstart sz flags m)\<lparr>vma_pages := map Some ps\<rparr>) (set_pgs p1 s2) = Some (s', None) \<and> takes s s' \<and> pgs s' = p1"
proof -
  note V = vma_pages_taken [OF assms(1,2) n(2) [folded assms(3)] assms(3)]
  have len: "length (map Some ps) = unat (nr_pages (new_vma vstart sz flags m))" using n(1,3) by simp
  have small: "\<forall>p. Some p \<in> set (map Some ps) \<longrightarrow> p < 2 ^ 36" using V(3) vm_ok_base(2) [OF assms(1)] by auto
  have v': "v < kmallocs (set_pgs p1 s2)" using assms(6) by (simp add: set_pgs_def)
  have pr: "flags AND VM_PRIVATE_SHARE = 0 \<longrightarrow> (\<exists>qs. map Some ps = map Some qs \<and> distinct qs \<and> set qs \<subseteq> page_pool (pgs s) \<and>
     (\<forall>p\<in>set qs. held (pgs (set_pgs p1 s2)) p 1 \<and> mem (pgs (set_pgs p1 s2)) p = (\<lambda>_. 0)))"
    using V(2-4) by (intro impI exI [of _ ps]) (simp add: set_pgs_def)
  obtain s' r where s': "link_vma v ((new_vma vstart sz flags m)\<lparr>vma_pages := map Some ps\<rparr>) (set_pgs p1 s2) = Some (s', r)"
    "case r of None \<Rightarrow> takes s s' \<and> pgs s' = pgs (set_pgs p1 s2) \<and>
         (\<exists>w. vma_live s w \<and> vm_mm (vmas s w) = m \<and> overlap ((new_vma vstart sz flags m)\<lparr>vma_pages := map Some ps\<rparr>) (vmas s w))
     | Some v \<Rightarrow> area_change s A s' {} (kmallocs s) \<and> got_area m vstart sz flags s s' v"
    using link_new_vma [OF assms(1) V(1) assms(4,5) v' r new_vma_phys0 len small pr] by blast
  have "\<not> got_area m vstart sz flags s s' u" for u
    using w by (auto simp: got_area_def Let_def overlap_def)
  then have "r = None" using s'(2) by (auto split: option.splits)
  then show ?thesis using s' by (simp add: set_pgs_def)
qed

text \<open>
  C40: an overlap leaks memory. When the range asked for overlaps an area of the address space, the area is private and
  its frames could be allocated, \<^verbatim>\<open>mmap_get_vmap_area\<close> returns NULL but frees only the descriptor of the area:
  as many frames as the range has pages leave the pool for good. They stay in use with one reference, and they are neither
  page tables nor frames of any area.
\<close>

theorem mmap_get_vmap_area_leak:
  assumes "vm_inv s" "mm_live s m" "range_ok vstart sz flags phys" "PAGE_ALIGNED vstart" "PAGE_ALIGNED sz" "sz \<noteq> 0" "vstart \<noteq> 0"
    "flags AND VM_PRIVATE_SHARE = 0" "kmalloc_ok s (kmallocs s)" "kmalloc_ok s (Suc (kmallocs s))"
    "alloc_vma_pages cpu (unat sz div 4096) (pgs s) = Some (p1, ps)" "length ps = unat sz div 4096"
    "vma_live s w" "vm_mm (vmas s w) = m" "vm_start (vmas s w) < vstart + sz" "vstart < vm_end (vmas s w)"
  shows "\<exists>s'. mmap_get_vmap_area cpu vstart sz flags (Some m) phys s = Some (s', None) \<and>
    card (set ps) = unat sz div 4096 \<and> set ps \<subseteq> page_pool (pgs s) \<and> page_pool (pgs s') = page_pool (pgs s) - set ps \<and>
    (\<forall>p\<in>set ps. held (pgs s') p 1 \<and> p \<notin> tables s' \<and> (\<forall>v i. \<not> backs s' v i p))"
proof -
  note ok = assms(1) [unfolded inv_ok]
  let ?s2 = "s\<lparr>kmallocs := Suc (Suc (kmallocs s))\<rparr>" and ?v = "kmallocs s" and ?a = "new_vma vstart sz flags m"
  have n: "unat (nr_pages ?a) = unat sz div 4096" by (rule new_vma_wf(1) [OF assms(4-6,3) refl])
  have t: "takes s ?s2" using takes_refl [OF ok] by (simp add: takes_def)
  note V = vma_pages_taken [OF ok t, of cpu "unat sz div 4096" p1 ps]
  obtain s' where s': "link_vma ?v (?a\<lparr>vma_pages := map Some ps\<rparr>) (set_pgs p1 ?s2) = Some (s', None)" "takes s s'" "pgs s' = p1"
    using clash_post [OF ok t _ assms(2) _ _ assms(4-6,3) n [symmetric] assms(11,12,13-16), of ?v] by auto
  have run: "mmap_get_vmap_area cpu vstart sz flags (Some m) phys s = Some (s', None)"
    using assms(4-12) s'(1) n by (simp add: mmap_get_vmap_area_def kmalloc_def Let_def)
  note B = vm_ok_base [OF ok]
  have tk: "takes s (set_pgs p1 ?s2)" "distinct ps" "set ps \<subseteq> page_pool (pgs s)" "\<forall>p\<in>set ps. held p1 p 1 \<and> mem p1 p = (\<lambda>_. 0)"
    "page_pool p1 = page_pool (pgs s) - set ps" using V(1-4,6) assms(11) by simp_all
  note ch = takes_change [OF ok s'(2)]
  have tb: "tables s' = tables s"
    by (rule change_tables_same [OF area_change_vm [OF ok ch]]) (use s'(2) B(6) in \<open>auto simp: takes_def\<close>)
  have bk: "\<not> backs s' v i p" if p: "p \<in> set ps" for v i p
  proof
    assume b: "backs s' v i p"
    then have "vma_live s v" using s'(2) by (simp add: backs_def takes_def)
    then have "backs s v i p" using change_backs(3) [OF ok ch b] by blast
    then have "held (pgs s) p 1" using vm_okD(6) [OF ok] unfolding frames_ok_def by blast
    then show False using held_not_pool [OF B(1)] p tk(3) by blast
  qed
  have "p \<notin> tables s" if "p \<in> set ps" for p using not_pool_table [OF vm_okD(2) [OF ok], of p] that tk(3) by blast
  then show ?thesis using run tk(2-5) s'(3) tb bk assms(12) by (intro exI [of _ s']) (simp add: distinct_card)
qed

theorem mmap_get_vmap_area_leak_witness:
  "\<exists>s'. mmap_get_vmap_area 0 0x400000 0x1000 3 (Some 0) 0 vm_area = Some (s', None) \<and> 3 \<in> page_pool (pgs vm_area) \<and> 3 \<notin> page_pool (pgs s')"
proof -
  note ok = vm_area_ok(1) and B = vm_ok_base [OF vm_area_ok(1)]
  have g: "gfp_zone (GFP_USER OR GFP_ZERO) = ZONE_NORMAL" by (simp add: gfp_zone_def)
  obtain p1 where p1: "alloc_pages 0 (GFP_USER OR GFP_ZERO) 0 (pgs vm_area) = Some (p1, Some 3)"
    using pcp_alloc [OF B(1), of "GFP_USER OR GFP_ZERO" 0 3 "[4, 5, 6, 7]"] vm_area_values(3) unfolding g by auto
  have al: "alloc_vma_pages 0 (unat (0x1000 :: u64) div 4096) (pgs vm_area) = Some (p1, [3])" using p1 by simp
  have k: "kmalloc_ok vm_area k" for k using vm_area_kmalloc by blast
  have al0: "PAGE_ALIGNED 0x400000" "PAGE_ALIGNED 0x1000" by (simp_all add: PAGE_ALIGNED_def)
  have live: "vma_live vm_area 1" using vm_area_live(1) by simp
  show ?thesis
    using mmap_get_vmap_area_leak [OF vm_ok_inv [OF ok] vm_area_live(2) vm_empty_range al0 _ _ _ k k al _ live vm_area_live(3)] vm_area_live(4,5)
    by auto
qed

section \<open>Sequences of calls\<close>

text \<open>The calls on address spaces, with their arguments, and what a caller has to respect.\<close>

datatype vm_call =
    Alloc_mm
  | Free_mm nat
  | Get_area nat u64 u64 u64 u64
  | Free_area nat u64
  | Map_area nat
  | Unmap_area nat
  | Protect_area nat u64 u64 u64

fun vm_exec :: "nat \<Rightarrow> vm_call \<Rightarrow> vm \<Rightarrow> vm option" where
  "vm_exec cpu Alloc_mm s = map_option fst (mmap_alloc_mm_struct cpu s)"
| "vm_exec cpu (Free_mm m) s = mmap_free_mm_struct cpu (Some m) s"
| "vm_exec cpu (Get_area m vstart sz flags phys) s = map_option fst (mmap_get_vmap_area cpu vstart sz flags (Some m) phys s)"
| "vm_exec cpu (Free_area m x) s = mmap_free_vmap_area cpu x (Some m) s"
| "vm_exec cpu (Map_area v) s = map_option fst (vmap_page_range cpu (Some v) s)"
| "vm_exec cpu (Unmap_area v) s = vumap_page_range cpu (Some v) s"
| "vm_exec cpu (Protect_area v start stop flags) s = map_option fst (mmap_mprotect_fixup (Some v) start stop flags s)"

fun vm_allowed :: "vm_call \<Rightarrow> vm \<Rightarrow> bool" where
  "vm_allowed Alloc_mm s \<longleftrightarrow> True"
| "vm_allowed (Free_mm m) s \<longleftrightarrow> mm_live s m \<and> vma_rb_root (mms s m) = RB_NULL"
| "vm_allowed (Get_area m vstart sz flags phys) s \<longleftrightarrow> mm_live s m \<and> range_ok vstart sz flags phys"
| "vm_allowed (Free_area m x) s \<longleftrightarrow> mm_live s m \<and>
     (case mmap_find_vma_area x (Some m) s of None \<Rightarrow> True | Some v \<Rightarrow> pud_root (vmas s v) = RB_NULL)"
| "vm_allowed (Map_area v) s \<longleftrightarrow> vma_live s v \<and> pud_root (vmas s v) = RB_NULL"
| "vm_allowed (Unmap_area v) s \<longleftrightarrow> vma_live s v \<and> pud_root (vmas s v) \<noteq> RB_NULL"
| "vm_allowed (Protect_area v start stop flags) s \<longleftrightarrow> vma_live s v \<and> pud_root (vmas s v) \<noteq> RB_NULL"

inductive vm_reach :: "pg_data \<Rightarrow> (nat \<Rightarrow> bool) \<Rightarrow> vm \<Rightarrow> bool" for p ok where
  Boot: "vm_reach p ok (vm_boot p ok)"
| Call: "vm_reach p ok s \<Longrightarrow> vm_allowed c s \<Longrightarrow> vm_exec cpu c s = Some s' \<Longrightarrow> vm_reach p ok s'"

lemma protect_any:
  assumes ok: "vm_ok s A" and v: "v \<in> A"
  shows "\<exists>s' r. mmap_mprotect_fixup (Some v) start stop flags s = Some (s', r) \<and> vm_ok s' A"
proof (cases "start < vm_start (vmas s v) \<or> stop > vm_end (vmas s v) \<or> start \<ge> stop \<or> \<not> PAGE_ALIGNED start \<or> \<not> PAGE_ALIGNED stop")
  case True
  then show ?thesis using ok unfolding mmap_mprotect_fixup_def by (intro exI [of _ s]) auto
next
  case False
  let ?a = "unat start div 4096" and ?b = "unat stop div 4096"
  have e: "start = adr ?a" "unat start = ?a * 4096" "stop = adr ?b" "unat stop = ?b * 4096"
    using aligned_is_adr [of start] aligned_is_adr [of stop] False by blast+
  have "first_page (vmas s v) \<le> ?a" "?b \<le> past_page (vmas s v)"
    using False by (auto simp: first_page_def past_page_def word_le_nat_alt not_less intro: div_le_mono)
  moreover have "unat start < unat stop" using False by (simp add: word_le_nat_alt not_le)
  then have "?a < ?b" using e(2,4) by linarith
  ultimately show ?thesis using protect_area [OF ok v refl, of ?a ?b flags] e(1,3) by auto
qed

lemma vm_exec_ok:
  assumes inv: "vm_inv s" and c: "vm_allowed c s"
  shows "\<exists>s'. vm_exec cpu c s = Some s' \<and> vm_inv s'"
proof -
  note ok = inv [unfolded inv_ok]
  have ch: "vm_inv s'" if "area_change s (mapped_areas s) s' F m0" for s' F m0 using vm_ok_inv [OF area_change_ok(1) [OF ok that]] .
  have tk: "vm_inv s'" if "takes s s'" for s' using ch [OF takes_change [OF ok that]] .
  show ?thesis
  proof (cases c)
    case Alloc_mm
    then show ?thesis using alloc_mm [OF ok, of cpu] ch tk by (fastforce split: option.splits)
  next
    case (Free_mm m)
    then have m: "mm_live s m" and none: "\<not> (\<exists>v. vma_live s v \<and> vm_mm (vmas s v) = m)"
      using c vm_ok_base(7) [OF ok, of m] by (auto simp: area_tree_def)
    show ?thesis using free_mm [OF ok m, of cpu] ch Free_mm unfolding if_not_P [OF none] by auto
  next
    case (Get_area m vstart sz flags phys)
    then show ?thesis using get_area [OF ok, of m vstart sz flags phys cpu] c ch tk by (fastforce simp: get_post_def split: option.splits)
  next
    case (Free_area m x)
    then have m: "mm_live s m" using c by simp
    show ?thesis
    proof (cases "mmap_find_vma_area x (Some m) s")
      case None
      then have "find_vma_node x m s = None" using find_node [OF ok m, of x] by (auto simp: mmap_find_vma_area_def split: option.splits)
      then show ?thesis using Free_area inv by (simp add: mmap_free_vmap_area_def)
    next
      case (Some v)
      then have "v \<notin> mapped_areas s" using c Free_area by (auto simp: mapped_areas_def)
      then show ?thesis using free_area [OF ok m Some, of cpu] Free_area ch by auto
    qed
  next
    case (Map_area v)
    then have v: "vma_live s v" "v \<notin> mapped_areas s" using c by (auto simp: mapped_areas_def)
    show ?thesis using map_area [OF ok v refl, of cpu] Map_area vm_ok_inv by (auto split: if_splits)
  next
    case (Unmap_area v)
    then have v: "v \<in> mapped_areas s" using c by (simp add: mapped_areas_def)
    show ?thesis using unmap_area [OF ok v refl, of cpu] Unmap_area vm_ok_inv by auto
  next
    case (Protect_area v start stop flags)
    then have v: "v \<in> mapped_areas s" using c by (simp add: mapped_areas_def)
    show ?thesis using protect_any [OF ok v, of start stop flags] Protect_area vm_ok_inv by auto
  qed
qed

lemma vm_reach_inv: "vm_reach p ok s \<Longrightarrow> pg_inv p \<Longrightarrow> page_pool p \<subseteq> {..<2 ^ 36} \<Longrightarrow> vm_inv s"
proof (induction rule: vm_reach.induct)
  case Boot
  then show ?case using vm_ok_inv [OF vm_boot_ok] by blast
next
  case (Call s c cpu s')
  then show ?case using vm_exec_ok [of s c cpu] by simp
qed

lemma vm_mapped_reach: "vm_reach vm_pool (\<lambda>_. True) vm_mapped"
proof -
  have e: "vm_allowed (Get_area 0 0x400000 0x1000 3 0) vm_empty" using vm_empty_ok(2) vm_empty_range by simp
  have a: "vm_allowed (Map_area 1) vm_area" using vm_area_live(1) mapped_of_ok [OF vm_area_ok(1)] by (auto simp: mapped_areas_def)
  have "vm_reach vm_pool (\<lambda>_. True) vm_empty" by (rule Call [OF Boot, where c = Alloc_mm and cpu = 0]) (simp_all add: vm_empty_run)
  then have "vm_reach vm_pool (\<lambda>_. True) vm_area" by (rule Call [OF _ e, where cpu = 0]) (simp add: vm_area_run)
  then show ?thesis by (rule Call [OF _ a, where cpu = 0]) (simp add: vm_mapped_run del: One_nat_def)
qed

text \<open>
  C8: well-formed states stay well-formed and do not get stuck. From a page allocator that satisfies its invariant and
  no address space, whichever \<^verbatim>\<open>kmalloc\<close> calls fail, every state that calls on address spaces reach satisfies the
  invariant; and in each of them every call whose arguments are live objects, which frees only what is unmapped and
  empty and asks for ranges within user space, returns on every cpu without hitting a \<^verbatim>\<open>BUG_ON\<close>.
\<close>

theorem vm_calls_safe:
  assumes "vm_reach p ok s" "pg_inv p" "page_pool p \<subseteq> {..<2 ^ 36}"
  shows "vm_inv s \<and> (\<forall>cpu c. vm_allowed c s \<longrightarrow> vm_exec cpu c s \<noteq> None)"
  using vm_reach_inv [OF assms] vm_exec_ok by fastforce

theorem vm_calls_safe_witness:
  "vm_inv vm_mapped \<and> (\<exists>s. vm_exec 2 (Unmap_area 1) vm_mapped = Some s)"
proof -
  have "vm_allowed (Unmap_area 1) vm_mapped" using vm_mapped_values(2) by (auto simp: mapped_areas_def)
  then show ?thesis using vm_calls_safe [OF vm_mapped_reach vm_pool_ok] by blast
qed

section \<open>Isolation\<close>

lemma mapped_entry:
  assumes ok: "vm_ok s A" and v: "v \<in> A" "k \<in> area_pages (vmas s v)"
  shows "\<exists>p. vma_page (vmas s v) k = Some p \<and> entry_page (page_entry s (vm_mm (vmas s v)) k) = p \<and>
    (is_private (vmas s v) \<longrightarrow> backs s v (k - first_page (vmas s v)) p)"
proof -
  note D = vm_okD [OF ok]
  have l: "vma_live s v" using D(1) v(1) .
  have "k \<in> maps_of s A v" using v by (simp add: maps_of_def)
  then obtain p prot where p: "vma_page (vmas s v) k = Some p" "prot_ok prot" "entm s (vm_mm (vmas s v)) 3 k = mk_pte p prot"
    using pt_leafD(1) [OF pt_okD(4) [OF D(2)] l] by blast
  have "p < 2 ^ 36" using small_page [OF D(4) [OF l] p(1)] .
  moreover have "backs s v (k - first_page (vmas s v)) p" if "is_private (vmas s v)"
    using that l p(1) by (auto simp: backs_def vma_page_def first_page_def Let_def split: if_splits)
  ultimately show ?thesis using p mk_pte_page by (auto simp: page_entry_def)
qed

text \<open>
  C12: isolation. In every state that calls on address spaces reach from a page allocator that satisfies its invariant, a
  page table entry of an address space that is not empty belongs to a page of a
  mapped area of that address space and names the frame the area has for that page. If the area is private, the frame
  is neither free nor a page table, and no other page of a private area, in this or another address space, is mapped to it.
\<close>

theorem private_frames_isolated:
  assumes "vm_reach pool ok s" "pg_inv pool" "page_pool pool \<subseteq> {..<2 ^ 36}" "mm_live s m" "page_entry s m k \<noteq> 0"
  shows "\<exists>v p. v \<in> mapped_areas s \<and> vm_mm (vmas s v) = m \<and> k \<in> area_pages (vmas s v) \<and>
    vma_page (vmas s v) k = Some p \<and> entry_page (page_entry s m k) = p \<and>
    (is_private (vmas s v) \<longrightarrow> p \<notin> page_pool (pgs s) \<and> p \<notin> tables s \<and>
      (\<forall>w k'. w \<in> mapped_areas s \<longrightarrow> is_private (vmas s w) \<longrightarrow> k' \<in> area_pages (vmas s w) \<longrightarrow>
         entry_page (page_entry s (vm_mm (vmas s w)) k') = p \<longrightarrow> vm_mm (vmas s w) = m \<and> k' = k))"
proof -
  note ok = vm_reach_inv [OF assms(1-3), unfolded inv_ok]
  note D = vm_okD [OF ok]
  obtain v where v: "v \<in> mapped_areas s" "vm_mm (vmas s v) = m" "k \<in> area_pages (vmas s v)"
    using unmapped_zero [OF D(2) assms(4), of k] assms(5) unfolding page_entry_def maps_of_def by (metis empty_iff)
  obtain p where p: "vma_page (vmas s v) k = Some p" "entry_page (page_entry s m k) = p"
    "is_private (vmas s v) \<longrightarrow> backs s v (k - first_page (vmas s v)) p" using mapped_entry [OF ok v(1,3)] v(2) by blast
  have F: "held (pgs s) p 1 \<and> p \<notin> tables s" if "is_private (vmas s v)" using p(3) that D(6) unfolding frames_ok_def by blast
  have one: "vm_mm (vmas s w) = m \<and> k' = k" if pr: "is_private (vmas s v)" and w: "w \<in> mapped_areas s" "is_private (vmas s w)"
    "k' \<in> area_pages (vmas s w)" "entry_page (page_entry s (vm_mm (vmas s w)) k') = p" for w k'
  proof -
    have "backs s w (k' - first_page (vmas s w)) p" using mapped_entry [OF ok w(1,3)] w(2,4) by blast
    then have "v = w \<and> k - first_page (vmas s v) = k' - first_page (vmas s w)" using p(3) pr D(6) unfolding frames_ok_def by blast
    then show ?thesis using v(2,3) w(3) by (auto simp: area_pages_def)
  qed
  have "p \<notin> page_pool (pgs s) \<and> p \<notin> tables s" if "is_private (vmas s v)"
    using F [OF that] held_not_pool [OF vm_ok_base(1) [OF ok]] by blast
  then show ?thesis using v p(1,2) one by blast
qed

theorem private_frames_isolated_witness:
  "vm_reach vm_pool (\<lambda>_. True) vm_mapped \<and> page_entry vm_mapped 0 0x400 \<noteq> 0 \<and> entry_page (page_entry vm_mapped 0 0x400) = 2 \<and> 2 \<notin> page_pool (pgs vm_mapped) \<and> 2 \<notin> tables vm_mapped"
proof -
  note k = vm_keptD [OF vm_mapped_ok(2)]
  have q: "vma_page (vmas vm_mapped 1) 0x400 = Some 2" using vm_area_live(4) vm_area_values(1) by (simp add: vma_page_def k)
  have pr: "is_private (vmas vm_mapped 1)" using vm_area_ok(2) by (simp add: got_area_def Let_def is_private_def k)
  have "0x400 \<in> area_pages (vmas vm_mapped 1)" using vm_mapped_values(5,6) by (simp add: area_pages_def)
  then have "entry_page (page_entry vm_mapped 0 0x400) = 2"
    using mapped_entry [OF vm_mapped_ok(1), of 1 "0x400"] q vm_mapped_values(4) by auto
  moreover have "entry_page 0 = 0" by (simp add: entry_page_def)
  ultimately have e: "page_entry vm_mapped 0 0x400 \<noteq> 0" by auto
  show ?thesis using private_frames_isolated [OF vm_mapped_reach vm_pool_ok vm_mapped_values(3) e] e q pr vm_mapped_values(2) vm_mapped_reach by auto
qed

end
