(* ===== verification/Spec2Isabelle.thy ===== *)
theory Spec2Isabelle
  imports Pid Ipc_Runs Vm_Props
begin

text \<open>
  A verification development of Minix-rt, an arm64 microkernel with servers that talk by messages. It covers the
  memory management from boot to page tables, the process table, message passing and the trees they rest on.

  \<^bold>\<open>How the parts interact.\<close> At boot \<^verbatim>\<open>lib/memalloc\<close> keeps the memory and the reservations in two arrays; the
  page allocator (\<^verbatim>\<open>kernel/mm/page_alloc.c\<close>) takes over what is free; address spaces (\<^verbatim>\<open>kernel/mm/mmap.c\<close>) take
  the frames of their areas and of their page tables from it. Areas, tables of an area and pids are kept in
  red-black trees (\<^verbatim>\<open>lib/base/src/rbtree.c\<close>). Message passing (\<^verbatim>\<open>kernel/core/ipc.c\<close>) is independent of memory.

  \<^bold>\<open>Conventions.\<close> A C structure is a record, a machine integer a word of its width. Code that can fault is in the
  option type: \<open>None\<close> is a \<^verbatim>\<open>BUG_ON\<close>, a NULL dereference or an index out of range, so a theorem that a call returns
  says that none of these happens. Loops whose end is not evident are \<^verbatim>\<open>partial_function (option)\<close>, and their
  termination is part of the theorems; \<open>curr_vm_areas\<close> has a bound on its rounds, and no theorem is stated of it.
  Calls of the memory management and of the process table are taken one after the other, each on any cpu; calls that overlap in time
  are modelled for message passing alone, where a step is what runs between two points at which another task can intervene.

  \<^bold>\<open>Theories.\<close>
  \<^item> \<open>Prelude\<close>: shared types, \<open>bug_on\<close>, \<open>foreach\<close>, generic lemmas. \<open>Bitops\<close>: \<^verbatim>\<open>base/bitops.h\<close>, \<^verbatim>\<open>base/log2.h\<close>.
  \<^item> \<open>Rbtree\<close>: \<^verbatim>\<open>rbtree.c\<close> and \<^verbatim>\<open>rbree_augmented.h\<close> on a tree with a path to its root in place of parent pointers:
    insertion, removal and iteration keep the colours and the order, and every tree they build is shallow. The locales \<open>rb_index\<close> and \<open>rb_index_insert\<close>
    state what a tree searched by a probe offers; they are interpreted for pids, areas and tables.
  \<^item> \<open>Pid\<close>: \<^verbatim>\<open>kernel/core/pid.c\<close>, the table of processes and the cache of freed pids.
  \<^item> \<open>Memblock\<close>, \<open>Memblock_Alloc\<close>, \<open>Memblock_Iter\<close>: \<^verbatim>\<open>lib/memalloc/src/memblock.c\<close> and its header.
    \<open>Memblock_Ranges\<close>, \<open>Memblock_Isolate\<close>, \<open>Memblock_Props\<close>: they refine operations on a map from addresses to flags,
    sequences of calls keep the arrays well-formed, and allocated blocks are disjoint. \<^verbatim>\<open>memblock_trim_memory\<close> is the exception: it
    leaves \<^verbatim>\<open>total_size\<close> stale (\<open>memblock_trim_stale\<close>).
  \<^item> \<open>Page\<close>, \<open>Buddy\<close>, \<open>Buddy_Init\<close>: descriptors, buddy lists, per-cpu lists and boot of \<^verbatim>\<open>page_alloc.c\<close>.
    \<open>Buddy_Blocks\<close>, \<open>Buddy_Free\<close>, \<open>Buddy_Cpu\<close>, \<open>Buddy_Props\<close>, \<open>Buddy_Pool\<close>, \<open>Buddy_Start\<close>, \<open>Buddy_Boot\<close>,
    \<open>Page_Props\<close>: the invariant \<open>pg_inv\<close>, kept by every operation; blocks in use are disjoint and none is lost.
    \<open>Linear_Map\<close>: the interface by virtual addresses.
  \<^item> \<open>Frames\<close>, \<open>Vma\<close>, \<open>Pgtable\<close>: reference counts of single frames, areas and address spaces, and the walks that map,
    unmap and protect. One definition with the level as an argument stands for the three the code repeats.
  \<^item> \<open>Pgt_Walk\<close>, \<open>Pgt_Inv\<close>, \<open>Pgt_Steps\<close>, \<open>Pgt_Ops\<close>, \<open>Pgt_Alloc\<close>, \<open>Pgt_Unmap\<close>, \<open>Pgt_Map\<close>, \<open>Pgt_Prot\<close>: the invariant
    \<open>pt_ok\<close> (a table is counted once per area that uses it) and what each walk does to it.
  \<^item> \<open>Vm_Tree\<close>, \<open>Vm_Inv\<close>, \<open>Vm_Ops\<close>, \<open>Vm_Areas\<close>: the invariant \<open>vm_inv\<close> of all address spaces, with the trees of
    areas and the frames behind them. \<open>Vm_Sample\<close>: small concrete states. \<open>Vm_Props\<close>: the contract, the safety of
    sequences of calls (\<open>vm_reach\<close>) and the isolation of private frames in all states they reach.
  \<^item> \<open>Message\<close>, \<open>Ipc\<close>: \<^verbatim>\<open>ipc.c\<close> as a step relation on tasks and endpoints. \<open>Ipc_Safety\<close>, \<open>Ipc_Runs\<close>: no use after
    free, delivery once and in order, and each reply reaches the sender it answers. These hold of the runs in which no sender returns
    while the replier is storing its reply; \<open>ipc_raced\<close> marks the others, and \<open>Ipc_Runs\<close> has one that faults.
    \<open>Ipc_Wait\<close>: the wait queues (\<^verbatim>\<open>wait_event\<close>, \<^verbatim>\<open>kernel/core/sched/wait.c\<close> and \<^verbatim>\<open>__wake_up\<close>) below it: every run with wait queues is a run of
    \<open>Ipc\<close>, and no sleeper whose condition holds is forgotten.

  \<^bold>\<open>What callers have to respect.\<close> \<open>range_ok\<close> and \<open>vm_allowed\<close> in \<open>Vm_Areas\<close> and \<open>Vm_Props\<close>: \<^verbatim>\<open>mmap.c\<close> does not check
  that a range ends within user space or has fewer than \<open>2 ^ 32\<close> pages. Frame numbers are below \<open>2 ^ 36\<close>, the 48 bits of
  a physical address.

  \<^bold>\<open>Not modelled.\<close> The slab allocator: which \<^verbatim>\<open>kmalloc\<close> calls succeed is a parameter of the state. Copying and
  destroying whole address spaces and copying bytes between them. The scheduler, locks, time and interrupts: tasks
  run in any order, and a sleep with a timeout may end at any time. Architecture code and drivers, which are assembly and
  device registers; barriers and TLB maintenance. The device tree, strings, formatting, the servers and the user library.
\<close>

end
